(* ===== verification/Prelude.thy ===== *)
theory Prelude
  imports Main "HOL-Library.Word"
begin

text \<open>
  Shared vocabulary of the development: Rust's unsigned 64-bit counters as bounded natural
  numbers with the checked operations of the standard library, results as sums, slices, and
  the ordered map \<open>BTreeMap\<close> as a sorted association list behind the interface \<open>ordered_map\<close>.
  The interface \<open>safety_system\<close> carries the invariant argument that every state machine of the
  development uses.
\<close>

named_theorems rust_simps \<open>definitions of the modelled standard-library operations\<close>

section \<open>Unsigned 64-bit counters\<close>

text \<open>
  A \<open>u64\<close> is a natural number; \<open>u64::MAX\<close> is \<open>u64_max\<close>. Operations the source performs
  with \<open>checked_*\<close> or \<open>saturating_*\<close> are written out below. \<open>usize\<close> is 64 bits wide on the
  supported targets, so the same bound serves it.
\<close>

type_synonym u64 = nat

type_synonym byte = "8 word"

definition u64_max :: u64 where
  "u64_max = 2 ^ 64 - 1"

definition checked_add :: "u64 \<Rightarrow> u64 \<Rightarrow> u64 option" where
  [rust_simps]: "checked_add a b = (if a + b \<le> u64_max then Some (a + b) else None)"

definition checked_sub :: "u64 \<Rightarrow> u64 \<Rightarrow> u64 option" where
  [rust_simps]: "checked_sub a b = (if b \<le> a then Some (a - b) else None)"

definition saturating_add :: "u64 \<Rightarrow> u64 \<Rightarrow> u64" where
  [rust_simps]: "saturating_add a b = min (a + b) u64_max"

definition saturating_sub :: "u64 \<Rightarrow> u64 \<Rightarrow> u64" where
  [rust_simps]: "saturating_sub a b = a - b"

section \<open>Results\<close>

text \<open>\<open>Result\<close> with the error on the left, and the \<open>?\<close> operator as a bind.\<close>

definition and_then :: "'e + 'a \<Rightarrow> ('a \<Rightarrow> 'e + 'b) \<Rightarrow> 'e + 'b" where
  "and_then r f = (case r of Inl e \<Rightarrow> Inl e | Inr a \<Rightarrow> f a)"

lemma and_then_simps [simp]:
  "and_then (Inl e) f = Inl e"
  "and_then (Inr a) f = f a"
  by (simp_all add: and_then_def)

lemma and_then_eq_Inr:
  "and_then r f = Inr b \<longleftrightarrow> (\<exists>a. r = Inr a \<and> f a = Inr b)"
  by (cases r) auto

lemma and_then_eq_Inl:
  "and_then r f = Inl e \<longleftrightarrow> r = Inl e \<or> (\<exists>a. r = Inr a \<and> f a = Inl e)"
  by (cases r) auto

section \<open>Slices\<close>

text \<open>\<open>slice.get(i)\<close> and \<open>slice.get(start..end)\<close>; the latter is also indexing by a range, whose
  out-of-range case is a panic.\<close>

definition list_get :: "'a list \<Rightarrow> nat \<Rightarrow> 'a option" where
  [rust_simps]: "list_get xs i = (if i < length xs then Some (xs ! i) else None)"

definition list_range :: "'a list \<Rightarrow> nat \<Rightarrow> nat \<Rightarrow> 'a list option" where
  [rust_simps]: "list_range xs start stop =
     (if start \<le> stop \<and> stop \<le> length xs then Some (take (stop - start) (drop start xs)) else None)"

text \<open>\<open>Vec::drain(..count)\<close>, which panics past the end.\<close>

definition list_drain :: "'a list \<Rightarrow> nat \<Rightarrow> 'a list option" where
  [rust_simps]: "list_drain xs count = (if count \<le> length xs then Some (drop count xs) else None)"

lemma list_get_Some: "list_get xs i = Some x \<longleftrightarrow> i < length xs \<and> xs ! i = x"
  by (auto simp: list_get_def)

lemma list_get_None: "list_get xs i = None \<longleftrightarrow> length xs \<le> i"
  by (auto simp: list_get_def)

section \<open>Ordered maps\<close>

text \<open>
  The contract of \<open>BTreeMap\<close> the source relies on: lookup after insert, and iteration over the
  keys in ascending order.
\<close>

locale ordered_map =
  fixes empty :: 'm
    and insert_map :: "'k::linorder \<Rightarrow> 'v \<Rightarrow> 'm \<Rightarrow> 'm"
    and lookup :: "'m \<Rightarrow> 'k \<Rightarrow> 'v option"
    and keys :: "'m \<Rightarrow> 'k list"
    and invar :: "'m \<Rightarrow> bool"
  assumes invar_empty: "invar empty"
    and invar_insert: "invar m \<Longrightarrow> invar (insert_map k v m)"
    and lookup_empty: "lookup empty k = None"
    and lookup_insert: "invar m \<Longrightarrow> lookup (insert_map k v m) l = (if l = k then Some v else lookup m l)"
    and keys_lookup: "invar m \<Longrightarrow> set (keys m) = {k. lookup m k \<noteq> None}"
    and keys_sorted: "invar m \<Longrightarrow> sorted (keys m) \<and> distinct (keys m)"
begin

lemma invar_fold_insert: "invar m \<Longrightarrow> invar (fold (\<lambda>k. insert_map k (f k)) ks m)"
  by (induction ks arbitrary: m) (simp_all add: invar_insert)

lemma lookup_fold_insert:
  "invar m \<Longrightarrow>
     lookup (fold (\<lambda>k. insert_map k (f k)) ks m) l = (if l \<in> set ks then Some (f l) else lookup m l)"
proof (induction ks arbitrary: m)
  case Nil
  then show ?case by simp
next
  case (Cons k ks)
  then show ?case by (simp add: invar_insert lookup_insert)
qed

lemma keys_fold_insert:
  assumes "invar m"
  shows "set (keys (fold (\<lambda>k. insert_map k (f k)) ks m)) = set ks \<union> set (keys m)"
  using assms by (auto simp: keys_lookup invar_fold_insert lookup_fold_insert)

end

text \<open>The sorted association list.\<close>

type_synonym ('k, 'v) btree = "('k \<times> 'v) list"

fun bt_insert :: "'k::linorder \<Rightarrow> 'v \<Rightarrow> ('k, 'v) btree \<Rightarrow> ('k, 'v) btree" where
  "bt_insert k v [] = [(k, v)]"
| "bt_insert k v ((l, w) # m) =
     (if k < l then (k, v) # (l, w) # m
      else if k = l then (k, v) # m
      else (l, w) # bt_insert k v m)"

text \<open>\<open>get_mut\<close> followed by an assignment through the reference.\<close>

definition bt_adjust :: "'k \<Rightarrow> ('v \<Rightarrow> 'v) \<Rightarrow> ('k, 'v) btree \<Rightarrow> ('k, 'v) btree" where
  "bt_adjust k f m = map (\<lambda>(l, w). (l, if l = k then f w else w)) m"

abbreviation bt_keys :: "('k, 'v) btree \<Rightarrow> 'k list" where
  "bt_keys m \<equiv> map fst m"

abbreviation bt_invar :: "('k::linorder, 'v) btree \<Rightarrow> bool" where
  "bt_invar m \<equiv> sorted_wrt (<) (bt_keys m)"

lemma bt_insert_keys: "set (bt_keys (bt_insert k v m)) = insert k (set (bt_keys m))"
  by (induction k v m rule: bt_insert.induct) auto

lemma bt_insert_invar: "bt_invar m \<Longrightarrow> bt_invar (bt_insert k v m)"
proof (induction k v m rule: bt_insert.induct)
  case (2 k v l w m)
  have less: "\<forall>x \<in> set (bt_keys m). l < x" using "2.prems" by simp
  have "\<forall>x \<in> set (bt_keys (bt_insert k v m)). l < x" if "l < k"
    unfolding bt_insert_keys using that less by blast
  moreover have "\<forall>x \<in> set (bt_keys m). k < x" if "k < l"
    using less that by (meson less_trans)
  ultimately show ?case using "2" by auto
qed simp

lemma bt_lookup_insert: "map_of (bt_insert k v m) l = (if l = k then Some v else map_of m l)"
  by (induction k v m rule: bt_insert.induct) auto

lemma bt_lookup_keys: "set (bt_keys m) = {k. map_of m k \<noteq> None}"
  by (auto simp: map_of_eq_None_iff image_iff)

lemma bt_invar_sorted: "bt_invar m \<Longrightarrow> sorted (bt_keys m) \<and> distinct (bt_keys m)"
  by (simp add: strict_sorted_iff)

interpretation btree: ordered_map "[]" bt_insert map_of "map fst" "\<lambda>m. sorted_wrt (<) (map fst m)"
proof unfold_locales
  show "sorted_wrt (<) (map fst [])" by simp
  show "map_of [] k = None" for k :: 'a by simp
qed (simp_all only: bt_insert_invar bt_lookup_insert bt_lookup_keys bt_invar_sorted)

lemma bt_adjust_keys [simp]: "map fst (bt_adjust k f m) = map fst m"
  by (induction m) (auto simp: bt_adjust_def)

lemma bt_adjust_lookup [simp]:
  "map_of (bt_adjust k f m) l = (if l = k then map_option f (map_of m l) else map_of m l)"
  by (induction m) (auto simp: bt_adjust_def)

lemma bt_adjust_Nil [simp]: "bt_adjust k f m = [] \<longleftrightarrow> m = []"
  by (simp add: bt_adjust_def)

lemma bt_insert_fst [simp]: "fst ` set (bt_insert k v m) = insert k (fst ` set m)"
  using bt_insert_keys [of k v m] by simp

text \<open>\<open>BTreeMap::remove\<close>.\<close>

definition bt_remove :: "'k \<Rightarrow> ('k, 'v) btree \<Rightarrow> ('k, 'v) btree" where
  "bt_remove k m = filter (\<lambda>(l, _). l \<noteq> k) m"

lemma bt_remove_invar: "bt_invar m \<Longrightarrow> bt_invar (bt_remove k m)"
  by (induction m) (auto simp: bt_remove_def)

lemma bt_remove_lookup [simp]: "map_of (bt_remove k m) l = (if l = k then None else map_of m l)"
  by (induction m) (auto simp: bt_remove_def)

lemma bt_insert_set: "e \<in> set (bt_insert k v m) \<Longrightarrow> e = (k, v) \<or> e \<in> set m"
  by (induction k v m rule: bt_insert.induct) (auto split: if_splits)

lemma bt_eqI:
  assumes "bt_invar a" "bt_invar b" "map_of a = map_of b"
  shows "a = b"
proof -
  have "set (bt_keys a) = set (bt_keys b)" unfolding bt_lookup_keys assms(3) ..
  then have keys: "bt_keys a = bt_keys b"
    using assms(1,2) by (simp add: strict_sorted_equal)
  have "snd (a ! i) = snd (b ! i)" if "i < length a" for i
  proof -
    have len: "length a = length b" using keys by (metis length_map)
    have fst: "fst (a ! i) = fst (b ! i)" using keys that len by (metis nth_map)
    have "map_of a (fst (a ! i)) = Some (snd (a ! i))" "map_of b (fst (b ! i)) = Some (snd (b ! i))"
      using assms(1,2) that len by (simp_all add: strict_sorted_iff)
    then show ?thesis using assms(3) fst by simp
  qed
  then have "map snd a = map snd b" using keys by (metis (no_types, lifting) length_map nth_equalityI nth_map)
  then show ?thesis using keys by (metis zip_map_fst_snd)
qed

lemma bt_adjust_known: "bt_invar m \<Longrightarrow> map_of m k = Some x \<Longrightarrow> bt_adjust k f m = bt_adjust k (\<lambda>_. f x) m"
  by (auto simp: bt_adjust_def strict_sorted_iff dest!: map_of_SomeD dest: eq_key_imp_eq_value)

text \<open>A sum over the entries of a map.\<close>

definition bt_sum :: "('v \<Rightarrow> nat) \<Rightarrow> ('k, 'v) btree \<Rightarrow> nat" where
  "bt_sum f m = sum_list (map (f \<circ> snd) m)"

lemma bt_sum_simps [simp]: "bt_sum f [] = 0" "bt_sum f ((k, v) # m) = f v + bt_sum f m"
  by (simp_all add: bt_sum_def)

lemma bt_sum_insert: "map_of m k = None \<Longrightarrow> bt_sum f (bt_insert k v m) = f v + bt_sum f m"
  by (induction k v m rule: bt_insert.induct) (auto split: if_splits)

lemma bt_remove_absent: "k \<notin> fst ` set m \<Longrightarrow> bt_remove k m = m"
  by (induction m) (auto simp: bt_remove_def)

lemma bt_sum_remove: "bt_invar m \<Longrightarrow> map_of m k = Some v \<Longrightarrow> bt_sum f m = f v + bt_sum f (bt_remove k m)"
proof (induction m)
  case (Cons e m)
  obtain l w where e: "e = (l, w)" by fastforce
  show ?case
  proof (cases "l = k")
    case True
    then have "k \<notin> fst ` set m" using Cons.prems(1) e by auto
    then show ?thesis using Cons.prems(2) e True bt_remove_absent [of k m] by (simp add: bt_remove_def)
  next
    case False
    then show ?thesis using Cons e by (simp add: bt_remove_def)
  qed
qed simp

lemma bt_sum_adjust:
  "bt_invar m \<Longrightarrow> map_of m k = Some v \<Longrightarrow> bt_sum f (bt_adjust k g m) + f v = bt_sum f m + f (g v)"
proof (induction m)
  case (Cons e m)
  obtain l w where e: "e = (l, w)" by fastforce
  show ?case
  proof (cases "l = k")
    case True
    then have "k \<notin> fst ` set m" using Cons.prems(1) e by auto
    then have "bt_adjust k g m = m" by (induction m) (auto simp: bt_adjust_def)
    then show ?thesis using Cons.prems(2) e True by (simp add: bt_adjust_def)
  next
    case False
    then show ?thesis using Cons e by (simp add: bt_adjust_def)
  qed
qed simp

lemma bt_sum_mono: "(\<And>v. f v \<le> g v) \<Longrightarrow> bt_sum f m \<le> bt_sum g m"
  by (induction m) (auto simp: add_mono)

section \<open>Safety of transition systems\<close>

text \<open>
  A predicate that holds initially and is kept by every step holds in every reachable state.
\<close>

locale safety_system =
  fixes init :: "'s \<Rightarrow> bool"
    and step_rel :: "'s \<Rightarrow> 's \<Rightarrow> bool"
    and inv_pred :: "'s \<Rightarrow> bool"
  assumes init_inv: "init s \<Longrightarrow> inv_pred s"
    and step_inv: "inv_pred s \<Longrightarrow> step_rel s t \<Longrightarrow> inv_pred t"
begin

lemma star_inv: "step_rel\<^sup>*\<^sup>* s t \<Longrightarrow> inv_pred s \<Longrightarrow> inv_pred t"
  by (induction rule: rtranclp_induct) (blast intro: step_inv)+

lemma reachable_inv: "init s \<Longrightarrow> step_rel\<^sup>*\<^sup>* s t \<Longrightarrow> inv_pred t"
  by (blast intro: init_inv star_inv)

end

end
