(* ===== verification/RaftConfig.thy ===== *)
theory RaftConfig
  imports Prelude
begin

text \<open>
  Membership of one consensus group (\<open>crates/fgdb-order/src/lib.rs\<close>, \<open>Configuration\<close>): stable
  and joint voter sets, the quorum test and the quorum index. Majorities intersect, which is
  the contract \<open>quorum_system\<close> that elections rest on.
\<close>

section \<open>Definitions\<close>

type_synonym member_id = nat

type_synonym digest = "8 word list"

datatype error =
    InvalidConfiguration
  | InvalidLimits
  | PipelineConfigurationBusy
  | InvalidRecoveryState
  | WrongDomain
  | WrongConfiguration
  | WrongRecipient
  | UnknownMember
  | NotVoter
  | NotLeader
  | InvalidLeadershipTarget
  | LeadershipTransferInProgress
  | StaleLeadershipTransfer
  | AwaitingDurability
  | StalePersistence
  | RecoveryRequired
  | LogFull
  | AppendTooLarge
  | InvalidMessage
  | CommittedConflict
  | EntryIdentityConflict
  | CounterExhausted
  | InvalidSnapshot
  | SnapshotRequired
  | SnapshotConflict
  | StaleSnapshotTransfer

record joint_voters =
  jv_old :: "member_id set"
  jv_new :: "member_id set"

record configuration =
  cfg_domain :: digest
  cfg_identity :: digest
  cfg_voters :: "member_id set"
  cfg_learners :: "member_id set"
  cfg_joint :: "joint_voters option"

text \<open>
  A \<open>BTreeSet\<close> is a finite set; iterating it visits the elements in ascending order.
\<close>

abbreviation ascending :: "member_id set \<Rightarrow> member_id list" where
  "ascending \<equiv> sorted_list_of_set"

fun collect_members :: "member_id list \<Rightarrow> member_id set \<Rightarrow> error + member_id set" where
  "collect_members [] members = Inr members"
| "collect_members (member # rest) members =
     (if member = 0 \<or> card members \<ge> 1024 \<or> member \<in> members
      then Inl InvalidConfiguration
      else collect_members rest (insert member members))"

definition collect_voters :: "member_id list \<Rightarrow> error + member_id set" where
  "collect_voters voters =
     and_then (collect_members voters {}) (\<lambda>members.
       if members = {} then Inl InvalidConfiguration else Inr members)"

fun collect_learners ::
  "member_id set \<Rightarrow> member_id list \<Rightarrow> member_id set \<Rightarrow> error + member_id set" where
  "collect_learners voter_set [] learner_set = Inr learner_set"
| "collect_learners voter_set (member # rest) learner_set =
     (if member = 0 \<or> card voter_set + card learner_set \<ge> 1024
         \<or> member \<in> voter_set \<or> member \<in> learner_set
      then Inl InvalidConfiguration
      else collect_learners voter_set rest (insert member learner_set))"

definition stable ::
  "digest \<Rightarrow> digest \<Rightarrow> member_id list \<Rightarrow> member_id list \<Rightarrow> error + configuration" where
  "stable domain identity voters learners =
     and_then (collect_voters voters) (\<lambda>voter_set.
     and_then (collect_learners voter_set learners {}) (\<lambda>learner_set.
       Inr \<lparr>cfg_domain = domain, cfg_identity = identity, cfg_voters = voter_set,
            cfg_learners = learner_set, cfg_joint = None\<rparr>))"

definition joint ::
  "digest \<Rightarrow> digest \<Rightarrow> member_id list \<Rightarrow> member_id list \<Rightarrow> member_id list \<Rightarrow> error + configuration" where
  "joint domain identity old_voters new_voters learners =
     and_then (collect_voters old_voters) (\<lambda>old.
     and_then (collect_voters new_voters) (\<lambda>new.
     and_then (stable domain identity (ascending (old \<union> new)) learners) (\<lambda>configuration.
       Inr (configuration\<lparr>cfg_joint := Some \<lparr>jv_old = old, jv_new = new\<rparr>\<rparr>))))"

definition members :: "configuration \<Rightarrow> member_id list" where
  "members c = ascending (cfg_voters c \<union> cfg_learners c)"

definition contains :: "configuration \<Rightarrow> member_id \<Rightarrow> bool" where
  "contains c member \<longleftrightarrow> member \<in> cfg_voters c \<or> member \<in> cfg_learners c"

definition majority :: "member_id set \<Rightarrow> member_id set \<Rightarrow> bool" where
  "majority voters ms \<longleftrightarrow> card (voters \<inter> ms) > card voters div 2"

definition quorum :: "configuration \<Rightarrow> member_id set \<Rightarrow> bool" where
  "quorum c ms =
     (case cfg_joint c of
        None \<Rightarrow> majority (cfg_voters c) ms
      | Some j \<Rightarrow> majority (jv_old j) ms \<and> majority (jv_new j) ms)"

text \<open>
  \<open>select_nth_unstable(rank).1\<close> is the element of rank \<open>rank\<close> in sorted order. The subtraction
  \<open>indices.len() - 1\<close> panics on an empty group, the value \<open>None\<close>.
\<close>

definition majority_index :: "member_id set \<Rightarrow> (member_id \<Rightarrow> u64) \<Rightarrow> u64 option" where
  "majority_index voters matched =
     (let indices = map matched (ascending voters)
      in if indices = [] then None else Some (sort indices ! ((length indices - 1) div 2)))"

definition quorum_index :: "configuration \<Rightarrow> (member_id \<Rightarrow> u64) \<Rightarrow> u64 option" where
  "quorum_index c matched =
     (case cfg_joint c of
        None \<Rightarrow> majority_index (cfg_voters c) matched
      | Some j \<Rightarrow>
          Option.bind (majority_index (jv_old j) matched) (\<lambda>a.
          Option.bind (majority_index (jv_new j) matched) (\<lambda>b. Some (min a b))))"

section \<open>Well-formed configurations\<close>

text \<open>
  What the two constructors establish: nonempty groups of nonzero members, learners apart from
  voters, and at most 1024 members in all.
\<close>

definition group_ok :: "member_id set \<Rightarrow> bool" where
  "group_ok g \<longleftrightarrow> finite g \<and> g \<noteq> {} \<and> 0 \<notin> g"

definition config_ok :: "configuration \<Rightarrow> bool" where
  "config_ok c \<longleftrightarrow>
     group_ok (cfg_voters c) \<and> finite (cfg_learners c) \<and> 0 \<notin> cfg_learners c \<and>
     cfg_voters c \<inter> cfg_learners c = {} \<and> card (cfg_voters c \<union> cfg_learners c) \<le> 1024 \<and>
     (\<forall>j. cfg_joint c = Some j \<longrightarrow>
        group_ok (jv_old j) \<and> group_ok (jv_new j) \<and> cfg_voters c = jv_old j \<union> jv_new j)"

lemma collect_members_spec:
  "collect_members xs ms = Inr ns \<Longrightarrow> finite ms \<Longrightarrow> 0 \<notin> ms \<Longrightarrow> card ms \<le> 1024 \<Longrightarrow>
     finite ns \<and> 0 \<notin> ns \<and> card ns \<le> 1024 \<and> ns = ms \<union> set xs"
  by (induction xs ms rule: collect_members.induct) (auto split: if_splits)

lemma collect_voters_spec:
  assumes "collect_voters xs = Inr ns"
  shows "group_ok ns \<and> card ns \<le> 1024 \<and> ns = set xs"
  using assms collect_members_spec [of xs "{}"]
  by (auto simp: collect_voters_def and_then_eq_Inr group_ok_def split: if_splits)

lemma collect_learners_spec:
  "collect_learners vs xs ls = Inr ns \<Longrightarrow> finite vs \<Longrightarrow> finite ls \<Longrightarrow> 0 \<notin> ls \<Longrightarrow> vs \<inter> ls = {} \<Longrightarrow>
     card vs + card ls \<le> 1024 \<Longrightarrow>
     finite ns \<and> 0 \<notin> ns \<and> vs \<inter> ns = {} \<and> card vs + card ns \<le> 1024 \<and> ns = ls \<union> set xs"
  by (induction vs xs ls rule: collect_learners.induct) (auto split: if_splits)

lemma stable_spec:
  assumes "stable d i vs ls = Inr c"
  shows "config_ok c \<and> cfg_domain c = d \<and> cfg_identity c = i \<and> cfg_voters c = set vs \<and>
     cfg_learners c = set ls \<and> cfg_joint c = None"
proof -
  from assms obtain voter_set learner_set where
    v: "collect_voters vs = Inr voter_set" and
    l: "collect_learners voter_set ls {} = Inr learner_set" and
    c: "c = \<lparr>cfg_domain = d, cfg_identity = i, cfg_voters = voter_set,
            cfg_learners = learner_set, cfg_joint = None\<rparr>"
    by (auto simp: stable_def and_then_eq_Inr)
  from v have vs: "group_ok voter_set" "card voter_set \<le> 1024" "voter_set = set vs"
    by (auto dest: collect_voters_spec)
  have "finite learner_set \<and> 0 \<notin> learner_set \<and> voter_set \<inter> learner_set = {} \<and>
      card voter_set + card learner_set \<le> 1024 \<and> learner_set = set ls"
    using collect_learners_spec [OF l] vs(1,2) by (auto simp: group_ok_def)
  moreover from this vs(1) have "card (voter_set \<union> learner_set) \<le> 1024"
    by (auto simp: group_ok_def card_Un_disjoint)
  ultimately show ?thesis
    using vs by (auto simp: c config_ok_def)
qed

lemma joint_spec:
  assumes "joint d i old new ls = Inr c"
  shows "config_ok c \<and> cfg_voters c = set old \<union> set new \<and> cfg_learners c = set ls \<and>
     cfg_joint c = Some \<lparr>jv_old = set old, jv_new = set new\<rparr>"
proof -
  from assms obtain os ns c' where
    o: "collect_voters old = Inr os" and n: "collect_voters new = Inr ns" and
    s: "stable d i (ascending (os \<union> ns)) ls = Inr c'" and
    c: "c = c'\<lparr>cfg_joint := Some \<lparr>jv_old = os, jv_new = ns\<rparr>\<rparr>"
    by (auto simp: joint_def and_then_eq_Inr)
  from o n have "group_ok os" "group_ok ns" "os = set old" "ns = set new"
    by (auto dest: collect_voters_spec)
  moreover from this stable_spec [OF s] have "config_ok c'" "cfg_voters c' = os \<union> ns"
    "cfg_learners c' = set ls" "cfg_joint c' = None"
    by (auto simp: group_ok_def)
  ultimately show ?thesis
    by (auto simp: c config_ok_def)
qed

section \<open>Quorums intersect\<close>

text \<open>
  The contract elections rely on: for an admitted configuration, any two quorums share a voter,
  and adding members keeps a quorum.
\<close>

locale quorum_system =
  fixes admitted :: "'c \<Rightarrow> bool"
    and is_quorum :: "'c \<Rightarrow> 'm set \<Rightarrow> bool"
    and voters_of :: "'c \<Rightarrow> 'm set"
  assumes intersect: "admitted c \<Longrightarrow> is_quorum c P \<Longrightarrow> is_quorum c Q \<Longrightarrow> P \<inter> Q \<inter> voters_of c \<noteq> {}"
    and mono: "admitted c \<Longrightarrow> is_quorum c P \<Longrightarrow> P \<subseteq> Q \<Longrightarrow> is_quorum c Q"
begin

lemma nonempty: "admitted c \<Longrightarrow> is_quorum c P \<Longrightarrow> P \<inter> voters_of c \<noteq> {}"
  using intersect [of c P P] by auto

text \<open>When every voter supports at most one candidate, at most one candidate has a quorum.\<close>

lemma unique_winner:
  assumes "admitted c" "is_quorum c P" "is_quorum c Q"
    and "\<And>v. v \<in> P \<Longrightarrow> v \<in> voters_of c \<Longrightarrow> supports v = Some a"
    and "\<And>v. v \<in> Q \<Longrightarrow> v \<in> voters_of c \<Longrightarrow> supports v = Some b"
  shows "a = b"
proof -
  obtain v where "v \<in> P" "v \<in> Q" "v \<in> voters_of c"
    using intersect [OF assms(1-3)] by blast
  with assms(4,5) have "supports v = Some a" "supports v = Some b"
    by blast+
  then show ?thesis by simp
qed

end

lemma majority_intersect:
  assumes "finite g" "majority g P" "majority g Q"
  shows "P \<inter> Q \<inter> g \<noteq> {}"
proof
  assume "P \<inter> Q \<inter> g = {}"
  then have "(g \<inter> P) \<inter> (g \<inter> Q) = {}" by blast
  then have "card (g \<inter> P) + card (g \<inter> Q) = card ((g \<inter> P) \<union> (g \<inter> Q))"
    using assms(1) by (simp add: card_Un_disjoint)
  also have "\<dots> \<le> card g"
    using assms(1) by (intro card_mono) auto
  finally show False
    using assms(2,3) by (simp add: majority_def)
qed

lemma majority_mono: "finite g \<Longrightarrow> majority g P \<Longrightarrow> P \<subseteq> Q \<Longrightarrow> majority g Q"
  unfolding majority_def
  by (meson card_mono finite_Int inf_mono less_le_trans order_refl)

interpretation raft_quorum: quorum_system config_ok quorum cfg_voters
proof unfold_locales
  fix c P Q
  assume ok: "config_ok c" and q: "quorum c P" "quorum c Q"
  show "P \<inter> Q \<inter> cfg_voters c \<noteq> {}"
  proof (cases "cfg_joint c")
    case None
    with ok q show ?thesis
      by (simp add: quorum_def config_ok_def group_ok_def majority_intersect)
  next
    case (Some j)
    with ok q have "P \<inter> Q \<inter> jv_old j \<noteq> {}"
      by (simp add: quorum_def config_ok_def group_ok_def majority_intersect)
    with ok Some show ?thesis by (auto simp: config_ok_def)
  qed
next
  fix c P Q
  assume "config_ok c" "quorum c P" "P \<subseteq> Q"
  then show "quorum c Q"
    by (auto simp: quorum_def config_ok_def group_ok_def split: option.splits intro: majority_mono)
qed

section \<open>The quorum index\<close>

text \<open>
  The order statistic the kernel selects is the greatest index that a strict majority has
  reached.
\<close>

lemma majority_all: "group_ok g \<Longrightarrow> g \<subseteq> P \<Longrightarrow> majority g P"
  by (simp add: majority_def group_ok_def Int_absorb2 card_gt_0_iff)

lemma sorted_nth_count:
  fixes xs :: "nat list"
  assumes "sorted xs" "r < length xs"
  shows "k \<le> xs ! r \<longleftrightarrow> length xs - r \<le> length (filter (\<lambda>x. k \<le> x) xs)"
proof -
  let ?S = "{i. i < length xs \<and> k \<le> xs ! i}"
  have count: "length (filter (\<lambda>x. k \<le> x) xs) = card ?S"
    by (rule length_filter_conv_card)
  show ?thesis
  proof (cases "k \<le> xs ! r")
    case True
    have "{r..<length xs} \<subseteq> ?S"
      using True assms by (auto elim: order_trans simp: sorted_nth_mono)
    then have "card {r..<length xs} \<le> card ?S"
      by (intro card_mono) auto
    then show ?thesis using True count by simp
  next
    case False
    have "?S \<subseteq> {Suc r..<length xs}"
    proof
      fix i assume i: "i \<in> ?S"
      have "\<not> i \<le> r"
      proof
        assume "i \<le> r"
        then have "xs ! i \<le> xs ! r" using assms by (simp add: sorted_nth_mono)
        with i False show False by simp
      qed
      with i show "i \<in> {Suc r..<length xs}" by simp
    qed
    then have "card ?S \<le> card {Suc r..<length xs}"
      by (intro card_mono) auto
    then show ?thesis using False count assms(2) by simp
  qed
qed

lemma card_reached:
  assumes "finite g"
  shows "card (g \<inter> {v. k \<le> m v}) = length (filter (\<lambda>x. k \<le> x) (map m (ascending g)))"
proof -
  have "card (g \<inter> {v. k \<le> m v}) = card (set (filter (\<lambda>v. k \<le> m v) (ascending g)))"
    using assms by (simp add: Int_def)
  also have "\<dots> = length (filter (\<lambda>v. k \<le> m v) (ascending g))"
    by (intro distinct_card) (simp add: distinct_sorted_list_of_set)
  finally show ?thesis by (simp add: filter_map comp_def)
qed

lemma majority_index_spec:
  assumes "group_ok g"
  obtains n where "majority_index g m = Some n"
    and "\<And>k. k \<le> n \<longleftrightarrow> majority g {v. k \<le> m v}"
proof -
  let ?xs = "sort (map m (ascending g))"
  let ?r = "(card g - 1) div 2"
  have fin: "finite g" and ne: "g \<noteq> {}" using assms by (auto simp: group_ok_def)
  then have pos: "0 < card g" by (simp add: card_gt_0_iff)
  have len: "length ?xs = card g" by simp
  have "k \<le> ?xs ! ?r \<longleftrightarrow> majority g {v. k \<le> m v}" for k
  proof -
    have "k \<le> ?xs ! ?r \<longleftrightarrow> card g - ?r \<le> length (filter (\<lambda>x. k \<le> x) ?xs)"
      using sorted_nth_count [of ?xs ?r k] pos len by simp
    also have "length (filter (\<lambda>x. k \<le> x) ?xs) = card (g \<inter> {v. k \<le> m v})"
      by (simp add: card_reached [OF fin] filter_sort)
    finally show ?thesis using pos by (simp add: majority_def) linarith
  qed
  moreover have "majority_index g m = Some (?xs ! ?r)"
    using fin ne by (simp add: majority_index_def Let_def)
  ultimately show ?thesis using that by blast
qed

lemma quorum_index_spec:
  assumes "config_ok c"
  obtains n where "quorum_index c m = Some n"
    and "\<And>k. k \<le> n \<longleftrightarrow> quorum c {v. k \<le> m v}"
proof (cases "cfg_joint c")
  case None
  with assms obtain n where "majority_index (cfg_voters c) m = Some n"
      and "\<And>k. k \<le> n \<longleftrightarrow> majority (cfg_voters c) {v. k \<le> m v}"
    using majority_index_spec by (auto simp: config_ok_def)
  with None that show ?thesis by (simp add: quorum_index_def quorum_def)
next
  case (Some j)
  with assms obtain a b where "majority_index (jv_old j) m = Some a"
      and "\<And>k. k \<le> a \<longleftrightarrow> majority (jv_old j) {v. k \<le> m v}"
      and "majority_index (jv_new j) m = Some b"
      and "\<And>k. k \<le> b \<longleftrightarrow> majority (jv_new j) {v. k \<le> m v}"
    using majority_index_spec [of "jv_old j" m] majority_index_spec [of "jv_new j" m]
    by (auto simp: config_ok_def) metis
  with Some that [of "min a b"] show ?thesis by (simp add: quorum_index_def quorum_def)
qed

end
