(* ===== verification/RaftTypes.thy ===== *)
theory RaftTypes
  imports RaftConfig
begin

text \<open>
  The data of the consensus kernel (\<open>crates/fgdb-order/src\<close>): snapshot cuts, log entries, the
  persistent state, messages, events, in-flight bookkeeping and the node itself, with the
  source's fields. An \<open>Arc\<close> incarnation is a natural number that identifies the allocation;
  equality of tokens compares it together with the generation. Digests are only compared.
\<close>

section \<open>Persistent state\<close>

record snapshot_cut =
  sc_domain :: digest
  sc_configuration :: digest
  sc_manifest :: digest
  sc_state_root :: digest
  sc_retention_floor :: digest
  sc_index :: u64
  sc_term :: u64

definition snapshot_from_parts ::
  "configuration \<Rightarrow> digest \<Rightarrow> digest \<Rightarrow> digest \<Rightarrow> u64 \<Rightarrow> u64 \<Rightarrow> error + snapshot_cut" where
  "snapshot_from_parts c manifest state_root retention_floor index t =
     (if index = 0 \<or> index = u64_max \<or> t = 0 then Inl InvalidSnapshot
      else Inr \<lparr>sc_domain = cfg_domain c, sc_configuration = cfg_identity c, sc_manifest = manifest,
                sc_state_root = state_root, sc_retention_floor = retention_floor,
                sc_index = index, sc_term = t\<rparr>)"

record limits =
  max_log_entries :: nat
  max_append_entries :: nat

definition default_limits :: limits where
  "default_limits = \<lparr>max_log_entries = 65536, max_append_entries = 128\<rparr>"

record 'c entry =
  e_term :: u64
  e_command :: "'c option"

record 'c persistent_state =
  ps_configuration :: configuration
  ps_term :: u64
  ps_voted_for :: "member_id option"
  ps_commit_index :: u64
  ps_snapshot :: "snapshot_cut option"
  ps_entries :: "'c entry list"

definition from_authenticated_parts ::
  "configuration \<Rightarrow> u64 \<Rightarrow> member_id option \<Rightarrow> u64 \<Rightarrow> 'c entry list \<Rightarrow> 'c persistent_state" where
  "from_authenticated_parts c t voted commit entries =
     \<lparr>ps_configuration = c, ps_term = t, ps_voted_for = voted, ps_commit_index = commit,
      ps_snapshot = None, ps_entries = entries\<rparr>"

definition from_authenticated_snapshot ::
  "configuration \<Rightarrow> u64 \<Rightarrow> member_id option \<Rightarrow> u64 \<Rightarrow> snapshot_cut \<Rightarrow> 'c entry list \<Rightarrow>
   'c persistent_state" where
  "from_authenticated_snapshot c t voted commit snapshot entries =
     \<lparr>ps_configuration = c, ps_term = t, ps_voted_for = voted, ps_commit_index = commit,
      ps_snapshot = Some snapshot, ps_entries = entries\<rparr>"

definition base_index :: "'c persistent_state \<Rightarrow> u64" where
  "base_index s = (case ps_snapshot s of None \<Rightarrow> 0 | Some snap \<Rightarrow> sc_index snap)"

definition base_term :: "'c persistent_state \<Rightarrow> u64" where
  "base_term s = (case ps_snapshot s of None \<Rightarrow> 0 | Some snap \<Rightarrow> sc_term snap)"

section \<open>Messages and events\<close>

datatype role = Follower | PreCandidate | Candidate | Leader

text \<open>
  Constructor arguments in the order of the source's fields. \<open>PreVoteRequest\<close>: prospective
  term, round, last index, last term. \<open>PreVoteReply\<close>: term, prospective term, round, granted.
  \<open>QuorumProbe\<close>, \<open>QuorumReply\<close>: term, round. \<open>TimeoutNow\<close>: term, round, last index, last term.
  \<open>RequestVote\<close>: term, last index, last term. \<open>Vote\<close>: term, granted. \<open>Append\<close>: term, request,
  previous index, previous term, entries, leader commit. \<open>Appended\<close>: term, request, success,
  conflict hint. \<open>InstallSnapshot\<close>: term, request, cut. \<open>SnapshotInstalled\<close>: term, request.
\<close>

datatype 'c message =
    PreVoteRequest u64 u64 u64 u64
  | PreVoteReply u64 u64 u64 bool
  | QuorumProbe u64 u64
  | QuorumReply u64 u64
  | TimeoutNow u64 u64 u64 u64
  | RequestVote u64 u64 u64
  | Vote u64 bool
  | Append u64 u64 u64 u64 "'c entry list" u64
  | Appended u64 u64 bool u64
  | InstallSnapshot u64 u64 snapshot_cut
  | SnapshotInstalled u64 u64

fun message_term :: "'c message \<Rightarrow> u64" where
  "message_term (PreVoteRequest _ _ _ _) = 0"
| "message_term (PreVoteReply t _ _ _) = t"
| "message_term (QuorumProbe t _) = t"
| "message_term (QuorumReply t _) = t"
| "message_term (TimeoutNow t _ _ _) = t"
| "message_term (RequestVote t _ _) = t"
| "message_term (Vote t _) = t"
| "message_term (Append t _ _ _ _ _) = t"
| "message_term (Appended t _ _ _) = t"
| "message_term (InstallSnapshot t _ _) = t"
| "message_term (SnapshotInstalled t _) = t"

record 'c envelope =
  env_domain :: digest
  env_configuration :: digest
  env_from :: member_id
  env_to :: member_id
  env_message :: "'c message"

record persistence_id =
  pid_incarnation :: nat
  pid_generation :: u64

type_synonym snapshot_transfer_id = persistence_id

type_synonym leadership_transfer_id = persistence_id

datatype 'c event =
    ElectionTimeout
  | LivenessTimeout
  | Heartbeat
  | TransferLeadership member_id
  | AbortLeadershipTransfer leadership_transfer_id
  | Propose 'c
  | ProposeBatch "'c list"
  | Receive "'c envelope"
  | Compact snapshot_cut
  | SnapshotReady snapshot_transfer_id
  | SnapshotFailed snapshot_transfer_id

section \<open>Outputs\<close>

record snapshot_transfer =
  st_id :: snapshot_transfer_id
  st_source :: member_id
  st_snapshot :: snapshot_cut

record 'c persistence =
  per_id :: persistence_id
  per_state :: "'c persistent_state"
  per_requires_write :: bool

record 'c committed =
  co_index :: u64
  co_entry :: "'c entry"

record 'c raft_output =
  out_messages :: "'c envelope list"
  out_committed :: "'c committed list"
  out_snapshot_transfers :: "snapshot_transfer list"
  out_cancelled_snapshot_transfers :: "snapshot_transfer_id list"
  out_installed_snapshot :: "snapshot_cut option"
  out_reset_election_timer :: bool
  out_role :: role
  out_leader :: "member_id option"

section \<open>The node\<close>

datatype in_flight =
    FlightAppend u64 u64 u64
  | FlightSnapshot u64 snapshot_cut

fun flight_last :: "in_flight \<Rightarrow> u64" where
  "flight_last (FlightAppend _ _ endpoint) = endpoint"
| "flight_last (FlightSnapshot _ snapshot) = sc_index snapshot"

record progress =
  pr_matched :: u64
  pr_next :: u64
  pr_in_flight :: "in_flight list"
  pr_probing :: bool
  pr_sent_commit :: u64

record incoming_snapshot =
  is_transfer :: snapshot_transfer
  is_term :: u64
  is_request :: u64

record pre_vote_round =
  pv_term :: u64
  pv_round :: u64
  pv_voters :: "member_id set"

record quorum_round =
  qr_round :: u64
  qr_voters :: "member_id set"

record liveness_state =
  lv_enabled :: bool
  lv_pre_vote :: "pre_vote_round option"
  lv_quorum :: "quorum_round option"

definition default_liveness :: liveness_state where
  "default_liveness = \<lparr>lv_enabled = False, lv_pre_vote = None, lv_quorum = None\<rparr>"

definition liveness_reset :: "liveness_state \<Rightarrow> liveness_state" where
  "liveness_reset l = l\<lparr>lv_pre_vote := None, lv_quorum := None\<rparr>"

datatype leadership_transfer_phase = CatchingUp | ElectionRequested

record leadership_transfer =
  lt_id :: leadership_transfer_id
  lt_target :: member_id
  lt_term :: u64
  lt_last_index :: u64
  lt_last_term :: u64
  lt_phase :: leadership_transfer_phase

record 'c raft =
  r_id :: member_id
  r_state :: "'c persistent_state"
  r_role :: role
  r_leader :: "member_id option"
  r_votes :: "member_id set"
  r_progress :: "(member_id, progress) btree"
  r_limits :: limits
  r_append_window :: nat
  r_generation :: u64
  r_incarnation :: nat
  r_initialized :: bool
  r_log_changed :: bool
  r_request :: u64
  r_incoming_snapshot :: "incoming_snapshot option"
  r_pending :: "(persistence_id \<times> 'c raft_output) option"
  r_poisoned :: bool
  r_liveness :: liveness_state
  r_handoff :: "leadership_transfer option"

text \<open>
  A transition that fails midway leaves the node poisoned in the state it had reached, so a
  failure carries that state. A panic (an index or range out of bounds) is a fault of its own.
\<close>

datatype fault = Err error | Panic

type_synonym 'c outcome = "(fault \<times> 'c raft) + ('c raft \<times> 'c raft_output)"

end
