(* ===== verification/RaftKernel.thy ===== *)
theory RaftKernel
  imports RaftTypes
begin

text \<open>
  The transition kernel (\<open>crates/fgdb-order/src/lib.rs\<close>, \<open>pipeline.rs\<close>, \<open>liveness.rs\<close>,
  \<open>leadership.rs\<close>): one definition per method of \<open>Raft\<close>. Methods that mutate the node and the
  output return both; methods that can fail return an \<open>outcome\<close>. Plain \<open>u64\<close> additions are
  additions of natural numbers; theory \<open>RaftInvariant\<close> shows that none of them leaves the range.
\<close>

section \<open>Log access\<close>

definition last_index :: "'c raft \<Rightarrow> u64" where
  "last_index r = base_index (r_state r) + length (ps_entries (r_state r))"

definition entry_at :: "'c raft \<Rightarrow> u64 \<Rightarrow> 'c entry option" where
  "entry_at r index =
     Option.bind (checked_sub index (base_index (r_state r))) (\<lambda>offset.
     Option.bind (checked_sub offset 1) (\<lambda>position.
       list_get (ps_entries (r_state r)) position))"

definition term_at :: "'c raft \<Rightarrow> u64 \<Rightarrow> u64 option" where
  "term_at r index =
     (if index = base_index (r_state r) then Some (base_term (r_state r))
      else map_option e_term (entry_at r index))"

definition last_term :: "'c raft \<Rightarrow> u64" where
  "last_term r =
     (case ps_entries (r_state r) of [] \<Rightarrow> base_term (r_state r)
      | _ # _ \<Rightarrow> e_term (last (ps_entries (r_state r))))"

text \<open>\<open>committed_range\<close>; the slice panics when the range is out of bounds, the value \<open>None\<close>.\<close>

fun number_entries :: "u64 \<Rightarrow> 'c entry list \<Rightarrow> 'c committed list" where
  "number_entries index [] = []"
| "number_entries index (entry # rest) =
     \<lparr>co_index = index, co_entry = entry\<rparr> # number_entries (index + 1) rest"

definition committed_range :: "'c raft \<Rightarrow> u64 \<Rightarrow> 'c committed list option" where
  "committed_range r after0 =
     (let base = base_index (r_state r); after = max after0 base
      in Option.bind (checked_sub (ps_commit_index (r_state r)) base) (\<lambda>stop.
         map_option (number_entries (after + 1))
           (list_range (ps_entries (r_state r)) (after - base) stop)))"

section \<open>Construction and recovery\<close>

fun entry_terms_ok :: "u64 \<Rightarrow> u64 \<Rightarrow> 'c entry list \<Rightarrow> bool" where
  "entry_terms_ok previous t [] = True"
| "entry_terms_ok previous t (entry # rest) =
     (if e_term entry = 0 \<or> e_term entry < previous \<or> e_term entry > t then False
      else entry_terms_ok (e_term entry) t rest)"

definition recover ::
  "nat \<Rightarrow> member_id \<Rightarrow> 'c persistent_state \<Rightarrow> limits \<Rightarrow> error + 'c raft" where
  "recover incarnation me s lim =
     (if max_log_entries lim = 0 \<or> max_append_entries lim = 0
         \<or> max_append_entries lim > max_log_entries lim then Inl InvalidLimits
      else if \<not> contains (ps_configuration s) me then Inl UnknownMember
      else (case checked_add (base_index s) (length (ps_entries s)) of
        None \<Rightarrow> Inl InvalidRecoveryState
      | Some endpoint \<Rightarrow>
         if \<not> endpoint < u64_max then Inl InvalidRecoveryState
         else if length (ps_entries s) > max_log_entries lim
           \<or> ps_commit_index s < base_index s
           \<or> ps_commit_index s > endpoint
           \<or> base_term s > ps_term s
           \<or> (case ps_snapshot s of None \<Rightarrow> False | Some snapshot \<Rightarrow>
                sc_domain snapshot \<noteq> cfg_domain (ps_configuration s)
                \<or> sc_configuration snapshot \<noteq> cfg_identity (ps_configuration s))
           \<or> (ps_term s = 0 \<and> ps_voted_for s \<noteq> None)
           \<or> (case ps_voted_for s of None \<Rightarrow> False
              | Some member \<Rightarrow> member \<notin> cfg_voters (ps_configuration s))
         then Inl InvalidRecoveryState
         else if \<not> entry_terms_ok (base_term s) (ps_term s) (ps_entries s)
         then Inl InvalidRecoveryState
         else Inr \<lparr>r_id = me, r_state = s, r_role = Follower, r_leader = None, r_votes = {},
                   r_progress = [], r_limits = lim, r_append_window = 1, r_generation = 0,
                   r_incarnation = incarnation, r_initialized = True, r_log_changed = False,
                   r_request = 0, r_incoming_snapshot = None, r_pending = None,
                   r_poisoned = False, r_liveness = default_liveness, r_handoff = None\<rparr>))"

definition new_raft :: "nat \<Rightarrow> member_id \<Rightarrow> configuration \<Rightarrow> limits \<Rightarrow> error + 'c raft" where
  "new_raft incarnation me c lim =
     and_then (recover incarnation me (from_authenticated_parts c 0 None 0 []) lim) (\<lambda>node.
       Inr (node\<lparr>r_initialized := False\<rparr>))"

definition available :: "'c raft \<Rightarrow> error + unit" where
  "available r =
     (if r_poisoned r then Inl RecoveryRequired
      else if r_pending r \<noteq> None then Inl AwaitingDurability
      else Inr ())"

definition durable_state :: "'c raft \<Rightarrow> error + 'c persistent_state" where
  "durable_state r = and_then (available r) (\<lambda>_. Inr (r_state r))"

definition role_of :: "'c raft \<Rightarrow> error + role" where
  "role_of r = and_then (available r) (\<lambda>_. Inr (r_role r))"

text \<open>A replay request outside the retained committed prefix is refused; the inner \<open>None\<close> is a
  panic of the slice.\<close>

definition committed_after :: "'c raft \<Rightarrow> u64 \<Rightarrow> error + 'c committed list option" where
  "committed_after r applied =
     and_then (available r) (\<lambda>_.
       if applied > ps_commit_index (r_state r) then Inl InvalidRecoveryState
       else if applied < base_index (r_state r) then Inl SnapshotRequired
       else Inr (committed_range r applied))"

definition publication_failed :: "'c raft \<Rightarrow> 'c raft" where
  "publication_failed r = r\<lparr>r_poisoned := True\<rparr>"

section \<open>Emission and role changes\<close>

definition emit :: "'c raft \<Rightarrow> member_id \<Rightarrow> 'c message \<Rightarrow> 'c raft_output \<Rightarrow> 'c raft_output" where
  "emit r recipient msg out =
     out\<lparr>out_messages := out_messages out @
       [\<lparr>env_domain = cfg_domain (ps_configuration (r_state r)),
         env_configuration = cfg_identity (ps_configuration (r_state r)),
         env_from = r_id r, env_to = recipient, env_message = msg\<rparr>]\<rparr>"

definition emit_all :: "'c raft \<Rightarrow> member_id list \<Rightarrow> 'c message \<Rightarrow> 'c raft_output \<Rightarrow> 'c raft_output" where
  "emit_all r recipients msg out = fold (\<lambda>m. emit r m msg) recipients out"

definition follow :: "'c raft \<Rightarrow> u64 \<Rightarrow> 'c raft" where
  "follow r t =
     (let r1 = (if t > ps_term (r_state r)
                then r\<lparr>r_state := (r_state r)\<lparr>ps_term := t, ps_voted_for := None\<rparr>,
                       r_incoming_snapshot := None\<rparr>
                else r)
      in r1\<lparr>r_role := Follower, r_leader := None, r_votes := {}, r_progress := [],
            r_liveness := liveness_reset (r_liveness r1), r_handoff := None\<rparr>)"

definition accept_leader ::
  "'c raft \<Rightarrow> member_id \<Rightarrow> u64 \<Rightarrow> 'c raft_output \<Rightarrow> 'c raft \<times> 'c raft_output" where
  "accept_leader r from t out =
     (let r1 = follow r t;
          r2 = (case r_incoming_snapshot r1 of None \<Rightarrow> r1
                | Some pending \<Rightarrow>
                    if st_source (is_transfer pending) \<noteq> from
                    then r1\<lparr>r_incoming_snapshot := None\<rparr> else r1)
      in (r2\<lparr>r_leader := Some from\<rparr>, out\<lparr>out_reset_election_timer := True\<rparr>))"

section \<open>The append pipeline\<close>

definition set_progress ::
  "'c raft \<Rightarrow> member_id \<Rightarrow> (progress \<Rightarrow> progress) \<Rightarrow> 'c raft" where
  "set_progress r peer f = r\<lparr>r_progress := bt_adjust peer f (r_progress r)\<rparr>"

definition emit_flight ::
  "'c raft \<Rightarrow> member_id \<Rightarrow> in_flight \<Rightarrow> 'c raft_output \<Rightarrow> 'c outcome" where
  "emit_flight r peer flight out =
     (case flight of
        FlightAppend request prev endpoint \<Rightarrow>
          (case term_at r prev of
             None \<Rightarrow> Inl (Err InvalidRecoveryState, r)
           | Some prev_term \<Rightarrow>
             (case (checked_sub prev (base_index (r_state r)),
                    checked_sub endpoint (base_index (r_state r))) of
                (Some start, Some stop) \<Rightarrow>
                  (case list_range (ps_entries (r_state r)) start stop of
                     None \<Rightarrow> Inl (Err InvalidRecoveryState, r)
                   | Some entries \<Rightarrow>
                      (let r1 = set_progress r peer
                             (\<lambda>p. p\<lparr>pr_sent_commit := ps_commit_index (r_state r)\<rparr>)
                       in Inr (r1, emit r1 peer
                            (Append (ps_term (r_state r)) request prev prev_term entries
                               (ps_commit_index (r_state r))) out)))
              | _ \<Rightarrow> Inl (Err InvalidRecoveryState, r)))
      | FlightSnapshot request snapshot \<Rightarrow>
          Inr (r, emit r peer (InstallSnapshot (ps_term (r_state r)) request snapshot) out))"

fun emit_flights :: "member_id \<Rightarrow> in_flight list \<Rightarrow> 'c raft \<Rightarrow> 'c raft_output \<Rightarrow> 'c outcome" where
  "emit_flights peer [] r out = Inr (r, out)"
| "emit_flights peer (flight # rest) r out =
     and_then (emit_flight r peer flight out) (\<lambda>(r1, out1). emit_flights peer rest r1 out1)"

definition next_flight :: "'c raft \<Rightarrow> u64 \<Rightarrow> in_flight option" where
  "next_flight r next =
     (if next \<le> base_index (r_state r)
      then map_option (FlightSnapshot (r_request r)) (ps_snapshot (r_state r))
      else Some (FlightAppend (r_request r) (next - 1)
             (min (last_index r) (saturating_add (next - 1) (max_append_entries (r_limits r))))))"

definition push_flight :: "in_flight \<Rightarrow> progress \<Rightarrow> progress" where
  "push_flight flight p =
     (let p1 = (case flight of FlightAppend _ _ endpoint \<Rightarrow> p\<lparr>pr_next := endpoint + 1\<rparr>
                | FlightSnapshot _ _ \<Rightarrow> p)
      in p1\<lparr>pr_in_flight := pr_in_flight p1 @ [flight]\<rparr>)"

definition lane_full :: "'c raft \<Rightarrow> progress \<Rightarrow> bool" where
  "lane_full r p \<longleftrightarrow>
     length (pr_in_flight p) \<ge> (if pr_probing p then 1 else r_append_window r)
     \<or> (case pr_in_flight p of FlightSnapshot _ _ # _ \<Rightarrow> True | _ \<Rightarrow> False)
     \<or> (pr_next p > last_index r \<and> pr_in_flight p \<noteq> [])"

text \<open>
  The issuing loop of \<open>send_append\<close>. Every turn spends one request identity, so it ends at the
  latest when the counter is exhausted.
\<close>

lemma emit_flight_request: "emit_flight r peer flight out = Inr (r1, out1) \<Longrightarrow> r_request r1 = r_request r"
  by (auto simp: emit_flight_def set_progress_def Let_def
      split: in_flight.splits option.splits prod.splits)

function issue_appends :: "member_id \<Rightarrow> 'c raft \<Rightarrow> 'c raft_output \<Rightarrow> 'c outcome" where
  "issue_appends peer r out =
     (case map_of (r_progress r) peer of
        None \<Rightarrow> Inl (Err InvalidRecoveryState, r)
      | Some p \<Rightarrow>
        if lane_full r p then Inr (r, out)
        else if \<not> r_request r + 1 \<le> u64_max then Inl (Err CounterExhausted, r)
        else
          (let r1 = r\<lparr>r_request := r_request r + 1\<rparr>
           in case next_flight r1 (pr_next p) of
                None \<Rightarrow> Inl (Err InvalidRecoveryState, r1)
              | Some flight \<Rightarrow>
                (case emit_flight r1 peer flight out of
                   Inl e \<Rightarrow> Inl e
                 | Inr (r2, out2) \<Rightarrow>
                    issue_appends peer (set_progress r2 peer (push_flight flight)) out2)))"
  by pat_completeness auto
termination
  by (relation "measure (\<lambda>(peer, r, out). u64_max - r_request r)")
    (auto simp: set_progress_def dest!: emit_flight_request)

declare issue_appends.simps [simp del]

definition send_append :: "'c raft \<Rightarrow> member_id \<Rightarrow> 'c raft_output \<Rightarrow> bool \<Rightarrow> 'c outcome" where
  "send_append r peer out retry =
     (case map_of (r_progress r) peer of
        None \<Rightarrow> Inr (r, out)
      | Some p \<Rightarrow>
        and_then (if retry then emit_flights peer (pr_in_flight p) r out else Inr (r, out))
          (\<lambda>(r1, out1). issue_appends peer r1 out1))"

fun broadcast_to :: "member_id list \<Rightarrow> bool \<Rightarrow> 'c raft \<Rightarrow> 'c raft_output \<Rightarrow> 'c outcome" where
  "broadcast_to [] retry r out = Inr (r, out)"
| "broadcast_to (peer # peers) retry r out =
     and_then (send_append r peer out retry) (\<lambda>(r1, out1). broadcast_to peers retry r1 out1)"

definition broadcast :: "'c raft \<Rightarrow> 'c raft_output \<Rightarrow> bool \<Rightarrow> 'c outcome" where
  "broadcast r out retry = broadcast_to (bt_keys (r_progress r)) retry r out"

definition pending_append :: "'c raft \<Rightarrow> member_id \<Rightarrow> u64 \<Rightarrow> in_flight option" where
  "pending_append r peer request =
     Option.bind (map_of (r_progress r) peer) (\<lambda>p.
       find (\<lambda>flight. case flight of FlightAppend issued _ _ \<Rightarrow> issued = request
                      | FlightSnapshot _ _ \<Rightarrow> False) (pr_in_flight p))"

definition pending_append_reply :: "'c raft \<Rightarrow> member_id \<Rightarrow> u64 \<Rightarrow> u64 \<Rightarrow> error + bool" where
  "pending_append_reply r from t request =
     and_then (available r) (\<lambda>_.
       Inr (r_role r = Leader \<and> t = ps_term (r_state r) \<and> pending_append r from request \<noteq> None))"

definition max_append_window :: nat where
  "max_append_window = 64"

definition configure_append_pipeline :: "'c raft \<Rightarrow> nat \<Rightarrow> error + 'c raft" where
  "configure_append_pipeline r maximum =
     and_then (available r) (\<lambda>_.
       if maximum = 0 \<or> maximum > max_append_window then Inl InvalidLimits
       else if r_role r \<noteq> Follower \<or> r_progress r \<noteq> [] then Inl PipelineConfigurationBusy
       else Inr (r\<lparr>r_append_window := maximum\<rparr>))"

section \<open>Elections and quorum probes\<close>

definition matched_of :: "'c raft \<Rightarrow> member_id \<Rightarrow> u64" where
  "matched_of r member =
     (if member = r_id r then last_index r
      else case map_of (r_progress r) member of None \<Rightarrow> 0 | Some p \<Rightarrow> pr_matched p)"

text \<open>\<open>advance_commit\<close>; \<open>None\<close> is the panic on an empty voter group.\<close>

definition advance_commit :: "'c raft \<Rightarrow> ('c raft \<times> bool) option" where
  "advance_commit r =
     map_option (\<lambda>candidate.
        if candidate > ps_commit_index (r_state r)
           \<and> term_at r candidate = Some (ps_term (r_state r))
        then (r\<lparr>r_state := (r_state r)\<lparr>ps_commit_index := candidate\<rparr>\<rparr>, True)
        else (r, False))
      (quorum_index (ps_configuration (r_state r)) (matched_of r))"

definition retry_quorum_probe :: "'c raft \<Rightarrow> 'c raft_output \<Rightarrow> 'c raft_output" where
  "retry_quorum_probe r out =
     (case lv_quorum (r_liveness r) of
        None \<Rightarrow> out
      | Some q \<Rightarrow>
          emit_all r (filter (\<lambda>m. m \<notin> qr_voters q) (ascending (cfg_voters (ps_configuration (r_state r)))))
            (QuorumProbe (ps_term (r_state r)) (qr_round q)) out)"

definition start_quorum_probe :: "'c raft \<Rightarrow> 'c raft_output \<Rightarrow> 'c raft \<times> 'c raft_output" where
  "start_quorum_probe r out =
     (let r1 = r\<lparr>r_liveness := (r_liveness r)
            \<lparr>lv_quorum := Some \<lparr>qr_round = r_generation r, qr_voters = {r_id r}\<rparr>\<rparr>\<rparr>
      in (r1, retry_quorum_probe r1 (out\<lparr>out_reset_election_timer := True\<rparr>)))"

definition fresh_progress :: "u64 \<Rightarrow> progress" where
  "fresh_progress next =
     \<lparr>pr_matched = 0, pr_next = next, pr_in_flight = [], pr_probing = True, pr_sent_commit = 0\<rparr>"

definition become_leader :: "'c raft \<Rightarrow> 'c raft_output \<Rightarrow> 'c outcome" where
  "become_leader r out =
     (let next = last_index r + 1;
          peers = filter (\<lambda>m. m \<noteq> r_id r) (members (ps_configuration (r_state r)));
          r1 = r\<lparr>r_role := Leader, r_leader := Some (r_id r),
                 r_progress := fold (\<lambda>m. bt_insert m (fresh_progress next)) peers (r_progress r)\<rparr>;
          r2 = (if length (ps_entries (r_state r)) < max_log_entries (r_limits r) \<and> next < u64_max
                then r1\<lparr>r_log_changed := True,
                        r_state := (r_state r1)\<lparr>ps_entries := ps_entries (r_state r1) @
                          [\<lparr>e_term = ps_term (r_state r1), e_command = None\<rparr>]\<rparr>\<rparr>
                else r1)
      in case advance_commit r2 of
           None \<Rightarrow> Inl (Panic, r2)
         | Some (r3, _) \<Rightarrow>
             and_then (broadcast r3 out False) (\<lambda>(r4, out4).
               Inr (if lv_enabled (r_liveness r4) then start_quorum_probe r4 out4 else (r4, out4))))"

definition campaign :: "'c raft \<Rightarrow> 'c raft_output \<Rightarrow> 'c outcome" where
  "campaign r out =
     (if r_role r = Leader then Inr (r, out)
      else case checked_add (ps_term (r_state r)) 1 of
        None \<Rightarrow> Inl (Err CounterExhausted, r)
      | Some t \<Rightarrow>
        (let r1 = follow r t;
             r2 = r1\<lparr>r_role := Candidate,
                     r_state := (r_state r1)\<lparr>ps_voted_for := Some (r_id r1)\<rparr>,
                     r_votes := insert (r_id r1) (r_votes r1)\<rparr>;
             out1 = out\<lparr>out_reset_election_timer := True\<rparr>
         in if quorum (ps_configuration (r_state r2)) (r_votes r2) then become_leader r2 out1
            else Inr (r2, emit_all r2
                   (filter (\<lambda>m. m \<noteq> r_id r2) (ascending (cfg_voters (ps_configuration (r_state r2)))))
                   (RequestVote t (last_index r2) (last_term r2)) out1)))"

definition pre_campaign :: "'c raft \<Rightarrow> 'c raft_output \<Rightarrow> 'c outcome" where
  "pre_campaign r out =
     (if r_role r = Leader then Inr (r, out)
      else case checked_add (ps_term (r_state r)) 1 of
        None \<Rightarrow> Inl (Err CounterExhausted, r)
      | Some t \<Rightarrow>
        (let r1 = (follow r (ps_term (r_state r)))\<lparr>r_incoming_snapshot := None, r_role := PreCandidate\<rparr>;
             voters = {r_id r1};
             out1 = out\<lparr>out_reset_election_timer := True\<rparr>
         in if quorum (ps_configuration (r_state r1)) voters then campaign r1 out1
            else (let r2 = r1\<lparr>r_liveness := (r_liveness r1)\<lparr>lv_pre_vote :=
                       Some \<lparr>pv_term = t, pv_round = r_generation r1, pv_voters = voters\<rparr>\<rparr>\<rparr>
                  in Inr (r2, emit_all r2
                       (filter (\<lambda>m. m \<noteq> r_id r2) (ascending (cfg_voters (ps_configuration (r_state r2)))))
                       (PreVoteRequest t (r_generation r2) (last_index r2) (last_term r2)) out1))))"

definition liveness_timeout :: "'c raft \<Rightarrow> 'c raft_output \<Rightarrow> 'c outcome" where
  "liveness_timeout r0 out =
     (let r = r0\<lparr>r_liveness := (r_liveness r0)\<lparr>lv_enabled := True\<rparr>\<rparr>
      in if r_role r \<noteq> Leader then pre_campaign r out
         else if (case lv_quorum (r_liveness r) of None \<Rightarrow> False
                  | Some q \<Rightarrow> \<not> quorum (ps_configuration (r_state r)) (qr_voters q))
         then Inr (follow r (ps_term (r_state r)), out\<lparr>out_reset_election_timer := True\<rparr>)
         else Inr (start_quorum_probe r out))"

text \<open>The freshness test \<open>(last_term, last_index) >= (self.last_term(), self.last_index())\<close>.\<close>

definition log_fresh :: "'c raft \<Rightarrow> u64 \<Rightarrow> u64 \<Rightarrow> bool" where
  "log_fresh r lastindex lastterm \<longleftrightarrow>
     lastterm > last_term r \<or> (lastterm = last_term r \<and> lastindex \<ge> last_index r)"

definition pre_vote_request ::
  "'c raft \<Rightarrow> member_id \<Rightarrow> u64 \<Rightarrow> u64 \<Rightarrow> u64 \<Rightarrow> u64 \<Rightarrow> 'c raft_output \<Rightarrow> 'c raft_output" where
  "pre_vote_request r from prospective round lastindex lastterm out =
     (let granted = (r_id r \<in> cfg_voters (ps_configuration (r_state r)) \<and> r_leader r = None
            \<and> prospective > ps_term (r_state r) \<and> log_fresh r lastindex lastterm)
      in emit r from (PreVoteReply (ps_term (r_state r)) prospective round granted) out)"

definition pre_vote_reply ::
  "'c raft \<Rightarrow> member_id \<Rightarrow> u64 \<Rightarrow> u64 \<Rightarrow> bool \<Rightarrow> 'c raft_output \<Rightarrow> 'c outcome" where
  "pre_vote_reply r from prospective round granted out =
     (if r_role r \<noteq> PreCandidate \<or> \<not> granted then Inr (r, out)
      else case lv_pre_vote (r_liveness r) of
        None \<Rightarrow> Inr (r, out)
      | Some pending \<Rightarrow>
        if pv_round pending \<noteq> round \<or> pv_term pending \<noteq> prospective then Inr (r, out)
        else
          (let voters = insert from (pv_voters pending);
               r1 = r\<lparr>r_liveness := (r_liveness r)
                      \<lparr>lv_pre_vote := Some (pending\<lparr>pv_voters := voters\<rparr>)\<rparr>\<rparr>
           in if quorum (ps_configuration (r_state r1)) voters then campaign r1 out
              else Inr (r1, out)))"

definition quorum_probe ::
  "'c raft \<Rightarrow> member_id \<Rightarrow> u64 \<Rightarrow> u64 \<Rightarrow> 'c raft_output \<Rightarrow> 'c raft \<times> 'c raft_output" where
  "quorum_probe r from t round out =
     (let (r1, out1) = (if t = ps_term (r_state r) then accept_leader r from t out else (r, out))
      in (r1, if r_id r1 \<in> cfg_voters (ps_configuration (r_state r1))
              then emit r1 from (QuorumReply (ps_term (r_state r1)) round) out1 else out1))"

definition quorum_reply :: "'c raft \<Rightarrow> member_id \<Rightarrow> u64 \<Rightarrow> u64 \<Rightarrow> 'c raft" where
  "quorum_reply r from t round =
     (if r_role r \<noteq> Leader \<or> t \<noteq> ps_term (r_state r) then r
      else case lv_quorum (r_liveness r) of
        None \<Rightarrow> r
      | Some q \<Rightarrow>
        if round = qr_round q
        then r\<lparr>r_liveness := (r_liveness r)
                \<lparr>lv_quorum := Some (q\<lparr>qr_voters := insert from (qr_voters q)\<rparr>)\<rparr>\<rparr>
        else r)"

section \<open>Leadership handoff\<close>

definition start_handoff :: "'c raft \<Rightarrow> member_id \<Rightarrow> 'c raft_output \<Rightarrow> 'c outcome" where
  "start_handoff r target out =
     (let r1 = (if r_handoff r = None
                then r\<lparr>r_handoff := Some
                       \<lparr>lt_id = \<lparr>pid_incarnation = r_incarnation r, pid_generation = r_generation r\<rparr>,
                        lt_target = target, lt_term = ps_term (r_state r),
                        lt_last_index = last_index r, lt_last_term = last_term r,
                        lt_phase = CatchingUp\<rparr>\<rparr>
                else r)
      in if (case map_of (r_progress r1) target of None \<Rightarrow> False
             | Some p \<Rightarrow> pr_matched p < last_index r1)
         then send_append r1 target out True
         else Inr (r1, out))"

definition drive_handoff :: "'c raft \<Rightarrow> 'c raft_output \<Rightarrow> bool \<Rightarrow> 'c raft \<times> 'c raft_output" where
  "drive_handoff r out retry =
     (case r_handoff r of
        None \<Rightarrow> (r, out)
      | Some pending \<Rightarrow>
        if r_role r \<noteq> Leader \<or> ps_term (r_state r) \<noteq> lt_term pending then (r, out)
        else
          (let caught_up = (case map_of (r_progress r) (lt_target pending) of None \<Rightarrow> False
                 | Some p \<Rightarrow> pr_matched p \<ge> lt_last_index pending)
           in if \<not> caught_up \<or> (\<not> retry \<and> lt_phase pending = ElectionRequested) then (r, out)
              else (r\<lparr>r_handoff := Some (pending\<lparr>lt_phase := ElectionRequested\<rparr>)\<rparr>,
                    emit r (lt_target pending)
                      (TimeoutNow (lt_term pending) (pid_generation (lt_id pending))
                         (lt_last_index pending) (lt_last_term pending)) out)))"

definition timeout_now ::
  "'c raft \<Rightarrow> member_id \<Rightarrow> u64 \<Rightarrow> u64 \<Rightarrow> u64 \<Rightarrow> 'c raft_output \<Rightarrow> 'c outcome" where
  "timeout_now r from t lastindex lastterm out =
     (if r_role r \<noteq> Follower \<or> t \<noteq> ps_term (r_state r) \<or> r_leader r \<noteq> Some from
         \<or> r_id r \<notin> cfg_voters (ps_configuration (r_state r))
         \<or> r_incoming_snapshot r \<noteq> None
         \<or> (last_index r, last_term r) \<noteq> (lastindex, lastterm)
      then Inr (r, out)
      else campaign r out)"

definition leadership_transfer_of :: "'c raft \<Rightarrow> error + leadership_transfer option" where
  "leadership_transfer_of r = and_then (available r) (\<lambda>_. Inr (r_handoff r))"

section \<open>Snapshots\<close>

definition reset_progress :: "progress \<Rightarrow> progress" where
  "reset_progress p = p\<lparr>pr_in_flight := [], pr_next := pr_matched p + 1, pr_probing := True\<rparr>"

definition compact :: "'c raft \<Rightarrow> snapshot_cut \<Rightarrow> 'c raft_output \<Rightarrow> 'c outcome" where
  "compact r snapshot out =
     (if ps_snapshot (r_state r) = Some snapshot then Inr (r, out)
      else case Option.bind (checked_sub (sc_index snapshot) (base_index (r_state r)))
             (list_drain (ps_entries (r_state r))) of
        None \<Rightarrow> Inl (Panic, r)
      | Some entries \<Rightarrow>
          Inr (r\<lparr>r_state := (r_state r)\<lparr>ps_entries := entries, ps_snapshot := Some snapshot\<rparr>,
                 r_log_changed := True,
                 r_progress := map (\<lambda>(m, p). (m, reset_progress p)) (r_progress r)\<rparr>, out))"

definition offer_snapshot ::
  "'c raft \<Rightarrow> member_id \<Rightarrow> u64 \<Rightarrow> u64 \<Rightarrow> snapshot_cut \<Rightarrow> 'c raft_output \<Rightarrow>
   'c raft \<times> 'c raft_output" where
  "offer_snapshot r from t request snapshot out =
     (if t < ps_term (r_state r)
      then (r, emit r from (Appended (ps_term (r_state r)) request False (last_index r + 1)) out)
      else let (r1, out1) = accept_leader r from t out
      in if sc_index snapshot \<le> ps_commit_index (r_state r1)
         then (r1, emit r1 from (SnapshotInstalled t request) out1)
         else
           (let fresh = (let transfer =
                   \<lparr>st_id = \<lparr>pid_incarnation = r_incarnation r1, pid_generation = r_generation r1\<rparr>,
                    st_source = from, st_snapshot = snapshot\<rparr>
                 in (r1\<lparr>r_incoming_snapshot := Some \<lparr>is_transfer = transfer, is_term = t,
                          is_request = request\<rparr>\<rparr>,
                     out1\<lparr>out_snapshot_transfers := out_snapshot_transfers out1 @ [transfer]\<rparr>))
            in case r_incoming_snapshot r1 of
                 None \<Rightarrow> fresh
               | Some pending \<Rightarrow>
                   if is_term pending = t \<and> is_request pending = request
                      \<and> st_source (is_transfer pending) = from
                      \<and> st_snapshot (is_transfer pending) = snapshot
                   then (r1, out1\<lparr>out_snapshot_transfers :=
                           out_snapshot_transfers out1 @ [is_transfer pending]\<rparr>)
                   else if is_term pending = t \<and> st_source (is_transfer pending) = from
                      \<and> request < is_request pending
                   then (r1, out1)
                   else fresh))"

definition install_snapshot :: "'c raft \<Rightarrow> 'c raft_output \<Rightarrow> 'c outcome" where
  "install_snapshot r out =
     (case r_incoming_snapshot r of
        None \<Rightarrow> Inl (Err StaleSnapshotTransfer, r)
      | Some pending \<Rightarrow>
        (let snapshot = st_snapshot (is_transfer pending);
             r1 = r\<lparr>r_incoming_snapshot := None\<rparr>
         in if sc_index snapshot \<le> ps_commit_index (r_state r1)
            then Inl (Err StaleSnapshotTransfer, r1)
            else case (if term_at r1 (sc_index snapshot) = Some (sc_term snapshot)
                       then Option.bind (checked_sub (sc_index snapshot) (base_index (r_state r1)))
                              (list_drain (ps_entries (r_state r1)))
                       else Some []) of
              None \<Rightarrow> Inl (Panic, r1)
            | Some entries \<Rightarrow>
              (let r2 = r1\<lparr>r_state := (r_state r1)\<lparr>ps_entries := entries,
                             ps_commit_index := sc_index snapshot, ps_snapshot := Some snapshot\<rparr>,
                           r_log_changed := True\<rparr>
               in Inr (r2, emit r2 (st_source (is_transfer pending))
                      (SnapshotInstalled (ps_term (r_state r2)) (is_request pending))
                      (out\<lparr>out_installed_snapshot := Some snapshot\<rparr>)))))"

section \<open>Proposals and acknowledgements\<close>

definition validate_proposal_count :: "'c raft \<Rightarrow> nat \<Rightarrow> error + unit" where
  "validate_proposal_count r count =
     (if r_role r \<noteq> Leader then Inl NotLeader
      else if r_handoff r \<noteq> None then Inl LeadershipTransferInProgress
      else if count = 0 then Inl InvalidMessage
      else if count > max_append_entries (r_limits r) then Inl AppendTooLarge
      else if count > saturating_sub (max_log_entries (r_limits r)) (length (ps_entries (r_state r)))
      then Inl LogFull
      else case checked_add (last_index r) count of
        None \<Rightarrow> Inl CounterExhausted
      | Some endpoint \<Rightarrow> if endpoint < u64_max then Inr () else Inl CounterExhausted)"

definition check_proposal_count :: "'c raft \<Rightarrow> nat \<Rightarrow> error + unit" where
  "check_proposal_count r count = and_then (available r) (\<lambda>_. validate_proposal_count r count)"

definition append_proposals :: "'c raft \<Rightarrow> 'c list \<Rightarrow> 'c raft_output \<Rightarrow> 'c outcome" where
  "append_proposals r commands out =
     (let t = ps_term (r_state r);
          r1 = r\<lparr>r_log_changed := True,
                 r_state := (r_state r)\<lparr>ps_entries := ps_entries (r_state r) @
                   map (\<lambda>command. \<lparr>e_term = t, e_command = Some command\<rparr>) commands\<rparr>\<rparr>
      in case advance_commit r1 of
           None \<Rightarrow> Inl (Panic, r1)
         | Some (r2, _) \<Rightarrow> broadcast r2 out False)"

definition acknowledge_progress :: "u64 \<Rightarrow> progress \<Rightarrow> progress" where
  "acknowledge_progress endpoint p =
     (let matched = max (pr_matched p) endpoint
      in p\<lparr>pr_matched := matched, pr_next := max (pr_next p) (matched + 1), pr_probing := False,
           pr_in_flight := filter (\<lambda>flight. flight_last flight > endpoint) (pr_in_flight p)\<rparr>)"

definition acknowledge :: "'c raft \<Rightarrow> member_id \<Rightarrow> u64 \<Rightarrow> 'c raft_output \<Rightarrow> 'c outcome" where
  "acknowledge r from endpoint out =
     (let r1 = set_progress r from (acknowledge_progress endpoint)
      in case advance_commit r1 of
           None \<Rightarrow> Inl (Panic, r1)
         | Some (r2, advanced) \<Rightarrow>
             if advanced then broadcast r2 out False
             else if endpoint < last_index r2
               \<or> (case map_of (r_progress r2) from of None \<Rightarrow> False
                  | Some p \<Rightarrow> pr_in_flight p = [] \<and> pr_sent_commit p < ps_commit_index (r_state r2))
             then send_append r2 from out False
             else Inr (r2, out))"

section \<open>Receiving messages\<close>

definition receive_request_vote ::
  "'c raft \<Rightarrow> member_id \<Rightarrow> u64 \<Rightarrow> u64 \<Rightarrow> u64 \<Rightarrow> 'c raft_output \<Rightarrow> 'c raft \<times> 'c raft_output" where
  "receive_request_vote r from t lastindex lastterm out =
     (let granted = (t = ps_term (r_state r)
            \<and> r_id r \<in> cfg_voters (ps_configuration (r_state r))
            \<and> (ps_voted_for (r_state r) = None \<or> ps_voted_for (r_state r) = Some from)
            \<and> log_fresh r lastindex lastterm);
          (r2, out2) =
            (if granted
             then (let r1 = (if r_role r = PreCandidate then follow r t else r)
                   in (r1\<lparr>r_state := (r_state r1)\<lparr>ps_voted_for := Some from\<rparr>\<rparr>,
                       out\<lparr>out_reset_election_timer := True\<rparr>))
             else (r, out))
      in (r2, emit r2 from (Vote (ps_term (r_state r2)) granted) out2))"

definition receive_vote ::
  "'c raft \<Rightarrow> member_id \<Rightarrow> u64 \<Rightarrow> bool \<Rightarrow> 'c raft_output \<Rightarrow> 'c outcome" where
  "receive_vote r from t granted out =
     (if t = ps_term (r_state r) \<and> r_role r = Candidate \<and> granted
      then (let r1 = r\<lparr>r_votes := insert from (r_votes r)\<rparr>
            in if quorum (ps_configuration (r_state r1)) (r_votes r1)
               then become_leader r1 out else Inr (r1, out))
      else Inr (r, out))"

text \<open>The search of a rejected append for the first index of the conflicting term.\<close>

fun back_off :: "'c raft \<Rightarrow> u64 \<Rightarrow> u64 \<Rightarrow> u64 \<Rightarrow> u64" where
  "back_off r base conflict_term next =
     (if next > base + 1 \<and> term_at r (next - 1) = Some conflict_term
      then back_off r base conflict_term (next - 1) else next)"

declare back_off.simps [simp del]

definition conflict_hint :: "'c raft \<Rightarrow> u64 \<Rightarrow> u64" where
  "conflict_hint r prev_index =
     (let base = base_index (r_state r);
          next = min (saturating_add (last_index r) 1) (max prev_index 1)
      in if prev_index < base then base + 1
         else case term_at r prev_index of
           None \<Rightarrow> next
         | Some conflict_term \<Rightarrow> back_off r base conflict_term next)"

text \<open>Merging the entries of an accepted append: truncate at a conflicting term, push what is
  missing.\<close>

definition merge_entry :: "nat \<Rightarrow> 'c entry \<Rightarrow> 'c raft \<Rightarrow> 'c raft" where
  "merge_entry position entry r =
     (let r1 = (case list_get (ps_entries (r_state r)) position of None \<Rightarrow> r
                | Some stored \<Rightarrow>
                    if e_term stored \<noteq> e_term entry
                    then r\<lparr>r_log_changed := True,
                           r_state := (r_state r)\<lparr>ps_entries := take position (ps_entries (r_state r))\<rparr>\<rparr>
                    else r)
      in if position = length (ps_entries (r_state r1))
         then r1\<lparr>r_log_changed := True,
                 r_state := (r_state r1)\<lparr>ps_entries := ps_entries (r_state r1) @ [entry]\<rparr>\<rparr>
         else r1)"

fun merge_entries :: "nat \<Rightarrow> 'c entry list \<Rightarrow> 'c raft \<Rightarrow> 'c raft" where
  "merge_entries position [] r = r"
| "merge_entries position (entry # rest) r =
     merge_entries (position + 1) rest (merge_entry position entry r)"

definition receive_append ::
  "'c raft \<Rightarrow> member_id \<Rightarrow> u64 \<Rightarrow> u64 \<Rightarrow> u64 \<Rightarrow> u64 \<Rightarrow> 'c entry list \<Rightarrow> u64 \<Rightarrow> 'c raft_output \<Rightarrow>
   'c raft \<times> 'c raft_output" where
  "receive_append r from t request prev_index prev_term entries leader_commit out =
     (if t < ps_term (r_state r)
      then (r, emit r from (Appended (ps_term (r_state r)) request False (last_index r + 1)) out)
      else let (r1, out1) = accept_leader r from t out
      in if term_at r1 prev_index \<noteq> Some prev_term
         then (r1, emit r1 from (Appended t request False (conflict_hint r1 prev_index)) out1)
         else
           (let matched = prev_index + length entries;
                r2 = merge_entries (prev_index - base_index (r_state r1)) entries r1;
                r3 = r2\<lparr>r_state := (r_state r2)\<lparr>ps_commit_index :=
                       max (ps_commit_index (r_state r2)) (min leader_commit matched)\<rparr>\<rparr>;
                r4 = (case r_incoming_snapshot r3 of None \<Rightarrow> r3
                      | Some pending \<Rightarrow>
                          if sc_index (st_snapshot (is_transfer pending)) \<le> ps_commit_index (r_state r3)
                          then r3\<lparr>r_incoming_snapshot := None\<rparr> else r3)
            in (r4, emit r4 from (Appended t request True 0) out1)))"

definition reject_progress :: "u64 \<Rightarrow> u64 \<Rightarrow> u64 \<Rightarrow> progress \<Rightarrow> progress" where
  "reject_progress prev ceiling conflict_next p =
     (let hint = (if conflict_next > prev + 1 then min conflict_next ceiling
                  else min (max conflict_next 1) (max prev 1))
      in p\<lparr>pr_next := max hint (pr_matched p + 1), pr_in_flight := [], pr_probing := True\<rparr>)"

definition receive_appended ::
  "'c raft \<Rightarrow> member_id \<Rightarrow> u64 \<Rightarrow> u64 \<Rightarrow> bool \<Rightarrow> u64 \<Rightarrow> 'c raft_output \<Rightarrow> 'c outcome" where
  "receive_appended r from t request success conflict_next out =
     (if t \<noteq> ps_term (r_state r) \<or> r_role r \<noteq> Leader then Inr (r, out)
      else case pending_append r from request of
        Some (FlightAppend _ prev endpoint) \<Rightarrow>
          if success then acknowledge r from endpoint out
          else send_append (set_progress r from (reject_progress prev (last_index r + 1) conflict_next))
                 from out False
      | _ \<Rightarrow> Inr (r, out))"

definition receive_snapshot_installed ::
  "'c raft \<Rightarrow> member_id \<Rightarrow> u64 \<Rightarrow> u64 \<Rightarrow> 'c raft_output \<Rightarrow> 'c outcome" where
  "receive_snapshot_installed r from t request out =
     (if t \<noteq> ps_term (r_state r) \<or> r_role r \<noteq> Leader then Inr (r, out)
      else case map_of (r_progress r) from of
        None \<Rightarrow> Inr (r, out)
      | Some p \<Rightarrow>
        (case pr_in_flight p of
           FlightSnapshot expected snapshot # _ \<Rightarrow>
             if expected = request then acknowledge r from (sc_index snapshot) out else Inr (r, out)
         | _ \<Rightarrow> Inr (r, out)))"

definition receive :: "'c raft \<Rightarrow> 'c envelope \<Rightarrow> 'c raft_output \<Rightarrow> 'c outcome" where
  "receive r0 envelope out =
     (let from = env_from envelope;
          t = message_term (env_message envelope);
          r = (if t > ps_term (r_state r0) then follow r0 t else r0)
      in case env_message envelope of
           PreVoteRequest prospective round lastindex lastterm \<Rightarrow>
             Inr (r, pre_vote_request r from prospective round lastindex lastterm out)
         | PreVoteReply _ prospective round granted \<Rightarrow>
             pre_vote_reply r from prospective round granted out
         | QuorumProbe _ round \<Rightarrow> Inr (quorum_probe r from t round out)
         | QuorumReply _ round \<Rightarrow> Inr (quorum_reply r from t round, out)
         | TimeoutNow _ _ lastindex lastterm \<Rightarrow> timeout_now r from t lastindex lastterm out
         | RequestVote _ lastindex lastterm \<Rightarrow>
             Inr (receive_request_vote r from t lastindex lastterm out)
         | Vote _ granted \<Rightarrow> receive_vote r from t granted out
         | Append _ request prev_index prev_term entries leader_commit \<Rightarrow>
             Inr (receive_append r from t request prev_index prev_term entries leader_commit out)
         | Appended _ request success conflict_next \<Rightarrow>
             receive_appended r from t request success conflict_next out
         | InstallSnapshot _ request snapshot \<Rightarrow>
             Inr (offer_snapshot r from t request snapshot out)
         | SnapshotInstalled _ request \<Rightarrow> receive_snapshot_installed r from t request out)"

section \<open>Validation\<close>

definition require :: "bool \<Rightarrow> error \<Rightarrow> error + unit" where
  "require condition e = (if condition then Inr () else Inl e)"

fun liveness_validate :: "'c message \<Rightarrow> error + unit" where
  "liveness_validate (PreVoteRequest prospective round lastindex lastterm) =
     (if prospective = 0 \<or> round = 0 \<or> lastindex = u64_max
         \<or> (lastindex = 0) \<noteq> (lastterm = 0) \<or> lastterm \<ge> prospective
      then Inl InvalidMessage else Inr ())"
| "liveness_validate (PreVoteReply t prospective round granted) =
     (if prospective = 0 \<or> round = 0 \<or> (granted \<and> t \<ge> prospective)
      then Inl InvalidMessage else Inr ())"
| "liveness_validate (QuorumProbe _ round) = (if round = 0 then Inl InvalidMessage else Inr ())"
| "liveness_validate (QuorumReply _ round) = (if round = 0 then Inl InvalidMessage else Inr ())"
| "liveness_validate _ = Inr ()"

fun leadership_validate_message :: "'c message \<Rightarrow> error + unit" where
  "leadership_validate_message (TimeoutNow t round lastindex lastterm) =
     (if t = 0 \<or> t = u64_max \<or> round = 0 \<or> lastindex = u64_max
         \<or> (lastindex = 0) \<noteq> (lastterm = 0) \<or> lastterm > t
      then Inl InvalidMessage else Inr ())"
| "leadership_validate_message _ = Inr ()"

fun leadership_validate_event :: "'c raft \<Rightarrow> 'c event \<Rightarrow> error + unit" where
  "leadership_validate_event r (TransferLeadership target) =
     (if r_role r \<noteq> Leader then Inl NotLeader
      else if target = r_id r \<or> target \<notin> cfg_voters (ps_configuration (r_state r))
      then Inl InvalidLeadershipTarget
      else if ps_term (r_state r) = u64_max then Inl CounterExhausted
      else if (case r_handoff r of None \<Rightarrow> False | Some pending \<Rightarrow> lt_target pending \<noteq> target)
      then Inl LeadershipTransferInProgress
      else Inr ())"
| "leadership_validate_event r (AbortLeadershipTransfer token) =
     (if (case r_handoff r of None \<Rightarrow> True | Some pending \<Rightarrow> lt_id pending \<noteq> token)
      then Inl StaleLeadershipTransfer else Inr ())"
| "leadership_validate_event r _ = Inr ()"

definition validate_snapshot :: "'c raft \<Rightarrow> snapshot_cut \<Rightarrow> error + unit" where
  "validate_snapshot r snapshot =
     (if sc_domain snapshot \<noteq> cfg_domain (ps_configuration (r_state r)) then Inl WrongDomain
      else if sc_configuration snapshot \<noteq> cfg_identity (ps_configuration (r_state r))
      then Inl WrongConfiguration
      else Inr ())"

text \<open>The comparison with the retained log, which stops at the first differing term.\<close>

fun validate_overlap :: "'c raft \<Rightarrow> u64 \<Rightarrow> 'c entry list \<Rightarrow> error + unit" where
  "validate_overlap r index [] = Inr ()"
| "validate_overlap r index (entry # rest) =
     (case entry_at r index of
        None \<Rightarrow> validate_overlap r (index + 1) rest
      | Some stored \<Rightarrow>
        if e_term stored \<noteq> e_term entry
        then (if index \<le> ps_commit_index (r_state r) then Inl CommittedConflict else Inr ())
        else if e_command stored \<noteq> e_command entry then Inl EntryIdentityConflict
        else validate_overlap r (index + 1) rest)"

definition validate_append ::
  "'c raft \<Rightarrow> u64 \<Rightarrow> u64 \<Rightarrow> u64 \<Rightarrow> 'c entry list \<Rightarrow> error + unit" where
  "validate_append r t prev_index prev_term entries =
     (if length entries > max_append_entries (r_limits r) then Inl AppendTooLarge
      else if (prev_index = 0) \<noteq> (prev_term = 0) \<or> prev_term > t then Inl InvalidMessage
      else case checked_add prev_index (length entries) of
        None \<Rightarrow> Inl InvalidMessage
      | Some endpoint \<Rightarrow>
        if \<not> endpoint < u64_max then Inl InvalidMessage
        else if \<not> entry_terms_ok prev_term t entries then Inl InvalidMessage
        else if t \<ge> ps_term (r_state r) \<and> term_at r prev_index = Some prev_term
        then (if endpoint - base_index (r_state r) > max_log_entries (r_limits r) then Inl LogFull
              else validate_overlap r (prev_index + 1) entries)
        else Inr ())"

definition validate_install_snapshot ::
  "'c raft \<Rightarrow> member_id \<Rightarrow> u64 \<Rightarrow> u64 \<Rightarrow> snapshot_cut \<Rightarrow> error + unit" where
  "validate_install_snapshot r from t request snapshot =
     and_then (validate_snapshot r snapshot) (\<lambda>_.
       if sc_term snapshot > t then Inl InvalidSnapshot
       else if t \<ge> ps_term (r_state r)
       then (if sc_index snapshot \<le> ps_commit_index (r_state r)
                \<and> (case term_at r (sc_index snapshot) of None \<Rightarrow> False
                   | Some stored \<Rightarrow> stored \<noteq> sc_term snapshot)
             then Inl SnapshotConflict
             else if (case r_incoming_snapshot r of None \<Rightarrow> False
                      | Some pending \<Rightarrow> is_term pending = t
                          \<and> st_source (is_transfer pending) = from
                          \<and> is_request pending = request
                          \<and> st_snapshot (is_transfer pending) \<noteq> snapshot)
             then Inl SnapshotConflict
             else Inr ())
       else Inr ())"

fun validate_body :: "'c raft \<Rightarrow> member_id \<Rightarrow> 'c message \<Rightarrow> error + unit" where
  "validate_body r from (Append t _ prev_index prev_term entries _) =
     validate_append r t prev_index prev_term entries"
| "validate_body r from (RequestVote t lastindex lastterm) =
     (if (lastindex = 0) \<noteq> (lastterm = 0) \<or> lastterm > t \<or> lastindex = u64_max
      then Inl InvalidMessage else Inr ())"
| "validate_body r from (InstallSnapshot t request snapshot) =
     validate_install_snapshot r from t request snapshot"
| "validate_body r from _ = Inr ()"

definition validate_receive :: "'c raft \<Rightarrow> 'c envelope \<Rightarrow> error + unit" where
  "validate_receive r envelope =
     (let c = ps_configuration (r_state r); msg = env_message envelope
      in if env_domain envelope \<noteq> cfg_domain c then Inl WrongDomain
         else if env_configuration envelope \<noteq> cfg_identity c then Inl WrongConfiguration
         else if env_to envelope \<noteq> r_id r \<or> env_from envelope = r_id r then Inl WrongRecipient
         else if \<not> contains c (env_from envelope) then Inl UnknownMember
         else if \<not> (case msg of Appended _ _ _ _ \<Rightarrow> True | SnapshotInstalled _ _ \<Rightarrow> True | _ \<Rightarrow> False)
                 \<and> env_from envelope \<notin> cfg_voters c then Inl NotVoter
         else if message_term msg = 0
                 \<and> \<not> (case msg of PreVoteRequest _ _ _ _ \<Rightarrow> True | PreVoteReply _ _ _ _ \<Rightarrow> True
                      | _ \<Rightarrow> False) then Inl InvalidMessage
         else and_then (liveness_validate msg) (\<lambda>_.
              and_then (leadership_validate_message msg) (\<lambda>_.
                validate_body r (env_from envelope) msg)))"

definition validate_compact :: "'c raft \<Rightarrow> snapshot_cut \<Rightarrow> error + unit" where
  "validate_compact r snapshot =
     and_then (validate_snapshot r snapshot) (\<lambda>_.
       if ps_snapshot (r_state r) \<noteq> Some snapshot
          \<and> (sc_index snapshot \<le> base_index (r_state r)
             \<or> sc_index snapshot > ps_commit_index (r_state r)
             \<or> term_at r (sc_index snapshot) \<noteq> Some (sc_term snapshot))
       then Inl InvalidSnapshot else Inr ())"

definition validate_transfer :: "'c raft \<Rightarrow> snapshot_transfer_id \<Rightarrow> error + unit" where
  "validate_transfer r token =
     (if (case r_incoming_snapshot r of None \<Rightarrow> False
          | Some pending \<Rightarrow> st_id (is_transfer pending) = token
              \<and> is_term pending = ps_term (r_state r)
              \<and> r_leader r = Some (st_source (is_transfer pending)))
      then Inr () else Inl StaleSnapshotTransfer)"

definition validate_event :: "'c raft \<Rightarrow> 'c event \<Rightarrow> error + unit" where
  "validate_event r event =
     and_then (leadership_validate_event r event) (\<lambda>_.
       let voter = (r_id r \<in> cfg_voters (ps_configuration (r_state r)))
       in case event of
            ElectionTimeout \<Rightarrow> require voter NotVoter
          | LivenessTimeout \<Rightarrow>
              and_then (require voter NotVoter) (\<lambda>_.
                require (\<not> (r_role r \<noteq> Leader \<and> ps_term (r_state r) = u64_max)) CounterExhausted)
          | Propose _ \<Rightarrow> validate_proposal_count r 1
          | ProposeBatch commands \<Rightarrow> validate_proposal_count r (length commands)
          | Compact snapshot \<Rightarrow> validate_compact r snapshot
          | SnapshotReady token \<Rightarrow> validate_transfer r token
          | SnapshotFailed token \<Rightarrow> validate_transfer r token
          | Receive envelope \<Rightarrow> validate_receive r envelope
          | _ \<Rightarrow> Inr ())"

section \<open>Steps\<close>

definition empty_output :: "'c raft \<Rightarrow> 'c raft_output" where
  "empty_output r =
     \<lparr>out_messages = [], out_committed = [], out_snapshot_transfers = [],
      out_cancelled_snapshot_transfers = [], out_installed_snapshot = None,
      out_reset_election_timer = False, out_role = r_role r, out_leader = r_leader r\<rparr>"

fun dispatch :: "'c raft \<Rightarrow> 'c event \<Rightarrow> 'c raft_output \<Rightarrow> 'c outcome" where
  "dispatch r ElectionTimeout out = campaign r out"
| "dispatch r LivenessTimeout out = liveness_timeout (r\<lparr>r_handoff := None\<rparr>) out"
| "dispatch r (TransferLeadership target) out = start_handoff r target out"
| "dispatch r (AbortLeadershipTransfer _) out = Inr (r\<lparr>r_handoff := None\<rparr>, out)"
| "dispatch r Heartbeat out =
     (if r_role r = Leader
      then and_then (broadcast r out True) (\<lambda>(r1, out1). Inr (r1, retry_quorum_probe r1 out1))
      else Inr (r, out))"
| "dispatch r (Propose command) out = append_proposals r [command] out"
| "dispatch r (ProposeBatch commands) out = append_proposals r commands out"
| "dispatch r (Receive envelope) out = receive r envelope out"
| "dispatch r (Compact snapshot) out = compact r snapshot out"
| "dispatch r (SnapshotReady _) out = install_snapshot r out"
| "dispatch r (SnapshotFailed _) out = Inr (r\<lparr>r_incoming_snapshot := None\<rparr>, out)"

fun retries_handoff :: "'c event \<Rightarrow> bool" where
  "retries_handoff Heartbeat = True"
| "retries_handoff (TransferLeadership _) = True"
| "retries_handoff _ = False"

definition cancel_transfers ::
  "snapshot_transfer_id option \<Rightarrow> 'c raft \<Rightarrow> 'c raft_output \<Rightarrow> 'c raft_output" where
  "cancel_transfers previous r out =
     (case previous of
        None \<Rightarrow> out
      | Some token \<Rightarrow>
          if out_installed_snapshot out = None
             \<and> \<not> (case r_incoming_snapshot r of None \<Rightarrow> False
                  | Some pending \<Rightarrow> st_id (is_transfer pending) = token)
          then out\<lparr>out_cancelled_snapshot_transfers := out_cancelled_snapshot_transfers out @ [token]\<rparr>
          else out)"

definition hard_state :: "'c persistent_state \<Rightarrow> u64 \<times> member_id option \<times> u64" where
  "hard_state s = (ps_term s, ps_voted_for s, ps_commit_index s)"

definition finish_step ::
  "'c raft \<Rightarrow> 'c event \<Rightarrow> 'c raft \<times> 'c raft_output \<Rightarrow> (fault \<times> 'c raft) + ('c raft \<times> 'c persistence)" where
  "finish_step r event reached =
     (let (r1, out1) = drive_handoff (fst reached) (snd reached) (retries_handoff event);
          previous = map_option (\<lambda>pending. st_id (is_transfer pending)) (r_incoming_snapshot r);
          out2 = cancel_transfers previous r1 out1
      in case committed_range r1 (ps_commit_index (r_state r)) of
           None \<Rightarrow> Inl (Panic, r1)
         | Some committed \<Rightarrow>
           (let out3 = out2\<lparr>out_committed := committed, out_role := r_role r1, out_leader := r_leader r1\<rparr>;
                writes = (\<not> r_initialized r1 \<or> r_log_changed r1
                          \<or> hard_state (r_state r) \<noteq> hard_state (r_state r1));
                token = \<lparr>pid_incarnation = r_incarnation r1, pid_generation = r_generation r1\<rparr>
            in Inr (r1\<lparr>r_pending := Some (token, out3), r_poisoned := False\<rparr>,
                    \<lparr>per_id = token, per_state = r_state r1, per_requires_write = writes\<rparr>)))"

definition step :: "'c raft \<Rightarrow> 'c event \<Rightarrow> (fault \<times> 'c raft) + ('c raft \<times> 'c persistence)" where
  "step r event =
     (case and_then (available r) (\<lambda>_. validate_event r event) of
        Inl e \<Rightarrow> Inl (Err e, r)
      | Inr _ \<Rightarrow>
        (case checked_add (r_generation r) 1 of
           None \<Rightarrow> Inl (Err CounterExhausted, r)
         | Some generation \<Rightarrow>
             and_then
               (dispatch (r\<lparr>r_log_changed := False, r_poisoned := True, r_generation := generation\<rparr>)
                  event (empty_output r))
               (finish_step r event)))"

definition persisted :: "'c raft \<Rightarrow> persistence_id \<Rightarrow> error + ('c raft \<times> 'c raft_output)" where
  "persisted r token =
     (if r_poisoned r then Inl RecoveryRequired
      else case r_pending r of
        None \<Rightarrow> Inl StalePersistence
      | Some (expected, out) \<Rightarrow>
          if expected = token
          then Inr (r\<lparr>r_pending := None, r_initialized := True\<rparr>, out)
          else Inl StalePersistence)"

end
