(* ===== verification/RaftLog.thy ===== *)
theory RaftLog
  imports RaftKernel
begin

text \<open>
  Log and persistent state of a node: valid states, which are the ones \<open>Raft::recover\<close> admits,
  log access by absolute index, the relation between a state and its successors, and what
  merging an append does to the log.
\<close>

section \<open>Entry terms\<close>

definition terms_ok :: "u64 \<Rightarrow> u64 \<Rightarrow> u64 list \<Rightarrow> bool" where
  "terms_ok previous t ts \<longleftrightarrow> sorted (previous # ts) \<and> (\<forall>x \<in> set ts. 0 < x \<and> x \<le> t)"

lemma terms_ok_Nil [simp]: "terms_ok previous t []"
  by (simp add: terms_ok_def)

lemma terms_ok_Cons [simp]:
  "terms_ok previous t (x # xs) \<longleftrightarrow> 0 < x \<and> previous \<le> x \<and> x \<le> t \<and> terms_ok x t xs"
  by (auto simp: terms_ok_def)

lemma entry_terms_ok_iff: "entry_terms_ok previous t es \<longleftrightarrow> terms_ok previous t (map e_term es)"
  by (induction previous t es rule: entry_terms_ok.induct) auto

lemma terms_ok_append:
  "terms_ok previous t (xs @ ys) \<longleftrightarrow>
     terms_ok previous t xs \<and> terms_ok (last (previous # xs)) t ys"
  by (induction xs arbitrary: previous) auto

lemma terms_ok_mono: "terms_ok previous t xs \<Longrightarrow> t \<le> t' \<Longrightarrow> terms_ok previous t' xs"
  by (auto simp: terms_ok_def)

lemma terms_ok_drop:
  assumes "terms_ok previous t xs" "0 < n" "n \<le> length xs"
  shows "terms_ok (xs ! (n - 1)) t (drop n xs)"
proof -
  have "terms_ok previous t (take n xs @ drop n xs)" using assms(1) by simp
  then have "terms_ok (last (previous # take n xs)) t (drop n xs)"
    by (simp only: terms_ok_append)
  moreover have "last (previous # take n xs) = xs ! (n - 1)"
    using assms(2,3) by (auto simp: last_conv_nth)
  ultimately show ?thesis by simp
qed

lemma terms_ok_last: "terms_ok previous t xs \<Longrightarrow> previous \<le> t \<Longrightarrow> last (previous # xs) \<le> t"
  by (auto simp: terms_ok_def)

section \<open>Valid persistent states\<close>

definition limits_ok :: "limits \<Rightarrow> bool" where
  "limits_ok lim \<longleftrightarrow> 0 < max_append_entries lim \<and> max_append_entries lim \<le> max_log_entries lim"

text \<open>What \<open>SnapshotCut::from_authenticated_parts\<close> admits.\<close>

definition cut_ok :: "configuration \<Rightarrow> snapshot_cut \<Rightarrow> bool" where
  "cut_ok c s \<longleftrightarrow> 0 < sc_index s \<and> sc_index s < u64_max \<and> 0 < sc_term s \<and>
     sc_domain s = cfg_domain c \<and> sc_configuration s = cfg_identity c"

definition last_of :: "'c persistent_state \<Rightarrow> u64" where
  "last_of s = base_index s + length (ps_entries s)"

definition state_ok :: "limits \<Rightarrow> member_id \<Rightarrow> 'c persistent_state \<Rightarrow> bool" where
  "state_ok lim me s \<longleftrightarrow>
     config_ok (ps_configuration s) \<and> contains (ps_configuration s) me \<and>
     last_of s < u64_max \<and> length (ps_entries s) \<le> max_log_entries lim \<and>
     base_index s \<le> ps_commit_index s \<and> ps_commit_index s \<le> last_of s \<and>
     base_term s \<le> ps_term s \<and>
     (\<forall>snap. ps_snapshot s = Some snap \<longrightarrow> cut_ok (ps_configuration s) snap) \<and>
     (ps_term s = 0 \<longrightarrow> ps_voted_for s = None) \<and>
     (\<forall>m. ps_voted_for s = Some m \<longrightarrow> m \<in> cfg_voters (ps_configuration s)) \<and>
     terms_ok (base_term s) (ps_term s) (map e_term (ps_entries s))"

lemma recover_state_ok:
  assumes "state_ok lim me s" "limits_ok lim"
  shows "\<exists>r. recover inc me s lim = Inr r"
  using assms
  by (auto simp: recover_def state_ok_def limits_ok_def last_of_def cut_ok_def checked_add_def
      entry_terms_ok_iff split: option.splits)

lemma recover_Inr:
  assumes "recover inc me s lim = Inr r"
  shows "r = \<lparr>r_id = me, r_state = s, r_role = Follower, r_leader = None, r_votes = {},
           r_progress = [], r_limits = lim, r_append_window = 1, r_generation = 0,
           r_incarnation = inc, r_initialized = True, r_log_changed = False,
           r_request = 0, r_incoming_snapshot = None, r_pending = None,
           r_poisoned = False, r_liveness = default_liveness, r_handoff = None\<rparr>"
    and "limits_ok lim"
    and "config_ok (ps_configuration s) \<Longrightarrow>
         (\<forall>snap. ps_snapshot s = Some snap \<longrightarrow> cut_ok (ps_configuration s) snap) \<Longrightarrow>
         state_ok lim me s"
  using assms
  by (auto simp: recover_def state_ok_def limits_ok_def last_of_def cut_ok_def checked_add_def
      entry_terms_ok_iff split: option.splits if_splits)

section \<open>Log access under the invariant\<close>

lemma last_index_last_of: "last_index r = last_of (r_state r)"
  by (simp add: last_index_def last_of_def)

definition entry_of :: "'c persistent_state \<Rightarrow> u64 \<Rightarrow> 'c entry option" where
  "entry_of s i =
     (if base_index s < i \<and> i \<le> last_of s then Some (ps_entries s ! (i - base_index s - 1)) else None)"

lemma entry_at_entry_of: "entry_at r i = entry_of (r_state r) i"
  by (cases "i \<le> base_index (r_state r)")
    (auto simp: entry_at_def entry_of_def rust_simps last_of_def)

definition term_of :: "'c persistent_state \<Rightarrow> u64 \<Rightarrow> u64 option" where
  "term_of s i =
     (if i = base_index s then Some (base_term s) else map_option e_term (entry_of s i))"

lemma term_at_term_of: "term_at r i = term_of (r_state r) i"
  by (simp add: term_at_def term_of_def entry_at_entry_of)

lemma term_of_Some: "term_of s i \<noteq> None \<longleftrightarrow> base_index s \<le> i \<and> i \<le> last_of s"
  by (auto simp: term_of_def entry_of_def last_of_def)

lemma term_of_bounds: "term_of s i = Some t \<Longrightarrow> base_index s \<le> i \<and> i \<le> last_of s"
  by (metis option.distinct(1) term_of_Some)

lemma last_term_def2: "last_term r = last (base_term (r_state r) # map e_term (ps_entries (r_state r)))"
  by (cases "ps_entries (r_state r)") (auto simp: last_term_def last_map)

lemma terms_ok_pos: "terms_ok previous t xs \<Longrightarrow> x \<in> set xs \<Longrightarrow> 0 < x \<and> x \<le> t"
  by (auto simp: terms_ok_def)

lemma term_of_pos:
  assumes "state_ok lim me s" "term_of s i = Some t" "0 < i"
  shows "0 < t \<and> t \<le> ps_term s"
proof (cases "i = base_index s")
  case True
  with assms show ?thesis
    by (auto simp: term_of_def state_ok_def cut_ok_def base_index_def base_term_def split: option.splits)
next
  case False
  with assms(2) have "t \<in> set (map e_term (ps_entries s))"
    by (auto simp: term_of_def entry_of_def last_of_def split: if_splits)
  with assms(1) show ?thesis
    by (metis state_ok_def terms_ok_pos)
qed

section \<open>Successor states\<close>

text \<open>
  Terms and commit indices grow, a vote stays for the rest of its term, and the committed
  entries that are retained stay as they are.
\<close>

definition state_evolves :: "'c persistent_state \<Rightarrow> 'c persistent_state \<Rightarrow> bool" where
  "state_evolves s s' \<longleftrightarrow>
     ps_configuration s' = ps_configuration s \<and> ps_term s \<le> ps_term s' \<and>
     (ps_term s' = ps_term s \<longrightarrow> ps_voted_for s = None \<or> ps_voted_for s' = ps_voted_for s) \<and>
     ps_commit_index s \<le> ps_commit_index s' \<and> base_index s \<le> base_index s' \<and>
     (\<forall>i. base_index s' < i \<and> i \<le> ps_commit_index s \<longrightarrow> entry_of s' i = entry_of s i)"

lemma state_evolves_refl [simp]: "state_evolves s s"
  by (simp add: state_evolves_def)

lemma state_evolves_trans:
  assumes "state_evolves s s'" "state_evolves s' s''"
  shows "state_evolves s s''"
proof -
  have "entry_of s'' i = entry_of s i" if "base_index s'' < i" "i \<le> ps_commit_index s" for i
  proof -
    have "entry_of s'' i = entry_of s' i"
      using assms that by (meson le_trans state_evolves_def)
    also have "\<dots> = entry_of s i"
      using assms that by (meson le_less_trans state_evolves_def)
    finally show ?thesis .
  qed
  then show ?thesis
    using assms unfolding state_evolves_def by (metis le_antisym le_trans)
qed

section \<open>Merging appended entries\<close>

text \<open>\<open>merge_entries\<close> as a function of the list of retained entries.\<close>

definition merge_one :: "nat \<Rightarrow> 'c entry \<Rightarrow> 'c entry list \<Rightarrow> 'c entry list" where
  "merge_one position entry es =
     (let es1 = (if position < length es \<and> e_term (es ! position) \<noteq> e_term entry
                 then take position es else es)
      in if position = length es1 then es1 @ [entry] else es1)"

fun merge_list :: "nat \<Rightarrow> 'c entry list \<Rightarrow> 'c entry list \<Rightarrow> 'c entry list" where
  "merge_list position [] es = es"
| "merge_list position (entry # rest) es = merge_list (position + 1) rest (merge_one position entry es)"

text \<open>
  The merged log is the retained one, or a prefix of it whose terms agree with the appended
  entries, followed by the rest of them.
\<close>

lemma merge_list_shape:
  assumes "position \<le> length es"
  shows "\<exists>j. position \<le> j \<and> j \<le> length es \<and> j \<le> position + length new \<and>
     (\<forall>i. position \<le> i \<and> i < j \<longrightarrow> e_term (es ! i) = e_term (new ! (i - position))) \<and>
     (merge_list position new es = take j es @ drop (j - position) new \<and>
        (j < length es \<and> j < position + length new \<longrightarrow> e_term (es ! j) \<noteq> e_term (new ! (j - position)))
        \<and> (j = position + length new \<longrightarrow> j = length es)
      \<or> j = position + length new \<and> merge_list position new es = es)"
  using assms
proof (induction new arbitrary: position es)
  case Nil
  then show ?case by auto
next
  case (Cons entry rest)
  show ?case
  proof (cases "position < length es \<and> e_term (es ! position) = e_term entry")
    case True
    then have "merge_one position entry es = es"
      by (simp add: merge_one_def)
    with Cons.IH [of "position + 1" es] True obtain j where j:
      "position + 1 \<le> j" "j \<le> length es" "j \<le> position + 1 + length rest"
      "\<forall>i. position + 1 \<le> i \<and> i < j \<longrightarrow> e_term (es ! i) = e_term (rest ! (i - (position + 1)))"
      "merge_list position (entry # rest) es = take j es @ drop (j - (position + 1)) rest \<and>
        (j < length es \<and> j < position + 1 + length rest \<longrightarrow>
           e_term (es ! j) \<noteq> e_term (rest ! (j - (position + 1)))) \<and>
        (j = position + 1 + length rest \<longrightarrow> j = length es)
      \<or> j = position + 1 + length rest \<and> merge_list position (entry # rest) es = es"
      by auto
    have shift: "(entry # rest) ! (i - position) = rest ! (i - (position + 1))" if "position + 1 \<le> i" for i
      using that by (simp add: nth_Cons')
    have agree: "e_term (es ! i) = e_term ((entry # rest) ! (i - position))"
      if "position \<le> i" "i < j" for i
      using that True j(4) shift [of i] by (cases "i = position") auto
    have "drop (j - position) (entry # rest) = drop (j - (position + 1)) rest"
      using j(1) by (simp add: drop_Cons')
    with j agree shift [OF j(1)] show ?thesis
      by (intro exI [of _ j]) auto
  next
    case False
    let ?es1 = "take position es @ [entry]"
    have one: "merge_one position entry es = ?es1"
      using False Cons.prems by (auto simp: merge_one_def)
    have "merge_list (position + 1) rest ?es1 = ?es1 @ rest"
      using Cons.IH [of "position + 1" ?es1] Cons.prems by auto
    then show ?thesis
      using False Cons.prems one by (intro exI [of _ position]) auto
  qed
qed

lemma merge_one_entries:
  "r_state (merge_entry position entry r) =
     (r_state r)\<lparr>ps_entries := merge_one position entry (ps_entries (r_state r))\<rparr>"
  by (auto simp: merge_entry_def merge_one_def list_get_def Let_def)

lemma merge_entry_frame:
  "merge_entry position entry r =
     r\<lparr>r_state := r_state (merge_entry position entry r),
       r_log_changed := r_log_changed (merge_entry position entry r)\<rparr>"
  "r_log_changed r \<Longrightarrow> r_log_changed (merge_entry position entry r)"
  "\<not> r_log_changed (merge_entry position entry r) \<Longrightarrow> r_state (merge_entry position entry r) = r_state r"
  by (auto simp: merge_entry_def Let_def split: option.splits if_splits)

lemma merge_entries_state:
  "r_state (merge_entries position new r) =
     (r_state r)\<lparr>ps_entries := merge_list position new (ps_entries (r_state r))\<rparr>"
  by (induction position new r rule: merge_entries.induct) (simp_all add: merge_one_entries)

lemma merge_entries_log_changed:
  "r_log_changed r \<Longrightarrow> r_log_changed (merge_entries position new r)"
  "\<not> r_log_changed (merge_entries position new r) \<Longrightarrow> r_state (merge_entries position new r) = r_state r"
proof (induction position new r rule: merge_entries.induct)
  case (2 position entry rest r)
  {
    case 1
    then show ?case using 2 by (simp add: merge_entry_frame(2))
  next
    case 2
    then show ?case using "2.IH" by (metis merge_entries.simps(2) merge_entry_frame(3))
  }
qed simp_all

lemma merge_entries_frame:
  "merge_entries position new r =
     r\<lparr>r_state := r_state (merge_entries position new r),
       r_log_changed := r_log_changed (merge_entries position new r)\<rparr>"
proof (induction position new r rule: merge_entries.induct)
  case (2 position entry rest r)
  obtain s l where one: "merge_entry position entry r = r\<lparr>r_state := s, r_log_changed := l\<rparr>"
    using merge_entry_frame(1) by blast
  obtain s' l' where "merge_entries (position + 1) rest (merge_entry position entry r) =
      (merge_entry position entry r)\<lparr>r_state := s', r_log_changed := l'\<rparr>"
    using 2 by blast
  then show ?case by (simp add: one)
qed simp

section \<open>Updates that keep a state valid\<close>

lemma base_update [simp]:
  "base_index (s\<lparr>ps_entries := es\<rparr>) = base_index s" "base_term (s\<lparr>ps_entries := es\<rparr>) = base_term s"
  "base_index (s\<lparr>ps_commit_index := c\<rparr>) = base_index s" "base_term (s\<lparr>ps_commit_index := c\<rparr>) = base_term s"
  "base_index (s\<lparr>ps_voted_for := v\<rparr>) = base_index s" "base_term (s\<lparr>ps_voted_for := v\<rparr>) = base_term s"
  "base_index (s\<lparr>ps_term := t\<rparr>) = base_index s" "base_term (s\<lparr>ps_term := t\<rparr>) = base_term s"
  "base_index (s\<lparr>ps_snapshot := Some snap\<rparr>) = sc_index snap"
  "base_term (s\<lparr>ps_snapshot := Some snap\<rparr>) = sc_term snap"
  by (simp_all add: base_index_def base_term_def)

lemma last_of_update [simp]:
  "last_of (s\<lparr>ps_commit_index := c\<rparr>) = last_of s" "last_of (s\<lparr>ps_voted_for := v\<rparr>) = last_of s"
  "last_of (s\<lparr>ps_term := t\<rparr>) = last_of s"
  "last_of (s\<lparr>ps_entries := es\<rparr>) = base_index s + length es"
  by (simp_all add: last_of_def)

lemma entry_of_update [simp]:
  "entry_of (s\<lparr>ps_commit_index := c\<rparr>) i = entry_of s i" "entry_of (s\<lparr>ps_voted_for := v\<rparr>) i = entry_of s i"
  "entry_of (s\<lparr>ps_term := t\<rparr>) i = entry_of s i"
  by (simp_all add: entry_of_def)

lemma term_of_update [simp]:
  "term_of (s\<lparr>ps_commit_index := c\<rparr>) i = term_of s i" "term_of (s\<lparr>ps_voted_for := v\<rparr>) i = term_of s i"
  "term_of (s\<lparr>ps_term := t\<rparr>) i = term_of s i"
  by (simp_all add: term_of_def)

lemma state_ok_commit:
  assumes "state_ok lim me s" "ps_commit_index s \<le> c" "c \<le> last_of s"
  shows "state_ok lim me (s\<lparr>ps_commit_index := c\<rparr>)" "state_evolves s (s\<lparr>ps_commit_index := c\<rparr>)"
  using assms by (auto simp: state_ok_def state_evolves_def)

lemma state_ok_term:
  assumes "state_ok lim me s" "ps_term s < t"
  shows "state_ok lim me (s\<lparr>ps_term := t, ps_voted_for := None\<rparr>)"
    "state_evolves s (s\<lparr>ps_term := t, ps_voted_for := None\<rparr>)"
  using assms by (auto simp: state_ok_def state_evolves_def intro: terms_ok_mono)

lemma state_ok_vote:
  assumes "state_ok lim me s" "m \<in> cfg_voters (ps_configuration s)" "0 < ps_term s"
    and "ps_voted_for s = None \<or> ps_voted_for s = Some m"
  shows "state_ok lim me (s\<lparr>ps_voted_for := Some m\<rparr>)" "state_evolves s (s\<lparr>ps_voted_for := Some m\<rparr>)"
  using assms by (auto simp: state_ok_def state_evolves_def)

lemma state_ok_append:
  assumes "state_ok lim me s" "length (ps_entries s @ new) \<le> max_log_entries lim"
    and "last_of s + length new < u64_max"
    and "terms_ok (last (base_term s # map e_term (ps_entries s))) (ps_term s) (map e_term new)"
  shows "state_ok lim me (s\<lparr>ps_entries := ps_entries s @ new\<rparr>)"
    "state_evolves s (s\<lparr>ps_entries := ps_entries s @ new\<rparr>)"
proof -
  have "terms_ok (base_term s) (ps_term s) (map e_term (ps_entries s @ new))"
    using assms(1,4) by (simp only: map_append terms_ok_append state_ok_def)
  with assms show "state_ok lim me (s\<lparr>ps_entries := ps_entries s @ new\<rparr>)"
    by (auto simp: state_ok_def last_of_def)
  show "state_evolves s (s\<lparr>ps_entries := ps_entries s @ new\<rparr>)"
    using assms(1) by (auto simp: state_evolves_def entry_of_def last_of_def nth_append state_ok_def)
qed

text \<open>Retiring a prefix: the entry at the cut becomes the base.\<close>

lemma term_of_entry:
  assumes "base_index s < i" "term_of s i = Some t"
  shows "i \<le> last_of s" "e_term (ps_entries s ! (i - base_index s - 1)) = t"
  using assms by (auto simp: term_of_def entry_of_def split: if_splits)

lemma state_ok_cut:
  assumes "state_ok lim me s" "cut_ok (ps_configuration s) snap" "base_index s < sc_index snap"
    and "term_of s (sc_index snap) = Some (sc_term snap)"
  defines "s' \<equiv> s\<lparr>ps_entries := drop (sc_index snap - base_index s) (ps_entries s), ps_snapshot := Some snap\<rparr>"
  shows "last_of s' = last_of s" "base_index s' = sc_index snap"
    "sc_index snap \<le> c \<Longrightarrow> ps_commit_index s \<le> c \<Longrightarrow> c \<le> last_of s \<Longrightarrow>
       state_ok lim me (s'\<lparr>ps_commit_index := c\<rparr>)"
    "\<And>i. sc_index snap < i \<Longrightarrow> entry_of s' i = entry_of s i"
proof -
  let ?n = "sc_index snap - base_index s"
  have n: "0 < ?n" "?n \<le> length (ps_entries s)"
    using assms(3) term_of_entry(1) [OF assms(3,4)] by (auto simp: last_of_def)
  show b: "base_index s' = sc_index snap"
    by (simp add: s'_def base_index_def)
  show l: "last_of s' = last_of s"
    using n by (auto simp: s'_def last_of_def base_index_def)
  have bt: "base_term s' = sc_term snap"
    by (simp add: s'_def base_term_def)
  have le: "sc_term snap \<le> ps_term s"
    using term_of_pos [OF assms(1,4)] assms(3) by simp
  have "terms_ok (map e_term (ps_entries s) ! (?n - 1)) (ps_term s) (drop ?n (map e_term (ps_entries s)))"
    using assms(1) n by (intro terms_ok_drop) (auto simp: state_ok_def)
  moreover have "map e_term (ps_entries s) ! (?n - 1) = sc_term snap"
    using term_of_entry(2) [OF assms(3,4)] n by simp
  ultimately have "terms_ok (sc_term snap) (ps_term s) (map e_term (drop ?n (ps_entries s)))"
    by (simp add: drop_map)
  then show "state_ok lim me (s'\<lparr>ps_commit_index := c\<rparr>)"
    if "sc_index snap \<le> c" "ps_commit_index s \<le> c" "c \<le> last_of s"
    using assms(1,2) that b l bt le by (simp add: state_ok_def) (auto simp: s'_def)
  show "entry_of s' i = entry_of s i" if "sc_index snap < i" for i
  proof -
    have "(drop ?n (ps_entries s)) ! (i - sc_index snap - 1) = ps_entries s ! (i - base_index s - 1)"
      if "i \<le> last_of s"
      using that n \<open>sc_index snap < i\<close> assms(3) by (simp add: last_of_def)
    then show ?thesis
      using that assms(3) by (simp add: entry_of_def b l) (simp add: s'_def)
  qed
qed

text \<open>Installing a cut beyond the commit index.\<close>

lemma state_ok_replace:
  assumes "state_ok lim me s" "cut_ok (ps_configuration s) snap" "ps_commit_index s < sc_index snap"
    and "sc_term snap \<le> ps_term s"
  defines "s' \<equiv> s\<lparr>ps_entries := [], ps_commit_index := sc_index snap, ps_snapshot := Some snap\<rparr>"
  shows "state_ok lim me s'" "state_evolves s s'"
  using assms
  by (auto simp: state_ok_def s'_def last_of_def base_index_def base_term_def state_evolves_def cut_ok_def)

section \<open>Accepting an append\<close>

definition agrees_committed :: "'c persistent_state \<Rightarrow> u64 \<Rightarrow> 'c entry list \<Rightarrow> bool" where
  "agrees_committed s prev new \<longleftrightarrow>
     (\<forall>k < length new. prev + 1 + k \<le> ps_commit_index s \<longrightarrow>
        (\<forall>e. entry_of s (prev + 1 + k) = Some e \<longrightarrow> e_term e = e_term (new ! k)))"

lemma validate_overlap_committed:
  "validate_overlap r (prev + 1) new = Inr () \<Longrightarrow> agrees_committed (r_state r) prev new"
proof (induction new arbitrary: prev)
  case Nil
  then show ?case by (simp add: agrees_committed_def)
next
  case (Cons entry rest)
  show ?case
    unfolding agrees_committed_def
  proof (intro allI impI)
    fix k e
    assume k: "k < length (entry # rest)" "prev + 1 + k \<le> ps_commit_index (r_state r)"
      and e: "entry_of (r_state r) (prev + 1 + k) = Some e"
    show "e_term e = e_term ((entry # rest) ! k)"
    proof (cases k)
      case 0
      with Cons.prems k e show ?thesis
        by (auto simp: entry_at_entry_of split: option.splits if_splits)
    next
      case (Suc k')
      have "validate_overlap r (prev + 1 + 1) rest = Inr ()"
        using Cons.prems k by (auto split: option.splits if_splits)
      then have "agrees_committed (r_state r) (prev + 1) rest"
        by (rule Cons.IH)
      moreover have "k' < length rest" "prev + 1 + 1 + k' \<le> ps_commit_index (r_state r)"
          "entry_of (r_state r) (prev + 1 + 1 + k') = Some e"
        using Suc k e by simp_all
      ultimately have "e_term e = e_term (rest ! k')"
        unfolding agrees_committed_def by blast
      with Suc show ?thesis by simp
    qed
  qed
qed

lemma last_terms_take:
  assumes "term_of s prev = Some prev_term" "j \<le> length (ps_entries s)"
    and "prev - base_index s \<le> j" "j \<le> prev - base_index s + length new"
    and "\<forall>i. prev - base_index s \<le> i \<and> i < j \<longrightarrow>
           e_term (ps_entries s ! i) = e_term (new ! (i - (prev - base_index s)))"
  shows "last (base_term s # map e_term (take j (ps_entries s))) =
         last (prev_term # map e_term (take (j - (prev - base_index s)) new))"
proof (cases "j = prev - base_index s")
  case True
  show ?thesis
  proof (cases "prev = base_index s")
    case True
    with \<open>j = _\<close> assms(1) show ?thesis by (simp add: term_of_def)
  next
    case False
    with assms(1) have "base_index s < prev"
      using term_of_bounds [OF assms(1)] by simp
    then have "e_term (ps_entries s ! (j - 1)) = prev_term" "0 < j"
      using term_of_entry(2) [OF _ assms(1)] True by auto
    with assms(2) True show ?thesis
      by (auto simp: last_map last_conv_nth)
  qed
next
  case False
  then obtain k where k: "j = Suc (prev - base_index s + k)"
    using assms(3) by (metis le_neq_implies_less less_iff_Suc_add)
  then have "take j (ps_entries s) = take (j - 1) (ps_entries s) @ [ps_entries s ! (j - 1)]"
      "take (j - (prev - base_index s)) new = take k new @ [new ! k]"
    using assms(2,4) by (auto simp: take_Suc_conv_app_nth)
  moreover have "e_term (ps_entries s ! (j - 1)) = e_term (new ! k)"
    using assms(5) k by auto
  ultimately show ?thesis by simp
qed

lemma merge_state_ok:
  assumes ok: "state_ok lim me s" and prev: "term_of s prev = Some prev_term"
    and new: "terms_ok prev_term (ps_term s) (map e_term new)"
    and room: "prev + length new - base_index s \<le> max_log_entries lim" "prev + length new < u64_max"
    and agree: "agrees_committed s prev new"
  defines "s' \<equiv> s\<lparr>ps_entries := merge_list (prev - base_index s) new (ps_entries s)\<rparr>"
  shows "state_ok lim me s'" "state_evolves s s'" "prev + length new \<le> last_of s'"
proof -
  let ?L = "ps_entries s" and ?pos = "prev - base_index s"
  have b: "base_index s \<le> prev" "prev \<le> last_of s"
    using term_of_bounds [OF prev] by auto
  then have "?pos \<le> length ?L" by (simp add: last_of_def)
  from merge_list_shape [OF this, of new] obtain j where j:
    "?pos \<le> j" "j \<le> length ?L" "j \<le> ?pos + length new"
    and same: "\<forall>i. ?pos \<le> i \<and> i < j \<longrightarrow> e_term (?L ! i) = e_term (new ! (i - ?pos))"
    and shape: "merge_list ?pos new ?L = take j ?L @ drop (j - ?pos) new \<and>
        (j < length ?L \<and> j < ?pos + length new \<longrightarrow> e_term (?L ! j) \<noteq> e_term (new ! (j - ?pos)))
        \<and> (j = ?pos + length new \<longrightarrow> j = length ?L)
      \<or> j = ?pos + length new \<and> merge_list ?pos new ?L = ?L"
    by blast
  have goal: "state_ok lim me s' \<and> state_evolves s s' \<and> prev + length new \<le> last_of s'"
    using shape
  proof (elim disjE conjE)
    assume m: "merge_list ?pos new ?L = take j ?L @ drop (j - ?pos) new"
      and diff: "j < length ?L \<and> j < ?pos + length new \<longrightarrow> e_term (?L ! j) \<noteq> e_term (new ! (j - ?pos))"
      and full: "j = ?pos + length new \<longrightarrow> j = length ?L"
    have commit: "ps_commit_index s - base_index s \<le> j"
    proof (rule ccontr)
      assume less: "\<not> ?thesis"
      have "ps_commit_index s \<le> last_of s" using ok by (simp add: state_ok_def)
      with less have jl: "j < length ?L" by (simp add: last_of_def)
      with full j(3) have jn: "j < ?pos + length new" by auto
      have ent: "entry_of s (base_index s + 1 + j) = Some (?L ! j)"
        using jl by (simp add: entry_of_def last_of_def)
      have idx: "prev + 1 + (j - ?pos) = base_index s + 1 + j" using j(1) b(1) by simp
      have k: "j - ?pos < length new" "prev + 1 + (j - ?pos) \<le> ps_commit_index s"
          "entry_of s (prev + 1 + (j - ?pos)) = Some (?L ! j)"
        unfolding idx using jn j(1) less ent by auto
      have "e_term (?L ! j) = e_term (new ! (j - ?pos))"
        by (rule agree [unfolded agrees_committed_def, rule_format, OF k])
      with diff jl jn show False by simp
    qed
    have len: "length (merge_list ?pos new ?L) = ?pos + length new"
      using j by (simp add: m)
    have "terms_ok (base_term s) (ps_term s) (map e_term (take j ?L))"
    proof -
      have "terms_ok (base_term s) (ps_term s) (map e_term (take j ?L @ drop j ?L))"
        using ok by (simp add: state_ok_def)
      then show ?thesis unfolding map_append terms_ok_append by blast
    qed
    moreover have "terms_ok (last (prev_term # map e_term (take (j - ?pos) new))) (ps_term s)
        (map e_term (drop (j - ?pos) new))"
    proof -
      have "terms_ok prev_term (ps_term s) (map e_term (take (j - ?pos) new @ drop (j - ?pos) new))"
        using new by simp
      then show ?thesis unfolding map_append terms_ok_append by blast
    qed
    ultimately have "terms_ok (base_term s) (ps_term s) (map e_term (merge_list ?pos new ?L))"
      unfolding m map_append terms_ok_append
      by (simp only: last_terms_take [OF prev j(2,1,3) same])
    moreover have "ps_commit_index s \<le> base_index s + (?pos + length new)"
      using commit j(3) by simp
    moreover have "base_index s + (?pos + length new) = prev + length new"
        "?pos + length new \<le> max_log_entries lim"
      using b(1) room(1) by simp_all
    ultimately have "state_ok lim me s'"
      using ok room(2) unfolding state_ok_def s'_def by (simp add: len)
    moreover have "state_evolves s s'"
    proof -
      have "entry_of s' i = entry_of s i" if "base_index s < i" "i \<le> ps_commit_index s" for i
      proof -
        have "i - base_index s - 1 < j" using that commit by simp
        then have "merge_list ?pos new ?L ! (i - base_index s - 1) = ?L ! (i - base_index s - 1)"
          using j(2) by (simp add: m nth_append)
        moreover have "i \<le> last_of s" "i \<le> base_index s + (?pos + length new)"
          using that ok \<open>ps_commit_index s \<le> base_index s + _\<close> by (auto simp: state_ok_def)
        ultimately show ?thesis using that by (simp add: entry_of_def s'_def len)
      qed
      then show ?thesis by (simp add: state_evolves_def s'_def)
    qed
    ultimately show ?thesis using b by (simp add: s'_def len)
  next
    assume "j = ?pos + length new" "merge_list ?pos new ?L = ?L"
    moreover from this have "prev + length new \<le> last_of s"
      using j(2) b by (simp add: last_of_def)
    ultimately show ?thesis using ok by (simp add: s'_def last_of_def)
  qed
  then show "state_ok lim me s'" "state_evolves s s'" "prev + length new \<le> last_of s'"
    by blast+
qed

end
