(* ===== verification/RaftSend.thy ===== *)
theory RaftSend
  imports RaftLog
begin

text \<open>
  Replication progress and sending. A leader that keeps \<open>progress_ok\<close> never asks the pipeline
  for a range outside its log, so sending fails only when the request counter is exhausted, and
  every replication message describes the sender's own log.
\<close>

section \<open>Replication progress\<close>

fun flight_ok :: "'c persistent_state \<Rightarrow> in_flight \<Rightarrow> bool" where
  "flight_ok s (FlightAppend _ prev endpoint) \<longleftrightarrow>
     base_index s \<le> prev \<and> prev \<le> endpoint \<and> endpoint \<le> last_of s"
| "flight_ok s (FlightSnapshot _ snapshot) \<longleftrightarrow> ps_snapshot s = Some snapshot"

definition peer_ok :: "'c persistent_state \<Rightarrow> progress \<Rightarrow> bool" where
  "peer_ok s p \<longleftrightarrow> pr_matched p < pr_next p \<and> pr_next p \<le> last_of s + 1 \<and>
     (\<forall>f \<in> set (pr_in_flight p). flight_ok s f)"

definition progress_ok :: "'c raft \<Rightarrow> bool" where
  "progress_ok r \<longleftrightarrow> bt_invar (r_progress r) \<and>
     set (bt_keys (r_progress r)) = set (members (ps_configuration (r_state r))) - {r_id r} \<and>
     (\<forall>(m, p) \<in> set (r_progress r). peer_ok (r_state r) p)"

lemma bt_adjust_member:
  "(m, p) \<in> set (bt_adjust k f xs) \<Longrightarrow> \<exists>q. (m, q) \<in> set xs \<and> (p = q \<or> m = k \<and> p = f q)"
  by (auto simp: bt_adjust_def split: if_splits)

lemma progress_ok_lookup:
  "progress_ok r \<Longrightarrow> map_of (r_progress r) m = Some p \<Longrightarrow> peer_ok (r_state r) p"
  by (auto simp: progress_ok_def dest!: map_of_SomeD)

lemma progress_ok_set:
  assumes "progress_ok r"
    and "\<And>p. map_of (r_progress r) peer = Some p \<Longrightarrow> peer_ok (r_state r) p \<Longrightarrow> peer_ok (r_state r) (f p)"
  shows "progress_ok (set_progress r peer f)"
proof -
  have dist: "distinct (map fst (r_progress r))"
    using assms(1) by (simp add: progress_ok_def strict_sorted_iff)
  have "peer_ok (r_state r) p" if mp: "(m, p) \<in> set (bt_adjust peer f (r_progress r))" for m p
  proof -
    obtain q where q: "(m, q) \<in> set (r_progress r)" and p: "p = q \<or> m = peer \<and> p = f q"
      using bt_adjust_member [OF mp] by blast
    from q assms(1) have "peer_ok (r_state r) q" by (auto simp: progress_ok_def)
    with p assms(2) q dist show ?thesis by (metis map_of_is_SomeI)
  qed
  with assms(1) show ?thesis
    by (auto simp: progress_ok_def set_progress_def simp flip: set_map)
qed

text \<open>The parts of a node that sending leaves alone.\<close>

definition frame_pr :: "'c raft \<Rightarrow> 'c raft \<Rightarrow> bool" where
  "frame_pr r r' \<longleftrightarrow> r' = r\<lparr>r_progress := r_progress r', r_request := r_request r'\<rparr>"

lemma frame_pr_refl [simp]: "frame_pr r r"
  by (simp add: frame_pr_def)

lemma frame_pr_fields:
  assumes "frame_pr r r'"
  shows "r_id r' = r_id r" "r_state r' = r_state r" "r_role r' = r_role r" "r_leader r' = r_leader r"
    "r_votes r' = r_votes r" "r_limits r' = r_limits r" "r_append_window r' = r_append_window r"
    "r_generation r' = r_generation r" "r_incarnation r' = r_incarnation r"
    "r_initialized r' = r_initialized r" "r_log_changed r' = r_log_changed r"
    "r_incoming_snapshot r' = r_incoming_snapshot r" "r_pending r' = r_pending r"
    "r_poisoned r' = r_poisoned r" "r_liveness r' = r_liveness r" "r_handoff r' = r_handoff r"
proof -
  obtain p q where "r' = r\<lparr>r_progress := p, r_request := q\<rparr>"
    using assms by (auto simp: frame_pr_def)
  then show "r_id r' = r_id r" "r_state r' = r_state r" "r_role r' = r_role r" "r_leader r' = r_leader r"
    "r_votes r' = r_votes r" "r_limits r' = r_limits r" "r_append_window r' = r_append_window r"
    "r_generation r' = r_generation r" "r_incarnation r' = r_incarnation r"
    "r_initialized r' = r_initialized r" "r_log_changed r' = r_log_changed r"
    "r_incoming_snapshot r' = r_incoming_snapshot r" "r_pending r' = r_pending r"
    "r_poisoned r' = r_poisoned r" "r_liveness r' = r_liveness r" "r_handoff r' = r_handoff r"
    by simp_all
qed

lemma frame_pr_trans: "frame_pr r r' \<Longrightarrow> frame_pr r' r'' \<Longrightarrow> frame_pr r r''"
  unfolding frame_pr_def by (cases r; cases r'; cases r'') simp

lemma frame_pr_set [simp]: "frame_pr r (set_progress r peer f)"
  by (simp add: frame_pr_def set_progress_def)

lemma frame_pr_request [simp]: "frame_pr r (r\<lparr>r_request := n\<rparr>)"
  by (simp add: frame_pr_def)

text \<open>What a replication message says about its sender.\<close>

definition repl_ok :: "'c persistent_state \<Rightarrow> member_id \<Rightarrow> 'c envelope \<Rightarrow> bool" where
  "repl_ok s me e \<longleftrightarrow> env_from e = me \<and>
     (case env_message e of
        Append t _ prev prev_term es commit \<Rightarrow>
          t = ps_term s \<and> term_of s prev = Some prev_term \<and> prev + length es \<le> last_of s \<and>
          es = take (length es) (drop (prev - base_index s) (ps_entries s)) \<and>
          commit = ps_commit_index s
      | InstallSnapshot t _ snapshot \<Rightarrow> t = ps_term s \<and> ps_snapshot s = Some snapshot
      | _ \<Rightarrow> False)"

definition sends :: "('c envelope \<Rightarrow> bool) \<Rightarrow> 'c raft_output \<Rightarrow> 'c raft_output \<Rightarrow> bool" where
  "sends P out out' \<longleftrightarrow>
     (\<exists>ms. out' = out\<lparr>out_messages := out_messages out @ ms\<rparr> \<and> (\<forall>e \<in> set ms. P e))"

lemma sends_refl [simp]: "sends P out out"
  unfolding sends_def by (intro exI [of _ "[]"]) simp

lemma sends_trans: "sends P out out' \<Longrightarrow> sends P out' out'' \<Longrightarrow> sends P out out''"
  unfolding sends_def by force

lemma sends_emit:
  assumes "P \<lparr>env_domain = cfg_domain (ps_configuration (r_state r)),
         env_configuration = cfg_identity (ps_configuration (r_state r)),
         env_from = r_id r, env_to = m, env_message = msg\<rparr>"
  shows "sends P out (emit r m msg out)"
  unfolding sends_def emit_def using assms by force

lemma emit_flight_ok:
  assumes "flight_ok (r_state r) flight"
  obtains r' out' where "emit_flight r peer flight out = Inr (r', out')"
    and "r' = r \<or> r' = set_progress r peer (\<lambda>p. p\<lparr>pr_sent_commit := ps_commit_index (r_state r)\<rparr>)"
    and "sends (repl_ok (r_state r) (r_id r)) out out'"
proof (cases flight)
  case (FlightAppend request prev endpoint)
  let ?s = "r_state r" and ?f = "\<lambda>p. p\<lparr>pr_sent_commit := ps_commit_index (r_state r)\<rparr>"
  let ?es = "take (endpoint - prev) (drop (prev - base_index ?s) (ps_entries ?s))"
  have b: "base_index ?s \<le> prev" "prev \<le> endpoint" "endpoint \<le> last_of ?s"
    using assms FlightAppend by auto
  then obtain t where t: "term_of ?s prev = Some t"
    using term_of_Some [of ?s prev] by fastforce
  have "prev - base_index ?s \<le> endpoint - base_index ?s"
    "endpoint - base_index ?s \<le> length (ps_entries ?s)"
    "endpoint - base_index ?s - (prev - base_index ?s) = endpoint - prev"
    using b by (auto simp: last_of_def)
  then have eq: "emit_flight r peer flight out =
      Inr (set_progress r peer ?f,
        emit (set_progress r peer ?f) peer
          (Append (ps_term ?s) request prev t ?es (ps_commit_index ?s)) out)"
    using b t unfolding FlightAppend emit_flight_def
    by (simp add: term_at_term_of rust_simps Let_def)
  have "length ?es = endpoint - prev"
    using b by (simp add: last_of_def)
  then have "sends (repl_ok ?s (r_id r)) out
      (emit (set_progress r peer ?f) peer (Append (ps_term ?s) request prev t ?es (ps_commit_index ?s)) out)"
    using b t by (intro sends_emit) (simp add: repl_ok_def set_progress_def)
  with eq that show ?thesis by blast
next
  case (FlightSnapshot request snapshot)
  then have "sends (repl_ok (r_state r) (r_id r)) out
      (emit r peer (InstallSnapshot (ps_term (r_state r)) request snapshot) out)"
    using assms by (intro sends_emit) (simp add: repl_ok_def)
  with that show ?thesis by (simp add: FlightSnapshot emit_flight_def)
qed

definition only_exhausted :: "'c outcome \<Rightarrow> ('c raft \<Rightarrow> 'c raft_output \<Rightarrow> bool) \<Rightarrow> bool" where
  "only_exhausted result Q =
     (case result of Inl (f, _) \<Rightarrow> f = Err CounterExhausted | Inr (r, out) \<Rightarrow> Q r out)"

lemma only_exhausted_Inr [simp]: "only_exhausted (Inr (r, out)) Q = Q r out"
  by (simp add: only_exhausted_def)

lemma only_exhausted_Inl [simp]: "only_exhausted (Inl (f, r)) Q = (f = Err CounterExhausted)"
  by (simp add: only_exhausted_def)

lemma only_exhausted_mono:
  "only_exhausted x P \<Longrightarrow> (\<And>r out. x = Inr (r, out) \<Longrightarrow> P r out \<Longrightarrow> Q r out) \<Longrightarrow> only_exhausted x Q"
  by (auto simp: only_exhausted_def split: sum.splits)

lemma only_exhausted_bind:
  assumes "only_exhausted x P" "\<And>r out. x = Inr (r, out) \<Longrightarrow> P r out \<Longrightarrow> only_exhausted (f (r, out)) Q"
  shows "only_exhausted (and_then x f) Q"
  using assms by (auto simp: only_exhausted_def and_then_def split: sum.splits)

text \<open>The result of sending from a node that can replicate.\<close>

definition sent_from :: "'c raft \<Rightarrow> 'c raft_output \<Rightarrow> 'c raft \<Rightarrow> 'c raft_output \<Rightarrow> bool" where
  "sent_from r out r' out' \<longleftrightarrow>
     frame_pr r r' \<and> progress_ok r' \<and> sends (repl_ok (r_state r) (r_id r)) out out'"

lemma sent_from_refl: "progress_ok r \<Longrightarrow> sent_from r out r out"
  by (simp add: sent_from_def)

lemma sent_from_trans:
  assumes "sent_from r out r' out'" "sent_from r' out' r'' out''"
  shows "sent_from r out r'' out''"
  using assms unfolding sent_from_def
  by (metis frame_pr_fields(1,2) frame_pr_trans sends_trans)

lemma sent_commit_ok:
  "peer_ok s p \<Longrightarrow> peer_ok s (p\<lparr>pr_sent_commit := n\<rparr>)"
  by (simp add: peer_ok_def)

lemma emit_flight_sent:
  assumes "progress_ok r" "flight_ok (r_state r) flight"
  obtains r' out' where "emit_flight r peer flight out = Inr (r', out')" "sent_from r out r' out'"
proof -
  obtain r' out' where "emit_flight r peer flight out = Inr (r', out')"
    and "r' = r \<or> r' = set_progress r peer (\<lambda>p. p\<lparr>pr_sent_commit := ps_commit_index (r_state r)\<rparr>)"
    and "sends (repl_ok (r_state r) (r_id r)) out out'"
    using emit_flight_ok [OF assms(2)] by blast
  moreover from this have "frame_pr r r'" "progress_ok r'"
    using assms(1) by (auto intro: progress_ok_set sent_commit_ok)
  ultimately show ?thesis using that by (auto simp: sent_from_def)
qed

lemma emit_flights_sent:
  assumes "progress_ok r" "\<forall>f \<in> set flights. flight_ok (r_state r) f"
  shows "only_exhausted (emit_flights peer flights r out) (sent_from r out)"
  using assms
proof (induction flights arbitrary: r out)
  case Nil
  then show ?case by (simp add: sent_from_refl)
next
  case (Cons f fs)
  obtain r' out' where e: "emit_flight r peer f out = Inr (r', out')" and s: "sent_from r out r' out'"
    using Cons.prems emit_flight_sent by (metis list.set_intros(1))
  then have "progress_ok r'" "r_state r' = r_state r"
    by (auto simp: sent_from_def frame_pr_fields)
  then have "only_exhausted (emit_flights peer fs r' out') (sent_from r' out')"
    using Cons by simp
  then show ?case
    using s by (simp add: e only_exhausted_mono sent_from_trans)
qed

lemma next_flight_ok:
  assumes "peer_ok (r_state r) p" "last_of (r_state r) < u64_max"
  obtains flight where "next_flight r (pr_next p) = Some flight" "flight_ok (r_state r) flight"
    and "\<And>q. peer_ok (r_state r) q \<Longrightarrow> pr_matched q = pr_matched p \<Longrightarrow>
           peer_ok (r_state r) (push_flight flight q)"
proof (cases "pr_next p \<le> base_index (r_state r)")
  case True
  then have "0 < base_index (r_state r)"
    using assms(1) by (auto simp: peer_ok_def)
  then obtain snap where snap: "ps_snapshot (r_state r) = Some snap"
    by (auto simp: base_index_def split: option.splits)
  show ?thesis
    by (rule that [of "FlightSnapshot (r_request r) snap"])
      (use True snap in \<open>auto simp: next_flight_def peer_ok_def push_flight_def Let_def\<close>)
next
  case False
  let ?prev = "pr_next p - 1"
  let ?e = "min (last_index r) (saturating_add ?prev (max_append_entries (r_limits r)))"
  have bounds: "base_index (r_state r) \<le> ?prev" "?prev \<le> ?e" "?e \<le> last_of (r_state r)"
      "pr_matched p \<le> ?prev"
    using assms False by (auto simp: peer_ok_def last_index_last_of saturating_add_def)
  show ?thesis
    by (rule that [of "FlightAppend (r_request r) ?prev ?e"])
      (use False bounds in \<open>auto simp: next_flight_def peer_ok_def push_flight_def Let_def\<close>)
qed

lemma issue_appends_sent:
  assumes "progress_ok r" "map_of (r_progress r) peer \<noteq> None" "last_of (r_state r) < u64_max"
  shows "only_exhausted (issue_appends peer r out) (sent_from r out)"
  using assms
proof (induction peer r out rule: issue_appends.induct)
  case (1 peer r out)
  obtain p where p: "map_of (r_progress r) peer = Some p" using "1.prems"(2) by blast
  let ?r1 = "r\<lparr>r_request := r_request r + 1\<rparr>"
  show ?case
  proof (cases "lane_full r p \<or> \<not> r_request r + 1 \<le> u64_max")
    case True
    then show ?thesis
      using "1.prems"(1) by (subst issue_appends.simps) (auto simp: p sent_from_refl)
  next
    case False
    have ok1: "progress_ok ?r1" "peer_ok (r_state ?r1) p"
      using "1.prems"(1) p by (simp_all add: progress_ok_lookup) (simp add: progress_ok_def)
    obtain flight where f: "next_flight ?r1 (pr_next p) = Some flight" "flight_ok (r_state ?r1) flight"
      and push: "\<And>q. peer_ok (r_state ?r1) q \<Longrightarrow> pr_matched q = pr_matched p \<Longrightarrow>
           peer_ok (r_state ?r1) (push_flight flight q)"
      by (rule next_flight_ok [OF ok1(2)]) (use "1.prems"(3) in auto)
    obtain r2 out2 where e: "emit_flight ?r1 peer flight out = Inr (r2, out2)"
      and r2: "r2 = ?r1 \<or> r2 = set_progress ?r1 peer (\<lambda>p. p\<lparr>pr_sent_commit := ps_commit_index (r_state ?r1)\<rparr>)"
      and snd2: "sends (repl_ok (r_state ?r1) (r_id ?r1)) out out2"
      using emit_flight_ok [OF f(2)] by blast
    let ?r3 = "set_progress r2 peer (push_flight flight)"
    have frame: "frame_pr r r2"
      using r2 by (auto simp: frame_pr_def set_progress_def)
    have ok2: "progress_ok r2"
      using r2 ok1(1) by (auto intro: progress_ok_set sent_commit_ok)
    obtain p2 where p2: "map_of (r_progress r2) peer = Some p2" "pr_matched p2 = pr_matched p"
      using r2 p by (auto simp: set_progress_def)
    have ok3: "progress_ok ?r3"
      using ok2 push p2 frame by (intro progress_ok_set) (auto simp: frame_pr_fields)
    have "only_exhausted (issue_appends peer ?r3 out2) (sent_from ?r3 out2)"
      by (rule "1.IH" [OF p _ _ refl f(1) e])
        (use False ok3 p2 frame "1.prems"(3) in \<open>auto simp: set_progress_def frame_pr_fields\<close>)
    moreover have "sent_from r out ?r3 out2"
      using frame ok3 snd2 by (auto simp: sent_from_def intro: frame_pr_trans)
    ultimately have "only_exhausted (issue_appends peer ?r3 out2) (sent_from r out)"
      by (blast intro: only_exhausted_mono sent_from_trans)
    then show ?thesis
      using False f(1) e by (subst issue_appends.simps) (simp add: p Let_def)
  qed
qed

lemma send_append_sent:
  assumes "progress_ok r" "last_of (r_state r) < u64_max"
  shows "only_exhausted (send_append r peer out retry) (sent_from r out)"
proof (cases "map_of (r_progress r) peer")
  case None
  with assms show ?thesis by (simp add: send_append_def sent_from_refl)
next
  case (Some p)
  let ?x = "if retry then emit_flights peer (pr_in_flight p) r out else Inr (r, out)"
  have "\<forall>f \<in> set (pr_in_flight p). flight_ok (r_state r) f"
    using progress_ok_lookup [OF assms(1) Some] by (simp add: peer_ok_def)
  then have first: "only_exhausted ?x (sent_from r out)"
    using assms(1) by (auto intro: emit_flights_sent sent_from_refl)
  have "only_exhausted (and_then ?x (\<lambda>(r1, out1). issue_appends peer r1 out1)) (sent_from r out)"
  proof (rule only_exhausted_bind [OF first], simp)
    fix r1 out1
    assume s: "sent_from r out r1 out1"
    then have ok: "progress_ok r1" "r_state r1 = r_state r" "r_id r1 = r_id r"
      by (auto simp: sent_from_def frame_pr_fields)
    have "peer \<in> set (bt_keys (r_progress r))"
      using Some by (force dest: map_of_SomeD)
    then have "peer \<in> set (bt_keys (r_progress r1))"
      using ok assms(1) by (simp add: progress_ok_def)
    then have "map_of (r_progress r1) peer \<noteq> None"
      by (auto simp: map_of_eq_None_iff)
    then have "only_exhausted (issue_appends peer r1 out1) (sent_from r1 out1)"
      using ok assms(2) by (intro issue_appends_sent) auto
    with s show "only_exhausted (issue_appends peer r1 out1) (sent_from r out)"
      by (blast intro: only_exhausted_mono sent_from_trans)
  qed
  then show ?thesis by (simp add: send_append_def Some)
qed

lemma broadcast_to_sent:
  assumes "progress_ok r" "last_of (r_state r) < u64_max"
  shows "only_exhausted (broadcast_to peers retry r out) (sent_from r out)"
  using assms
proof (induction peers arbitrary: r out)
  case Nil
  then show ?case by (simp add: sent_from_refl)
next
  case (Cons peer peers)
  have "only_exhausted (broadcast_to peers retry r1 out1) (sent_from r out)"
    if s: "sent_from r out r1 out1" for r1 out1
  proof -
    have "progress_ok r1" "r_state r1 = r_state r"
      using s by (auto simp: sent_from_def frame_pr_fields)
    with Cons have "only_exhausted (broadcast_to peers retry r1 out1) (sent_from r1 out1)"
      by simp
    with s show ?thesis by (blast intro: only_exhausted_mono sent_from_trans)
  qed
  then show ?case
    by (auto intro: only_exhausted_bind [OF send_append_sent [OF Cons.prems]])
qed

lemma broadcast_sent:
  "progress_ok r \<Longrightarrow> last_of (r_state r) < u64_max \<Longrightarrow>
     only_exhausted (broadcast r out retry) (sent_from r out)"
  by (simp add: broadcast_def broadcast_to_sent)

end
