(* ===== verification/RaftInvariant.thy ===== *)
theory RaftInvariant
  imports RaftSend
begin

text \<open>
  The node invariant \<open>raft_inv\<close> and its preservation by every operation of the kernel.
  \<open>evolves\<close> relates a node to its successors within one incarnation, and \<open>msg_ok\<close> says what an
  emitted message claims about the state it is emitted in.
\<close>

section \<open>The invariant\<close>

definition incoming_ok :: "'c raft \<Rightarrow> incoming_snapshot \<Rightarrow> bool" where
  "incoming_ok r p \<longleftrightarrow>
     cut_ok (ps_configuration (r_state r)) (st_snapshot (is_transfer p)) \<and>
     ps_commit_index (r_state r) < sc_index (st_snapshot (is_transfer p)) \<and>
     sc_term (st_snapshot (is_transfer p)) \<le> ps_term (r_state r) \<and>
     is_term p = ps_term (r_state r)"

definition handoff_ok :: "'c raft \<Rightarrow> leadership_transfer \<Rightarrow> bool" where
  "handoff_ok r h \<longleftrightarrow> lt_term h = ps_term (r_state r) \<and>
     lt_last_index h = last_index r \<and> lt_last_term h = last_term r"

definition role_ok :: "'c raft \<Rightarrow> bool" where
  "role_ok r \<longleftrightarrow>
     (r_role r \<noteq> Leader \<longrightarrow> r_progress r = [] \<and> r_handoff r = None) \<and>
     (r_role r = Leader \<longrightarrow> progress_ok r \<and> r_leader r = Some (r_id r) \<and>
        quorum (ps_configuration (r_state r)) (r_votes r)) \<and>
     (r_role r = Candidate \<or> r_role r = Leader \<longrightarrow>
        ps_voted_for (r_state r) = Some (r_id r) \<and> r_incoming_snapshot r = None) \<and>
     (r_role r \<noteq> Follower \<longrightarrow> r_id r \<in> cfg_voters (ps_configuration (r_state r)))"

definition raft_inv :: "'c raft \<Rightarrow> bool" where
  "raft_inv r \<longleftrightarrow>
     state_ok (r_limits r) (r_id r) (r_state r) \<and> limits_ok (r_limits r) \<and> role_ok r \<and>
     (\<forall>p. r_incoming_snapshot r = Some p \<longrightarrow> incoming_ok r p) \<and>
     (\<forall>h. r_handoff r = Some h \<longrightarrow> handoff_ok r h) \<and>
     0 < r_append_window r \<and> r_append_window r \<le> max_append_window"

text \<open>Votes are counted for the current term only: a candidate or leader holds its own vote and
  what it held before in this term.\<close>

definition electing :: "'c raft \<Rightarrow> bool" where
  "electing r \<longleftrightarrow> r_role r = Candidate \<or> r_role r = Leader"

definition grounded :: "'c raft \<Rightarrow> 'c raft \<Rightarrow> bool" where
  "grounded r r' \<longleftrightarrow>
     (electing r' \<longrightarrow> r_votes r' \<subseteq> {r_id r'} \<or>
        electing r \<and> ps_term (r_state r') = ps_term (r_state r) \<and> r_votes r' \<subseteq> r_votes r)"

lemma grounded_same [simp]:
  "r_role r' = r_role r \<Longrightarrow> r_votes r' = r_votes r \<Longrightarrow> ps_term (r_state r') = ps_term (r_state r) \<Longrightarrow>
     grounded r r'"
  by (simp add: grounded_def electing_def)

lemma grounded_idle [simp]: "r_role r' = Follower \<or> r_role r' = PreCandidate \<Longrightarrow> grounded r r'"
  by (auto simp: grounded_def electing_def)

lemma grounded_elected [simp]:
  "r_role r = Candidate \<Longrightarrow> r_votes r' = r_votes r \<Longrightarrow> ps_term (r_state r') = ps_term (r_state r) \<Longrightarrow>
     grounded r r'"
  by (simp add: grounded_def electing_def)

lemma grounded_self [simp]: "r_votes r' = {r_id r'} \<Longrightarrow> grounded r r'"
  by (simp add: grounded_def)

lemma grounded_trans: "grounded r r' \<Longrightarrow> grounded r' r'' \<Longrightarrow> r_id r'' = r_id r' \<Longrightarrow> grounded r r''"
  unfolding grounded_def by auto

definition evolves :: "'c raft \<Rightarrow> 'c raft \<Rightarrow> bool" where
  "evolves r r' \<longleftrightarrow>
     r_id r' = r_id r \<and> r_limits r' = r_limits r \<and> r_append_window r' = r_append_window r \<and>
     r_generation r' = r_generation r \<and> r_incarnation r' = r_incarnation r \<and>
     r_initialized r' = r_initialized r \<and> r_pending r' = r_pending r \<and>
     r_poisoned r' = r_poisoned r \<and> state_evolves (r_state r) (r_state r') \<and> grounded r r' \<and>
     (r_log_changed r \<longrightarrow> r_log_changed r') \<and>
     (\<not> r_log_changed r' \<longrightarrow>
        ps_entries (r_state r') = ps_entries (r_state r) \<and> ps_snapshot (r_state r') = ps_snapshot (r_state r))"

lemma evolves_refl [simp]: "evolves r r"
  by (simp add: evolves_def grounded_same)

lemma evolves_trans: "evolves r r' \<Longrightarrow> evolves r' r'' \<Longrightarrow> evolves r r''"
  unfolding evolves_def by (metis state_evolves_trans grounded_trans)

lemma evolves_frame: "frame_pr r r' \<Longrightarrow> evolves r r'"
  by (simp add: evolves_def frame_pr_fields grounded_same)

text \<open>What a message claims about its sender's state \<open>s\<close>.\<close>

definition msg_ok :: "'c persistent_state \<Rightarrow> member_id \<Rightarrow> 'c envelope \<Rightarrow> bool" where
  "msg_ok s me e \<longleftrightarrow> env_from e = me \<and>
     (case env_message e of
        Vote t granted \<Rightarrow> granted \<longrightarrow> t = ps_term s \<and> ps_voted_for s = Some (env_to e)
      | RequestVote t lastindex lastterm \<Rightarrow>
          t = ps_term s \<and> ps_voted_for s = Some me \<and> lastindex = last_of s \<and>
          lastterm = last (base_term s # map e_term (ps_entries s))
      | Append _ _ _ _ _ _ \<Rightarrow> repl_ok s me e
      | InstallSnapshot _ _ _ \<Rightarrow> repl_ok s me e
      | _ \<Rightarrow> True)"

lemma repl_msg_ok: "repl_ok s me e \<Longrightarrow> msg_ok s me e"
  by (auto simp: msg_ok_def repl_ok_def split: message.splits)

definition emits :: "('c envelope \<Rightarrow> bool) \<Rightarrow> 'c raft_output \<Rightarrow> 'c raft_output \<Rightarrow> bool" where
  "emits P out out' \<longleftrightarrow> (\<exists>ms. out_messages out' = out_messages out @ ms \<and> (\<forall>e \<in> set ms. P e))"

lemma emits_refl [simp]: "emits P out out"
  by (simp add: emits_def)

lemma emits_trans: "emits P out out' \<Longrightarrow> emits P out' out'' \<Longrightarrow> emits P out out''"
  unfolding emits_def by force

lemma sends_emits: "sends P out out' \<Longrightarrow> (\<And>e. P e \<Longrightarrow> Q e) \<Longrightarrow> emits Q out out'"
  unfolding sends_def emits_def by force

lemma emits_timer [simp]:
  "emits P out (out'\<lparr>out_reset_election_timer := b\<rparr>) = emits P out out'"
  "emits P (out\<lparr>out_reset_election_timer := b\<rparr>) out' = emits P out out'"
  "emits P out (out'\<lparr>out_snapshot_transfers := xs\<rparr>) = emits P out out'"
  "emits P (out\<lparr>out_installed_snapshot := sn\<rparr>) out' = emits P out out'"
  by (simp_all add: emits_def)

lemma emits_emit:
  assumes "P \<lparr>env_domain = cfg_domain (ps_configuration (r_state r)),
         env_configuration = cfg_identity (ps_configuration (r_state r)),
         env_from = r_id r, env_to = m, env_message = msg\<rparr>"
  shows "emits P out (emit r m msg out)"
  using sends_emits [OF sends_emit [of P, OF assms]] by blast

lemma emits_emit_all:
  assumes "\<And>m. P \<lparr>env_domain = cfg_domain (ps_configuration (r_state r)),
         env_configuration = cfg_identity (ps_configuration (r_state r)),
         env_from = r_id r, env_to = m, env_message = msg\<rparr>"
  shows "emits P out (emit_all r ms msg out)"
  unfolding emit_all_def
proof (induction ms arbitrary: out)
  case (Cons m ms)
  then show ?case using emits_emit [of P, OF assms] by (auto intro: emits_trans)
qed simp

text \<open>The contract of an operation: the invariant, the evolution and truthful messages.\<close>

definition kept :: "'c raft \<Rightarrow> 'c raft_output \<Rightarrow> 'c raft \<Rightarrow> 'c raft_output \<Rightarrow> bool" where
  "kept r out r' out' \<longleftrightarrow>
     raft_inv r' \<and> evolves r r' \<and> emits (msg_ok (r_state r') (r_id r')) out out'"

lemma kept_refl: "raft_inv r \<Longrightarrow> kept r out r out"
  by (simp add: kept_def)

lemma kept_silent_trans:
  "evolves r r' \<Longrightarrow> kept r' out r'' out'' \<Longrightarrow> kept r out r'' out''"
  by (auto simp: kept_def intro: evolves_trans)

lemma kept_timer [simp]:
  "kept r (out\<lparr>out_reset_election_timer := b\<rparr>) r' out' = kept r out r' out'"
  "kept r out r' (out'\<lparr>out_reset_election_timer := b\<rparr>) = kept r out r' out'"
  by (simp_all add: kept_def)

lemma kept_timer_fun [simp]: "kept r (out\<lparr>out_reset_election_timer := b\<rparr>) = kept r out"
  by (simp add: fun_eq_iff)

lemma only_exhausted_silent:
  "only_exhausted x (kept r' out) \<Longrightarrow> evolves r r' \<Longrightarrow> only_exhausted x (kept r out)"
  by (blast intro: only_exhausted_mono kept_silent_trans)

lemma evolves_state:
  assumes "evolves r r'"
  shows "r_id r' = r_id r" "ps_configuration (r_state r') = ps_configuration (r_state r)"
    "r_limits r' = r_limits r"
  using assms by (simp_all add: evolves_def state_evolves_def)

section \<open>Sending\<close>

lemma raft_inv_progress: "raft_inv r \<Longrightarrow> r_role r = Leader \<Longrightarrow> progress_ok r"
  by (simp add: raft_inv_def role_ok_def)

lemma raft_inv_last: "raft_inv r \<Longrightarrow> last_of (r_state r) < u64_max"
  by (simp add: raft_inv_def state_ok_def)

lemma last_term_state: "r_state r' = r_state r \<Longrightarrow> last_term r' = last_term r"
  by (simp add: last_term_def2)

lemma sent_kept:
  assumes "raft_inv r" "r_role r = Leader" "sent_from r out r' out'"
  shows "kept r out r' out'"
proof -
  have fr: "frame_pr r r'" and pr: "progress_ok r'" and se: "sends (repl_ok (r_state r) (r_id r)) out out'"
    using assms(3) by (auto simp: sent_from_def)
  note f = frame_pr_fields [OF fr]
  have "raft_inv r'"
    using assms(1,2) pr f last_term_state [OF f(2)]
    by (auto simp: raft_inv_def role_ok_def incoming_ok_def handoff_ok_def last_index_def)
  moreover have "emits (msg_ok (r_state r') (r_id r')) out out'"
    using se f by (auto intro: sends_emits repl_msg_ok)
  ultimately show ?thesis using fr by (simp add: kept_def evolves_frame)
qed

lemma send_append_kept:
  "raft_inv r \<Longrightarrow> r_role r = Leader \<Longrightarrow> only_exhausted (send_append r peer out retry) (kept r out)"
  by (blast intro: only_exhausted_mono [OF send_append_sent] raft_inv_progress raft_inv_last sent_kept)

lemma broadcast_kept:
  "raft_inv r \<Longrightarrow> r_role r = Leader \<Longrightarrow> only_exhausted (broadcast r out retry) (kept r out)"
  by (blast intro: only_exhausted_mono [OF broadcast_sent] raft_inv_progress raft_inv_last sent_kept)

section \<open>Following\<close>

lemma follow_simps [simp]:
  "r_id (follow r t) = r_id r" "r_limits (follow r t) = r_limits r"
  "r_append_window (follow r t) = r_append_window r" "r_generation (follow r t) = r_generation r"
  "r_incarnation (follow r t) = r_incarnation r" "r_initialized (follow r t) = r_initialized r"
  "r_pending (follow r t) = r_pending r" "r_poisoned (follow r t) = r_poisoned r"
  "r_log_changed (follow r t) = r_log_changed r" "r_role (follow r t) = Follower"
  "r_leader (follow r t) = None" "r_votes (follow r t) = {}" "r_progress (follow r t) = []"
  "r_handoff (follow r t) = None" "r_request (follow r t) = r_request r"
  "r_state (follow r t) =
     (if ps_term (r_state r) < t then (r_state r)\<lparr>ps_term := t, ps_voted_for := None\<rparr> else r_state r)"
  "r_incoming_snapshot (follow r t) =
     (if ps_term (r_state r) < t then None else r_incoming_snapshot r)"
  "lv_enabled (r_liveness (follow r t)) = lv_enabled (r_liveness r)"
  by (simp_all add: follow_def liveness_reset_def Let_def)

lemma follow_kept:
  assumes "raft_inv r"
  shows "raft_inv (follow r t)" "evolves r (follow r t)"
  using assms state_ok_term [of "r_limits r" "r_id r" "r_state r" t]
  by (auto simp: raft_inv_def role_ok_def evolves_def incoming_ok_def)

lemma accept_leader_kept:
  assumes "raft_inv r" "accept_leader r from t out = (r', out')"
  shows "raft_inv r'" "evolves r r'" "out_messages out' = out_messages out"
    "r_state r' = r_state (follow r t)" "r_role r' = Follower"
    "r_incoming_snapshot r' = None \<or> r_incoming_snapshot r' = r_incoming_snapshot (follow r t)"
proof -
  have r': "r' = (follow r t)\<lparr>r_incoming_snapshot := r_incoming_snapshot r', r_leader := Some from\<rparr>"
    and inc: "r_incoming_snapshot r' = None \<or> r_incoming_snapshot r' = r_incoming_snapshot (follow r t)"
    and out: "out_messages out' = out_messages out"
    using assms(2) unfolding accept_leader_def Let_def by (auto split: option.splits if_splits)
  then obtain i where i: "r' = (follow r t)\<lparr>r_incoming_snapshot := i, r_leader := Some from\<rparr>"
      "i = None \<or> i = r_incoming_snapshot (follow r t)"
    by blast
  have f: "raft_inv (follow r t)" "evolves r (follow r t)"
    using assms(1) by (auto intro: follow_kept)
  show "raft_inv r'"
    using f(1) i(2) unfolding i(1) by (auto simp: raft_inv_def role_ok_def incoming_ok_def)
  show "evolves r r'"
    using f(2) unfolding i(1) by (simp add: evolves_def)
  show "out_messages out' = out_messages out" "r_state r' = r_state (follow r t)" "r_role r' = Follower"
    "r_incoming_snapshot r' = None \<or> r_incoming_snapshot r' = r_incoming_snapshot (follow r t)"
    using out inc unfolding i(1) by simp_all
qed

section \<open>Leading\<close>

lemma base_index_snapshot: "ps_snapshot s' = ps_snapshot s \<Longrightarrow> base_index s' = base_index s"
  "ps_snapshot s' = ps_snapshot s \<Longrightarrow> base_term s' = base_term s"
  by (simp_all add: base_index_def base_term_def)

lemma flight_ok_mono:
  "flight_ok s f \<Longrightarrow> ps_snapshot s' = ps_snapshot s \<Longrightarrow> last_of s \<le> last_of s' \<Longrightarrow> flight_ok s' f"
  by (cases f) (auto simp: base_index_snapshot(1) [of s' s])

lemma peer_ok_mono:
  "peer_ok s p \<Longrightarrow> ps_snapshot s' = ps_snapshot s \<Longrightarrow> last_of s \<le> last_of s' \<Longrightarrow> peer_ok s' p"
  using flight_ok_mono by (auto simp: peer_ok_def)

lemma progress_ok_mono:
  assumes "progress_ok r" "r_progress r' = r_progress r" "r_id r' = r_id r"
    and "ps_configuration (r_state r') = ps_configuration (r_state r)"
    and "ps_snapshot (r_state r') = ps_snapshot (r_state r)"
    and "last_of (r_state r) \<le> last_of (r_state r')"
  shows "progress_ok r'"
  using assms(1) peer_ok_mono [OF _ assms(5,6)] unfolding progress_ok_def assms(2-4) by blast

lemma advance_commit_kept:
  assumes "raft_inv r" "r_role r = Leader"
  obtains c b where "advance_commit r = Some (r\<lparr>r_state := (r_state r)\<lparr>ps_commit_index := c\<rparr>\<rparr>, b)"
    and "raft_inv (r\<lparr>r_state := (r_state r)\<lparr>ps_commit_index := c\<rparr>\<rparr>)"
    and "evolves r (r\<lparr>r_state := (r_state r)\<lparr>ps_commit_index := c\<rparr>\<rparr>)"
proof -
  let ?s = "r_state r"
  have ok: "state_ok (r_limits r) (r_id r) ?s" using assms(1) by (simp add: raft_inv_def)
  obtain n where n: "quorum_index (ps_configuration ?s) (matched_of r) = Some n"
    using quorum_index_spec ok by (metis state_ok_def)
  let ?adv = "n > ps_commit_index ?s \<and> term_at r n = Some (ps_term ?s)"
  define c where "c = (if ?adv then n else ps_commit_index ?s)"
  have c: "ps_commit_index ?s \<le> c" "c \<le> last_of ?s"
    using ok by (auto simp: c_def term_at_term_of state_ok_def dest: term_of_bounds)
  let ?r' = "r\<lparr>r_state := ?s\<lparr>ps_commit_index := c\<rparr>\<rparr>"
  have "advance_commit r = Some (?r', ?adv)"
    by (simp add: advance_commit_def n c_def)
  moreover have "progress_ok ?r'"
    by (rule progress_ok_mono [OF raft_inv_progress [OF assms]]) simp_all
  then have "raft_inv ?r'"
    using assms state_ok_commit(1) [OF ok c]
    by (auto simp: raft_inv_def role_ok_def handoff_ok_def last_index_def last_term_def2)
  moreover have "evolves r ?r'"
    using state_ok_commit(2) [OF ok c] by (simp add: evolves_def)
  ultimately show ?thesis using that by blast
qed

lemma retry_quorum_probe_emits: "emits (msg_ok (r_state r) (r_id r)) out (retry_quorum_probe r out)"
  by (auto simp: retry_quorum_probe_def msg_ok_def split: option.splits intro: emits_emit_all)

lemma liveness_kept:
  assumes "raft_inv r"
  shows "raft_inv (r\<lparr>r_liveness := l\<rparr>)" "evolves r (r\<lparr>r_liveness := l\<rparr>)"
  using assms
  by (auto simp: raft_inv_def role_ok_def incoming_ok_def handoff_ok_def last_index_def last_term_def2
      evolves_def progress_ok_def)

lemma start_quorum_probe_kept:
  assumes "raft_inv r" "start_quorum_probe r out = (r', out')"
  shows "kept r out r' out'"
proof -
  obtain l where r': "r' = r\<lparr>r_liveness := l\<rparr>"
    using assms(2) by (auto simp: start_quorum_probe_def Let_def)
  have "out' = retry_quorum_probe r' (out\<lparr>out_reset_election_timer := True\<rparr>)"
    using assms(2) by (auto simp: start_quorum_probe_def Let_def)
  then have "emits (msg_ok (r_state r') (r_id r')) out out'"
    using retry_quorum_probe_emits [of r' "out\<lparr>out_reset_election_timer := True\<rparr>"] by simp
  then show ?thesis
    unfolding kept_def r' using liveness_kept [OF assms(1)] by blast
qed

lemma fold_insert_fresh:
  fixes c n me
  defines "m \<equiv> fold (\<lambda>m. bt_insert m (fresh_progress n)) (filter (\<lambda>m. m \<noteq> me) (members c)) []"
  shows "bt_invar m" "set (bt_keys m) = set (members c) - {me}"
    "\<And>k p. (k, p) \<in> set m \<Longrightarrow> p = fresh_progress n"
proof -
  show inv: "bt_invar m"
    unfolding m_def by (rule btree.invar_fold_insert) simp
  show "set (bt_keys m) = set (members c) - {me}"
    unfolding m_def by (subst btree.keys_fold_insert) auto
  show "p = fresh_progress n" if "(k, p) \<in> set m" for k p
  proof -
    have "distinct (map fst m)" using inv by (simp add: strict_sorted_iff)
    with that have "map_of m k = Some p" by simp
    then show ?thesis
      unfolding m_def
      using btree.lookup_fold_insert [of "[]" "\<lambda>_. fresh_progress n" "filter (\<lambda>m. m \<noteq> me) (members c)" k]
      by (simp split: if_splits)
  qed
qed

lemma state_ok_pos_term:
  "state_ok lim me s \<Longrightarrow> ps_voted_for s = Some m \<Longrightarrow> 0 < ps_term s"
  by (auto simp: state_ok_def)

lemma last_terms_le:
  "state_ok lim me s \<Longrightarrow> last (base_term s # map e_term (ps_entries s)) \<le> ps_term s"
  unfolding state_ok_def by (metis terms_ok_last)

lemma terms_ok_const: "\<forall>x \<in> set xs. x = t \<Longrightarrow> 0 < t \<Longrightarrow> previous \<le> t \<Longrightarrow> terms_ok previous t xs"
  by (induction xs arbitrary: previous) auto

lemma append_own_terms:
  assumes "state_ok lim me s" "0 < ps_term s" "\<forall>e \<in> set new. e_term e = ps_term s"
  shows "terms_ok (last (base_term s # map e_term (ps_entries s))) (ps_term s) (map e_term new)"
  using assms(2,3) last_terms_le [OF assms(1)] by (intro terms_ok_const) auto

lemma leader_append_kept:
  assumes "raft_inv r" "r_role r = Leader" "r_handoff r = None"
    and "length (ps_entries (r_state r) @ new) \<le> max_log_entries (r_limits r)"
    and "last_index r + length new < u64_max"
    and "\<forall>e \<in> set new. e_term e = ps_term (r_state r)"
  defines "r' \<equiv> r\<lparr>r_log_changed := True,
      r_state := (r_state r)\<lparr>ps_entries := ps_entries (r_state r) @ new\<rparr>\<rparr>"
  shows "raft_inv r'" "evolves r r'"
proof -
  have ok: "state_ok (r_limits r) (r_id r) (r_state r)"
    and v: "ps_voted_for (r_state r) = Some (r_id r)"
    using assms(1,2) by (auto simp: raft_inv_def role_ok_def)
  have "terms_ok (last (base_term (r_state r) # map e_term (ps_entries (r_state r))))
      (ps_term (r_state r)) (map e_term new)"
    by (rule append_own_terms [OF ok state_ok_pos_term [OF ok v] assms(6)])
  note st = state_ok_append [OF ok assms(4) _ this]
  have "progress_ok r'"
    by (rule progress_ok_mono [OF raft_inv_progress [OF assms(1,2)]]) (simp_all add: r'_def last_of_def)
  then show "raft_inv r'"
    using assms(1-3,5) st(1) by (auto simp: raft_inv_def role_ok_def r'_def last_index_last_of)
  show "evolves r r'"
    using assms(5) st(2) by (simp add: evolves_def r'_def last_index_last_of)
qed

lemma kept_trans_same:
  "kept r out r' out' \<Longrightarrow> kept r' out' r'' out'' \<Longrightarrow> r_state r'' = r_state r' \<Longrightarrow> kept r out r'' out''"
  unfolding kept_def by (metis emits_trans evolves_state(1) evolves_trans)

lemma start_quorum_probe_state: "start_quorum_probe r out = (r', out') \<Longrightarrow> r_state r' = r_state r"
  by (auto simp: start_quorum_probe_def Let_def)

lemma leader_progress_kept:
  assumes "raft_inv r" "r_role r = Candidate" "quorum (ps_configuration (r_state r)) (r_votes r)"
  defines "r1 \<equiv> r\<lparr>r_role := Leader, r_leader := Some (r_id r),
      r_progress := fold (\<lambda>m. bt_insert m (fresh_progress (last_index r + 1)))
        (filter (\<lambda>m. m \<noteq> r_id r) (members (ps_configuration (r_state r)))) (r_progress r)\<rparr>"
  shows "raft_inv r1" "evolves r r1"
proof -
  have empty: "r_progress r = []" "r_handoff r = None"
    using assms(1,2) by (auto simp: raft_inv_def role_ok_def)
  have "peer_ok (r_state r) (fresh_progress (last_index r + 1))"
    by (simp add: peer_ok_def fresh_progress_def last_index_last_of)
  then have "progress_ok r1"
    using fold_insert_fresh [where n = "last_index r + 1" and me = "r_id r"
        and c = "ps_configuration (r_state r)"]
    by (auto simp: progress_ok_def r1_def empty(1))
  then show "raft_inv r1"
    using assms(1-3) empty by (auto simp: raft_inv_def role_ok_def r1_def)
  show "evolves r r1"
    using assms(2) by (simp add: evolves_def r1_def)
qed

lemma lead_kept:
  assumes "raft_inv r" "r_role r = Leader"
  shows "only_exhausted
     (case advance_commit r of None \<Rightarrow> Inl (Panic, r)
      | Some (r1, _) \<Rightarrow>
          and_then (broadcast r1 out False) (\<lambda>(r2, out2).
            Inr (if lv_enabled (r_liveness r2) then start_quorum_probe r2 out2 else (r2, out2))))
     (kept r out)"
proof -
  obtain c b where a: "advance_commit r = Some (r\<lparr>r_state := (r_state r)\<lparr>ps_commit_index := c\<rparr>\<rparr>, b)"
    and inv: "raft_inv (r\<lparr>r_state := (r_state r)\<lparr>ps_commit_index := c\<rparr>\<rparr>)"
    and ev: "evolves r (r\<lparr>r_state := (r_state r)\<lparr>ps_commit_index := c\<rparr>\<rparr>)"
    using advance_commit_kept [OF assms] by blast
  let ?r1 = "r\<lparr>r_state := (r_state r)\<lparr>ps_commit_index := c\<rparr>\<rparr>"
  have "kept r out r3 out3"
    if k: "kept ?r1 out r2 out2" and
      e: "(if lv_enabled (r_liveness r2) then start_quorum_probe r2 out2 else (r2, out2)) = (r3, out3)"
    for r2 out2 r3 out3
  proof -
    have "raft_inv r2" using k by (simp add: kept_def)
    with e have "kept r2 out2 r3 out3 \<and> r_state r3 = r_state r2"
      using start_quorum_probe_kept [of r2 out2 r3 out3] start_quorum_probe_state [of r2 out2 r3 out3]
        kept_refl [of r2 out2] by (auto split: if_splits)
    with k have "kept ?r1 out r3 out3" by (blast intro: kept_trans_same)
    with ev show ?thesis by (rule kept_silent_trans)
  qed
  then show ?thesis
    unfolding a by (auto intro!: only_exhausted_bind [OF broadcast_kept [OF inv]] simp: assms(2)
        split: prod.split) (metis only_exhausted_Inr surj_pair)
qed

lemma become_leader_kept:
  assumes "raft_inv r" "r_role r = Candidate" "quorum (ps_configuration (r_state r)) (r_votes r)"
  shows "only_exhausted (become_leader r out) (kept r out)"
proof -
  define r1 where "r1 = r\<lparr>r_role := Leader, r_leader := Some (r_id r),
      r_progress := fold (\<lambda>m. bt_insert m (fresh_progress (last_index r + 1)))
        (filter (\<lambda>m. m \<noteq> r_id r) (members (ps_configuration (r_state r)))) (r_progress r)\<rparr>"
  define noop where "noop = [\<lparr>e_term = ps_term (r_state r1), e_command = None :: 'a option\<rparr>]"
  define r2 where "r2 = (if length (ps_entries (r_state r)) < max_log_entries (r_limits r)
        \<and> last_index r + 1 < u64_max
      then r1\<lparr>r_log_changed := True,
        r_state := (r_state r1)\<lparr>ps_entries := ps_entries (r_state r1) @ noop\<rparr>\<rparr> else r1)"
  have r1: "raft_inv r1" "evolves r r1"
    unfolding r1_def by (rule leader_progress_kept [OF assms])+
  have lead: "r_role r1 = Leader" and ho: "r_handoff r1 = None" and st: "r_state r1 = r_state r"
    and lim: "r_limits r1 = r_limits r"
    using assms(1,2) by (auto simp: r1_def raft_inv_def role_ok_def)
  have "raft_inv r2 \<and> evolves r1 r2"
  proof (cases "length (ps_entries (r_state r)) < max_log_entries (r_limits r) \<and> last_index r + 1 < u64_max")
    case True
    with leader_append_kept [OF r1(1) lead ho, of noop] show ?thesis
      by (simp add: r2_def noop_def st lim last_index_last_of)
  next
    case False
    then show ?thesis using r1(1) by (auto simp: r2_def)
  qed
  then have r2: "raft_inv r2" "evolves r r2" "r_role r2 = Leader"
    using r1(2) lead by (auto simp: r2_def intro: evolves_trans)
  have "become_leader r out =
     (case advance_commit r2 of None \<Rightarrow> Inl (Panic, r2)
      | Some (r1, _) \<Rightarrow>
          and_then (broadcast r1 out False) (\<lambda>(r2, out2).
            Inr (if lv_enabled (r_liveness r2) then start_quorum_probe r2 out2 else (r2, out2))))"
    unfolding become_leader_def Let_def r2_def r1_def noop_def by simp
  then show ?thesis
    using lead_kept [OF r2(1,3), of out] r2(2)
    by (auto intro: only_exhausted_mono kept_silent_trans)
qed

section \<open>Campaigning\<close>

lemma candidate_kept:
  assumes "raft_inv r" "r_id r \<in> cfg_voters (ps_configuration (r_state r))" "ps_term (r_state r) < t"
  defines "r' \<equiv> (follow r t)\<lparr>r_role := Candidate,
      r_state := (r_state (follow r t))\<lparr>ps_voted_for := Some (r_id (follow r t))\<rparr>,
      r_votes := insert (r_id (follow r t)) (r_votes (follow r t))\<rparr>"
  shows "raft_inv r'" "evolves r r'"
proof -
  let ?s = "r_state (follow r t)"
  have f: "raft_inv (follow r t)" "evolves r (follow r t)"
    by (rule follow_kept [OF assms(1)])+
  have ok: "state_ok (r_limits r) (r_id r) ?s"
    using f(1) by (simp add: raft_inv_def)
  have v: "r_id r \<in> cfg_voters (ps_configuration ?s)" "0 < ps_term ?s" "ps_voted_for ?s = None"
    using assms(2,3) by auto
  note sv = state_ok_vote [OF ok v(1,2) disjI1 [OF v(3)]]
  show "raft_inv r'"
    using f(1) sv(1) assms(2,3) by (auto simp: raft_inv_def role_ok_def r'_def)
  have "evolves (follow r t) r'"
    using sv(2) by (simp add: evolves_def r'_def del: follow_simps(16))
  with f(2) show "evolves r r'" by (rule evolves_trans)
qed

lemma campaign_kept:
  assumes "raft_inv r" "r_id r \<in> cfg_voters (ps_configuration (r_state r))"
  shows "only_exhausted (campaign r out) (kept r out)"
proof (cases "r_role r = Leader \<or> u64_max < ps_term (r_state r) + 1")
  case True
  then show ?thesis
    using assms(1) by (auto simp: campaign_def checked_add_def kept_refl)
next
  case False
  define t where "t = ps_term (r_state r) + 1"
  define r2 where "r2 = (follow r t)\<lparr>r_role := Candidate,
      r_state := (r_state (follow r t))\<lparr>ps_voted_for := Some (r_id (follow r t))\<rparr>,
      r_votes := insert (r_id (follow r t)) (r_votes (follow r t))\<rparr>"
  let ?out = "out\<lparr>out_reset_election_timer := True\<rparr>"
  let ?voters = "filter (\<lambda>m. m \<noteq> r_id r2) (ascending (cfg_voters (ps_configuration (r_state r2))))"
  have k: "raft_inv r2" "evolves r r2"
    unfolding r2_def by (rule candidate_kept [OF assms], simp add: t_def)+
  have eq: "campaign r out =
      (if quorum (ps_configuration (r_state r2)) (r_votes r2) then become_leader r2 ?out
       else Inr (r2, emit_all r2 ?voters (RequestVote t (last_index r2) (last_term r2)) ?out))"
    using False by (simp add: campaign_def checked_add_def r2_def t_def Let_def)
  have fields: "r_role r2 = Candidate" "ps_term (r_state r2) = t" "ps_voted_for (r_state r2) = Some (r_id r2)"
    by (simp_all add: r2_def t_def)
  show ?thesis
  proof (cases "quorum (ps_configuration (r_state r2)) (r_votes r2)")
    case True
    with become_leader_kept [OF k(1) fields(1), of ?out] k(2) show ?thesis
      by (simp add: eq only_exhausted_silent)
  next
    case False
    have "emits (msg_ok (r_state r2) (r_id r2)) ?out
        (emit_all r2 ?voters (RequestVote t (last_index r2) (last_term r2)) ?out)"
      by (rule emits_emit_all) (simp add: msg_ok_def fields last_index_last_of last_term_def2)
    with False k show ?thesis by (simp add: eq kept_def)
  qed
qed

lemma pre_candidate_kept:
  assumes "raft_inv r" "r_id r \<in> cfg_voters (ps_configuration (r_state r))"
  defines "r' \<equiv> (follow r (ps_term (r_state r)))\<lparr>r_incoming_snapshot := None, r_role := PreCandidate\<rparr>"
  shows "raft_inv r'" "evolves r r'"
  using follow_kept [OF assms(1), of "ps_term (r_state r)"] assms(2)
  by (auto simp: raft_inv_def role_ok_def evolves_def r'_def)

lemma pre_campaign_kept:
  assumes "raft_inv r" "r_id r \<in> cfg_voters (ps_configuration (r_state r))"
  shows "only_exhausted (pre_campaign r out) (kept r out)"
proof (cases "r_role r = Leader \<or> u64_max < ps_term (r_state r) + 1")
  case True
  then show ?thesis
    using assms(1) by (auto simp: pre_campaign_def checked_add_def kept_refl)
next
  case False
  define t where "t = ps_term (r_state r) + 1"
  define r1 where "r1 = (follow r (ps_term (r_state r)))\<lparr>r_incoming_snapshot := None, r_role := PreCandidate\<rparr>"
  define r2 where "r2 = r1\<lparr>r_liveness := (r_liveness r1)\<lparr>lv_pre_vote :=
      Some \<lparr>pv_term = t, pv_round = r_generation r1, pv_voters = {r_id r1}\<rparr>\<rparr>\<rparr>"
  let ?out = "out\<lparr>out_reset_election_timer := True\<rparr>"
  let ?voters = "filter (\<lambda>m. m \<noteq> r_id r2) (ascending (cfg_voters (ps_configuration (r_state r2))))"
  have k1: "raft_inv r1" "evolves r r1"
    unfolding r1_def by (rule pre_candidate_kept [OF assms])+
  have k2: "raft_inv r2" "evolves r r2"
    using liveness_kept [OF k1(1)] k1(2) by (auto simp: r2_def intro: evolves_trans)
  have eq: "pre_campaign r out =
      (if quorum (ps_configuration (r_state r1)) {r_id r1} then campaign r1 ?out
       else Inr (r2, emit_all r2 ?voters
          (PreVoteRequest t (r_generation r2) (last_index r2) (last_term r2)) ?out))"
    using False by (simp add: pre_campaign_def checked_add_def r1_def r2_def t_def Let_def)
  have "r_id r1 \<in> cfg_voters (ps_configuration (r_state r1))"
    using assms(2) by (simp add: r1_def)
  then have "only_exhausted (campaign r1 ?out) (kept r1 ?out)"
    by (rule campaign_kept [OF k1(1)])
  then have "only_exhausted (campaign r1 ?out) (kept r out)"
    using k1(2) by (simp add: only_exhausted_silent)
  moreover have "emits (msg_ok (r_state r2) (r_id r2)) ?out (emit_all r2 ?voters
          (PreVoteRequest t (r_generation r2) (last_index r2) (last_term r2)) ?out)"
    by (rule emits_emit_all) (simp add: msg_ok_def)
  ultimately show ?thesis using k2 by (simp add: eq kept_def)
qed

lemma liveness_timeout_kept:
  assumes "raft_inv r" "r_id r \<in> cfg_voters (ps_configuration (r_state r))"
  shows "only_exhausted (liveness_timeout r out) (kept r out)"
proof -
  define r1 where "r1 = r\<lparr>r_liveness := (r_liveness r)\<lparr>lv_enabled := True\<rparr>\<rparr>"
  have k: "raft_inv r1" "evolves r r1"
    unfolding r1_def by (rule liveness_kept [OF assms(1)])+
  have v: "r_id r1 \<in> cfg_voters (ps_configuration (r_state r1))"
    using assms(2) by (simp add: r1_def)
  have start: "kept r1 out (fst (start_quorum_probe r1 out)) (snd (start_quorum_probe r1 out))"
    by (rule start_quorum_probe_kept [OF k(1)]) simp
  have down: "kept r1 out (follow r1 (ps_term (r_state r1))) (out\<lparr>out_reset_election_timer := True\<rparr>)"
    using follow_kept [OF k(1)] by (simp add: kept_def)
  have "only_exhausted (liveness_timeout r out) (kept r1 out)"
    using pre_campaign_kept [OF k(1) v] start down
    unfolding liveness_timeout_def Let_def r1_def [symmetric]
    by (auto simp: only_exhausted_def split: prod.splits)
  then show ?thesis
    using k(2) by (auto intro: only_exhausted_mono kept_silent_trans)
qed

lemma pre_vote_reply_kept:
  assumes "raft_inv r"
  shows "only_exhausted (pre_vote_reply r from prospective round granted out) (kept r out)"
proof (cases "lv_pre_vote (r_liveness r)")
  case None
  then show ?thesis using assms by (simp add: pre_vote_reply_def kept_refl)
next
  case (Some pending)
  define r1 where "r1 = r\<lparr>r_liveness := (r_liveness r)
      \<lparr>lv_pre_vote := Some (pending\<lparr>pv_voters := insert from (pv_voters pending)\<rparr>)\<rparr>\<rparr>"
  have k: "raft_inv r1" "evolves r r1"
    unfolding r1_def by (rule liveness_kept [OF assms])+
  have "only_exhausted (campaign r1 out) (kept r out)" if "r_role r = PreCandidate"
  proof -
    have "r_id r1 \<in> cfg_voters (ps_configuration (r_state r1))"
      using assms that by (auto simp: raft_inv_def role_ok_def r1_def)
    from campaign_kept [OF k(1) this] show ?thesis
      using k(2) by (blast intro: only_exhausted_mono kept_silent_trans)
  qed
  moreover have "kept r out r1 out" using k by (simp add: kept_def)
  ultimately show ?thesis
    using assms unfolding r1_def by (simp add: pre_vote_reply_def Some kept_refl Let_def)
qed

text \<open>The vote a reply adds to the count of a candidate, the only votes that come from outside.\<close>

definition credited :: "'c raft \<Rightarrow> member_id \<Rightarrow> u64 \<Rightarrow> bool \<Rightarrow> 'c raft" where
  "credited r from t granted =
     (if t = ps_term (r_state r) \<and> r_role r = Candidate \<and> granted
      then r\<lparr>r_votes := insert from (r_votes r)\<rparr> else r)"

lemma credited_inv: "raft_inv r \<Longrightarrow> raft_inv (credited r from t granted)"
  by (auto simp: credited_def raft_inv_def role_ok_def incoming_ok_def handoff_ok_def)

lemma receive_vote_kept:
  assumes "raft_inv r"
  shows "only_exhausted (receive_vote r from t granted out) (kept (credited r from t granted) out)"
proof (cases "t = ps_term (r_state r) \<and> r_role r = Candidate \<and> granted")
  case True
  let ?r1 = "credited r from t granted"
  have "r_role ?r1 = Candidate" using True by (simp add: credited_def)
  then have r1: "r_role ?r1 = Candidate" "raft_inv ?r1"
    using credited_inv [OF assms] by simp_all
  moreover have "receive_vote r from t granted out =
      (if quorum (ps_configuration (r_state ?r1)) (r_votes ?r1) then become_leader ?r1 out else Inr (?r1, out))"
    using True by (simp add: receive_vote_def credited_def)
  ultimately show ?thesis using become_leader_kept [OF r1(2,1)] kept_refl [OF r1(2)] by simp
next
  case False
  then have "credited r from t granted = r" by (auto simp: credited_def)
  with False show ?thesis using kept_refl [OF assms] by (auto simp: receive_vote_def)
qed

section \<open>Peer messages\<close>

lemma quorum_probe_kept:
  assumes "raft_inv r" "quorum_probe r from t round out = (r', out')"
  shows "kept r out r' out'"
proof -
  obtain r1 out1 where a: "(if t = ps_term (r_state r) then accept_leader r from t out else (r, out)) = (r1, out1)"
    by (metis surj_pair)
  have k: "raft_inv r1" "evolves r r1" "out_messages out1 = out_messages out"
    using accept_leader_kept [OF assms(1)] a assms(1) by (auto split: if_splits)
  have r': "r' = r1" "out' = (if r_id r1 \<in> cfg_voters (ps_configuration (r_state r1))
      then emit r1 from (QuorumReply (ps_term (r_state r1)) round) out1 else out1)"
    using assms(2) unfolding quorum_probe_def a by auto
  have "emits (msg_ok (r_state r') (r_id r')) out1 out'"
    by (auto simp: r' msg_ok_def intro: emits_emit)
  then have "emits (msg_ok (r_state r') (r_id r')) out out'"
    by (simp add: emits_def k(3))
  then show ?thesis using k by (simp add: kept_def r')
qed

lemma quorum_reply_kept: "raft_inv r \<Longrightarrow> kept r out (quorum_reply r from t round) out"
  by (auto simp: quorum_reply_def kept_def liveness_kept split: option.splits)

lemma timeout_now_kept:
  "raft_inv r \<Longrightarrow> only_exhausted (timeout_now r from t lastindex lastterm out) (kept r out)"
  by (simp add: timeout_now_def kept_refl campaign_kept)

lemma pre_vote_request_kept:
  "raft_inv r \<Longrightarrow> kept r out r (pre_vote_request r from prospective round lastindex lastterm out)"
  unfolding kept_def pre_vote_request_def Let_def by (auto simp: msg_ok_def intro!: emits_emit)

lemma grant_vote_kept:
  assumes "raft_inv r" "from \<in> cfg_voters (ps_configuration (r_state r))" "from \<noteq> r_id r" "0 < t"
    and "t = ps_term (r_state r)"
    and "ps_voted_for (r_state r) = None \<or> ps_voted_for (r_state r) = Some from"
  defines "r1 \<equiv> if r_role r = PreCandidate then follow r t else r"
  defines "r' \<equiv> r1\<lparr>r_state := (r_state r1)\<lparr>ps_voted_for := Some from\<rparr>\<rparr>"
  shows "raft_inv r'" "evolves r r'"
proof -
  have k: "raft_inv r1" "evolves r r1"
    using assms(1) by (auto simp: r1_def intro: follow_kept)
  have st: "r_state r1 = r_state r" using assms(5) by (simp add: r1_def)
  have ok: "state_ok (r_limits r1) (r_id r1) (r_state r1)"
    using k(1) by (simp add: raft_inv_def)
  have pos: "0 < ps_term (r_state r1)" using assms(4,5) st by simp
  note sv = state_ok_vote [OF ok assms(2) [folded st] pos assms(6) [folded st]]
  have not_cand: "r_role r1 = Follower"
    using assms(1,3,6) by (cases "r_role r") (auto simp: r1_def raft_inv_def role_ok_def)
  show "raft_inv r'"
    using k(1) sv(1) not_cand
    by (auto simp: raft_inv_def role_ok_def r'_def incoming_ok_def)
  have "evolves r1 r'" using sv(2) by (simp add: evolves_def r'_def)
  with k(2) show "evolves r r'" by (rule evolves_trans)
qed

lemma receive_request_vote_kept:
  assumes "raft_inv r" "from \<in> cfg_voters (ps_configuration (r_state r))" "from \<noteq> r_id r" "0 < t"
    and "receive_request_vote r from t lastindex lastterm out = (r', out')"
  shows "kept r out r' out'"
proof (cases "t = ps_term (r_state r) \<and> r_id r \<in> cfg_voters (ps_configuration (r_state r))
    \<and> (ps_voted_for (r_state r) = None \<or> ps_voted_for (r_state r) = Some from)
    \<and> log_fresh r lastindex lastterm")
  case True
  define r1 where "r1 = (if r_role r = PreCandidate then follow r t else r)"
  have r': "r' = r1\<lparr>r_state := (r_state r1)\<lparr>ps_voted_for := Some from\<rparr>\<rparr>"
    and out': "out' = emit r' from (Vote (ps_term (r_state r')) True) (out\<lparr>out_reset_election_timer := True\<rparr>)"
    using assms(5) True by (auto simp: receive_request_vote_def r1_def Let_def)
  have "raft_inv r'"
    unfolding r' r1_def by (rule grant_vote_kept(1) [OF assms(1-4)]) (use True in auto)
  moreover have "evolves r r'"
    unfolding r' r1_def by (rule grant_vote_kept(2) [OF assms(1-4)]) (use True in auto)
  moreover have "emits (msg_ok (r_state r') (r_id r')) (out\<lparr>out_reset_election_timer := True\<rparr>) out'"
    unfolding out' by (rule emits_emit) (simp add: msg_ok_def r')
  ultimately show ?thesis by (simp add: kept_def)
next
  case False
  then have "r' = r" "out' = emit r from (Vote (ps_term (r_state r)) False) out"
    using assms(5) by (auto simp: receive_request_vote_def Let_def)
  moreover have "emits (msg_ok (r_state r) (r_id r)) out (emit r from (Vote (ps_term (r_state r)) False) out)"
    by (rule emits_emit) (simp add: msg_ok_def)
  ultimately show ?thesis using assms(1) by (simp add: kept_def)
qed

end
