(* ===== verification/RaftReceive.thy ===== *)
theory RaftReceive
  imports RaftInvariant
begin

text \<open>
  Preservation of the node invariant by the replication handlers: appends and their replies,
  snapshot offers and installation, compaction and proposals.
\<close>

section \<open>Appends\<close>

text \<open>An append that passed validation in the state before the term was followed.\<close>

lemma validate_append_spec:
  assumes "validate_append r t prev prev_term new = Inr ()"
  shows "terms_ok prev_term t (map e_term new)" "prev + length new < u64_max"
    "ps_term (r_state r) \<le> t \<Longrightarrow> term_of (r_state r) prev = Some prev_term \<Longrightarrow>
       prev + length new - base_index (r_state r) \<le> max_log_entries (r_limits r) \<and>
       agrees_committed (r_state r) prev new"
  using assms
  by (auto simp: validate_append_def entry_terms_ok_iff checked_add_def term_at_term_of
      intro: validate_overlap_committed split: option.splits if_splits)

lemma merge_entries_eq:
  obtains l where
    "merge_entries position new r = r\<lparr>r_state :=
       (r_state r)\<lparr>ps_entries := merge_list position new (ps_entries (r_state r))\<rparr>, r_log_changed := l\<rparr>"
    and "r_log_changed r \<Longrightarrow> l"
    and "\<not> l \<Longrightarrow> merge_list position new (ps_entries (r_state r)) = ps_entries (r_state r)"
proof -
  let ?r = "merge_entries position new r"
  have "?r = r\<lparr>r_state := r_state ?r, r_log_changed := r_log_changed ?r\<rparr>"
    by (rule merge_entries_frame)
  moreover have "merge_list position new (ps_entries (r_state r)) = ps_entries (r_state r)"
    if "\<not> r_log_changed ?r"
  proof -
    have "ps_entries (r_state ?r) = ps_entries (r_state r)"
      using merge_entries_log_changed(2) [OF that] by simp
    then show ?thesis by (simp add: merge_entries_state)
  qed
  ultimately show ?thesis
    using that merge_entries_log_changed(1) merge_entries_state by metis
qed

lemma accept_append_kept:
  fixes r :: "'c raft" and commit :: u64 and prev :: u64 and new :: "'c entry list"
  defines "merged \<equiv> merge_list (prev - base_index (r_state r)) new (ps_entries (r_state r))"
  defines "s' \<equiv> (r_state r)\<lparr>ps_entries := merged,
      ps_commit_index := max (ps_commit_index (r_state r)) (min commit (prev + length new))\<rparr>"
  assumes inv: "raft_inv r" "r_role r = Follower" "term_of (r_state r) prev = Some prev_term"
    and new: "terms_ok prev_term (ps_term (r_state r)) (map e_term new)" "prev + length new < u64_max"
    "prev + length new - base_index (r_state r) \<le> max_log_entries (r_limits r)"
    "agrees_committed (r_state r) prev new"
    and l: "r_log_changed r \<Longrightarrow> l" "\<not> l \<Longrightarrow> merged = ps_entries (r_state r)"
    and i: "\<And>p. i = Some p \<Longrightarrow> r_incoming_snapshot r = Some p \<and>
             ps_commit_index s' < sc_index (st_snapshot (is_transfer p))"
  shows "raft_inv (r\<lparr>r_log_changed := l, r_state := s', r_incoming_snapshot := i\<rparr>)"
    "evolves r (r\<lparr>r_log_changed := l, r_state := s', r_incoming_snapshot := i\<rparr>)"
proof -
  have ok: "state_ok (r_limits r) (r_id r) (r_state r)" using inv(1) by (simp add: raft_inv_def)
  note m = merge_state_ok [OF ok inv(3) new(1,3,2,4), folded merged_def]
  have c: "ps_commit_index (r_state r) \<le> ps_commit_index s'"
      "ps_commit_index s' \<le> last_of ((r_state r)\<lparr>ps_entries := merged\<rparr>)"
    using m(1,3) by (auto simp: s'_def state_ok_def)
  have s': "s' = (r_state r)\<lparr>ps_entries := merged\<rparr>\<lparr>ps_commit_index := ps_commit_index s'\<rparr>"
    by (simp add: s'_def)
  have ok': "state_ok (r_limits r) (r_id r) s'"
    by (subst s', rule state_ok_commit(1) [OF m(1)]) (use c in auto)
  have ev: "state_evolves (r_state r) s'"
    by (subst s', rule state_evolves_trans [OF m(2) state_ok_commit(2) [OF m(1)]]) (use c in auto)
  have "incoming_ok (r\<lparr>r_log_changed := l, r_state := s', r_incoming_snapshot := i\<rparr>) p"
    if "i = Some p" for p
    using i [OF that] inv(1) by (auto simp: raft_inv_def incoming_ok_def s'_def)
  then show "raft_inv (r\<lparr>r_log_changed := l, r_state := s', r_incoming_snapshot := i\<rparr>)"
    using inv(1,2) ok' by (auto simp: raft_inv_def role_ok_def)
  show "evolves r (r\<lparr>r_log_changed := l, r_state := s', r_incoming_snapshot := i\<rparr>)"
    using ev l by (auto simp: evolves_def s'_def)
qed

lemma drop_incoming:
  "(case r_incoming_snapshot r of None \<Rightarrow> r
    | Some p \<Rightarrow> if c p then r\<lparr>r_incoming_snapshot := None\<rparr> else r) =
   r\<lparr>r_incoming_snapshot := (case r_incoming_snapshot r of None \<Rightarrow> None
      | Some p \<Rightarrow> if c p then None else Some p)\<rparr>"
  by (auto intro!: raft.equality split: option.splits)

lemma receive_append_kept:
  assumes "raft_inv r" "validate_append r0 t prev prev_term new = Inr ()"
    and r: "r = (if t > ps_term (r_state r0) then follow r0 t else r0)"
    and res: "receive_append r from t request prev prev_term new commit out = (r', out')"
  shows "kept r out r' out'"
proof (cases "t < ps_term (r_state r)")
  case True
  then have "r' = r"
    "out' = emit r from (Appended (ps_term (r_state r)) request False (last_index r + 1)) out"
    using res by (auto simp: receive_append_def)
  moreover have "emits (msg_ok (r_state r) (r_id r)) out
      (emit r from (Appended (ps_term (r_state r)) request False (last_index r + 1)) out)"
    by (rule emits_emit) (simp add: msg_ok_def)
  ultimately show ?thesis using assms(1) by (simp add: kept_def)
next
  case False
  obtain r1 out1 where a: "accept_leader r from t out = (r1, out1)" by (metis surj_pair)
  note k = accept_leader_kept [OF assms(1) a]
  have eqt: "ps_term (r_state r) = t" using False r by (simp split: if_splits)
  then have st: "r_state r1 = r_state r" using k(4) by simp
  have reply: "kept r out r2 (emit r2 from (Appended t request b h) out1)"
    if "raft_inv r2" "evolves r1 r2" for r2 b h
  proof -
    have "emits (msg_ok (r_state r2) (r_id r2)) out1 (emit r2 from (Appended t request b h) out1)"
      by (rule emits_emit) (simp add: msg_ok_def)
    then show ?thesis
      using that k(2,3) by (auto simp: kept_def emits_def intro: evolves_trans)
  qed
  show ?thesis
  proof (cases "term_of (r_state r1) prev = Some prev_term")
    case False
    then show ?thesis
      using res \<open>\<not> t < _\<close> reply [OF k(1) evolves_refl] a
      by (auto simp: receive_append_def term_at_term_of)
  next
    case True
    have same: "term_of (r_state r0) prev = Some prev_term" "base_index (r_state r) = base_index (r_state r0)"
        "agrees_committed (r_state r) prev new = agrees_committed (r_state r0) prev new"
      using True unfolding st r by (cases "t > ps_term (r_state r0)") (auto simp: agrees_committed_def)
    note v = validate_append_spec [OF assms(2)]
    have lim: "r_limits r1 = r_limits r0"
      using evolves_state(3) [OF k(2)] r by simp
    have t0: "ps_term (r_state r0) \<le> t" using eqt r by (auto split: if_splits)
    have new: "terms_ok prev_term (ps_term (r_state r1)) (map e_term new)" "prev + length new < u64_max"
      "prev + length new - base_index (r_state r1) \<le> max_log_entries (r_limits r1)"
      "agrees_committed (r_state r1) prev new"
      using v(1,2) v(3) [OF t0 same(1)] eqt st same lim by simp_all
    let ?merged = "merge_list (prev - base_index (r_state r1)) new (ps_entries (r_state r1))"
    define s' where "s' = (r_state r1)\<lparr>ps_entries := ?merged,
      ps_commit_index := max (ps_commit_index (r_state r1)) (min commit (prev + length new))\<rparr>"
    obtain l where merge: "merge_entries (prev - base_index (r_state r1)) new r1 =
        r1\<lparr>r_state := (r_state r1)\<lparr>ps_entries := ?merged\<rparr>, r_log_changed := l\<rparr>"
      and l: "r_log_changed r1 \<Longrightarrow> l" "\<not> l \<Longrightarrow> ?merged = ps_entries (r_state r1)"
      by (rule merge_entries_eq [of "prev - base_index (r_state r1)" new r1]) (rule that)
    define i where "i = (case r_incoming_snapshot r1 of None \<Rightarrow> None
      | Some pending \<Rightarrow> if sc_index (st_snapshot (is_transfer pending)) \<le> ps_commit_index s'
          then None else Some pending)"
    define r4 where "r4 = r1\<lparr>r_log_changed := l, r_state := s', r_incoming_snapshot := i\<rparr>"
    have i: "r_incoming_snapshot r1 = Some p \<and> ps_commit_index s' < sc_index (st_snapshot (is_transfer p))"
      if "i = Some p" for p
      using that by (auto simp: i_def split: option.splits if_splits)
    have "raft_inv r4"
      unfolding r4_def s'_def
      by (rule accept_append_kept(1) [OF k(1,5) True new l]) (use i in \<open>auto simp: s'_def\<close>)
    moreover have "evolves r1 r4"
      unfolding r4_def s'_def
      by (rule accept_append_kept(2) [OF k(1,5) True new l]) (use i in \<open>auto simp: s'_def\<close>)
    moreover have "r' = r4 \<and> out' = emit r4 from (Appended t request True 0) out1"
      using res \<open>\<not> t < _\<close> a True
      unfolding receive_append_def Let_def drop_incoming r4_def i_def s'_def
      by (auto simp: term_at_term_of merge cong: option.case_cong)
    ultimately show ?thesis using reply by blast
  qed
qed

section \<open>Snapshots\<close>

text \<open>What the fields of a \<open>SnapshotCut\<close> satisfy when it was built by \<open>from_authenticated_parts\<close>, the
  only public constructor.\<close>

definition cut_wf :: "snapshot_cut \<Rightarrow> bool" where
  "cut_wf snap \<longleftrightarrow> 0 < sc_index snap \<and> sc_index snap < u64_max \<and> 0 < sc_term snap"

lemma validate_snapshot_cut_ok:
  assumes "validate_snapshot r snap = Inr ()" "cut_wf snap"
  shows "cut_ok (ps_configuration (r_state r)) snap"
  using assms by (auto simp: validate_snapshot_def cut_ok_def cut_wf_def split: if_splits)

lemma validate_install_snapshot_spec:
  assumes "validate_install_snapshot r from t request snap = Inr ()" "cut_wf snap"
  shows "cut_ok (ps_configuration (r_state r)) snap" "sc_term snap \<le> t"
  using assms validate_snapshot_cut_ok
  by (auto simp: validate_install_snapshot_def and_then_eq_Inr split: if_splits)

lemma incoming_kept:
  assumes "raft_inv r" "r_role r = Follower"
    and "\<And>p. i = Some p \<Longrightarrow> incoming_ok r p"
  shows "raft_inv (r\<lparr>r_incoming_snapshot := i\<rparr>)" "evolves r (r\<lparr>r_incoming_snapshot := i\<rparr>)"
  using assms by (auto simp: raft_inv_def role_ok_def evolves_def incoming_ok_def)

lemma offer_snapshot_kept:
  assumes "raft_inv r" "validate_install_snapshot r0 from t request snap = Inr ()" "cut_wf snap"
    and r: "r = (if t > ps_term (r_state r0) then follow r0 t else r0)"
    and res: "offer_snapshot r from t request snap out = (r', out')"
  shows "kept r out r' out'"
proof (cases "t < ps_term (r_state r)")
  case True
  then have "r' = r"
    "out' = emit r from (Appended (ps_term (r_state r)) request False (last_index r + 1)) out"
    using res by (auto simp: offer_snapshot_def)
  moreover have "emits (msg_ok (r_state r) (r_id r)) out
      (emit r from (Appended (ps_term (r_state r)) request False (last_index r + 1)) out)"
    by (rule emits_emit) (simp add: msg_ok_def)
  ultimately show ?thesis using assms(1) by (simp add: kept_def)
next
  case False
  obtain r1 out1 where a: "accept_leader r from t out = (r1, out1)" by (metis surj_pair)
  note k = accept_leader_kept [OF assms(1) a]
  have eqt: "ps_term (r_state r) = t" using False r by (simp split: if_splits)
  then have st: "r_state r1 = r_state r" using k(4) by simp
  have cut: "cut_ok (ps_configuration (r_state r1)) snap" "sc_term snap \<le> ps_term (r_state r1)"
    using validate_install_snapshot_spec [OF assms(2,3)] eqt r st by (auto split: if_splits)
  have silent: "kept r out r2 out2" if "raft_inv r2" "evolves r1 r2" "out_messages out2 = out_messages out1"
    for r2 and out2 :: "'a raft_output"
    using that k(2,3) by (auto simp: kept_def emits_def intro: evolves_trans)
  have fresh: "kept r out (r1\<lparr>r_incoming_snapshot := Some p\<rparr>) out2"
    if "sc_index snap > ps_commit_index (r_state r1)" "st_snapshot (is_transfer p) = snap" "is_term p = t"
      "out_messages out2 = out_messages out1" for p and out2 :: "'a raft_output"
    using that cut eqt st
    by (intro silent incoming_kept [OF k(1,5)]) (auto simp: incoming_ok_def)
  have reply: "kept r out r1 (emit r1 from (SnapshotInstalled t request) out1)"
  proof -
    have "emits (msg_ok (r_state r1) (r_id r1)) out1 (emit r1 from (SnapshotInstalled t request) out1)"
      by (rule emits_emit) (simp add: msg_ok_def)
    then show ?thesis using k(1,2,3) by (auto simp: kept_def emits_def)
  qed
  show ?thesis
    using res False a reply fresh silent [OF k(1) evolves_refl]
    by (auto simp: offer_snapshot_def Let_def split: if_splits option.splits)
qed

lemma list_drain_drop: "n \<le> length xs \<Longrightarrow> list_drain xs n = Some (drop n xs)"
  by (simp add: list_drain_def)

lemma install_state_kept:
  fixes r :: "'c raft"
  assumes inv: "raft_inv r" "r_role r \<noteq> Leader" "r_role r \<noteq> Candidate"
    and "state_ok (r_limits r) (r_id r) s'" "state_evolves (r_state r) s'" "ps_term s' = ps_term (r_state r)"
  shows "raft_inv (r\<lparr>r_incoming_snapshot := None, r_state := s', r_log_changed := True\<rparr>)"
    "evolves r (r\<lparr>r_incoming_snapshot := None, r_state := s', r_log_changed := True\<rparr>)"
  using assms by (auto simp: raft_inv_def role_ok_def evolves_def state_evolves_def)

lemma drain_cut:
  assumes "state_ok lim me s" "base_index s < sc_index snap" "term_of s (sc_index snap) = Some (sc_term snap)"
  shows "Option.bind (checked_sub (sc_index snap) (base_index s)) (list_drain (ps_entries s)) =
     Some (drop (sc_index snap - base_index s) (ps_entries s))"
  using assms(2) term_of_entry(1) [OF assms(2,3)]
  by (auto simp: checked_sub_def last_of_def list_drain_drop)

lemma state_cut_evolves:
  assumes "state_ok lim me s" "cut_ok (ps_configuration s) snap" "base_index s < sc_index snap"
    and "term_of s (sc_index snap) = Some (sc_term snap)"
    and c: "sc_index snap \<le> c" "ps_commit_index s \<le> c" "c \<le> last_of s"
  shows "state_ok lim me (s\<lparr>ps_entries := drop (sc_index snap - base_index s) (ps_entries s),
      ps_commit_index := c, ps_snapshot := Some snap\<rparr>)" (is "state_ok _ _ ?s")
    "state_evolves s (s\<lparr>ps_entries := drop (sc_index snap - base_index s) (ps_entries s),
      ps_commit_index := c, ps_snapshot := Some snap\<rparr>)"
proof -
  note sc = state_ok_cut [OF assms(1-4)]
  have eq: "?s = s\<lparr>ps_entries := drop (sc_index snap - base_index s) (ps_entries s), ps_snapshot := Some snap\<rparr>
      \<lparr>ps_commit_index := c\<rparr>" by simp
  show "state_ok lim me ?s" unfolding eq using sc(3) [OF c] .
  show "state_evolves s ?s"
    unfolding eq using c sc(2,4) assms(3) by (auto simp: state_evolves_def)
qed

lemma install_snapshot_kept:
  assumes "raft_inv r" "validate_transfer r token = Inr ()"
  shows "only_exhausted (install_snapshot r out) (kept r out)"
proof -
  obtain p where p: "r_incoming_snapshot r = Some p"
    using assms(2) by (auto simp: validate_transfer_def split: option.splits if_splits)
  let ?snap = "st_snapshot (is_transfer p)" and ?s = "r_state r"
  have inc: "cut_ok (ps_configuration ?s) ?snap" "ps_commit_index ?s < sc_index ?snap"
      "sc_term ?snap \<le> ps_term ?s"
    using assms(1) p by (auto simp: raft_inv_def incoming_ok_def)
  have ok: "state_ok (r_limits r) (r_id r) ?s" and role: "r_role r \<noteq> Leader" "r_role r \<noteq> Candidate"
    using assms(1) p by (auto simp: raft_inv_def role_ok_def)
  have b: "base_index ?s < sc_index ?snap" using ok inc(2) by (simp add: state_ok_def)
  define es where "es = (if term_of ?s (sc_index ?snap) = Some (sc_term ?snap)
    then drop (sc_index ?snap - base_index ?s) (ps_entries ?s) else [])"
  define s' where "s' = ?s\<lparr>ps_entries := es, ps_commit_index := sc_index ?snap, ps_snapshot := Some ?snap\<rparr>"
  define r' where "r' = r\<lparr>r_incoming_snapshot := None, r_state := s', r_log_changed := True\<rparr>"
  have "state_ok (r_limits r) (r_id r) s' \<and> state_evolves ?s s'"
  proof (cases "term_of ?s (sc_index ?snap) = Some (sc_term ?snap)")
    case True
    then show ?thesis
      using state_cut_evolves [OF ok inc(1) b True order.refl] inc(2) term_of_entry(1) [OF b True]
      by (simp add: s'_def es_def)
  next
    case False
    then show ?thesis using state_ok_replace [OF ok inc] by (simp add: s'_def es_def)
  qed
  then have k: "raft_inv r'" "evolves r r'"
    unfolding r'_def using install_state_kept [OF assms(1) role, of s'] by (simp_all add: s'_def)
  have "install_snapshot r out = Inr (r', emit r' (st_source (is_transfer p))
      (SnapshotInstalled (ps_term (r_state r')) (is_request p)) (out\<lparr>out_installed_snapshot := Some ?snap\<rparr>))"
    using p inc(2) drain_cut [OF ok b]
    by (simp add: install_snapshot_def Let_def term_at_term_of r'_def s'_def es_def)
  moreover have "emits (msg_ok (r_state r') (r_id r')) (out\<lparr>out_installed_snapshot := Some ?snap\<rparr>)
      (emit r' (st_source (is_transfer p)) (SnapshotInstalled (ps_term (r_state r')) (is_request p))
        (out\<lparr>out_installed_snapshot := Some ?snap\<rparr>))"
    by (rule emits_emit) (simp add: msg_ok_def)
  ultimately show ?thesis using k by (simp add: kept_def)
qed

lemma last_term_cut:
  assumes "base_index s < sc_index snap" "term_of s (sc_index snap) = Some (sc_term snap)"
  shows "last (sc_term snap # map e_term (drop (sc_index snap - base_index s) (ps_entries s))) =
    last (base_term s # map e_term (ps_entries s))"
proof -
  let ?n = "sc_index snap - base_index s"
  have n: "0 < ?n" "?n \<le> length (ps_entries s)" "e_term (ps_entries s ! (?n - 1)) = sc_term snap"
    using assms(1) term_of_entry [OF assms] by (auto simp: last_of_def)
  show ?thesis
  proof (cases "?n = length (ps_entries s)")
    case True
    then have "ps_entries s \<noteq> []" using n(1) by auto
    with True n(3) show ?thesis by (simp add: last_map last_conv_nth)
  next
    case False
    with n(2) have "?n < length (ps_entries s)" by simp
    then show ?thesis by (auto simp: last_map)
  qed
qed

lemma reset_progress_ok:
  assumes "peer_ok s p" "last_of s' = last_of s"
  shows "peer_ok s' (reset_progress p)"
  using assms by (auto simp: peer_ok_def reset_progress_def)

lemma progress_ok_map:
  assumes "progress_ok r" "\<And>p. peer_ok (r_state r) p \<Longrightarrow> peer_ok s' (f p)"
    and "ps_configuration s' = ps_configuration (r_state r)" "r_state r' = s'" "r_id r' = r_id r"
    and "r_progress r' = map (\<lambda>(m, p). (m, f p)) (r_progress r)"
  shows "progress_ok r'"
proof -
  have "map fst (map (\<lambda>(m, p). (m, f p)) (r_progress r)) = map fst (r_progress r)"
    by (simp add: case_prod_unfold)
  then show ?thesis
    using assms(1,2) unfolding progress_ok_def assms(3-6) by (auto simp del: map_map)
qed

lemma compact_kept:
  assumes "raft_inv r" "validate_compact r snap = Inr ()" "cut_wf snap"
  shows "only_exhausted (compact r snap out) (kept r out)"
proof (cases "ps_snapshot (r_state r) = Some snap")
  case True
  then show ?thesis using assms(1) by (simp add: compact_def kept_refl)
next
  case False
  let ?s = "r_state r"
  have v: "base_index ?s < sc_index snap" "sc_index snap \<le> ps_commit_index ?s"
      "term_of ?s (sc_index snap) = Some (sc_term snap)" "validate_snapshot r snap = Inr ()"
    using assms(2) False by (auto simp: validate_compact_def and_then_eq_Inr term_at_term_of split: if_splits)
  have ok: "state_ok (r_limits r) (r_id r) ?s" using assms(1) by (simp add: raft_inv_def)
  note cut = validate_snapshot_cut_ok [OF v(4) assms(3)]
  define s' where "s' = ?s\<lparr>ps_entries := drop (sc_index snap - base_index ?s) (ps_entries ?s),
    ps_snapshot := Some snap\<rparr>"
  have s': "s' = ?s\<lparr>ps_entries := drop (sc_index snap - base_index ?s) (ps_entries ?s),
      ps_commit_index := ps_commit_index ?s, ps_snapshot := Some snap\<rparr>" by (simp add: s'_def)
  have c: "ps_commit_index ?s \<le> last_of ?s" using ok by (simp add: state_ok_def)
  have st: "state_ok (r_limits r) (r_id r) s'" "state_evolves ?s s'"
    unfolding s' using state_cut_evolves [OF ok cut v(1,3) v(2) order.refl c] by simp_all
  have l: "last_of s' = last_of ?s" using state_ok_cut(1) [OF ok cut v(1,3)] by (simp add: s'_def)
  have lt: "last (base_term s' # map e_term (ps_entries s')) = last (base_term ?s # map e_term (ps_entries ?s))"
    using last_term_cut [OF v(1,3)] by (simp add: s'_def base_term_def)
  define r' where "r' = r\<lparr>r_state := s', r_log_changed := True,
    r_progress := map (\<lambda>(m, p). (m, reset_progress p)) (r_progress r)\<rparr>"
  have "progress_ok r'" if "r_role r = Leader"
    by (rule progress_ok_map [OF raft_inv_progress [OF assms(1) that], of s' reset_progress])
      (use reset_progress_ok l in \<open>auto simp: r'_def s'_def\<close>)
  moreover have "incoming_ok r' p = incoming_ok r p" "handoff_ok r' h = handoff_ok r h" for p h
    using l lt by (auto simp: incoming_ok_def handoff_ok_def r'_def s'_def last_index_last_of last_term_def2)
  ultimately have "raft_inv r'"
    using assms(1) st by (auto simp: raft_inv_def role_ok_def r'_def s'_def)
  moreover have "ps_term s' = ps_term ?s" by (simp add: s'_def)
  then have "evolves r r'" using st by (simp add: evolves_def r'_def)
  moreover have "compact r snap out = Inr (r', out)"
    using False drain_cut [OF ok v(1,3)] by (simp add: compact_def r'_def s'_def)
  ultimately show ?thesis by (simp add: kept_def)
qed

section \<open>Acknowledgements and proposals\<close>

lemma set_progress_kept:
  assumes "raft_inv r" "r_role r = Leader"
    and "\<And>p. map_of (r_progress r) peer = Some p \<Longrightarrow> peer_ok (r_state r) p \<Longrightarrow> peer_ok (r_state r) (f p)"
  shows "raft_inv (set_progress r peer f)" "evolves r (set_progress r peer f)"
    "r_role (set_progress r peer f) = Leader"
proof -
  have "progress_ok (set_progress r peer f)"
    by (rule progress_ok_set [OF raft_inv_progress [OF assms(1,2)]]) (use assms(3) in auto)
  then show "raft_inv (set_progress r peer f)"
    using assms(1,2)
    by (auto simp: raft_inv_def role_ok_def set_progress_def incoming_ok_def handoff_ok_def
        last_index_def last_term_def2)
qed (use assms(2) in \<open>simp_all add: set_progress_def evolves_def\<close>)

lemma acknowledge_progress_ok:
  assumes "peer_ok s p" "endpoint \<le> last_of s"
  shows "peer_ok s (acknowledge_progress endpoint p)"
  using assms by (auto simp: peer_ok_def acknowledge_progress_def Let_def)

lemma acknowledge_kept:
  assumes "raft_inv r" "r_role r = Leader" "endpoint \<le> last_of (r_state r)"
  shows "only_exhausted (acknowledge r from endpoint out) (kept r out)"
proof -
  define r1 where "r1 = set_progress r from (acknowledge_progress endpoint)"
  have k: "raft_inv r1" "evolves r r1" "r_role r1 = Leader"
    unfolding r1_def using set_progress_kept [OF assms(1,2)] acknowledge_progress_ok [OF _ assms(3)] by auto
  obtain c b where a: "advance_commit r1 = Some (r1\<lparr>r_state := (r_state r1)\<lparr>ps_commit_index := c\<rparr>\<rparr>, b)"
    and k2: "raft_inv (r1\<lparr>r_state := (r_state r1)\<lparr>ps_commit_index := c\<rparr>\<rparr>)"
      "evolves r1 (r1\<lparr>r_state := (r_state r1)\<lparr>ps_commit_index := c\<rparr>\<rparr>)"
    by (rule advance_commit_kept [OF k(1,3)]) (rule that)
  let ?r2 = "r1\<lparr>r_state := (r_state r1)\<lparr>ps_commit_index := c\<rparr>\<rparr>"
  have ev: "evolves r ?r2" using k(2) k2(2) by (rule evolves_trans)
  have role: "r_role ?r2 = Leader" using k(3) by simp
  have "only_exhausted (broadcast ?r2 out False) (kept r out)"
    "only_exhausted (send_append ?r2 from out False) (kept r out)" "kept r out ?r2 out"
    using broadcast_kept [OF k2(1) role] send_append_kept [OF k2(1) role] kept_refl [OF k2(1)] ev
    by (blast intro: only_exhausted_silent kept_silent_trans)+
  then show ?thesis
    unfolding acknowledge_def Let_def r1_def [symmetric] a by simp
qed

lemma pending_append_last:
  assumes "progress_ok r" "pending_append r from request = Some f"
  shows "flight_ok (r_state r) f"
  using assms progress_ok_lookup [OF assms(1)]
  by (auto simp: pending_append_def peer_ok_def find_Some_iff Option.bind_eq_Some_conv)

lemma reject_progress_ok:
  assumes "peer_ok s p" "prev \<le> last_of s"
  shows "peer_ok s (reject_progress prev (last_of s + 1) conflict_next p)"
  using assms by (auto simp: peer_ok_def reject_progress_def Let_def)

lemma receive_appended_kept:
  assumes "raft_inv r"
  shows "only_exhausted (receive_appended r from t request success conflict_next out) (kept r out)"
proof (cases "t \<noteq> ps_term (r_state r) \<or> r_role r \<noteq> Leader")
  case True
  then show ?thesis using assms by (auto simp: receive_appended_def kept_refl)
next
  case False
  then have lead: "r_role r = Leader" by simp
  note pr = raft_inv_progress [OF assms lead]
  have "only_exhausted (acknowledge r from endpoint out) (kept r out)"
    "only_exhausted (send_append (set_progress r from (reject_progress prev (last_index r + 1) conflict_next))
        from out False) (kept r out)"
    if "pending_append r from request = Some (FlightAppend n prev endpoint)" for n prev endpoint
  proof -
    have f: "prev \<le> last_of (r_state r)" "endpoint \<le> last_of (r_state r)"
      using pending_append_last [OF pr that] by auto
    show "only_exhausted (acknowledge r from endpoint out) (kept r out)"
      using acknowledge_kept [OF assms lead f(2)] .
    let ?r1 = "set_progress r from (reject_progress prev (last_index r + 1) conflict_next)"
    have k: "raft_inv ?r1" "evolves r ?r1" "r_role ?r1 = Leader"
      using set_progress_kept [OF assms lead] reject_progress_ok [OF _ f(1)]
      by (simp_all add: last_index_last_of)
    show "only_exhausted (send_append ?r1 from out False) (kept r out)"
      using send_append_kept [OF k(1,3)] k(2) by (rule only_exhausted_silent)
  qed
  then show ?thesis
    using False assms
    by (auto simp: receive_appended_def kept_refl split: option.splits in_flight.splits)
qed

lemma receive_snapshot_installed_kept:
  assumes "raft_inv r"
  shows "only_exhausted (receive_snapshot_installed r from t request out) (kept r out)"
proof (cases "t \<noteq> ps_term (r_state r) \<or> r_role r \<noteq> Leader")
  case True
  then show ?thesis using assms by (auto simp: receive_snapshot_installed_def kept_refl)
next
  case False
  then have lead: "r_role r = Leader" by simp
  have ack: "only_exhausted (acknowledge r from (sc_index snap) out) (kept r out)"
    if "map_of (r_progress r) from = Some p" "pr_in_flight p = FlightSnapshot n snap # fs" for p n snap fs
  proof -
    have "ps_snapshot (r_state r) = Some snap"
      using progress_ok_lookup [OF raft_inv_progress [OF assms lead] that(1)] that(2)
      by (simp add: peer_ok_def)
    then have "sc_index snap \<le> last_of (r_state r)"
      by (simp add: last_of_def base_index_def)
    then show ?thesis using acknowledge_kept [OF assms lead] by blast
  qed
  show ?thesis
    using False assms ack
    by (auto simp: receive_snapshot_installed_def kept_refl split: option.splits in_flight.splits list.splits)
qed

lemma append_proposals_kept:
  assumes "raft_inv r" "validate_proposal_count r (length commands) = Inr ()"
  shows "only_exhausted (append_proposals r commands out) (kept r out)"
proof -
  define new where "new = map (\<lambda>command. \<lparr>e_term = ps_term (r_state r), e_command = Some command\<rparr>) commands"
  define r1 where "r1 = r\<lparr>r_log_changed := True,
      r_state := (r_state r)\<lparr>ps_entries := ps_entries (r_state r) @ new\<rparr>\<rparr>"
  have "0 < length commands"
    "\<not> max_log_entries (r_limits r) - length (ps_entries (r_state r)) < length commands"
    using assms(2) by (auto simp: validate_proposal_count_def saturating_sub_def split: if_splits)
  then have fits: "length (ps_entries (r_state r) @ new) \<le> max_log_entries (r_limits r)"
    unfolding new_def length_append length_map by linarith
  have v: "r_role r = Leader" "r_handoff r = None"
    "last_index r + length new < u64_max" "\<forall>e \<in> set new. e_term e = ps_term (r_state r)"
    using assms(2)
    by (auto simp: validate_proposal_count_def checked_add_def saturating_sub_def new_def
        split: if_splits option.splits)
  have k: "raft_inv r1" "evolves r r1" "r_role r1 = Leader"
    unfolding r1_def using leader_append_kept [OF assms(1) v(1,2) fits v(3,4)] v(1) by simp_all
  obtain c b where a: "advance_commit r1 = Some (r1\<lparr>r_state := (r_state r1)\<lparr>ps_commit_index := c\<rparr>\<rparr>, b)"
    and k2: "raft_inv (r1\<lparr>r_state := (r_state r1)\<lparr>ps_commit_index := c\<rparr>\<rparr>)"
      "evolves r1 (r1\<lparr>r_state := (r_state r1)\<lparr>ps_commit_index := c\<rparr>\<rparr>)"
    by (rule advance_commit_kept [OF k(1,3)]) (rule that)
  have "only_exhausted (broadcast (r1\<lparr>r_state := (r_state r1)\<lparr>ps_commit_index := c\<rparr>\<rparr>) out False) (kept r out)"
    using only_exhausted_silent [OF broadcast_kept [OF k2(1)] evolves_trans [OF k(2) k2(2)]] k(3) by simp
  then show ?thesis
    using a unfolding append_proposals_def Let_def r1_def new_def by simp
qed

section \<open>Receiving\<close>

text \<open>Snapshots inside messages and events come from the public constructor.\<close>

definition envelope_wf :: "'c envelope \<Rightarrow> bool" where
  "envelope_wf e \<longleftrightarrow> (case env_message e of InstallSnapshot _ _ snap \<Rightarrow> cut_wf snap | _ \<Rightarrow> True)"

definition event_wf :: "'c event \<Rightarrow> bool" where
  "event_wf ev \<longleftrightarrow>
     (case ev of Receive e \<Rightarrow> envelope_wf e | Compact snap \<Rightarrow> cut_wf snap | _ \<Rightarrow> True)"

lemma validate_receive_spec:
  assumes "validate_receive r e = Inr ()"
  shows "env_from e \<noteq> r_id r" "contains (ps_configuration (r_state r)) (env_from e)"
    "env_domain e = cfg_domain (ps_configuration (r_state r))"
    "env_configuration e = cfg_identity (ps_configuration (r_state r))" "env_to e = r_id r"
    "(case env_message e of Appended _ _ _ _ \<Rightarrow> True | SnapshotInstalled _ _ \<Rightarrow> True
       | _ \<Rightarrow> env_from e \<in> cfg_voters (ps_configuration (r_state r)))"
    "(case env_message e of PreVoteRequest _ _ _ _ \<Rightarrow> True | PreVoteReply _ _ _ _ \<Rightarrow> True
       | _ \<Rightarrow> 0 < message_term (env_message e))"
    "validate_body r (env_from e) (env_message e) = Inr ()"
  using assms
  by (auto simp: validate_receive_def Let_def and_then_eq_Inr split: if_splits message.splits)

definition credited_by :: "'c raft \<Rightarrow> 'c envelope \<Rightarrow> 'c raft" where
  "credited_by r e = (case env_message e of Vote t granted \<Rightarrow> credited r (env_from e) t granted | _ \<Rightarrow> r)"

lemma receive_kept:
  assumes "raft_inv r0" "validate_receive r0 e = Inr ()" "envelope_wf e"
  shows "only_exhausted (receive r0 e out) (kept (credited_by r0 e) out)"
proof -
  let ?t = "message_term (env_message e)"
  define r where "r = (if ?t > ps_term (r_state r0) then follow r0 ?t else r0)"
  note rec = receive_def [of r0 e out, unfolded Let_def, folded r_def]
  have k: "raft_inv r" "evolves r0 r"
    unfolding r_def using follow_kept [OF assms(1)] assms(1) by auto
  note v = validate_receive_spec [OF assms(2)]
  have c: "ps_configuration (r_state r) = ps_configuration (r_state r0)" "r_id r = r_id r0"
    by (simp_all add: r_def)
  let ?f = "env_from e"
  have ev: "evolves (credited_by r0 e) (credited_by r e)"
    using k(2) by (auto simp: r_def credited_by_def credited_def split: message.splits)
  have "only_exhausted (receive r0 e out) (kept (credited_by r e) out)"
  proof (cases "env_message e")
    case (RequestVote t i lt)
    have "?f \<in> cfg_voters (ps_configuration (r_state r))" "?f \<noteq> r_id r" "0 < t"
      using v(1,6,7) RequestVote c by auto
    note rv = receive_request_vote_kept [OF k(1) this]
    show ?thesis
      using RequestVote rv
      by (cases "receive_request_vote r ?f t i lt out") (simp add: rec credited_by_def)
  next
    case (Append t n prev prev_term new commit)
    have va: "validate_append r0 t prev prev_term new = Inr ()" using v(8) Append by simp
    have "r = (if t > ps_term (r_state r0) then follow r0 t else r0)" by (simp add: r_def Append)
    note ra = receive_append_kept [OF k(1) va this]
    show ?thesis
      using Append ra
      by (cases "receive_append r ?f t n prev prev_term new commit out") (simp add: rec credited_by_def)
  next
    case (InstallSnapshot t n snap)
    have vi: "validate_install_snapshot r0 ?f t n snap = Inr ()" using v(8) InstallSnapshot by simp
    have w: "cut_wf snap" using assms(3) InstallSnapshot by (simp add: envelope_wf_def)
    have "r = (if t > ps_term (r_state r0) then follow r0 t else r0)" by (simp add: r_def InstallSnapshot)
    note ro = offer_snapshot_kept [OF k(1) vi w this]
    show ?thesis
      using InstallSnapshot ro
      by (cases "offer_snapshot r ?f t n snap out") (simp add: rec credited_by_def)
  next
    case (QuorumProbe t round)
    then show ?thesis
      using quorum_probe_kept [OF k(1)]
      by (cases "quorum_probe r ?f t round out") (simp add: rec credited_by_def)
  next
    case (PreVoteRequest p round i lt)
    show ?thesis
      using pre_vote_request_kept [OF k(1), of out ?f p round i lt] PreVoteRequest
      by (simp add: rec credited_by_def)
  next
    case (PreVoteReply t p round granted)
    show ?thesis
      using pre_vote_reply_kept [OF k(1), of ?f p round granted out] PreVoteReply
      by (simp add: rec credited_by_def)
  next
    case (QuorumReply t round)
    show ?thesis
      using quorum_reply_kept [OF k(1), of out ?f t round] QuorumReply
      by (simp add: rec credited_by_def)
  next
    case (TimeoutNow t round i lt)
    show ?thesis
      using timeout_now_kept [OF k(1), of ?f t i lt out] TimeoutNow
      by (simp add: rec credited_by_def)
  next
    case (Vote t granted)
    show ?thesis
      using receive_vote_kept [OF k(1), of ?f t granted out] Vote
      by (simp add: rec credited_by_def)
  next
    case (Appended t n success conflict)
    show ?thesis
      using receive_appended_kept [OF k(1), of ?f t n success conflict out] Appended
      by (simp add: rec credited_by_def)
  next
    case (SnapshotInstalled t n)
    show ?thesis
      using receive_snapshot_installed_kept [OF k(1), of ?f t n out] SnapshotInstalled
      by (simp add: rec credited_by_def)
  qed
  then show ?thesis using ev by (rule only_exhausted_silent)
qed

end
