(* ===== verification/RaftStep.thy ===== *)
theory RaftStep
  imports RaftReceive
begin

text \<open>
  Whole steps of a node: the handoff driver, the dispatch of an event, the committed range a step
  publishes, and what a step, a failed step and \<open>persisted\<close> do to the node.
\<close>

section \<open>Handoff\<close>

lemma handoff_kept:
  assumes "raft_inv r" "r_role r = Leader" "handoff_ok r h"
  shows "raft_inv (r\<lparr>r_handoff := Some h\<rparr>)" "evolves r (r\<lparr>r_handoff := Some h\<rparr>)"
  using assms
  by (auto simp: raft_inv_def role_ok_def incoming_ok_def handoff_ok_def evolves_def progress_ok_def
      last_index_def last_term_def2)

lemma no_handoff_kept:
  assumes "raft_inv r"
  shows "raft_inv (r\<lparr>r_handoff := None\<rparr>)" "evolves r (r\<lparr>r_handoff := None\<rparr>)"
  using assms
  by (auto simp: raft_inv_def role_ok_def incoming_ok_def evolves_def progress_ok_def)

lemma no_incoming_kept:
  assumes "raft_inv r"
  shows "raft_inv (r\<lparr>r_incoming_snapshot := None\<rparr>)" "evolves r (r\<lparr>r_incoming_snapshot := None\<rparr>)"
  using assms
  by (auto simp: raft_inv_def role_ok_def handoff_ok_def evolves_def progress_ok_def
      last_index_def last_term_def2)

lemma start_handoff_kept:
  assumes "raft_inv r" "r_role r = Leader"
  shows "only_exhausted (start_handoff r target out) (kept r out)"
proof -
  define h where "h = \<lparr>lt_id = \<lparr>pid_incarnation = r_incarnation r, pid_generation = r_generation r\<rparr>,
      lt_target = target, lt_term = ps_term (r_state r),
      lt_last_index = last_index r, lt_last_term = last_term r, lt_phase = CatchingUp\<rparr>"
  define r1 where "r1 = (if r_handoff r = None then r\<lparr>r_handoff := Some h\<rparr> else r)"
  have "handoff_ok r h" by (simp add: handoff_ok_def h_def)
  then have k: "raft_inv r1" "evolves r r1" "r_role r1 = Leader"
    unfolding r1_def using handoff_kept [OF assms] assms by auto
  have "only_exhausted (send_append r1 target out True) (kept r out)" "kept r out r1 out"
    using send_append_kept [OF k(1,3)] kept_refl [OF k(1)] k(2)
    by (blast intro: only_exhausted_silent kept_silent_trans)+
  then show ?thesis
    unfolding start_handoff_def Let_def h_def [symmetric] r1_def [symmetric] by simp
qed

lemma drive_handoff_kept:
  assumes "raft_inv r" "drive_handoff r out retry = (r', out')"
  shows "kept r out r' out'" "r_state r' = r_state r"
proof -
  have "r' = r \<and> out' = out \<or> (\<exists>h. r_handoff r = Some h \<and> r_role r = Leader \<and>
      r' = r\<lparr>r_handoff := Some (h\<lparr>lt_phase := ElectionRequested\<rparr>)\<rparr> \<and>
      out' = emit r (lt_target h) (TimeoutNow (lt_term h) (pid_generation (lt_id h))
               (lt_last_index h) (lt_last_term h)) out)"
    using assms(2) by (auto simp: drive_handoff_def Let_def split: option.splits if_splits)
  then show "kept r out r' out'"
  proof (elim disjE exE conjE)
    fix h assume h: "r_handoff r = Some h" "r_role r = Leader"
      "r' = r\<lparr>r_handoff := Some (h\<lparr>lt_phase := ElectionRequested\<rparr>)\<rparr>"
      "out' = emit r (lt_target h) (TimeoutNow (lt_term h) (pid_generation (lt_id h))
               (lt_last_index h) (lt_last_term h)) out"
    have "handoff_ok r (h\<lparr>lt_phase := ElectionRequested\<rparr>)"
      using assms(1) h(1) by (simp add: raft_inv_def handoff_ok_def)
    then have "raft_inv r'" "evolves r r'" using handoff_kept [OF assms(1) h(2)] h(3) by auto
    moreover have "emits (msg_ok (r_state r) (r_id r)) out out'"
      unfolding h(4) by (rule emits_emit) (simp add: msg_ok_def)
    ultimately show ?thesis by (simp add: kept_def h(3))
  qed (use assms(1) kept_refl in auto)
  show "r_state r' = r_state r"
    using assms(2) by (auto simp: drive_handoff_def Let_def split: option.splits if_splits)
qed

section \<open>Dispatch\<close>

lemma heartbeat_kept:
  assumes "raft_inv r"
  shows "only_exhausted (dispatch r Heartbeat out) (kept r out)"
proof (cases "r_role r = Leader")
  case True
  have "only_exhausted (and_then (broadcast r out True) (\<lambda>(r1, out1). Inr (r1, retry_quorum_probe r1 out1)))
      (kept r out)"
  proof (rule only_exhausted_bind [OF broadcast_kept [OF assms True]], simp)
    fix r1 out1 assume "kept r out r1 out1"
    then show "kept r out r1 (retry_quorum_probe r1 out1)"
      using retry_quorum_probe_emits [of r1 out1] by (auto simp: kept_def intro: emits_trans)
  qed
  with True show ?thesis by simp
qed (use assms kept_refl in auto)

definition credited_event :: "'c raft \<Rightarrow> 'c event \<Rightarrow> 'c raft" where
  "credited_event r ev = (case ev of Receive e \<Rightarrow> credited_by r e | _ \<Rightarrow> r)"

lemma dispatch_kept:
  assumes "raft_inv r" "validate_event r ev = Inr ()" "event_wf ev"
  shows "only_exhausted (dispatch r ev out) (kept (credited_event r ev) out)"
proof (cases ev)
  case ElectionTimeout
  then have "r_id r \<in> cfg_voters (ps_configuration (r_state r))"
    using assms(2) by (auto simp: validate_event_def and_then_eq_Inr require_def split: if_splits)
  with ElectionTimeout show ?thesis using campaign_kept [OF assms(1)] by (simp add: credited_event_def)
next
  case LivenessTimeout
  then have "r_id r \<in> cfg_voters (ps_configuration (r_state r))"
    using assms(2) by (auto simp: validate_event_def and_then_eq_Inr require_def split: if_splits)
  with LivenessTimeout show ?thesis
    using only_exhausted_silent [OF liveness_timeout_kept [OF no_handoff_kept(1)] no_handoff_kept(2)] assms(1)
    by (simp add: credited_event_def)
next
  case (TransferLeadership target)
  then have "r_role r = Leader"
    using assms(2) by (auto simp: validate_event_def and_then_eq_Inr split: if_splits)
  with TransferLeadership show ?thesis using start_handoff_kept [OF assms(1)] by (simp add: credited_event_def)
next
  case (AbortLeadershipTransfer token)
  then show ?thesis using no_handoff_kept [OF assms(1)] by (simp add: kept_def credited_event_def)
next
  case Heartbeat
  then show ?thesis using heartbeat_kept [OF assms(1)] by (simp add: credited_event_def)
next
  case (Propose command)
  then have "validate_proposal_count r (length [command]) = Inr ()"
    using assms(2) by (auto simp: validate_event_def and_then_eq_Inr)
  with Propose show ?thesis using append_proposals_kept [OF assms(1)] by (simp add: credited_event_def)
next
  case (ProposeBatch commands)
  then have "validate_proposal_count r (length commands) = Inr ()"
    using assms(2) by (auto simp: validate_event_def and_then_eq_Inr)
  with ProposeBatch show ?thesis using append_proposals_kept [OF assms(1)] by (simp add: credited_event_def)
next
  case (Receive e)
  then have "validate_receive r e = Inr ()" "envelope_wf e"
    using assms(2,3) by (auto simp: validate_event_def and_then_eq_Inr event_wf_def)
  with Receive show ?thesis using receive_kept [OF assms(1)] by (simp add: credited_event_def)
next
  case (Compact snap)
  then have "validate_compact r snap = Inr ()" "cut_wf snap"
    using assms(2,3) by (auto simp: validate_event_def and_then_eq_Inr event_wf_def)
  with Compact show ?thesis using compact_kept [OF assms(1)] by (simp add: credited_event_def)
next
  case (SnapshotReady token)
  then have "validate_transfer r token = Inr ()"
    using assms(2) by (auto simp: validate_event_def and_then_eq_Inr)
  with SnapshotReady show ?thesis using install_snapshot_kept [OF assms(1)] by (simp add: credited_event_def)
next
  case (SnapshotFailed token)
  then show ?thesis using no_incoming_kept [OF assms(1)] by (simp add: kept_def credited_event_def)
qed

section \<open>The committed range\<close>

lemma number_entries_nth:
  "k < length es \<Longrightarrow> number_entries i es ! k = \<lparr>co_index = i + k, co_entry = es ! k\<rparr>"
proof (induction es arbitrary: i k)
  case (Cons e es)
  then show ?case by (cases k) auto
qed simp

lemma number_entries_length [simp]: "length (number_entries i es) = length es"
  by (induction es arbitrary: i) auto

lemma number_entries_index: "map co_index (number_entries i es) = [i..<i + length es]"
  by (rule nth_equalityI) (simp_all add: number_entries_nth)

lemma committed_range_spec:
  assumes "state_ok lim me (r_state r)" "before \<le> ps_commit_index (r_state r)"
  obtains cs where "committed_range r before = Some cs"
    and "map co_index cs = [max before (base_index (r_state r)) + 1..<ps_commit_index (r_state r) + 1]"
    and "\<And>c. c \<in> set cs \<Longrightarrow> entry_of (r_state r) (co_index c) = Some (co_entry c)"
proof -
  let ?s = "r_state r"
  let ?b = "base_index ?s" and ?a = "max before (base_index (r_state r))" and ?c = "ps_commit_index ?s"
  have b: "?b \<le> ?a" "?a \<le> ?c" "?c - ?b \<le> length (ps_entries ?s)" "?b \<le> ?c" "?c \<le> last_of ?s"
    using assms by (auto simp: state_ok_def last_of_def)
  define es where "es = take (?c - ?a) (drop (?a - ?b) (ps_entries ?s))"
  have len: "length es = ?c - ?a" using b by (simp add: es_def)
  show ?thesis
  proof
    show "committed_range r before = Some (number_entries (?a + 1) es)"
      using b by (simp add: committed_range_def Let_def rust_simps es_def)
    show "map co_index (number_entries (?a + 1) es) = [?a + 1..<?c + 1]"
      using b by (simp add: number_entries_index len)
    fix c assume "c \<in> set (number_entries (?a + 1) es)"
    then obtain k where k: "k < length es" "c = \<lparr>co_index = ?a + 1 + k, co_entry = es ! k\<rparr>"
      by (metis in_set_conv_nth number_entries_length number_entries_nth)
    have "?a - ?b + k = ?a + 1 + k - ?b - 1" using b(1) by simp
    moreover have "es ! k = ps_entries ?s ! (?a - ?b + k)" using k(1) b by (simp add: es_def)
    moreover have "?b < ?a + 1 + k" "?a + 1 + k \<le> last_of ?s" using k(1) len b by linarith+
    ultimately show "entry_of ?s (co_index c) = Some (co_entry c)"
      using k(2) by (simp add: entry_of_def)
  qed
qed

section \<open>Failing closed\<close>

text \<open>The node an operation reached, whether it succeeded or failed.\<close>

definition reached :: "'c outcome \<Rightarrow> 'c raft" where
  "reached x = (case x of Inl (_, r) \<Rightarrow> r | Inr (r, _) \<Rightarrow> r)"

lemma reached_simps [simp]:
  "reached (Inl (f, r)) = r" "reached (Inr (r, out)) = r" "reached (Inr p) = fst p"
  by (simp_all add: reached_def split: prod.splits)

lemma poison_bind:
  assumes "r_poisoned (reached x)"
    and "\<And>r out. x = Inr (r, out) \<Longrightarrow> r_poisoned r \<Longrightarrow> r_poisoned (reached (f (r, out)))"
  shows "r_poisoned (reached (and_then x f))"
  using assms by (auto simp: and_then_def split: sum.splits)

named_theorems poison \<open>operations that keep a poisoned node poisoned\<close>

lemma poison_set [poison]: "r_poisoned (set_progress r peer f) = r_poisoned r"
  by (simp add: set_progress_def)

lemma poison_accept [poison]: "r_poisoned (fst (accept_leader r from t out)) = r_poisoned r"
  by (simp add: accept_leader_def Let_def split: option.splits)

lemma poison_advance: "advance_commit r = Some (r', b) \<Longrightarrow> r_poisoned r \<Longrightarrow> r_poisoned r'"
  by (auto simp: advance_commit_def split: option.splits if_splits)

lemma poison_emit_flight [poison]: "r_poisoned r \<Longrightarrow> r_poisoned (reached (emit_flight r peer f out))"
  by (auto simp: emit_flight_def Let_def poison split: option.splits in_flight.splits)

lemma poison_emit_flights [poison]: "r_poisoned r \<Longrightarrow> r_poisoned (reached (emit_flights peer fs r out))"
proof (induction fs arbitrary: r out)
  case (Cons f fs)
  then show ?case by (auto intro!: poison_bind simp: poison)
qed simp

lemma poison_issue_appends [poison]: "r_poisoned r \<Longrightarrow> r_poisoned (reached (issue_appends peer r out))"
proof (induction peer r out rule: issue_appends.induct)
  case (1 peer r out)
  show ?case
  proof (cases "map_of (r_progress r) peer")
    case None
    then show ?thesis using "1.prems" by (simp add: issue_appends.simps [of peer r])
  next
    case (Some p)
    let ?r1 = "r\<lparr>r_request := r_request r + 1\<rparr>"
    have "r_poisoned (reached (case emit_flight ?r1 peer f out of Inl e \<Rightarrow> Inl e
         | Inr (r2, out2) \<Rightarrow> issue_appends peer (set_progress r2 peer (push_flight f)) out2))"
      if "\<not> lane_full r p" "r_request r + 1 \<le> u64_max" "next_flight ?r1 (pr_next p) = Some f" for f
      using "1.IH" [OF Some that(1) _ refl that(3)] that(2) poison_emit_flight [of ?r1 peer f out] "1.prems"
      by (auto simp: poison_set split: sum.splits)
    then show ?thesis
      using Some "1.prems" by (simp add: issue_appends.simps [of peer r] Let_def split: option.splits)
  qed
qed

lemma poison_send_append [poison]: "r_poisoned r \<Longrightarrow> r_poisoned (reached (send_append r peer out retry))"
  unfolding send_append_def
  by (auto intro!: poison_bind simp: poison split: option.splits)

lemma poison_broadcast_to: "r_poisoned r \<Longrightarrow> r_poisoned (reached (broadcast_to peers retry r out))"
proof (induction peers arbitrary: r out)
  case (Cons peer peers)
  then show ?case by (auto intro!: poison_bind simp: poison)
qed simp

lemma poison_broadcast [poison]: "r_poisoned r \<Longrightarrow> r_poisoned (reached (broadcast r out retry))"
  by (simp add: broadcast_def poison_broadcast_to)

lemma poison_quorum_probe [poison]: "r_poisoned (fst (start_quorum_probe r out)) = r_poisoned r"
  by (simp add: start_quorum_probe_def Let_def)

lemma poison_become_leader [poison]: "r_poisoned r \<Longrightarrow> r_poisoned (reached (become_leader r out))"
  unfolding become_leader_def Let_def
  by (auto intro!: poison_bind simp: poison split: option.splits dest!: poison_advance)

lemma poison_campaign [poison]: "r_poisoned r \<Longrightarrow> r_poisoned (reached (campaign r out))"
  by (auto simp: campaign_def Let_def poison split: option.splits)

lemma poison_pre_campaign [poison]: "r_poisoned r \<Longrightarrow> r_poisoned (reached (pre_campaign r out))"
  by (auto simp: pre_campaign_def Let_def poison split: option.splits)

lemma poison_liveness_timeout [poison]: "r_poisoned r \<Longrightarrow> r_poisoned (reached (liveness_timeout r out))"
  by (auto simp: liveness_timeout_def Let_def poison split: option.splits)

lemma poison_start_handoff [poison]: "r_poisoned r \<Longrightarrow> r_poisoned (reached (start_handoff r target out))"
  by (auto simp: start_handoff_def Let_def poison split: option.splits)

lemma poison_acknowledge [poison]: "r_poisoned r \<Longrightarrow> r_poisoned (reached (acknowledge r from endpoint out))"
  by (auto simp: acknowledge_def Let_def poison split: option.splits dest!: poison_advance)

lemma poison_append_proposals [poison]:
  "r_poisoned r \<Longrightarrow> r_poisoned (reached (append_proposals r commands out))"
  by (auto simp: append_proposals_def Let_def poison split: option.splits dest!: poison_advance)

lemma poison_compact [poison]: "r_poisoned r \<Longrightarrow> r_poisoned (reached (compact r snap out))"
  by (auto simp: compact_def split: option.splits)

lemma poison_install [poison]: "r_poisoned r \<Longrightarrow> r_poisoned (reached (install_snapshot r out))"
  by (auto simp: install_snapshot_def Let_def split: option.splits)

lemma poison_merge [poison]: "r_poisoned (merge_entries position new r) = r_poisoned r"
  by (rule merge_entries_eq [of position new r]) simp

lemma poison_accept_eq: "accept_leader r from t out = (r1, out1) \<Longrightarrow> r_poisoned r1 = r_poisoned r"
  using poison_accept [of r "from" t out] by simp

lemma poison_append [poison]:
  "r_poisoned r \<Longrightarrow> r_poisoned (fst (receive_append r from t n prev prev_term new commit out))"
  by (auto simp: receive_append_def Let_def poison split: prod.splits option.splits dest: poison_accept_eq)

lemma poison_offer [poison]:
  "r_poisoned r \<Longrightarrow> r_poisoned (fst (offer_snapshot r from t n snap out))"
  by (auto simp: offer_snapshot_def Let_def split: prod.splits option.splits dest: poison_accept_eq)

lemma poison_quorum [poison]:
  "r_poisoned r \<Longrightarrow> r_poisoned (fst (quorum_probe r from t round out))"
  "r_poisoned r \<Longrightarrow> r_poisoned (quorum_reply r from t round)"
  by (auto simp: quorum_probe_def quorum_reply_def split: prod.splits option.splits dest: poison_accept_eq)

lemma poison_vote [poison]:
  "r_poisoned r \<Longrightarrow> r_poisoned (fst (receive_request_vote r from t i lt out))"
  "r_poisoned r \<Longrightarrow> r_poisoned (reached (receive_vote r from t granted out))"
  "r_poisoned r \<Longrightarrow> r_poisoned (reached (pre_vote_reply r from prospective round granted out))"
  "r_poisoned r \<Longrightarrow> r_poisoned (reached (timeout_now r from t i lt out))"
  by (auto simp: receive_request_vote_def receive_vote_def pre_vote_reply_def timeout_now_def Let_def poison
      split: option.splits)

lemma poison_reply [poison]:
  "r_poisoned r \<Longrightarrow> r_poisoned (reached (receive_appended r from t n success conflict out))"
  "r_poisoned r \<Longrightarrow> r_poisoned (reached (receive_snapshot_installed r from t n out))"
  by (auto simp: receive_appended_def receive_snapshot_installed_def poison
      split: option.splits in_flight.splits list.splits)

lemma poison_receive [poison]: "r_poisoned r \<Longrightarrow> r_poisoned (reached (receive r e out))"
  by (cases "env_message e") (simp_all add: receive_def Let_def poison)

lemma poison_dispatch: "r_poisoned r \<Longrightarrow> r_poisoned (reached (dispatch r ev out))"
  by (cases ev) (auto simp: poison intro!: poison_bind)

section \<open>Steps\<close>

lemma raft_inv_frame:
  assumes "raft_inv r" "r_id r' = r_id r" "r_state r' = r_state r" "r_role r' = r_role r"
    "r_leader r' = r_leader r" "r_votes r' = r_votes r" "r_progress r' = r_progress r"
    "r_limits r' = r_limits r" "r_append_window r' = r_append_window r"
    "r_incoming_snapshot r' = r_incoming_snapshot r" "r_handoff r' = r_handoff r"
  shows "raft_inv r'"
  using assms
  by (simp add: raft_inv_def role_ok_def incoming_ok_def handoff_ok_def progress_ok_def
      last_index_def last_term_def2)

definition stepping :: "'c raft \<Rightarrow> 'c raft" where
  "stepping r = r\<lparr>r_log_changed := False, r_poisoned := True, r_generation := r_generation r + 1\<rparr>"

lemma stepping_simps [simp]:
  "r_id (stepping r) = r_id r" "r_state (stepping r) = r_state r" "r_role (stepping r) = r_role r"
  "r_limits (stepping r) = r_limits r" "r_append_window (stepping r) = r_append_window r"
  "r_generation (stepping r) = r_generation r + 1" "r_incarnation (stepping r) = r_incarnation r"
  "r_initialized (stepping r) = r_initialized r" "r_pending (stepping r) = r_pending r"
  "r_poisoned (stepping r)" "\<not> r_log_changed (stepping r)"
  "r_incoming_snapshot (stepping r) = r_incoming_snapshot r" "r_handoff (stepping r) = r_handoff r"
  "r_votes (stepping r) = r_votes r" "r_progress (stepping r) = r_progress r"
  "r_leader (stepping r) = r_leader r"
  by (simp_all add: stepping_def)

lemma stepping_inv: "raft_inv r \<Longrightarrow> raft_inv (stepping r)"
  by (erule raft_inv_frame) simp_all

text \<open>Validation reads none of the fields a step resets first.\<close>

lemma entry_at_state: "r_state r' = r_state r \<Longrightarrow> entry_at r' = entry_at r"
  by (simp add: fun_eq_iff entry_at_def)

lemma validate_overlap_stepping: "validate_overlap (stepping r) i es = validate_overlap r i es"
  by (induction r i es rule: validate_overlap.induct)
    (auto simp: entry_at_state [of "stepping r" r for r] split: option.splits)

lemma validate_append_stepping:
  "validate_append (stepping r) t prev prev_term new = validate_append r t prev prev_term new"
  unfolding validate_append_def term_at_term_of stepping_simps validate_overlap_stepping ..

lemma validate_install_stepping:
  "validate_install_snapshot (stepping r) from t n snap = validate_install_snapshot r from t n snap"
  unfolding validate_install_snapshot_def validate_snapshot_def term_at_term_of stepping_simps ..

lemma validate_body_stepping: "validate_body (stepping r) from msg = validate_body r from msg"
  by (cases msg) (simp_all add: validate_append_stepping validate_install_stepping)

lemma validate_receive_stepping: "validate_receive (stepping r) e = validate_receive r e"
  unfolding validate_receive_def Let_def stepping_simps validate_body_stepping ..

lemma validate_event_stepping: "validate_event (stepping r) ev = validate_event r ev"
proof -
  have "leadership_validate_event (stepping r) ev = leadership_validate_event r ev"
    by (cases ev) (simp_all cong: option.case_cong)
  then show ?thesis
    unfolding validate_event_def validate_proposal_count_def validate_compact_def validate_transfer_def
      validate_snapshot_def validate_receive_stepping term_at_term_of last_index_def stepping_simps by simp
qed

lemma available_Inr: "available r = Inr () \<longleftrightarrow> \<not> r_poisoned r \<and> r_pending r = None"
  by (cases "r_pending r") (auto simp: available_def)

lemma step_cases:
  assumes "step r ev = res"
  obtains
    (refused) e where "res = Inl (Err e, r)"
      and "available r = Inl e \<or> available r = Inr () \<and> validate_event r ev = Inl e \<or>
        available r = Inr () \<and> validate_event r ev = Inr () \<and> e = CounterExhausted \<and> u64_max \<le> r_generation r"
  | (failed) f r' where "dispatch (stepping r) ev (empty_output r) = Inl (f, r')" "res = Inl (f, r')"
      "available r = Inr ()" "validate_event r ev = Inr ()"
  | (finished) r' out where "dispatch (stepping r) ev (empty_output r) = Inr (r', out)"
      "res = finish_step r ev (r', out)" "available r = Inr ()" "validate_event r ev = Inr ()"
      "r_generation r < u64_max"
proof (cases "and_then (available r) (\<lambda>_. validate_event r ev)")
  case (Inl e)
  then have "res = Inl (Err e, r)" using assms by (simp add: step_def)
  with Inl refused show ?thesis by (auto simp: and_then_eq_Inl)
next
  case (Inr u)
  then have v: "available r = Inr ()" "validate_event r ev = Inr ()" by (auto simp: and_then_eq_Inr)
  show ?thesis
  proof (cases "r_generation r < u64_max")
    case False
    then show ?thesis
      using assms v by (intro refused [of CounterExhausted]) (auto simp: step_def checked_add_def)
  next
    case True
    then have res: "res = and_then (dispatch (stepping r) ev (empty_output r)) (finish_step r ev)"
      using assms v by (simp add: step_def checked_add_def stepping_def)
    show ?thesis
    proof (cases "dispatch (stepping r) ev (empty_output r)")
      case (Inl x)
      then show ?thesis using res v failed by (cases x) simp
    next
      case (Inr x)
      then show ?thesis using res v True finished by (cases x) simp
    qed
  qed
qed

text \<open>What a successful step publishes: the next token, the speculative state, the output.\<close>

definition published :: "'c raft \<Rightarrow> 'c raft \<Rightarrow> 'c persistence \<Rightarrow> 'c raft_output \<Rightarrow> bool" where
  "published r r' p out \<longleftrightarrow>
     r_pending r' = Some (per_id p, out) \<and> \<not> r_poisoned r' \<and> per_state p = r_state r' \<and>
     per_id p = \<lparr>pid_incarnation = r_incarnation r, pid_generation = r_generation r + 1\<rparr> \<and>
     r_id r' = r_id r \<and> r_limits r' = r_limits r \<and> r_append_window r' = r_append_window r \<and>
     r_incarnation r' = r_incarnation r \<and> r_generation r' = r_generation r + 1 \<and>
     r_initialized r' = r_initialized r \<and> out_role out = r_role r' \<and> out_leader out = r_leader r' \<and>
     (\<forall>e \<in> set (out_messages out). msg_ok (r_state r') (r_id r') e) \<and>
     (\<forall>c \<in> set (out_committed out). entry_of (r_state r') (co_index c) = Some (co_entry c)) \<and>
     map co_index (out_committed out) =
       [max (ps_commit_index (r_state r)) (base_index (r_state r')) + 1..<ps_commit_index (r_state r') + 1] \<and>
     (\<not> per_requires_write p \<longrightarrow> r_initialized r \<and> r_state r' = r_state r)"

text \<open>The node with the vote its event carries, the start of the evolution.\<close>

lemma credited_event_simps:
  assumes "r0 = credited_event r ev"
  shows "r_id r0 = r_id r" "r_state r0 = r_state r" "r_limits r0 = r_limits r"
    "r_append_window r0 = r_append_window r" "r_generation r0 = r_generation r"
    "r_incarnation r0 = r_incarnation r" "r_initialized r0 = r_initialized r" "r_pending r0 = r_pending r"
    "r_poisoned r0 = r_poisoned r" "r_log_changed r0 = r_log_changed r" "r_role r0 = r_role r"
  using assms
  by (auto simp: credited_event_def credited_by_def credited_def split: event.splits message.splits)

lemma finish_step_published:
  assumes "raft_inv r" "kept r0 (empty_output r) r1 out1" "r0 = credited_event (stepping r) ev"
  obtains r' p out where "finish_step r ev (r1, out1) = Inr (r', p)" "raft_inv r'"
    "state_evolves (r_state r) (r_state r')" "published r r' p out" "grounded r0 r'"
proof -
  obtain r2 out2 where d: "drive_handoff r1 out1 (retries_handoff ev) = (r2, out2)" by (metis surj_pair)
  have inv1: "raft_inv r1" using assms(2) by (simp add: kept_def)
  note c = credited_event_simps [OF assms(3)]
  have k: "kept r0 (empty_output r) r2 out2"
    using kept_trans_same [OF assms(2) drive_handoff_kept [OF inv1 d]] .
  then have inv: "raft_inv r2" and ev: "evolves r0 r2"
    and msgs: "\<forall>e \<in> set (out_messages out2). msg_ok (r_state r2) (r_id r2) e"
    by (auto simp: kept_def emits_def empty_output_def)
  have ok: "state_ok (r_limits r2) (r_id r2) (r_state r2)" using inv by (simp add: raft_inv_def)
  have se: "state_evolves (r_state r) (r_state r2)" using ev by (simp add: evolves_def c)
  then have le: "ps_commit_index (r_state r) \<le> ps_commit_index (r_state r2)" by (simp add: state_evolves_def)
  obtain cs where cs: "committed_range r2 (ps_commit_index (r_state r)) = Some cs"
    "map co_index cs = [max (ps_commit_index (r_state r)) (base_index (r_state r2)) + 1..<
       ps_commit_index (r_state r2) + 1]"
    "\<And>c. c \<in> set cs \<Longrightarrow> entry_of (r_state r2) (co_index c) = Some (co_entry c)"
    by (rule committed_range_spec [OF ok le]) (rule that)
  define token where "token = \<lparr>pid_incarnation = r_incarnation r2, pid_generation = r_generation r2\<rparr>"
  define out where "out = (cancel_transfers
      (map_option (\<lambda>pending. st_id (is_transfer pending)) (r_incoming_snapshot r)) r2 out2)
      \<lparr>out_committed := cs, out_role := r_role r2, out_leader := r_leader r2\<rparr>"
  define r' where "r' = r2\<lparr>r_pending := Some (token, out), r_poisoned := False\<rparr>"
  define p where "p = \<lparr>per_id = token, per_state = r_state r2, per_requires_write =
      (\<not> r_initialized r2 \<or> r_log_changed r2 \<or> hard_state (r_state r) \<noteq> hard_state (r_state r2))\<rparr>"
  show ?thesis
  proof
    show "finish_step r ev (r1, out1) = Inr (r', p)"
      by (simp add: finish_step_def Let_def d cs(1) token_def out_def r'_def p_def)
    show "raft_inv r'" by (rule raft_inv_frame [OF inv]) (simp_all add: r'_def)
    show "state_evolves (r_state r) (r_state r')" using se by (simp add: r'_def)
    have "out_messages out = out_messages out2"
      by (simp add: out_def cancel_transfers_def split: option.splits)
    moreover have "r_state r2 = r_state r" if "\<not> per_requires_write p"
      using that ev by (simp add: p_def hard_state_def evolves_def state_evolves_def c)
    ultimately show "published r r' p out"
      using msgs cs(2,3) ev by (simp add: published_def r'_def p_def token_def evolves_def out_def c)
    have "grounded r0 r2" using ev by (simp add: evolves_def)
    then show "grounded r0 r'" by (simp add: grounded_def electing_def r'_def)
  qed
qed

lemma step_Inr:
  assumes "raft_inv r" "event_wf ev" "step r ev = Inr (r', p)"
  obtains out where "raft_inv r'" "state_evolves (r_state r) (r_state r')" "published r r' p out"
    "r_pending r = None" "\<not> r_poisoned r" "validate_event r ev = Inr ()"
    "grounded (credited_event (stepping r) ev) r'"
  using assms(3)
proof (cases rule: step_cases)
  case (finished r1 out1)
  have "only_exhausted (dispatch (stepping r) ev (empty_output r)) (kept (credited_event (stepping r) ev) (empty_output r))"
    by (rule dispatch_kept [OF stepping_inv [OF assms(1)] _ assms(2)])
      (simp add: validate_event_stepping finished(4))
  then have "kept (credited_event (stepping r) ev) (empty_output r) r1 out1" using finished(1) by simp
  then obtain r2 p2 out2 where "finish_step r ev (r1, out1) = Inr (r2, p2)" "raft_inv r2"
      "state_evolves (r_state r) (r_state r2)" "published r r2 p2 out2"
      "grounded (credited_event (stepping r) ev) r2"
    by (rule finish_step_published [OF assms(1) _ refl])
  with finished that show ?thesis by (simp add: available_Inr)
qed simp_all

lemma step_Inl:
  assumes "raft_inv r" "event_wf ev" "step r ev = Inl (f, r')"
  obtains (refused) e where "f = Err e" "r' = r"
      "available r = Inl e \<or> available r = Inr () \<and> validate_event r ev = Inl e \<or>
        available r = Inr () \<and> validate_event r ev = Inr () \<and> e = CounterExhausted \<and> u64_max \<le> r_generation r"
    | (failed) "f = Err CounterExhausted" "r_poisoned r'" "available r = Inr ()" "validate_event r ev = Inr ()"
  using assms(3)
proof (cases rule: step_cases)
  case (refused e)
  then show ?thesis using that(1) by simp
next
  case (failed f1 r1)
  have "only_exhausted (dispatch (stepping r) ev (empty_output r)) (kept (credited_event (stepping r) ev) (empty_output r))"
    by (rule dispatch_kept [OF stepping_inv [OF assms(1)] _ assms(2)])
      (simp add: validate_event_stepping failed(4))
  moreover have "r_poisoned (reached (dispatch (stepping r) ev (empty_output r)))"
    by (rule poison_dispatch) simp
  ultimately show ?thesis using failed that(2) by simp
next
  case (finished r1 out1)
  have "only_exhausted (dispatch (stepping r) ev (empty_output r)) (kept (credited_event (stepping r) ev) (empty_output r))"
    by (rule dispatch_kept [OF stepping_inv [OF assms(1)] _ assms(2)])
      (simp add: validate_event_stepping finished(4))
  then have "kept (credited_event (stepping r) ev) (empty_output r) r1 out1" using finished(1) by simp
  then obtain r2 p2 where "finish_step r ev (r1, out1) = Inr (r2, p2)"
    by (rule finish_step_published [OF assms(1) _ refl])
  with finished show ?thesis by simp
qed

lemma persisted_Inr:
  assumes "persisted r token = Inr (r', out)"
  shows "r_pending r = Some (token, out)" "\<not> r_poisoned r"
    "r' = r\<lparr>r_pending := None, r_initialized := True\<rparr>"
  using assms by (auto simp: persisted_def split: if_splits option.splits)

lemma persisted_inv:
  assumes "raft_inv r" "persisted r token = Inr (r', out)"
  shows "raft_inv r'" "r_state r' = r_state r"
  using raft_inv_frame [OF assms(1), of r'] persisted_Inr [OF assms(2)] by simp_all

lemma recover_inv:
  assumes "state_ok lim me s" "recover inc me s lim = Inr r"
  shows "raft_inv r" "r_state r = s"
  using recover_Inr [OF assms(2)] assms(1) by (auto simp: raft_inv_def role_ok_def max_append_window_def)

end
