(* ===== verification/LogSpec.thy ===== *)
theory LogSpec
  imports RaftTypes "HOL-Library.Sublist"
begin

text \<open>
  What a group of replicating members promises, without messages, volatile state or snapshots: every
  member has a term and a log, casts at most one ballot per term, and acknowledges prefixes of the log
  of a term's leader. A ballot remembers the voter's log at the time it was cast. A prefix is chosen
  when a quorum has acknowledged it and it ends with an entry of the acknowledged term. The theory
  shows that chosen prefixes never disagree; theories \<open>RaftView\<close> to \<open>RaftSafety\<close> show that the kernel
  implements these steps.
\<close>

section \<open>The protocol\<close>

record ('m, 'e) group_log =
  gl_term :: "'m \<Rightarrow> u64"
  gl_log :: "'m \<Rightarrow> 'e entry list"
  gl_ballot :: "'m \<Rightarrow> u64 \<Rightarrow> ('m \<times> 'e entry list) option"
  gl_lead :: "u64 \<Rightarrow> ('m \<times> 'e entry list) option"
  gl_ack :: "'m \<Rightarrow> u64 \<Rightarrow> nat"

definition end_term :: "'e entry list \<Rightarrow> u64" where
  "end_term X = (if X = [] then 0 else e_term (last X))"

definition fresher :: "'e entry list \<Rightarrow> 'e entry list \<Rightarrow> bool" where
  "fresher E X \<longleftrightarrow> end_term X < end_term E \<or> end_term X = end_term E \<and> length X \<le> length E"

text \<open>Taking over a leader's prefix: a log that already contains it stays as it is.\<close>

definition adopt :: "'e entry list \<Rightarrow> 'e entry list \<Rightarrow> 'e entry list" where
  "adopt P L = (if prefix P L then L else P)"

inductive protocol_step ::
  "('m set \<Rightarrow> bool) \<Rightarrow> 'm \<Rightarrow> ('m, 'e) group_log \<Rightarrow> ('m, 'e) group_log \<Rightarrow> bool" for q me where
  raise: "gl_term A me < t \<Longrightarrow> protocol_step q me A (A\<lparr>gl_term := (gl_term A)(me := t)\<rparr>)"
| stand: "t = gl_term A me \<Longrightarrow> 0 < t \<Longrightarrow> gl_ballot A me t = None \<Longrightarrow>
    \<forall>e \<in> set (gl_log A me). e_term e < t \<Longrightarrow>
    protocol_step q me A (A\<lparr>gl_ballot := (gl_ballot A)(me := (gl_ballot A me)(t \<mapsto> (me, gl_log A me)))\<rparr>)"
| vote: "t = gl_term A me \<Longrightarrow> gl_ballot A me t = None \<Longrightarrow> m \<noteq> me \<Longrightarrow>
    gl_ballot A m t = Some (m, E) \<Longrightarrow> fresher E (gl_log A me) \<Longrightarrow>
    protocol_step q me A (A\<lparr>gl_ballot := (gl_ballot A)(me := (gl_ballot A me)(t \<mapsto> (m, gl_log A me)))\<rparr>)"
| elect: "t = gl_term A me \<Longrightarrow> gl_lead A t = None \<Longrightarrow> gl_ballot A me t = Some (me, gl_log A me) \<Longrightarrow>
    q Q \<Longrightarrow> \<forall>w \<in> Q. \<exists>X. gl_ballot A w t = Some (me, X) \<Longrightarrow>
    protocol_step q me A (A\<lparr>gl_lead := (gl_lead A)(t \<mapsto> (me, gl_log A me)),
      gl_ack := (gl_ack A)(me := (gl_ack A me)(t := length (gl_log A me)))\<rparr>)"
| extend: "t = gl_term A me \<Longrightarrow> gl_lead A t = Some (me, G) \<Longrightarrow> \<forall>e \<in> set xs. e_term e = t \<Longrightarrow>
    protocol_step q me A (A\<lparr>gl_lead := (gl_lead A)(t \<mapsto> (me, G @ xs)), gl_log := (gl_log A)(me := G @ xs),
      gl_ack := (gl_ack A)(me := (gl_ack A me)(t := length (G @ xs)))\<rparr>)"
| accept: "t = gl_term A me \<Longrightarrow> gl_lead A t = Some (m, G) \<Longrightarrow> m \<noteq> me \<Longrightarrow> n \<le> length G \<Longrightarrow>
    protocol_step q me A (A\<lparr>gl_log := (gl_log A)(me := adopt (take n G) (gl_log A me)),
      gl_ack := (gl_ack A)(me := (gl_ack A me)(t := max (gl_ack A me t) n))\<rparr>)"

definition protocol_init :: "('m, 'e) group_log" where
  "protocol_init = \<lparr>gl_term = (\<lambda>_. 0), gl_log = (\<lambda>_. []), gl_ballot = (\<lambda>_ _. None),
     gl_lead = (\<lambda>_. None), gl_ack = (\<lambda>_ _. 0)\<rparr>"

text \<open>A prefix chosen in term \<open>t\<close>, and one settled by term \<open>t\<close>.\<close>

definition chosen :: "('m set \<Rightarrow> bool) \<Rightarrow> ('m, 'e) group_log \<Rightarrow> u64 \<Rightarrow> 'e entry list \<Rightarrow> bool" where
  "chosen q A t P \<longleftrightarrow> (\<exists>m G n Q. gl_lead A t = Some (m, G) \<and> 0 < n \<and> n \<le> length G \<and>
     e_term (G ! (n - 1)) = t \<and> q Q \<and> (\<forall>v \<in> Q. n \<le> gl_ack A v t) \<and> P = take n G)"

definition settled :: "('m set \<Rightarrow> bool) \<Rightarrow> ('m, 'e) group_log \<Rightarrow> u64 \<Rightarrow> 'e entry list \<Rightarrow> bool" where
  "settled q A t P \<longleftrightarrow> P = [] \<or> (\<exists>u C. u \<le> t \<and> chosen q A u C \<and> prefix P C)"

section \<open>The invariant\<close>

text \<open>Every entry was created by its term's leader, on top of the same prefix.\<close>

definition lawful :: "('m, 'e) group_log \<Rightarrow> 'e entry list \<Rightarrow> bool" where
  "lawful A X \<longleftrightarrow>
     (\<forall>i < length X. \<exists>m G. gl_lead A (e_term (X ! i)) = Some (m, G) \<and> prefix (take (Suc i) X) G)"

definition orderly :: "u64 \<Rightarrow> 'e entry list \<Rightarrow> bool" where
  "orderly t X \<longleftrightarrow> sorted (map e_term X) \<and> (\<forall>e \<in> set X. e_term e \<le> t)"

text \<open>What \<open>w\<close> acknowledged in terms before \<open>u\<close> is in \<open>X\<close>, unless a leader in between contradicts it.\<close>

definition remembers :: "('m, 'e) group_log \<Rightarrow> 'm \<Rightarrow> u64 \<Rightarrow> 'e entry list \<Rightarrow> bool" where
  "remembers A w u X \<longleftrightarrow>
     (\<forall>t m G n. t < u \<and> gl_lead A t = Some (m, G) \<and> n \<le> gl_ack A w t \<longrightarrow>
        prefix (take n G) X \<or>
        (\<exists>u' m' G'. t < u' \<and> u' < u \<and> gl_lead A u' = Some (m', G') \<and> take n G \<parallel> G'))"

definition member_inv :: "('m, 'e) group_log \<Rightarrow> 'm \<Rightarrow> bool" where
  "member_inv A v \<longleftrightarrow> lawful A (gl_log A v) \<and> orderly (gl_term A v) (gl_log A v) \<and>
     remembers A v (Suc (gl_term A v)) (gl_log A v)"

definition ballot_inv :: "('m, 'e) group_log \<Rightarrow> 'm \<Rightarrow> u64 \<Rightarrow> bool" where
  "ballot_inv A v t \<longleftrightarrow>
     (case gl_ballot A v t of None \<Rightarrow> True
      | Some (m, X) \<Rightarrow> 0 < t \<and> t \<le> gl_term A v \<and> lawful A X \<and> orderly t X \<and>
          (m = v \<longrightarrow> (\<forall>e \<in> set X. e_term e < t)) \<and>
          (m \<noteq> v \<longrightarrow> (\<exists>E. gl_ballot A m t = Some (m, E) \<and> fresher E X)) \<and>
          (gl_lead A t = None \<longrightarrow> remembers A v t X))"

definition lead_inv :: "('m set \<Rightarrow> bool) \<Rightarrow> ('m, 'e) group_log \<Rightarrow> u64 \<Rightarrow> bool" where
  "lead_inv q A t \<longleftrightarrow>
     (case gl_lead A t of None \<Rightarrow> (\<forall>v. gl_ack A v t = 0)
      | Some (m, G) \<Rightarrow> lawful A G \<and> orderly t G \<and> t \<le> gl_term A m \<and>
          (gl_term A m = t \<longrightarrow> gl_log A m = G) \<and> gl_ack A m t = length G \<and>
          (\<forall>v. gl_ack A v t \<le> length G \<and> (0 < gl_ack A v t \<longrightarrow> t \<le> gl_term A v)) \<and>
          (\<exists>E Q. gl_ballot A m t = Some (m, E) \<and> prefix E G \<and> q Q \<and>
             (\<forall>w \<in> Q. \<exists>X. gl_ballot A w t = Some (m, X) \<and> remembers A w t X)))"

definition protocol_inv :: "('m set \<Rightarrow> bool) \<Rightarrow> ('m, 'e) group_log \<Rightarrow> bool" where
  "protocol_inv q A \<longleftrightarrow>
     (\<forall>v. member_inv A v) \<and> (\<forall>v t. ballot_inv A v t) \<and> (\<forall>t. lead_inv q A t)"

lemma lead_inv_None: "lead_inv q A t \<Longrightarrow> gl_lead A t = None \<Longrightarrow> gl_ack A v t = 0"
  by (simp add: lead_inv_def)

lemma lead_inv_Some:
  assumes "lead_inv q A t" "gl_lead A t = Some (m, G)"
  shows "lawful A G" "orderly t G" "t \<le> gl_term A m" "gl_term A m = t \<Longrightarrow> gl_log A m = G"
    "gl_ack A m t = length G" "gl_ack A v t \<le> length G" "0 < gl_ack A v t \<Longrightarrow> t \<le> gl_term A v"
    "\<exists>E Q. gl_ballot A m t = Some (m, E) \<and> prefix E G \<and> q Q \<and>
       (\<forall>w \<in> Q. \<exists>X. gl_ballot A w t = Some (m, X) \<and> remembers A w t X)"
  using assms by (auto simp: lead_inv_def)

lemma ballot_inv_Some:
  assumes "ballot_inv A v t" "gl_ballot A v t = Some (m, X)"
  shows "0 < t" "t \<le> gl_term A v" "lawful A X" "orderly t X"
    "m = v \<Longrightarrow> \<forall>e \<in> set X. e_term e < t"
    "m \<noteq> v \<Longrightarrow> \<exists>E. gl_ballot A m t = Some (m, E) \<and> fresher E X"
    "gl_lead A t = None \<Longrightarrow> remembers A v t X"
  using assms by (auto simp: ballot_inv_def)

lemma protocol_invD:
  assumes "protocol_inv q A"
  shows "member_inv A v" "ballot_inv A v t" "lead_inv q A t"
  using assms by (simp_all add: protocol_inv_def)

section \<open>Growth\<close>

definition grows :: "('m, 'e) group_log \<Rightarrow> ('m, 'e) group_log \<Rightarrow> bool" where
  "grows A B \<longleftrightarrow> (\<forall>v. gl_term A v \<le> gl_term B v) \<and>
     (\<forall>v t b. gl_ballot A v t = Some b \<longrightarrow> gl_ballot B v t = Some b) \<and>
     (\<forall>t m G. gl_lead A t = Some (m, G) \<longrightarrow> (\<exists>G'. gl_lead B t = Some (m, G') \<and> prefix G G')) \<and>
     (\<forall>v t. gl_ack A v t \<le> gl_ack B v t)"

lemma grows_refl [simp]: "grows A A"
  by (simp add: grows_def)

lemma grows_trans: "grows A B \<Longrightarrow> grows B C \<Longrightarrow> grows A C"
  unfolding grows_def by (meson order_trans prefix_order.order_trans)

lemma grows_lead:
  assumes "grows A B" "gl_lead A t = Some (m, G)"
  obtains G' where "gl_lead B t = Some (m, G')" "prefix G G'"
  using assms unfolding grows_def by blast

lemma grows_ballot: "grows A B \<Longrightarrow> gl_ballot A v t = Some b \<Longrightarrow> gl_ballot B v t = Some b"
  unfolding grows_def by blast

lemma grows_ack: "grows A B \<Longrightarrow> n \<le> gl_ack A v t \<Longrightarrow> n \<le> gl_ack B v t"
  using order_trans unfolding grows_def by blast

lemma grows_lawful: "grows A B \<Longrightarrow> lawful A X \<Longrightarrow> lawful B X"
  unfolding lawful_def by (meson grows_lead prefix_order.order_trans)

lemma prefix_take_same: "prefix G G' \<Longrightarrow> n \<le> length G \<Longrightarrow> take n G' = take n G"
  by (auto simp: prefix_def)

lemma grows_chosen:
  assumes "grows A B" "chosen q A t P"
  shows "chosen q B t P"
proof -
  obtain m G n Q where c: "gl_lead A t = Some (m, G)" "0 < n" "n \<le> length G" "e_term (G ! (n - 1)) = t" "q Q"
    "\<forall>v \<in> Q. n \<le> gl_ack A v t" "P = take n G"
    using assms(2) unfolding chosen_def by blast
  obtain G' where G': "gl_lead B t = Some (m, G')" "prefix G G'"
    using grows_lead [OF assms(1) c(1)] .
  have "n \<le> length G'" using prefix_length_le [OF G'(2)] c(3) by simp
  moreover have "e_term (G' ! (n - 1)) = t" using G'(2) c(2-4) by (auto simp: prefix_def nth_append)
  moreover have "P = take n G'" using prefix_take_same [OF G'(2) c(3)] c(7) by simp
  ultimately show ?thesis
    unfolding chosen_def using G'(1) c(2,5,6) grows_ack [OF assms(1)] by blast
qed

lemma grows_settled: "grows A B \<Longrightarrow> settled q A t P \<Longrightarrow> settled q B t P"
  unfolding settled_def using grows_chosen by blast

lemma settled_later: "settled q A t P \<Longrightarrow> t \<le> u \<Longrightarrow> settled q A u P"
  unfolding settled_def by (meson order_trans)

lemma settled_prefix: "settled q A t P \<Longrightarrow> prefix P' P \<Longrightarrow> settled q A t P'"
  unfolding settled_def by (metis prefix_bot.bot_unique prefix_order.order_trans)

lemma settled_Nil [simp]: "settled q A t []"
  by (simp add: settled_def)

lemma grows_remembers:
  assumes "grows A B" "remembers A w u X" "\<forall>t < u. gl_ack B w t = gl_ack A w t"
    and "\<forall>t. lead_inv q A t"
  shows "remembers B w u X"
  unfolding remembers_def
proof (intro allI impI)
  fix t m G n
  assume a: "t < u \<and> gl_lead B t = Some (m, G) \<and> n \<le> gl_ack B w t"
  have same: "n \<le> gl_ack A w t" using a assms(3) by metis
  show "prefix (take n G) X \<or>
        (\<exists>u' m' G'. t < u' \<and> u' < u \<and> gl_lead B u' = Some (m', G') \<and> take n G \<parallel> G')"
  proof (cases "gl_lead A t")
    case None
    with assms(4) have "gl_ack A w t = 0" by (metis lead_inv_None)
    with same show ?thesis by simp
  next
    case (Some b)
    obtain m0 G0 where b: "gl_lead A t = Some (m0, G0)" using Some by (cases b) auto
    with assms(1) a have p: "prefix G0 G" by (metis grows_lead option.inject prod.inject)
    have "n \<le> length G0" using lead_inv_Some(6) [OF spec [OF assms(4)] b] same by (rule le_trans [rotated])
    with p have take: "take n G = take n G0" by (rule prefix_take_same)
    from assms(2) a b same consider "prefix (take n G0) X"
      | u' m' G' where "t < u'" "u' < u" "gl_lead A u' = Some (m', G')" "take n G0 \<parallel> G'"
      unfolding remembers_def by blast
    then show ?thesis
    proof cases
      case 1
      then show ?thesis by (simp add: take)
    next
      case 2
      obtain G'' where G'': "gl_lead B u' = Some (m', G'')" "prefix G' G''"
        using grows_lead [OF assms(1) 2(3)] .
      have "take n G0 \<parallel> G''"
        using 2(4) G''(2) by (metis parallel_append prefix_def append_Nil2)
      with 2(1,2) G''(1) show ?thesis by (auto simp: take)
    qed
  qed
qed

section \<open>Preservation\<close>

text \<open>A step of \<open>me\<close> leaves the others alone and touches only acknowledgements of its current term.\<close>

lemma step_frame:
  assumes "protocol_step q me A B"
  shows "v \<noteq> me \<Longrightarrow> gl_term B v = gl_term A v \<and> gl_log B v = gl_log A v \<and> gl_ballot B v = gl_ballot A v \<and>
      gl_ack B v = gl_ack A v"
    "v \<noteq> me \<or> t \<noteq> gl_term A me \<Longrightarrow> gl_ack B v t = gl_ack A v t"
    "gl_lead B t = None \<Longrightarrow> gl_ack B v t = gl_ack A v t"
  using assms by (cases, auto)+

lemma step_grows:
  assumes "protocol_inv q A" "protocol_step q me A B"
  shows "grows A B"
  using assms(2)
proof cases
  case (elect t Q)
  then show ?thesis using lead_inv_None [OF protocol_invD(3) [OF assms(1)]] by (auto simp: grows_def)
next
  case (extend t G xs)
  then show ?thesis using lead_inv_Some(5) [OF protocol_invD(3) [OF assms(1)] extend(3)] by (auto simp: grows_def)
qed (auto simp: grows_def)

lemma step_remembers:
  assumes "protocol_inv q A" "protocol_step q me A B" "remembers A w u X"
    and "w \<noteq> me \<or> u \<le> gl_term A me"
  shows "remembers B w u X"
proof (rule grows_remembers [OF step_grows [OF assms(1,2)] assms(3)])
  show "\<forall>t<u. gl_ack B w t = gl_ack A w t"
    using step_frame(2) [OF assms(2)] assms(4) by auto
  show "\<forall>t. lead_inv q A t" using assms(1) by (simp add: protocol_inv_def)
qed

lemma lead_None_back: "grows A B \<Longrightarrow> gl_lead B t = None \<Longrightarrow> gl_lead A t = None"
  by (metis grows_lead not_Some_eq option.distinct(1) surj_pair)

text \<open>Memory of a member at its current term.\<close>

lemma remembers_raise:
  assumes "remembers A w u X" "u \<le> u'" "\<forall>t \<ge> u. gl_ack A w t = 0"
  shows "remembers A w u' X"
  unfolding remembers_def
proof (intro allI impI)
  fix t m G n
  assume a: "t < u' \<and> gl_lead A t = Some (m, G) \<and> n \<le> gl_ack A w t"
  show "prefix (take n G) X \<or>
        (\<exists>u'' m' G'. t < u'' \<and> u'' < u' \<and> gl_lead A u'' = Some (m', G') \<and> take n G \<parallel> G')"
  proof (cases "t < u")
    case True
    with a assms(1,2) show ?thesis unfolding remembers_def by (meson less_le_trans)
  next
    case False
    with a assms(3) show ?thesis by simp
  qed
qed

lemma remembers_lower:
  assumes "remembers A w (Suc t) X" "gl_lead A t = None"
  shows "remembers A w t X"
  unfolding remembers_def
proof (intro allI impI)
  fix t0 m G n
  assume a: "t0 < t \<and> gl_lead A t0 = Some (m, G) \<and> n \<le> gl_ack A w t0"
  then consider "prefix (take n G) X"
    | u' m' G' where "t0 < u'" "u' < Suc t" "gl_lead A u' = Some (m', G')" "take n G \<parallel> G'"
    using assms(1) unfolding remembers_def by (meson less_Suc_eq)
  then show "prefix (take n G) X \<or>
      (\<exists>u' m' G'. t0 < u' \<and> u' < t \<and> gl_lead A u' = Some (m', G') \<and> take n G \<parallel> G')"
  proof cases
    case 2
    then have "u' < t" using assms(2) by (cases "u' = t") auto
    with 2 show ?thesis by blast
  qed blast
qed

text \<open>The memory of the acting member after a step in term \<open>t\<close> with the leader's log \<open>G\<close>.\<close>

lemma remembers_at_term:
  assumes old: "\<And>t0 m0 G0 n. t0 < t \<Longrightarrow> gl_lead B t0 = Some (m0, G0) \<Longrightarrow> n \<le> gl_ack B w t0 \<Longrightarrow>
      prefix (take n G0) X \<or> (\<exists>u' m' G'. t0 < u' \<and> u' < Suc t \<and> gl_lead B u' = Some (m', G') \<and> take n G0 \<parallel> G')"
    and cur: "\<And>m0 G0 n. gl_lead B t = Some (m0, G0) \<Longrightarrow> n \<le> gl_ack B w t \<Longrightarrow> prefix (take n G0) X"
  shows "remembers B w (Suc t) X"
  unfolding remembers_def using old cur by (metis less_Suc_eq)

lemma lawful_append:
  assumes "lawful A G" "gl_lead A t = Some (m, G @ xs)" "\<forall>e \<in> set xs. e_term e = t"
  shows "lawful A (G @ xs)"
  unfolding lawful_def
proof (intro allI impI)
  fix i
  assume i: "i < length (G @ xs)"
  show "\<exists>m' G'. gl_lead A (e_term ((G @ xs) ! i)) = Some (m', G') \<and> prefix (take (Suc i) (G @ xs)) G'"
  proof (cases "i < length G")
    case True
    with assms(1) show ?thesis by (auto simp: lawful_def nth_append)
  next
    case False
    then have "e_term ((G @ xs) ! i) = t" using i assms(3) by (auto simp: nth_append)
    with assms(2) show ?thesis by (auto simp: take_is_prefix simp del: take_append)
  qed
qed

lemma lawful_prefix: "lawful A X \<Longrightarrow> prefix Y X \<Longrightarrow> lawful A Y"
  unfolding lawful_def
proof (intro allI impI)
  fix i
  assume a: "\<forall>i<length X. \<exists>m G. gl_lead A (e_term (X ! i)) = Some (m, G) \<and> prefix (take (Suc i) X) G"
    and p: "prefix Y X" and i: "i < length Y"
  then have "i < length X" "Y ! i = X ! i" "take (Suc i) Y = take (Suc i) X"
    by (auto simp: prefix_def nth_append)
  with a show "\<exists>m G. gl_lead A (e_term (Y ! i)) = Some (m, G) \<and> prefix (take (Suc i) Y) G"
    by auto
qed

lemma orderly_append:
  "orderly t G \<Longrightarrow> \<forall>e \<in> set xs. e_term e = t \<Longrightarrow> orderly t (G @ xs)"
  by (auto simp: orderly_def sorted_append intro!: sorted_iff_nth_mono [THEN iffD2])

lemma orderly_prefix: "orderly t X \<Longrightarrow> prefix Y X \<Longrightarrow> orderly t Y"
  by (auto simp: orderly_def prefix_def sorted_append)

lemma orderly_mono: "orderly t X \<Longrightarrow> t \<le> u \<Longrightarrow> orderly u X"
  by (auto simp: orderly_def)

lemma later_acks:
  assumes "protocol_inv q A" "Suc (gl_term A v) \<le> t"
  shows "gl_ack A v t = 0"
proof (cases "gl_lead A t")
  case None
  then show ?thesis using lead_inv_None [OF protocol_invD(3) [OF assms(1)]] by blast
next
  case (Some b)
  then obtain m G where "gl_lead A t = Some (m, G)" by (cases b) auto
  from lead_inv_Some(7) [OF protocol_invD(3) [OF assms(1)] this, of v] assms(2) show ?thesis by (meson gr0I not_less_eq_eq)
qed

text \<open>What the acting member acknowledged in earlier terms, seen after a step in its current term.\<close>

lemma step_old_acks:
  assumes "protocol_inv q A" "protocol_step q me A B" "t = gl_term A me" "t0 < t"
    and "gl_lead B t0 = Some (m0, G0)" "n \<le> gl_ack B me t0"
  shows "prefix (take n G0) (gl_log A me) \<or>
    (\<exists>u' m' G'. t0 < u' \<and> u' < Suc t \<and> gl_lead B u' = Some (m', G') \<and> take n G0 \<parallel> G')"
proof -
  have "remembers A me (Suc t) (gl_log A me)" using protocol_invD(1) [OF assms(1)] assms(3) by (simp add: member_inv_def)
  then have old: "\<And>m G n. gl_lead A t0 = Some (m, G) \<Longrightarrow> n \<le> gl_ack A me t0 \<Longrightarrow> prefix (take n G) (gl_log A me) \<or>
      (\<exists>u' m' G'. t0 < u' \<and> u' < Suc t \<and> gl_lead A u' = Some (m', G') \<and> take n G \<parallel> G')"
    using assms(4) unfolding remembers_def by (meson less_SucI)
  have ack: "n \<le> gl_ack A me t0" using assms(6) step_frame(2) [OF assms(2), of me t0] assms(3,4) by simp
  note grow = step_grows [OF assms(1,2)]
  show ?thesis
  proof (cases "gl_lead A t0")
    case None
    with ack lead_inv_None [OF protocol_invD(3) [OF assms(1)] None] show ?thesis by simp
  next
    case (Some b)
    then obtain m G where G: "gl_lead A t0 = Some (m, G)" by (cases b) auto
    have "prefix G G0" using grows_lead [OF grow G] assms(5) by auto
    moreover have "n \<le> length G"
      using lead_inv_Some(6) [OF protocol_invD(3) [OF assms(1)] G] ack by (rule le_trans [rotated])
    ultimately have "take n G0 = take n G" by (rule prefix_take_same)
    moreover have "P \<parallel> G''" if "P \<parallel> G'" "prefix G' G''" for P G' G'' :: "'e entry list"
      using that by (metis parallel_append prefix_def append_Nil2)
    ultimately show ?thesis using old [OF G ack] grows_lead [OF grow] by metis
  qed
qed

lemma adopt_keeps:
  assumes "prefix P L"
  shows "prefix P (adopt (take n G) L) \<or> P \<parallel> G"
proof (cases "prefix (take n G) L")
  case False
  with assms have "\<not> prefix (take n G) P" by (meson prefix_order.order_trans)
  moreover have "P \<parallel> G" if "P \<parallel> take n G"
    using parallel_append [OF that, of "[]" "drop n G"] by simp
  ultimately show ?thesis using False by (auto simp: adopt_def)
qed (use assms in \<open>simp add: adopt_def\<close>)

lemma adopt_prefix: "prefix (take n G) (adopt (take n G) L)"
  by (simp add: adopt_def)

lemma prefix_take_take: "k \<le> n \<Longrightarrow> prefix (take k G) (take n G)"
  by (metis min.absorb1 take_is_prefix take_take)

lemma step_member_me:
  assumes "protocol_inv q A" "protocol_step q me A B"
  shows "remembers B me (Suc (gl_term B me)) (gl_log B me)"
  using assms(2)
proof cases
  case (raise t)
  have "remembers A me (Suc t) (gl_log A me)"
    by (rule remembers_raise [of A me "Suc (gl_term A me)"])
      (use protocol_invD(1) [OF assms(1), of me] later_acks [OF assms(1), of me] raise in \<open>auto simp: member_inv_def\<close>)
  then show ?thesis using raise by (simp add: remembers_def)
next
  case (elect t Q)
  have "remembers B me (Suc t) (gl_log A me)"
    by (rule remembers_at_term [OF step_old_acks [OF assms elect(2)]]) (use elect in \<open>auto simp: take_is_prefix\<close>)
  then show ?thesis using elect by simp
next
  case (extend t G xs)
  have log: "gl_log A me = G"
    using lead_inv_Some(4) [OF protocol_invD(3) [OF assms(1)] extend(3)] extend(2) by simp
  have "remembers B me (Suc t) (G @ xs)"
  proof (rule remembers_at_term)
    fix t0 m0 G0 n
    assume "t0 < t" "gl_lead B t0 = Some (m0, G0)" "n \<le> gl_ack B me t0"
    from step_old_acks [OF assms extend(2) this] show "prefix (take n G0) (G @ xs) \<or>
      (\<exists>u' m' G'. t0 < u' \<and> u' < Suc t \<and> gl_lead B u' = Some (m', G') \<and> take n G0 \<parallel> G')"
      unfolding log by (meson prefix_prefix)
  qed (use extend in \<open>auto simp: take_is_prefix simp del: take_append\<close>)
  then show ?thesis using extend by simp
next
  case (accept t m G n)
  have "remembers B me (Suc t) (adopt (take n G) (gl_log A me))"
  proof (rule remembers_at_term)
    fix t0 m0 G0 k
    assume a: "t0 < t" "gl_lead B t0 = Some (m0, G0)" "k \<le> gl_ack B me t0"
    have "gl_lead B t = Some (m, G)" using accept by simp
    with step_old_acks [OF assms accept(2) a] adopt_keeps [of "take k G0" "gl_log A me" n G] a(1)
    show "prefix (take k G0) (adopt (take n G) (gl_log A me)) \<or>
      (\<exists>u' m' G'. t0 < u' \<and> u' < Suc t \<and> gl_lead B u' = Some (m', G') \<and> take k G0 \<parallel> G')"
      by blast
  next
    fix m0 G0 k
    assume "gl_lead B t = Some (m0, G0)" "k \<le> gl_ack B me t"
    then have k: "G0 = G" "k \<le> gl_ack A me t \<or> k \<le> n" using accept by auto
    show "prefix (take k G0) (adopt (take n G) (gl_log A me))"
    proof (cases "k \<le> n")
      case True
      with k(1) adopt_prefix [of n G] prefix_take_take [OF True, of G] show ?thesis
        by (metis prefix_order.order_trans)
    next
      case False
      have "remembers A me (Suc t) (gl_log A me)" using protocol_invD(1) [OF assms(1)] accept(2) by (simp add: member_inv_def)
      then have "prefix (take k G) (gl_log A me)"
        using k(2) False accept(3) unfolding remembers_def by (metis less_Suc_eq not_less_eq)
      moreover from this have "prefix (take n G) (gl_log A me)"
        using False prefix_take_take [of n k G] by (metis nat_le_linear prefix_order.order_trans)
      ultimately show ?thesis by (simp add: adopt_def k(1))
    qed
  qed
  then show ?thesis using accept by simp
qed (use protocol_invD(1) [OF assms(1), of me] in \<open>simp_all add: member_inv_def remembers_def\<close>)

lemma adopt_cases: "adopt P L = L \<or> adopt P L = P"
  by (simp add: adopt_def)

lemma step_member:
  assumes "protocol_inv q A" "protocol_step q me A B"
  shows "member_inv B v"
proof (cases "v = me")
  case False
  then show ?thesis
    using protocol_invD(1) [OF assms(1), of v] step_frame(1) [OF assms(2) False]
      grows_lawful [OF step_grows [OF assms]] step_remembers [OF assms, of v]
    by (simp add: member_inv_def)
next
  case True
  have m: "lawful A (gl_log A me)" "orderly (gl_term A me) (gl_log A me)"
    using protocol_invD(1) [OF assms(1), of me] by (simp_all add: member_inv_def)
  note grow = step_grows [OF assms]
  have "lawful B (gl_log B me) \<and> orderly (gl_term B me) (gl_log B me)"
    using assms(2)
  proof cases
    case (raise t)
    then show ?thesis using grows_lawful [OF grow m(1)] orderly_mono [OF m(2)] by simp
  next
    case (extend t G xs)
    note G = lead_inv_Some(1,2) [OF protocol_invD(3) [OF assms(1)] extend(3)]
    have "lawful B (G @ xs)"
      by (rule lawful_append [OF grows_lawful [OF grow G(1)], of t me]) (use extend in simp_all)
    then show ?thesis using orderly_append [OF G(2) extend(4)] extend by simp
  next
    case (accept t m' G n)
    note G = lead_inv_Some(1,2) [OF protocol_invD(3) [OF assms(1)] accept(3)]
    have "lawful B (take n G)" "orderly t (take n G)"
      using lawful_prefix [OF grows_lawful [OF grow G(1)] take_is_prefix] orderly_prefix [OF G(2) take_is_prefix] .
    then show ?thesis
      using adopt_cases [of "take n G" "gl_log A me"] grows_lawful [OF grow m(1)] m(2) accept by auto
  qed (use grows_lawful [OF grow m(1)] m(2) in simp_all)
  then show ?thesis using step_member_me [OF assms] True by (simp add: member_inv_def)
qed

lemma step_ballot:
  assumes "protocol_inv q A" "protocol_step q me A B"
  shows "ballot_inv B v t"
proof (cases "gl_ballot B v t")
  case None
  then show ?thesis by (simp add: ballot_inv_def)
next
  case (Some b)
  then obtain m X where b: "gl_ballot B v t = Some (m, X)" by (cases b) auto
  note grow = step_grows [OF assms]
  show ?thesis
  proof (cases "gl_ballot A v t = Some (m, X)")
    case True
    note i = ballot_inv_Some [OF protocol_invD(2) [OF assms(1)] True]
    have "t \<le> gl_term B v" using i(2) grow unfolding grows_def by (meson le_trans)
    moreover have "gl_lead B t = None \<Longrightarrow> remembers B v t X"
      by (rule step_remembers [OF assms i(7) [OF lead_None_back [OF grow]]]) (use i(2) in auto)
    ultimately show ?thesis
      using i(1,5,6) i(4) grows_lawful [OF grow i(3)] grows_ballot [OF grow] b
      by (fastforce simp: ballot_inv_def)
  next
    case False
    have mem: "lawful A (gl_log A me)" "orderly (gl_term A me) (gl_log A me)"
        "remembers A me (Suc (gl_term A me)) (gl_log A me)"
      using protocol_invD(1) [OF assms(1), of me] by (simp_all add: member_inv_def)
    have new: "v = me" "t = gl_term A me" "X = gl_log A me" "gl_term B = gl_term A" "gl_lead B = gl_lead A"
        "gl_ack B = gl_ack A" "0 < t" "m = me \<longrightarrow> (\<forall>e \<in> set X. e_term e < t)"
        "m \<noteq> me \<longrightarrow> (\<exists>E. gl_ballot A m t = Some (m, E) \<and> fresher E X)"
      using assms(2) False b
      by (cases; force split: if_splits dest: ballot_inv_Some(1) [OF protocol_invD(2) [OF assms(1)]])+
    have "gl_lead B t = None \<longrightarrow> remembers B me t X"
      using remembers_lower [OF mem(3)] new(2,3,5,6) by (simp add: remembers_def)
    moreover have "m \<noteq> me \<longrightarrow> (\<exists>E. gl_ballot B m t = Some (m, E) \<and> fresher E X)"
      using new(9) grows_ballot [OF grow] by blast
    ultimately show ?thesis
      using grows_lawful [OF grow mem(1)] mem(2) new b by (simp add: ballot_inv_def)
  qed
qed

lemma step_electors:
  assumes "protocol_inv q A" "protocol_step q me A B"
    and "\<forall>w \<in> Q. \<exists>X. gl_ballot A w t = Some (m, X) \<and> remembers A w t X"
  shows "\<forall>w \<in> Q. \<exists>X. gl_ballot B w t = Some (m, X) \<and> remembers B w t X"
proof
  fix w
  assume "w \<in> Q"
  then obtain X where X: "gl_ballot A w t = Some (m, X)" "remembers A w t X" using assms(3) by blast
  have "t \<le> gl_term A w" by (rule ballot_inv_Some(2) [OF protocol_invD(2) [OF assms(1)] X(1)])
  then have "remembers B w t X" by (intro step_remembers [OF assms(1,2) X(2)]) auto
  then show "\<exists>X. gl_ballot B w t = Some (m, X) \<and> remembers B w t X"
    using grows_ballot [OF step_grows [OF assms(1,2)] X(1)] by blast
qed

lemma step_lead_old:
  assumes "protocol_inv q A" "protocol_step q me A B"
    and A: "gl_lead A t = Some (m, G)" and B: "gl_lead B t = Some (m, G')"
    and "lawful B G'" "orderly t G'" "prefix G G'"
    and "gl_term B m = t \<Longrightarrow> gl_log B m = G'" "gl_ack B m t = length G'"
    and "\<And>v. gl_ack B v t \<le> length G'" "\<And>v. 0 < gl_ack B v t \<Longrightarrow> t \<le> gl_term B v"
  shows "lead_inv q B t"
proof -
  note i = lead_inv_Some [OF protocol_invD(3) [OF assms(1)] A]
  note grow = step_grows [OF assms(1,2)]
  obtain E Q where E: "gl_ballot A m t = Some (m, E)" "prefix E G" "q Q"
    "\<forall>w \<in> Q. \<exists>X. gl_ballot A w t = Some (m, X) \<and> remembers A w t X"
    using i(8) by blast
  have "t \<le> gl_term B m" using i(3) grow unfolding grows_def by (meson le_trans)
  moreover have "prefix E G'" using E(2) assms(7) by (rule prefix_order.order_trans)
  ultimately show ?thesis
    using assms(5,6,8-11) B grows_ballot [OF grow E(1)] E(3) step_electors [OF assms(1,2) E(4)]
    by (auto simp: lead_inv_def)
qed

lemma step_lead_new:
  assumes "protocol_inv q A" "protocol_step q me A B"
    and A: "gl_lead A t = None" and B: "gl_lead B t = Some (m, G)"
  shows "lead_inv q B t"
  using assms(2)
proof cases
  case (elect t' Q)
  have e: "t' = t" "m = me" "G = gl_log A me" using A B elect(1) by (auto split: if_splits)
  have mem: "lawful A (gl_log A me)" "orderly (gl_term A me) (gl_log A me)"
    using protocol_invD(1) [OF assms(1), of me] by (simp_all add: member_inv_def)
  have "\<exists>X. gl_ballot A w t = Some (me, X) \<and> remembers A w t X" if "w \<in> Q" for w
    using elect(6) that e(1) ballot_inv_Some(7) [OF protocol_invD(2) [OF assms(1)] _ A] by metis
  then have "\<forall>w \<in> Q. \<exists>X. gl_ballot B w t = Some (me, X) \<and> remembers B w t X"
    using step_electors [OF assms(1,2)] by blast
  moreover have "gl_ack A v t = 0" for v using lead_inv_None [OF protocol_invD(3) [OF assms(1)] A] .
  ultimately show ?thesis
    using B e elect(1-5) grows_lawful [OF step_grows [OF assms(1,2)] mem(1)] mem(2)
    by (auto simp: lead_inv_def)
qed (use A B in \<open>auto split: if_splits\<close>)

lemma step_lead:
  assumes "protocol_inv q A" "protocol_step q me A B"
  shows "lead_inv q B t"
proof (cases "gl_lead B t")
  case None
  note grow = step_grows [OF assms]
  have "gl_ack B v t = 0" for v
    using step_frame(3) [OF assms(2) None] lead_inv_None [OF protocol_invD(3) [OF assms(1)] lead_None_back [OF grow None]]
    by simp
  with None show ?thesis by (simp add: lead_inv_def)
next
  case (Some b)
  then obtain m G' where B: "gl_lead B t = Some (m, G')" by (cases b) auto
  show ?thesis
  proof (cases "gl_lead A t")
    case None
    then show ?thesis using step_lead_new [OF assms _ B] by blast
  next
    case (Some b)
    then obtain G where A: "gl_lead A t = Some (m, G)" and p: "prefix G G'"
      using B grows_lead [OF step_grows [OF assms]] by (metis option.inject prod.inject surj_pair)
    note i = lead_inv_Some [OF protocol_invD(3) [OF assms(1)] A]
    note law = grows_lawful [OF step_grows [OF assms] i(1)]
    show ?thesis
      using assms(2)
    proof cases
      case (extend t' H xs)
      show ?thesis
      proof (cases "t = t'")
        case True
        then have e: "m = me" "H = G" "G' = G @ xs" "t = gl_term A me" using extend A B by auto
        have "lawful B (G @ xs)" by (rule lawful_append [OF law, of t me]) (use extend e True in simp_all)
        moreover have "orderly t (G @ xs)" using orderly_append [OF i(2)] extend(4) True by simp
        ultimately show ?thesis
          by (intro step_lead_old [OF assms A B]) (use e extend i(6,7) True in \<open>auto intro: trans_le_add1 split: if_splits\<close>)
      next
        case False
        then show ?thesis
          by (intro step_lead_old [OF assms A B]) (use law i extend A B False in \<open>auto split: if_splits\<close>)
      qed
    next
      case (raise u)
      then have "gl_term B m \<noteq> t" if "m = me" using i(3) that by auto
      moreover have "t \<le> gl_term B v" if "0 < gl_ack B v t" for v using i(7) [of v] that raise by auto
      ultimately show ?thesis
        by (intro step_lead_old [OF assms A B]) (use law i(2,4-6) A B raise in \<open>auto split: if_splits\<close>)
    next
      case (elect u Q)
      then have "u \<noteq> t" using A by auto
      then show ?thesis
        by (intro step_lead_old [OF assms A B]) (use law i(2,4-7) A B elect in \<open>auto split: if_splits\<close>)
    next
      case (accept u m' H n)
      then have "u \<noteq> t \<or> m \<noteq> me \<and> H = G" using A by auto
      then show ?thesis
        by (intro step_lead_old [OF assms A B]) (use law i(2,4-7) A B accept in \<open>auto split: if_splits\<close>)
    qed (intro step_lead_old [OF assms A B]; use law i(2,4-7) A B in \<open>simp split: if_splits\<close>)+
  qed
qed

lemma step_protocol_inv: "protocol_inv q A \<Longrightarrow> protocol_step q me A B \<Longrightarrow> protocol_inv q B"
  unfolding protocol_inv_def using step_member step_ballot step_lead by (metis protocol_inv_def)

lemma init_protocol_inv: "protocol_inv q protocol_init"
  by (simp add: protocol_inv_def protocol_init_def member_inv_def ballot_inv_def lead_inv_def lawful_def
      orderly_def remembers_def)

section \<open>Runs of one member\<close>

text \<open>What the steps of \<open>me\<close> leave alone for the other members.\<close>

definition spares :: "'m \<Rightarrow> ('m, 'e) group_log \<Rightarrow> ('m, 'e) group_log \<Rightarrow> bool" where
  "spares me A B \<longleftrightarrow> (\<forall>v. v \<noteq> me \<longrightarrow> gl_term B v = gl_term A v \<and> gl_log B v = gl_log A v \<and>
     gl_ballot B v = gl_ballot A v \<and> gl_ack B v = gl_ack A v \<and>
     (\<forall>t G. gl_lead B t = Some (v, G) \<longleftrightarrow> gl_lead A t = Some (v, G)))"

lemma step_spares:
  assumes "protocol_step q me A B"
  shows "spares me A B"
proof -
  have "gl_lead B t = Some (v, G) \<longleftrightarrow> gl_lead A t = Some (v, G)" if "v \<noteq> me" for v t G
    using assms that by cases auto
  then show ?thesis using step_frame(1) [OF assms] by (simp add: spares_def)
qed

lemma run_keeps:
  assumes "(protocol_step q me)\<^sup>*\<^sup>* A B" "protocol_inv q A"
  shows "protocol_inv q B \<and> grows A B \<and> spares me A B"
  using assms(1)
proof (induction rule: rtranclp_induct)
  case base
  then show ?case using assms(2) by (simp add: spares_def)
next
  case (step B C)
  have "spares me B C" by (rule step_spares [OF step(2)])
  with step.IH have "spares me A C" by (simp add: spares_def)
  moreover have "grows A C" using grows_trans step_grows [OF _ step(2)] step.IH by blast
  ultimately show ?case using step_protocol_inv [OF _ step(2)] step.IH by blast
qed

lemmas run_inv = run_keeps [THEN conjunct1]
lemmas run_grows = run_keeps [THEN conjunct2, THEN conjunct1]
lemmas run_spares = run_keeps [THEN conjunct2, THEN conjunct2]

section \<open>Safety\<close>

text \<open>Two lawful logs with an entry of the same term at the same position agree up to it.\<close>

lemma lawful_matching:
  assumes "lawful A X" "lawful A Y" "i < length X" "i < length Y" "e_term (X ! i) = e_term (Y ! i)"
  shows "take (Suc i) X = take (Suc i) Y"
proof -
  obtain m G where X: "gl_lead A (e_term (X ! i)) = Some (m, G)" "prefix (take (Suc i) X) G"
    using assms(1,3) unfolding lawful_def by blast
  obtain m' G' where Y: "gl_lead A (e_term (Y ! i)) = Some (m', G')" "prefix (take (Suc i) Y) G'"
    using assms(2,4) unfolding lawful_def by blast
  have "G' = G" using X(1) Y(1) assms(5) by simp
  with X(2) Y(2) have "prefix (take (Suc i) X) (take (Suc i) Y) \<or> prefix (take (Suc i) Y) (take (Suc i) X)"
    using prefix_same_cases by blast
  moreover have "length (take (Suc i) X) = length (take (Suc i) Y)" using assms(3,4) by simp
  ultimately show ?thesis by (metis prefix_order.antisym prefix_length_prefix prefix_order.refl nle_le)
qed

lemma lawful_end:
  assumes "lawful A X" "X \<noteq> []"
  obtains m G where "gl_lead A (end_term X) = Some (m, G)" "prefix X G"
proof -
  have "length X - 1 < length X" "X ! (length X - 1) = last X" "take (Suc (length X - 1)) X = X"
    using assms(2) by (simp_all add: last_conv_nth)
  then show ?thesis using assms that unfolding lawful_def end_term_def by metis
qed

lemma orderly_le_end:
  assumes "orderly t X" "e \<in> set X"
  shows "e_term e \<le> end_term X"
proof -
  obtain i where i: "i < length X" "e = X ! i" using assms(2) by (auto simp: in_set_conv_nth)
  then have "map e_term X ! i \<le> map e_term X ! (length X - 1)"
    using assms(1) unfolding orderly_def by (intro sorted_nth_mono) auto
  then show ?thesis using i assms(2) by (auto simp: end_term_def last_conv_nth)
qed

text \<open>The candidate's log contains what a fresher-than voter's log contains of a term \<open>t\<close> prefix, when
  every leader in between contains it.\<close>

lemma fresher_keeps:
  assumes "fresher E X" "lawful A E" "lawful A X" "orderly u E" "orderly u X" "\<forall>e \<in> set E. e_term e < u"
    and P: "prefix P X" "P \<noteq> []" "end_term P = t" "orderly t P" "0 < t"
    and between: "\<And>k m G. t < k \<Longrightarrow> k < u \<Longrightarrow> gl_lead A k = Some (m, G) \<Longrightarrow> prefix P G"
  shows "prefix P E"
proof -
  have X: "X \<noteq> []" using P(1,2) by auto
  have "last P \<in> set X" using P(1,2) by (meson last_in_set set_mono_prefix subsetD)
  then have tX: "t \<le> end_term X" using orderly_le_end [OF assms(5)] P(2,3) by (force simp: end_term_def)
  then have E: "E \<noteq> []" using assms(1) P(5) by (auto simp: fresher_def end_term_def)
  obtain m G where G: "gl_lead A (end_term E) = Some (m, G)" "prefix E G" using lawful_end [OF assms(2) E] .
  have ku: "end_term E < u" using assms(6) E by (simp add: end_term_def)
  show ?thesis
  proof (cases "end_term X < end_term E")
    case True
    with tX have tk: "t < end_term E" by simp
    then have PG: "prefix P G" using between [OF _ ku G(1)] by simp
    show ?thesis
    proof (rule ccontr)
      assume "\<not> prefix P E"
      then have "prefix E P" using prefix_same_cases [OF PG G(2)] by blast
      then have "last E \<in> set P" using E by (meson last_in_set set_mono_prefix subsetD)
      then have "e_term (last E) \<le> t" using P(4) by (auto simp: orderly_def)
      with tk E show False by (simp add: end_term_def)
    qed
  next
    case False
    then have same: "end_term X = end_term E" "length X \<le> length E" using assms(1) by (auto simp: fresher_def)
    obtain m' G' where G': "gl_lead A (end_term X) = Some (m', G')" "prefix X G'" using lawful_end [OF assms(3) X] .
    then have "prefix X G" using same(1) G(1) by simp
    then have "prefix X E" using G(2) same(2) by (meson prefix_length_prefix)
    with P(1) show ?thesis by (rule prefix_order.order_trans)
  qed
qed

lemma chosen_end:
  assumes "protocol_inv q A" "chosen q A t P"
  obtains m G n where "gl_lead A t = Some (m, G)" "P = take n G" "P \<noteq> []" "end_term P = t" "orderly t P" "0 < t"
    "\<exists>Q. q Q \<and> (\<forall>v \<in> Q. n \<le> gl_ack A v t)"
proof -
  obtain m G n Q where c: "gl_lead A t = Some (m, G)" "0 < n" "n \<le> length G" "e_term (G ! (n - 1)) = t" "q Q"
    "\<forall>v \<in> Q. n \<le> gl_ack A v t" "P = take n G"
    using assms(2) unfolding chosen_def by blast
  note i = lead_inv_Some [OF protocol_invD(3) [OF assms(1)] c(1)]
  have ne: "P \<noteq> []" using c(2,3,7) by auto
  have "end_term P = t" using c(2,3,4,7) ne by (simp add: end_term_def last_conv_nth)
  moreover have "orderly t P" using orderly_prefix [OF i(2) take_is_prefix] c(7) by simp
  moreover have "0 < t" using i(8) ballot_inv_Some(1) [OF protocol_invD(2) [OF assms(1)]] by blast
  ultimately show ?thesis using that c(1,5-7) ne by blast
qed

context quorum_system
begin

text \<open>Leader completeness: every later leader's log contains a chosen prefix.\<close>

lemma chosen_in_later_leader:
  fixes A :: "('m, 'e) group_log"
  assumes inv: "protocol_inv (is_quorum c) A" and c: "admitted c" and ch: "chosen (is_quorum c) A t P"
    and "gl_lead A u = Some (m, G)" "t < u"
  shows "prefix P G"
  using assms(4,5)
proof (induction u arbitrary: m G rule: less_induct)
  case (less u)
  obtain m0 G0 n where P: "gl_lead A t = Some (m0, G0)" "P = take n G0" "P \<noteq> []" "end_term P = t" "orderly t P" "0 < t"
    "\<exists>Q. is_quorum c Q \<and> (\<forall>v \<in> Q. n \<le> gl_ack A v t)"
    by (rule chosen_end [OF inv ch])
  obtain Q where Q: "is_quorum c Q" "\<forall>v \<in> Q. n \<le> gl_ack A v t" using P(7) by blast
  obtain E R where E: "gl_ballot A m u = Some (m, E)" "prefix E G" and R: "is_quorum c R"
      "\<forall>w \<in> R. \<exists>X. gl_ballot A w u = Some (m, X) \<and> remembers A w u X"
    using lead_inv_Some(8) [OF protocol_invD(3) [OF inv] less.prems(1)] by blast
  obtain w where w: "w \<in> Q" "w \<in> R" using intersect [OF c Q(1) R(1)] by blast
  then obtain X where X: "gl_ballot A w u = Some (m, X)" "remembers A w u X" using R(2) by blast
  note bE = ballot_inv_Some [OF protocol_invD(2) [OF inv] E(1)]
  note bX = ballot_inv_Some [OF protocol_invD(2) [OF inv] X(1)]
  have PX: "prefix P X"
  proof (rule ccontr)
    assume "\<not> prefix P X"
    then obtain u' m' G' where u': "t < u'" "u' < u" "gl_lead A u' = Some (m', G')" "P \<parallel> G'"
      using X(2) P(1,2) Q(2) w(1) less.prems(2) unfolding remembers_def by blast
    from less.IH [OF u'(2,3,1)] u'(4) show False by (simp add: parallel_def)
  qed
  have "prefix P E"
  proof (cases "w = m")
    case True
    with X(1) E(1) PX show ?thesis by simp
  next
    case False
    then have "fresher E X" using bX(6) E(1) by auto
    then show ?thesis
      by (rule fresher_keeps [OF _ bE(3) bX(3) bE(4) bX(4) bE(5) [OF refl] PX P(3,4,5,6)]) (use less.IH in blast)
  qed
  then show ?case using E(2) by (rule prefix_order.order_trans)
qed

lemma settled_in_leader:
  fixes A :: "('m, 'e) group_log"
  assumes "protocol_inv (is_quorum c) A" "admitted c" "settled (is_quorum c) A t P"
    and "gl_lead A u = Some (m, G)" "t \<le> u"
  shows "prefix P G"
proof (cases "P = []")
  case False
  then obtain t0 C where C: "t0 \<le> t" "chosen (is_quorum c) A t0 C" "prefix P C"
    using assms(3) by (auto simp: settled_def)
  have "prefix C G"
  proof (cases "t0 = u")
    case True
    then show ?thesis using C(2) assms(4) by (auto simp: chosen_def take_is_prefix)
  next
    case False
    then show ?thesis using chosen_in_later_leader [OF assms(1,2) C(2) assms(4)] C(1) assms(5) by simp
  qed
  with C(3) show ?thesis by (rule prefix_order.order_trans)
qed simp

text \<open>Settled prefixes never disagree.\<close>

lemma chosen_bound:
  fixes A :: "('m, 'e) group_log"
  assumes "protocol_inv (is_quorum c) A" "admitted c" "chosen (is_quorum c) A t C" "chosen (is_quorum c) A u D" "t \<le> u"
  obtains G where "prefix C G" "prefix D G"
proof -
  obtain m G where G: "gl_lead A u = Some (m, G)" "prefix D G" using assms(4) by (auto simp: chosen_def take_is_prefix)
  have "settled (is_quorum c) A t C" using assms(3) by (auto simp: settled_def)
  then have "prefix C G" by (rule settled_in_leader [OF assms(1,2) _ G(1) assms(5)])
  with G(2) that show ?thesis by blast
qed

lemma settled_agree:
  fixes A :: "('m, 'e) group_log"
  assumes "protocol_inv (is_quorum c) A" "admitted c"
    and "settled (is_quorum c) A t P" "settled (is_quorum c) A u R"
  shows "prefix P R \<or> prefix R P"
proof (cases "P = [] \<or> R = []")
  case False
  then obtain v w C D where C: "chosen (is_quorum c) A v C" "prefix P C" and D: "chosen (is_quorum c) A w D" "prefix R D"
    using assms(3,4) by (auto simp: settled_def)
  obtain G where "prefix C G" "prefix D G"
    using chosen_bound [OF assms(1,2) C(1) D(1)] chosen_bound [OF assms(1,2) D(1) C(1)] nle_le [of v w] by metis
  with C(2) D(2) have "prefix P G" "prefix R G" by (meson prefix_order.order_trans)+
  then show ?thesis by (rule prefix_same_cases)
qed auto

end

end
