(* ===== verification/RaftView.thy ===== *)
theory RaftView
  imports RaftStep LogSpec
begin

text \<open>
  How a node relates to the protocol of theory \<open>LogSpec\<close>: its persistent state is a view of a full log
  whose beginning the snapshot cut stands for, its messages and its volatile state make claims about
  ballots, leaders' logs and acknowledgements. The claims are stable: they survive everything the rest
  of the group does.
\<close>

section \<open>Views of a log\<close>

definition log_term :: "'c entry list \<Rightarrow> u64 \<Rightarrow> u64" where
  "log_term G i = (if i = 0 then 0 else e_term (G ! (i - 1)))"

definition view :: "'c persistent_state \<Rightarrow> 'c entry list \<Rightarrow> bool" where
  "view s G \<longleftrightarrow> base_index s \<le> length G \<and> ps_entries s = drop (base_index s) G \<and>
     base_term s = log_term G (base_index s)"

lemma log_term_0 [simp]: "log_term G 0 = 0"
  by (simp add: log_term_def)

lemma log_term_length: "log_term G (length G) = end_term G"
  by (simp add: log_term_def end_term_def last_conv_nth)

lemma log_term_prefix: "prefix G G' \<Longrightarrow> i \<le> length G \<Longrightarrow> log_term G' i = log_term G i"
  by (auto simp: log_term_def prefix_def nth_append)

lemma view_last: "view s G \<Longrightarrow> last_of s = length G"
  by (simp add: view_def last_of_def)

lemma view_entry: "view s G \<Longrightarrow> entry_of s i = (if base_index s < i \<and> i \<le> length G then Some (G ! (i - 1)) else None)"
  by (auto simp: view_last entry_of_def) (auto simp: view_def)

lemma view_term:
  assumes "view s G"
  shows "term_of s i = (if base_index s \<le> i \<and> i \<le> length G then Some (log_term G i) else None)"
proof (cases "i = base_index s")
  case True
  with assms show ?thesis by (simp add: term_of_def view_def)
next
  case False
  then have "0 < i" if "base_index s \<le> i" using that by simp
  with False show ?thesis by (auto simp: term_of_def view_entry [OF assms] log_term_def)
qed

lemma view_last_term: "view s G \<Longrightarrow> last (base_term s # map e_term (ps_entries s)) = end_term G"
proof (cases "base_index s = length G")
  case True
  moreover assume "view s G"
  ultimately show ?thesis by (simp add: view_def log_term_length)
next
  case False
  moreover assume v: "view s G"
  ultimately have "base_index s < length G" by (simp add: view_def)
  then show ?thesis using v by (auto simp: view_def end_term_def last_map last_drop)
qed

lemma view_slice:
  assumes "view s G" "base_index s \<le> prev" "es = take (length es) (drop (prev - base_index s) (ps_entries s))"
  shows "es = take (length es) (drop prev G)"
  using assms by (simp add: view_def)

lemma view_update [simp]:
  "view (s\<lparr>ps_term := t\<rparr>) G = view s G" "view (s\<lparr>ps_voted_for := v\<rparr>) G = view s G"
  "view (s\<lparr>ps_commit_index := n\<rparr>) G = view s G"
  by (simp_all add: view_def)

lemma view_append: "view s G \<Longrightarrow> view (s\<lparr>ps_entries := ps_entries s @ xs\<rparr>) (G @ xs)"
  by (auto simp: view_def log_term_def nth_append)

text \<open>Retiring a prefix up to an entry of the cut's term.\<close>

lemma view_cut:
  assumes "sc_index snap \<le> length G" "log_term G (sc_index snap) = sc_term snap" "es = drop (sc_index snap) G"
  shows "view (s\<lparr>ps_entries := es, ps_snapshot := Some snap\<rparr>) G"
  using assms by (simp add: view_def base_index_def base_term_def)

text \<open>Merging the leader's entries is taking over the leader's prefix.\<close>

lemma merge_adopt:
  fixes L G :: "'c entry list"
  assumes base: "b \<le> prev" "prev \<le> length L" and G: "prev + k \<le> length G" and same: "take prev L = take prev G"
    and matching: "\<And>i. i < length L \<Longrightarrow> i < length G \<Longrightarrow> e_term (L ! i) = e_term (G ! i) \<Longrightarrow> take (Suc i) L = take (Suc i) G"
  shows "merge_list (prev - b) (take k (drop prev G)) (drop b L) = drop b (adopt (take (prev + k) G) L)"
proof -
  let ?es = "take k (drop prev G)" and ?pos = "prev - b"
  have len: "length ?es = k" using G by simp
  have es: "?es ! i = G ! (prev + i)" if "i < k" for i using that G by simp
  have "?pos \<le> length (drop b L)" using base by simp
  from merge_list_shape [OF this, of ?es] obtain j where j: "?pos \<le> j" "j \<le> length (drop b L)" "j \<le> ?pos + k"
    and agree: "\<forall>i. ?pos \<le> i \<and> i < j \<longrightarrow> e_term (drop b L ! i) = e_term (?es ! (i - ?pos))"
    and shape: "merge_list ?pos ?es (drop b L) = take j (drop b L) @ drop (j - ?pos) ?es \<and>
        (j < length (drop b L) \<and> j < ?pos + k \<longrightarrow> e_term (drop b L ! j) \<noteq> e_term (?es ! (j - ?pos)))
        \<and> (j = ?pos + k \<longrightarrow> j = length (drop b L))
      \<or> j = ?pos + k \<and> merge_list ?pos ?es (drop b L) = drop b L"
    unfolding len by blast
  have bj: "prev \<le> b + j" "b + j \<le> length L" "b + j \<le> prev + k" using j base by auto
  have take: "take (b + j) L = take (b + j) G"
  proof (cases "b + j = prev")
    case False
    then obtain i where i: "b + j = Suc i" "prev \<le> i" using bj(1) by (cases "b + j") auto
    then have "i < length L" "i < length G" using bj G by auto
    moreover have "?pos \<le> i - b \<and> i - b < j" using i bj base by auto
    then have "e_term (drop b L ! (i - b)) = e_term (?es ! (i - b - ?pos))" by (rule agree [rule_format])
    then have "e_term (L ! i) = e_term (G ! i)" using i bj base es [of "i - prev"] by auto
    ultimately show ?thesis using matching i(1) by simp
  qed (use same in simp)
  from shape show ?thesis
  proof (elim disjE conjE)
    assume m: "merge_list ?pos ?es (drop b L) = take j (drop b L) @ drop (j - ?pos) ?es"
      and diff: "j < length (drop b L) \<and> j < ?pos + k \<longrightarrow> e_term (drop b L ! j) \<noteq> e_term (?es ! (j - ?pos))"
      and full: "j = ?pos + k \<longrightarrow> j = length (drop b L)"
    have "take j (drop b L) = drop b (take (b + j) G)" using take by (simp add: take_drop add.commute)
    moreover have "drop (j - ?pos) ?es = drop (b + j) (take (prev + k) G)"
      using bj base by (simp add: take_drop add.commute)
    ultimately have "merge_list ?pos ?es (drop b L) = drop b (take (b + j) G @ drop (b + j) (take (prev + k) G))"
      using m bj G by simp
    also have "take (b + j) G = take (b + j) (take (prev + k) G)" using bj by simp
    finally have res: "merge_list ?pos ?es (drop b L) = drop b (take (prev + k) G)"
      by (simp only: append_take_drop_id)
    have "adopt (take (prev + k) G) L = take (prev + k) G"
    proof (cases "j = ?pos + k")
      case True
      then have "b + j = length L" "b + j = prev + k" using full base bj by auto
      then show ?thesis using take by (simp add: adopt_def)
    next
      case False
      then have lt: "b + j < prev + k" using j(3) base by simp
      have "\<not> prefix (take (prev + k) G) L"
      proof
        assume p: "prefix (take (prev + k) G) L"
        have ll: "prev + k \<le> length L" using prefix_length_le [OF p] G by simp
        have "L ! (b + j) = take (prev + k) G ! (b + j)" using p lt G by (auto simp: prefix_def nth_append)
        then have "L ! (b + j) = G ! (b + j)" using lt by simp
        moreover have "drop b L ! j = L ! (b + j)" using bj base by simp
        moreover have "?es ! (j - ?pos) = G ! (b + j)" using es [of "j - ?pos"] lt j(1) base by (auto simp: add.commute)
        ultimately show False using diff lt ll base by auto
      qed
      then show ?thesis by (simp add: adopt_def)
    qed
    with res show ?thesis by simp
  next
    assume j': "j = ?pos + k" and m: "merge_list ?pos ?es (drop b L) = drop b L"
    then have "b + j = prev + k" using base by simp
    then have "prefix (take (prev + k) G) L" using take by (metis take_is_prefix)
    with m show ?thesis by (simp add: adopt_def)
  qed
qed

section \<open>Claims\<close>

text \<open>A persistent state of \<open>me\<close> against the protocol.\<close>

definition tracks :: "(member_id set \<Rightarrow> bool) \<Rightarrow> (member_id, 'c) group_log \<Rightarrow> member_id \<Rightarrow> 'c persistent_state \<Rightarrow> bool" where
  "tracks q A me s \<longleftrightarrow> gl_term A me = ps_term s \<and> view s (gl_log A me) \<and>
     settled q A (ps_term s) (take (ps_commit_index s) (gl_log A me)) \<and>
     map_option fst (gl_ballot A me (ps_term s)) = ps_voted_for s"

text \<open>Replication messages of a leader: an append of the entries up to \<open>n\<close>, and the offer of a snapshot.\<close>

definition delivers :: "member_id \<Rightarrow> member_id \<Rightarrow> u64 \<Rightarrow> u64 \<Rightarrow> 'c envelope \<Rightarrow> u64 \<Rightarrow> bool" where
  "delivers m v t request e n \<longleftrightarrow> env_from e = m \<and> env_to e = v \<and>
     (\<exists>prev prev_term es commit. env_message e = Append t request prev prev_term es commit \<and> n = prev + length es)"

definition offers :: "member_id \<Rightarrow> member_id \<Rightarrow> u64 \<Rightarrow> u64 \<Rightarrow> 'c envelope \<Rightarrow> snapshot_cut \<Rightarrow> bool" where
  "offers m v t request e snap \<longleftrightarrow> env_from e = m \<and> env_to e = v \<and> env_message e = InstallSnapshot t request snap"

definition append_true ::
  "(member_id set \<Rightarrow> bool) \<Rightarrow> (member_id, 'c) group_log \<Rightarrow> member_id \<Rightarrow> u64 \<Rightarrow> u64 \<Rightarrow> u64 \<Rightarrow> 'c entry list \<Rightarrow> u64 \<Rightarrow> bool" where
  "append_true q A m t prev prev_term es commit \<longleftrightarrow>
     (\<exists>G. gl_lead A t = Some (m, G) \<and> prev + length es \<le> length G \<and> es = take (length es) (drop prev G) \<and>
        prev_term = log_term G prev \<and> commit \<le> length G \<and> settled q A t (take commit G))"

definition cut_true :: "(member_id set \<Rightarrow> bool) \<Rightarrow> (member_id, 'c) group_log \<Rightarrow> member_id \<Rightarrow> u64 \<Rightarrow> snapshot_cut \<Rightarrow> bool" where
  "cut_true q A m t snap \<longleftrightarrow>
     (\<exists>G. gl_lead A t = Some (m, G) \<and> sc_index snap \<le> length G \<and> log_term G (sc_index snap) = sc_term snap \<and>
        settled q A t (take (sc_index snap) G))"

definition msg_true ::
  "(member_id set \<Rightarrow> bool) \<Rightarrow> (member_id, 'c) group_log \<Rightarrow> 'c envelope set \<Rightarrow> 'c envelope \<Rightarrow> bool" where
  "msg_true q A net e \<longleftrightarrow>
     (case env_message e of
        RequestVote t lastindex lastterm \<Rightarrow>
          (\<exists>E. gl_ballot A (env_from e) t = Some (env_from e, E) \<and> lastindex = length E \<and> lastterm = end_term E)
      | Vote t granted \<Rightarrow> granted \<longrightarrow> (\<exists>X. gl_ballot A (env_from e) t = Some (env_to e, X))
      | Append t request prev prev_term es commit \<Rightarrow> append_true q A (env_from e) t prev prev_term es commit
      | Appended t request success hint \<Rightarrow> success \<longrightarrow>
          (\<exists>f \<in> net. \<exists>n. delivers (env_to e) (env_from e) t request f n \<and> n \<le> gl_ack A (env_from e) t)
      | InstallSnapshot t request snap \<Rightarrow> cut_true q A (env_from e) t snap
      | SnapshotInstalled t request \<Rightarrow>
          (\<exists>f \<in> net. \<exists>snap. offers (env_to e) (env_from e) t request f snap \<and> sc_index snap \<le> gl_ack A (env_from e) t)
      | _ \<Rightarrow> True)"

text \<open>What is in flight to \<open>v\<close> has been sent, and nothing else under its request.\<close>

fun flight_true :: "'c envelope set \<Rightarrow> member_id \<Rightarrow> member_id \<Rightarrow> u64 \<Rightarrow> in_flight \<Rightarrow> bool" where
  "flight_true net me v t (FlightAppend request prev endpoint) \<longleftrightarrow>
     (\<exists>e \<in> net. delivers me v t request e endpoint) \<and>
     (\<forall>e \<in> net. \<forall>n. delivers me v t request e n \<longrightarrow> n = endpoint)"
| "flight_true net me v t (FlightSnapshot request snap) \<longleftrightarrow>
     (\<exists>e \<in> net. offers me v t request e snap) \<and>
     (\<forall>e \<in> net. \<forall>snap'. offers me v t request e snap' \<longrightarrow> snap' = snap)"

definition requests_bounded :: "'c envelope set \<Rightarrow> member_id \<Rightarrow> u64 \<Rightarrow> u64 \<Rightarrow> bool" where
  "requests_bounded net me t bound \<longleftrightarrow>
     (\<forall>e \<in> net. \<forall>v request. (\<exists>n. delivers me v t request e n) \<or> (\<exists>snap. offers me v t request e snap) \<longrightarrow>
        request \<le> bound)"

text \<open>A snapshot that is being installed was offered by another member.\<close>

definition awaited :: "'c envelope set \<Rightarrow> member_id \<Rightarrow> incoming_snapshot \<Rightarrow> bool" where
  "awaited net me p \<longleftrightarrow> st_source (is_transfer p) \<noteq> me \<and>
     (\<exists>e \<in> net. offers (st_source (is_transfer p)) me (is_term p) (is_request p) e (st_snapshot (is_transfer p)))"

lemma awaited_mono: "awaited net me p \<Longrightarrow> net \<subseteq> net' \<Longrightarrow> awaited net' me p"
  unfolding awaited_def by blast

text \<open>The volatile state of a node.\<close>

definition coherent ::
  "(member_id, 'c) group_log \<Rightarrow> 'c envelope set \<Rightarrow> member_id \<Rightarrow> 'c raft \<Rightarrow> bool" where
  "coherent A net me r \<longleftrightarrow>
     (let t = ps_term (r_state r) in
      (r_role r = Candidate \<longrightarrow>
         gl_ballot A me t = Some (me, gl_log A me) \<and> (\<forall>G. gl_lead A t \<noteq> Some (me, G)) \<and>
         (\<forall>v \<in> r_votes r. \<exists>X. gl_ballot A v t = Some (me, X))) \<and>
      (r_role r = Leader \<longrightarrow>
         gl_lead A t = Some (me, gl_log A me) \<and> requests_bounded net me t (r_request r) \<and>
         (\<forall>(v, p) \<in> set (r_progress r). pr_matched p \<le> gl_ack A v t \<and>
            (\<forall>f \<in> set (pr_in_flight p). flight_true net me v t f))) \<and>
      (\<forall>p. r_incoming_snapshot r = Some p \<longrightarrow> awaited net me p))"

definition good ::
  "(member_id set \<Rightarrow> bool) \<Rightarrow> (member_id, 'c) group_log \<Rightarrow> 'c envelope set \<Rightarrow> member_id \<Rightarrow> 'c raft \<Rightarrow> 'c raft_output \<Rightarrow> bool" where
  "good q A net me r out \<longleftrightarrow> protocol_inv q A \<and> tracks q A me (r_state r) \<and>
     coherent A (net \<union> set (out_messages out)) me r \<and>
     (\<forall>e \<in> net \<union> set (out_messages out). msg_true q A (net \<union> set (out_messages out)) e) \<and> (\<forall>e \<in> set (out_messages out). env_from e = me)"

section \<open>Stability\<close>

lemma append_true_grows:
  assumes "grows A B" "append_true q A m t prev prev_term es commit"
  shows "append_true q B m t prev prev_term es commit"
proof -
  obtain G where G: "gl_lead A t = Some (m, G)" "prev + length es \<le> length G" "es = take (length es) (drop prev G)"
    "prev_term = log_term G prev" "commit \<le> length G" "settled q A t (take commit G)"
    using assms(2) unfolding append_true_def by blast
  obtain G' where G': "gl_lead B t = Some (m, G')" "prefix G G'" using grows_lead [OF assms(1) G(1)] .
  then obtain zs where zs: "G' = G @ zs" by (auto simp: prefix_def)
  have "es = take (length es) (drop prev G')" using G(2,3) by (simp add: zs)
  moreover have "prev_term = log_term G' prev" using log_term_prefix [OF G'(2)] G(2,4) by simp
  moreover have "settled q B t (take commit G')"
    using grows_settled [OF assms(1) G(6)] prefix_take_same [OF G'(2) G(5)] by simp
  ultimately show ?thesis
    unfolding append_true_def using G'(1) G(2,5) by (auto simp: zs intro!: exI [of _ G'])
qed

lemma cut_true_grows:
  assumes "grows A B" "cut_true q A m t snap"
  shows "cut_true q B m t snap"
proof -
  obtain G where G: "gl_lead A t = Some (m, G)" "sc_index snap \<le> length G"
    "log_term G (sc_index snap) = sc_term snap" "settled q A t (take (sc_index snap) G)"
    using assms(2) unfolding cut_true_def by blast
  obtain G' where G': "gl_lead B t = Some (m, G')" "prefix G G'" using grows_lead [OF assms(1) G(1)] .
  show ?thesis
    unfolding cut_true_def
    using G'(1) G(2,3) log_term_prefix [OF G'(2) G(2)] prefix_length_le [OF G'(2)]
      grows_settled [OF assms(1) G(4)] prefix_take_same [OF G'(2) G(2)]
    by (intro exI [of _ G']) auto
qed

lemma msg_true_grows: "grows A B \<Longrightarrow> net \<subseteq> net' \<Longrightarrow> msg_true q A net e \<Longrightarrow> msg_true q B net' e"
  unfolding msg_true_def
  by (auto split: message.splits simp: append_true_grows cut_true_grows dest: grows_ballot)
    (meson grows_ack subsetD)+

text \<open>Steps of another member \<open>m\<close>, and messages it sends.\<close>

lemma tracks_stable:
  assumes "tracks q A me s" "grows A B" "spares m A B" "m \<noteq> me"
  shows "tracks q B me s"
  using assms grows_settled [OF assms(2)] by (auto simp: tracks_def spares_def)

lemma foreign_messages:
  assumes "\<forall>e \<in> new. env_from e = m" "m \<noteq> me" "e \<in> new"
  shows "\<not> delivers me v t request e n" "\<not> offers me v t request e snap"
  using assms by (auto simp: delivers_def offers_def)

lemma flight_true_foreign:
  assumes "\<forall>e \<in> new. env_from e = m" "m \<noteq> me"
  shows "flight_true (net \<union> new) me v t f = flight_true net me v t f"
  using foreign_messages [OF assms] by (cases f) (simp, blast)+

lemma requests_bounded_foreign:
  assumes "\<forall>e \<in> new. env_from e = m" "m \<noteq> me"
  shows "requests_bounded (net \<union> new) me t n = requests_bounded net me t n"
  using foreign_messages [OF assms] unfolding requests_bounded_def by blast

lemma coherent_stable:
  assumes "coherent A net me r" "grows A B" "spares m A B" "m \<noteq> me" "\<forall>e \<in> new. env_from e = m"
  shows "coherent B (net \<union> new) me r"
proof -
  let ?t = "ps_term (r_state r)"
  have same: "gl_log B me = gl_log A me" "gl_ballot B me = gl_ballot A me"
    "\<And>t G. gl_lead B t = Some (me, G) \<longleftrightarrow> gl_lead A t = Some (me, G)"
    using assms(3,4) by (auto simp: spares_def)
  have "r_role r = Candidate \<Longrightarrow> \<forall>v \<in> r_votes r. \<exists>X. gl_ballot B v ?t = Some (me, X)"
    using assms(1) grows_ballot [OF assms(2)] unfolding coherent_def Let_def by blast
  moreover have "r_role r = Leader \<Longrightarrow> \<forall>(v, p) \<in> set (r_progress r). pr_matched p \<le> gl_ack B v ?t \<and>
      (\<forall>f \<in> set (pr_in_flight p). flight_true net me v ?t f)"
    using assms(1) grows_ack [OF assms(2)] unfolding coherent_def Let_def by blast
  moreover have "awaited (net \<union> new) me p" if "r_incoming_snapshot r = Some p" for p
    using that assms(1) awaited_mono [OF _ Un_upper1] unfolding coherent_def Let_def by blast
  ultimately show ?thesis
    using assms(1) same
    by (auto simp: coherent_def Let_def flight_true_foreign [OF assms(5,4)] requests_bounded_foreign [OF assms(5,4)])
qed

section \<open>What the claims depend on\<close>

lemma good_parts:
  assumes "good q A net me r out"
  shows "protocol_inv q A" "tracks q A me (r_state r)" "coherent A (net \<union> set (out_messages out)) me r"
    "e \<in> net \<union> set (out_messages out) \<Longrightarrow> msg_true q A (net \<union> set (out_messages out)) e"
    "e \<in> set (out_messages out) \<Longrightarrow> env_from e = me"
  using assms by (auto simp: good_def)

lemma good_cong:
  assumes "good q A net me r out" "r_state r' = r_state r" "r_role r' = r_role r" "r_votes r' = r_votes r"
    "r_progress r' = r_progress r" "r_request r' = r_request r" "r_incoming_snapshot r' = r_incoming_snapshot r"
    "out_messages out' = out_messages out"
  shows "good q A net me r' out'"
  using assms by (simp add: good_def coherent_def)

lemma good_fields [simp]:
  "good q A net me (r\<lparr>r_liveness := l\<rparr>) out = good q A net me r out"
  "good q A net me (r\<lparr>r_handoff := h\<rparr>) out = good q A net me r out"
  "good q A net me (r\<lparr>r_leader := ld\<rparr>) out = good q A net me r out"
  "good q A net me (r\<lparr>r_log_changed := b\<rparr>) out = good q A net me r out"
  "good q A net me (r\<lparr>r_generation := n\<rparr>) out = good q A net me r out"
  "good q A net me (r\<lparr>r_poisoned := b\<rparr>) out = good q A net me r out"
  "good q A net me (r\<lparr>r_pending := p\<rparr>) out = good q A net me r out"
  "good q A net me r (out\<lparr>out_reset_election_timer := b\<rparr>) = good q A net me r out"
  "good q A net me r (out\<lparr>out_snapshot_transfers := xs\<rparr>) = good q A net me r out"
  "good q A net me r (out\<lparr>out_cancelled_snapshot_transfers := ys\<rparr>) = good q A net me r out"
  "good q A net me r (out\<lparr>out_installed_snapshot := sn\<rparr>) = good q A net me r out"
  "good q A net me r (out\<lparr>out_committed := cs\<rparr>) = good q A net me r out"
  "good q A net me r (out\<lparr>out_role := ro\<rparr>) = good q A net me r out"
  "good q A net me r (out\<lparr>out_leader := ld\<rparr>) = good q A net me r out"
  by (rule iffI; erule good_cong; simp)+

text \<open>Messages other than appends and snapshot offers leave the volatile claims alone.\<close>

definition replicates :: "'c message \<Rightarrow> bool" where
  "replicates msg = (case msg of Append _ _ _ _ _ _ \<Rightarrow> True | InstallSnapshot _ _ _ \<Rightarrow> True | _ \<Rightarrow> False)"

lemma no_delivery:
  "\<not> replicates (env_message e) \<Longrightarrow> \<not> delivers m v t request e n"
  "\<not> replicates (env_message e) \<Longrightarrow> \<not> offers m v t request e snap"
  by (auto simp: replicates_def delivers_def offers_def)

lemma coherent_silent:
  assumes "coherent A net me r" "\<not> replicates (env_message e)"
  shows "coherent A (insert e net) me r"
proof -
  have "flight_true (insert e net) me v t f = flight_true net me v t f" for v t f
    using no_delivery [OF assms(2)] by (cases f) simp_all
  moreover have "requests_bounded (insert e net) me t n = requests_bounded net me t n" for t n
    using no_delivery [OF assms(2)] unfolding requests_bounded_def by blast
  moreover have "awaited (insert e net) me p" if "r_incoming_snapshot r = Some p" for p
    using that assms(1) awaited_mono [OF _ subset_insertI] unfolding coherent_def Let_def by blast
  ultimately show ?thesis using assms(1) by (auto simp: coherent_def Let_def)
qed

lemma good_message:
  assumes "good q A net me r out" "coherent A (insert e (net \<union> set (out_messages out))) me r"
    and "msg_true q A (net \<union> set (out_messages out)) e" "env_from e = me"
  shows "good q A net me r (out\<lparr>out_messages := out_messages out @ [e]\<rparr>)"
proof -
  let ?net = "net \<union> set (out_messages out)"
  have "msg_true q A (insert e ?net) f" if "f \<in> insert e ?net" for f
    by (rule msg_true_grows [OF grows_refl subset_insertI]) (use that good_parts(4) [OF assms(1)] assms(3) in auto)
  then show ?thesis using assms(1,2,4) by (simp add: good_def)
qed

lemma good_emit:
  assumes "good q A net me r out" "r_id r' = me" "\<not> replicates msg"
    and "\<And>e. env_from e = me \<Longrightarrow> env_to e = m \<Longrightarrow> env_message e = msg \<Longrightarrow> msg_true q A (net \<union> set (out_messages out)) e"
  shows "good q A net me r (emit r' m msg out)"
  unfolding emit_def
  by (intro good_message [OF assms(1)] coherent_silent good_parts(3) [OF assms(1)] assms(4)) (simp_all add: assms(2,3))

lemma good_emit_all:
  assumes "good q A net me r out" "r_id r' = me" "\<not> replicates msg"
    and "\<And>e nt. env_from e = me \<Longrightarrow> env_message e = msg \<Longrightarrow> msg_true q A nt e"
  shows "good q A net me r (emit_all r' ms msg out)"
  unfolding emit_all_def using assms(1)
proof (induction ms arbitrary: out)
  case (Cons m ms)
  have "good q A net me r (emit r' m msg out)" by (rule good_emit [OF Cons.prems assms(2,3)]) (rule assms(4))
  then show ?case using Cons.IH by simp
qed simp

end
