(* ===== verification/RaftRefine.thy ===== *)
theory RaftRefine
  imports RaftView
begin

text \<open>
  Every operation of the kernel implements steps of the protocol: from a node whose claims are true
  against a state of the protocol it reaches a node whose claims are true after some steps of that
  member, with true messages in its output.
\<close>

section \<open>Sending\<close>

fun flight_request :: "in_flight \<Rightarrow> u64" where
  "flight_request (FlightAppend request _ _) = request"
| "flight_request (FlightSnapshot request _) = request"

fun carries :: "member_id \<Rightarrow> member_id \<Rightarrow> u64 \<Rightarrow> in_flight \<Rightarrow> 'c envelope \<Rightarrow> bool" where
  "carries me v t (FlightAppend request _ endpoint) e = delivers me v t request e endpoint"
| "carries me v t (FlightSnapshot request snap) e = offers me v t request e snap"

text \<open>Two flights that one request cannot stand for.\<close>

fun clashes :: "in_flight \<Rightarrow> in_flight \<Rightarrow> bool" where
  "clashes (FlightAppend request _ endpoint) (FlightAppend request' _ endpoint') = (request = request' \<and> endpoint \<noteq> endpoint')"
| "clashes (FlightSnapshot request snap) (FlightSnapshot request' snap') = (request = request' \<and> snap \<noteq> snap')"
| "clashes _ _ = False"

lemma delivers_unique:
  "delivers me v t request e n \<Longrightarrow> delivers me' v' t' request' e n' \<Longrightarrow> v' = v \<and> request' = request \<and> n' = n"
  "offers me v t request e snap \<Longrightarrow> offers me' v' t' request' e snap' \<Longrightarrow> v' = v \<and> request' = request \<and> snap' = snap"
  "delivers me v t request e n \<Longrightarrow> \<not> offers me' v' t' request' e snap'"
  by (auto simp: delivers_def offers_def)

lemma requests_boundedD:
  "requests_bounded net me t bound \<Longrightarrow> e \<in> net \<Longrightarrow> delivers me v t request e n \<Longrightarrow> request \<le> bound"
  "requests_bounded net me t bound \<Longrightarrow> e \<in> net \<Longrightarrow> offers me v t request e snap \<Longrightarrow> request \<le> bound"
  unfolding requests_bounded_def by blast+

lemma requests_boundedI:
  assumes "\<And>e v request n. e \<in> net \<Longrightarrow> delivers me v t request e n \<Longrightarrow> request \<le> bound"
    and "\<And>e v request snap. e \<in> net \<Longrightarrow> offers me v t request e snap \<Longrightarrow> request \<le> bound"
  shows "requests_bounded net me t bound"
  using assms unfolding requests_bounded_def by blast

lemma flight_true_compatible: "flight_true net me v t f \<Longrightarrow> flight_true net me v t f' \<Longrightarrow> \<not> clashes f f'"
  by (cases f; cases f') auto

lemma flight_true_bounded: "flight_true net me v t f \<Longrightarrow> requests_bounded net me t bound \<Longrightarrow> flight_request f \<le> bound"
  by (cases f) (auto dest: requests_boundedD)

lemma clashes_request: "clashes f f' \<Longrightarrow> flight_request f = flight_request f'"
  by (cases f; cases f') auto

lemma flight_true_carry:
  assumes "flight_true net me v t f" "carries me peer t flight e" "v = peer \<Longrightarrow> \<not> clashes f flight"
  shows "flight_true (insert e net) me v t f"
  using assms by (cases f; cases flight) (auto dest: delivers_unique)

lemma flight_true_new:
  assumes "requests_bounded net me t bound" "bound < flight_request flight" "carries me v t flight e"
  shows "flight_true (insert e net) me v t flight"
  using assms by (cases flight) (auto dest: delivers_unique requests_boundedD)

lemma requests_bounded_carry:
  assumes "requests_bounded net me t bound" "carries me v t flight e" "flight_request flight \<le> bound"
  shows "requests_bounded (insert e net) me t bound"
proof (rule requests_boundedI)
  fix e' w request n
  assume "e' \<in> insert e net" "delivers me w t request e' n"
  then show "request \<le> bound"
    using assms requests_boundedD(1) [OF assms(1)] by (cases flight) (auto dest: delivers_unique)
next
  fix e' w request snap
  assume "e' \<in> insert e net" "offers me w t request e' snap"
  then show "request \<le> bound"
    using assms requests_boundedD(2) [OF assms(1)] by (cases flight) (auto dest: delivers_unique)
qed

lemma coherent_carry:
  assumes "coherent A net me r" "r_role r = Leader" "carries me peer (ps_term (r_state r)) flight e"
    and "flight_request flight \<le> r_request r"
    and "\<And>p f. (peer, p) \<in> set (r_progress r) \<Longrightarrow> f \<in> set (pr_in_flight p) \<Longrightarrow> \<not> clashes f flight"
  shows "coherent A (insert e net) me r"
proof -
  let ?t = "ps_term (r_state r)"
  have "flight_true (insert e net) me v ?t f" if "(v, p) \<in> set (r_progress r)" "f \<in> set (pr_in_flight p)" for v p f
    by (rule flight_true_carry [OF _ assms(3)])
      (use assms(1,2) assms(5) [of p f] that in \<open>auto simp: coherent_def Let_def\<close>)
  moreover have "requests_bounded (insert e net) me ?t (r_request r)"
    by (rule requests_bounded_carry [OF _ assms(3,4)]) (use assms(1,2) in \<open>auto simp: coherent_def Let_def\<close>)
  moreover have "awaited (insert e net) me p" if "r_incoming_snapshot r = Some p" for p
    using that assms(1) awaited_mono [OF _ subset_insertI] unfolding coherent_def Let_def by blast
  ultimately show ?thesis using assms(1,2) by (auto simp: coherent_def Let_def)
qed

text \<open>Updates of one peer's progress.\<close>

definition peer_true ::
  "(member_id, 'c) group_log \<Rightarrow> 'c envelope set \<Rightarrow> member_id \<Rightarrow> u64 \<Rightarrow> member_id \<Rightarrow> progress \<Rightarrow> bool" where
  "peer_true A net me t v p \<longleftrightarrow> pr_matched p \<le> gl_ack A v t \<and> (\<forall>f \<in> set (pr_in_flight p). flight_true net me v t f)"

lemma coherent_leader:
  assumes "r_role r = Leader"
  shows "coherent A net me r \<longleftrightarrow>
     gl_lead A (ps_term (r_state r)) = Some (me, gl_log A me) \<and>
     requests_bounded net me (ps_term (r_state r)) (r_request r) \<and>
     (\<forall>(v, p) \<in> set (r_progress r). peer_true A net me (ps_term (r_state r)) v p) \<and>
     (\<forall>p. r_incoming_snapshot r = Some p \<longrightarrow> awaited net me p)"
  using assms by (auto simp: coherent_def Let_def peer_true_def)

lemma coherent_set_progress:
  assumes "coherent A net me r" "r_role r = Leader"
    and "\<And>p. (peer, p) \<in> set (r_progress r) \<Longrightarrow> peer_true A net me (ps_term (r_state r)) peer p \<Longrightarrow>
      peer_true A net me (ps_term (r_state r)) peer (f p)"
  shows "coherent A net me (set_progress r peer f)"
proof -
  have "peer_true A net me (ps_term (r_state r)) v p" if "(v, p) \<in> set (bt_adjust peer f (r_progress r))" for v p
    using bt_adjust_member [OF that] assms by (auto simp: coherent_leader)
  then show ?thesis using assms(1,2) by (auto simp: coherent_leader set_progress_def)
qed

lemma good_set_progress:
  assumes "good q A net me r out" "r_role r = Leader"
    and "\<And>p. (peer, p) \<in> set (r_progress r) \<Longrightarrow>
      peer_true A (net \<union> set (out_messages out)) me (ps_term (r_state r)) peer p \<Longrightarrow>
      peer_true A (net \<union> set (out_messages out)) me (ps_term (r_state r)) peer (f p)"
  shows "good q A net me (set_progress r peer f) out"
  using coherent_set_progress [OF good_parts(3) [OF assms(1)] assms(2,3)] assms(1)
  by (simp add: good_def set_progress_def)

text \<open>A leader's replication messages are true.\<close>

lemma repl_true:
  assumes tr: "tracks q A me s" and lead: "gl_lead A (ps_term s) = Some (me, gl_log A me)"
    and ok: "state_ok lim me s" and e: "repl_ok s me e"
  shows "msg_true q A net e"
proof -
  let ?G = "gl_log A me"
  have v: "view s ?G" and st: "settled q A (ps_term s) (take (ps_commit_index s) ?G)"
    using tr by (auto simp: tracks_def)
  have b: "base_index s \<le> ps_commit_index s" "ps_commit_index s \<le> length ?G"
    using ok view_last [OF v] by (auto simp: state_ok_def)
  have from_me: "env_from e = me" using e by (simp add: repl_ok_def)
  show ?thesis
  proof (cases "env_message e")
    case (Append t request prev prev_term es commit)
    then have r: "t = ps_term s" "term_of s prev = Some prev_term" "prev + length es \<le> last_of s"
      "es = take (length es) (drop (prev - base_index s) (ps_entries s))" "commit = ps_commit_index s"
      using e by (auto simp: repl_ok_def)
    have "base_index s \<le> prev" using term_of_bounds [OF r(2)] by simp
    then have "append_true q A me t prev prev_term es commit"
      unfolding append_true_def
      using lead r(1,2,3,5) view_slice [OF v _ r(4)] view_term [OF v, of prev] view_last [OF v] b st
      by (intro exI [of _ ?G]) (auto split: if_splits)
    then show ?thesis using from_me by (simp add: msg_true_def Append)
  next
    case (InstallSnapshot t request snap)
    then have r: "t = ps_term s" "ps_snapshot s = Some snap" using e by (auto simp: repl_ok_def)
    then have "base_index s = sc_index snap" "base_term s = sc_term snap" by (simp_all add: base_index_def base_term_def)
    moreover from this have "settled q A t (take (sc_index snap) ?G)"
      using settled_prefix [OF st prefix_take_take] b(1) r(1) by simp
    ultimately have "cut_true q A me t snap"
      unfolding cut_true_def using lead r(1) v b by (intro exI [of _ ?G]) (auto simp: view_def)
    then show ?thesis using from_me by (simp add: msg_true_def InstallSnapshot)
  qed (use e in \<open>auto simp: repl_ok_def\<close>)
qed

lemma emit_flight_carries:
  assumes "flight_ok (r_state r) flight" "emit_flight r peer flight out = Inr (r', out')"
  obtains e where "out' = out\<lparr>out_messages := out_messages out @ [e]\<rparr>" "repl_ok (r_state r) (r_id r) e"
    "carries (r_id r) peer (ps_term (r_state r)) flight e"
    "r' = r \<or> r' = set_progress r peer (\<lambda>p. p\<lparr>pr_sent_commit := ps_commit_index (r_state r)\<rparr>)"
proof -
  obtain r1 out1 where e: "emit_flight r peer flight out = Inr (r1, out1)"
    "r1 = r \<or> r1 = set_progress r peer (\<lambda>p. p\<lparr>pr_sent_commit := ps_commit_index (r_state r)\<rparr>)"
    "sends (repl_ok (r_state r) (r_id r)) out out1"
    using emit_flight_ok [OF assms(1)] by blast
  then have eq: "r1 = r'" "out1 = out'" using assms(2) by simp_all
  then obtain ms where ms: "out' = out\<lparr>out_messages := out_messages out @ ms\<rparr>" "\<forall>e \<in> set ms. repl_ok (r_state r) (r_id r) e"
    using e(3) by (auto simp: sends_def)
  have "\<exists>e. out_messages out' = out_messages out @ [e] \<and> carries (r_id r) peer (ps_term (r_state r)) flight e"
  proof (cases flight)
    case (FlightAppend request prev endpoint)
    have "length (take (endpoint - prev) (drop (prev - base_index (r_state r)) (ps_entries (r_state r)))) = endpoint - prev"
      using assms(1) FlightAppend by (auto simp: last_of_def)
    then show ?thesis
      using assms FlightAppend
      by (auto simp: emit_flight_def emit_def set_progress_def delivers_def Let_def rust_simps
          split: option.splits if_splits)
  next
    case (FlightSnapshot request snap)
    then show ?thesis using assms(2) by (auto simp: emit_flight_def emit_def offers_def)
  qed
  then show ?thesis using that ms e(2) eq by auto
qed

lemma emit_flight_good:
  assumes g: "good q A net me r out" and lead: "r_role r = Leader" and id: "r_id r = me"
    and ok: "state_ok lim me (r_state r)" and fo: "flight_ok (r_state r) flight"
    and bound: "flight_request flight \<le> r_request r"
    and clash: "\<And>p f. (peer, p) \<in> set (r_progress r) \<Longrightarrow> f \<in> set (pr_in_flight p) \<Longrightarrow> \<not> clashes f flight"
    and em: "emit_flight r peer flight out = Inr (r', out')"
  obtains e where "good q A net me r' out'" "out_messages out' = out_messages out @ [e]"
    "carries me peer (ps_term (r_state r)) flight e"
proof -
  obtain e where e: "out' = out\<lparr>out_messages := out_messages out @ [e]\<rparr>" "repl_ok (r_state r) me e"
    "carries me peer (ps_term (r_state r)) flight e"
    and r': "r' = r \<or> r' = set_progress r peer (\<lambda>p. p\<lparr>pr_sent_commit := ps_commit_index (r_state r)\<rparr>)"
    using emit_flight_carries [OF fo em] unfolding id by metis
  note p = good_parts [OF g]
  have led: "gl_lead A (ps_term (r_state r)) = Some (me, gl_log A me)" using p(3) lead by (simp add: coherent_leader)
  have "coherent A (insert e (net \<union> set (out_messages out))) me r"
    by (rule coherent_carry [OF p(3) lead e(3) bound clash])
  then have "good q A net me r (out\<lparr>out_messages := out_messages out @ [e]\<rparr>)"
    by (rule good_message [OF g]) (use repl_true [OF p(2) led ok e(2)] e(2) in \<open>auto simp: repl_ok_def\<close>)
  then have "good q A net me r out'" by (simp add: e(1))
  then have "good q A net me r' out'"
    using r' lead good_set_progress [of q A net me r out' peer "\<lambda>p. p\<lparr>pr_sent_commit := ps_commit_index (r_state r)\<rparr>"]
    by (auto simp: peer_true_def)
  with that e show ?thesis by simp
qed

lemma good_leader_flights:
  assumes "good q A net me r out" "r_role r = Leader" "(peer, p) \<in> set (r_progress r)" "f \<in> set (pr_in_flight p)"
  shows "flight_true (net \<union> set (out_messages out)) me peer (ps_term (r_state r)) f"
    "flight_request f \<le> r_request r"
proof -
  have c: "coherent A (net \<union> set (out_messages out)) me r" by (rule good_parts(3) [OF assms(1)])
  with assms(2-4) show f: "flight_true (net \<union> set (out_messages out)) me peer (ps_term (r_state r)) f"
    by (auto simp: coherent_leader peer_true_def)
  show "flight_request f \<le> r_request r"
    by (rule flight_true_bounded [OF f]) (use c assms(2) in \<open>simp add: coherent_leader\<close>)
qed

lemma emit_flights_good:
  assumes "good q A net me r out" "r_role r = Leader" "r_id r = me" "state_ok lim me (r_state r)" "progress_ok r"
    and "\<forall>f \<in> set flights. flight_ok (r_state r) f \<and>
        flight_true (net \<union> set (out_messages out)) me peer (ps_term (r_state r)) f"
    and "emit_flights peer flights r out = Inr (r', out')"
  shows "good q A net me r' out'"
  using assms
proof (induction flights arbitrary: r out)
  case (Cons f fs)
  let ?net = "net \<union> set (out_messages out)" and ?t = "ps_term (r_state r)"
  have f: "flight_ok (r_state r) f" "flight_true ?net me peer ?t f" using Cons.prems(6) by auto
  obtain r1 out1 where e1: "emit_flight r peer f out = Inr (r1, out1)" and s: "sent_from r out r1 out1"
    using emit_flight_sent [OF Cons.prems(5) f(1)] by blast
  have bound: "flight_request f \<le> r_request r"
    by (rule flight_true_bounded [OF f(2)])
      (use good_parts(3) [OF Cons.prems(1)] Cons.prems(2) in \<open>simp add: coherent_leader\<close>)
  have clash: "\<not> clashes g f" if "(peer, p) \<in> set (r_progress r)" "g \<in> set (pr_in_flight p)" for p g
    using good_leader_flights(1) [OF Cons.prems(1,2) that] f(2) by (rule flight_true_compatible)
  obtain e where e: "good q A net me r1 out1" "out_messages out1 = out_messages out @ [e]" "carries me peer ?t f e"
    by (rule emit_flight_good [OF Cons.prems(1-4) f(1) bound clash e1])
  have fields: "r_role r1 = Leader" "r_id r1 = me" "r_state r1 = r_state r" "progress_ok r1"
    using s Cons.prems(2,3) by (auto simp: sent_from_def frame_pr_fields)
  have "flight_ok (r_state r1) g \<and> flight_true (net \<union> set (out_messages out1)) me peer ?t g" if "g \<in> set fs" for g
  proof -
    have g: "flight_ok (r_state r) g" "flight_true ?net me peer ?t g" using Cons.prems(6) that by auto
    have "flight_true (insert e ?net) me peer ?t g"
      by (rule flight_true_carry [OF g(2) e(3) flight_true_compatible [OF g(2) f(2)]])
    with g(1) fields(3) e(2) show ?thesis by simp
  qed
  then show ?case
    by (intro Cons.IH [of r1 out1]) (use e(1) fields Cons.prems(4,7) e1 in auto)
qed simp

lemma good_request:
  assumes "good q A net me r out" "r_role r = Leader" "r_request r \<le> n"
  shows "good q A net me (r\<lparr>r_request := n\<rparr>) out"
proof -
  have "requests_bounded (net \<union> set (out_messages out)) me (ps_term (r_state r)) n"
    using good_parts(3) [OF assms(1)] assms(2,3) unfolding coherent_leader [OF assms(2)]
    by (auto intro!: requests_boundedI dest: requests_boundedD)
  with assms show ?thesis by (simp add: good_def coherent_leader)
qed

lemma next_flight_request: "next_flight r n = Some flight \<Longrightarrow> flight_request flight = r_request r"
  by (auto simp: next_flight_def split: if_splits)

lemma push_flight_simps [simp]:
  "pr_matched (push_flight flight p) = pr_matched p"
  "pr_in_flight (push_flight flight p) = pr_in_flight p @ [flight]"
  by (simp_all add: push_flight_def Let_def split: in_flight.splits)

lemma issue_appends_good:
  assumes "good q A net me r out" "r_role r = Leader" "r_id r = me" "state_ok lim me (r_state r)" "progress_ok r"
    and "issue_appends peer r out = Inr (r', out')"
  shows "good q A net me r' out'"
  using assms
proof (induction peer r out rule: issue_appends.induct)
  case (1 peer r out)
  obtain p where p: "map_of (r_progress r) peer = Some p"
    using "1.prems"(6) by (subst (asm) issue_appends.simps) (auto split: option.splits)
  let ?r1 = "r\<lparr>r_request := r_request r + 1\<rparr>" and ?t = "ps_term (r_state r)"
  show ?case
  proof (cases "lane_full r p")
    case True
    then have "r' = r \<and> out' = out"
      using "1.prems"(6) by (subst (asm) issue_appends.simps) (simp add: p)
    then show ?thesis using "1.prems"(1) by simp
  next
    case False
    have lt: "r_request r + 1 \<le> u64_max"
      using "1.prems"(6) False by (subst (asm) issue_appends.simps) (auto simp: p split: if_splits)
    have last: "last_of (r_state r) < u64_max" using "1.prems"(4) by (simp add: state_ok_def)
    have po: "peer_ok (r_state ?r1) p" using progress_ok_lookup [OF "1.prems"(5) p] by simp
    obtain flight where f: "next_flight ?r1 (pr_next p) = Some flight" "flight_ok (r_state ?r1) flight"
      and push: "\<And>x. peer_ok (r_state ?r1) x \<Longrightarrow> pr_matched x = pr_matched p \<Longrightarrow> peer_ok (r_state ?r1) (push_flight flight x)"
      by (rule next_flight_ok [OF po]) (use last in auto)
    have req: "flight_request flight = r_request r + 1" using next_flight_request [OF f(1)] by simp
    have g1: "good q A net me ?r1 out" by (rule good_request [OF "1.prems"(1,2)]) simp
    have po1: "progress_ok ?r1" using "1.prems"(5) by (simp add: progress_ok_def)
    obtain r2 out2 where e2: "emit_flight ?r1 peer flight out = Inr (r2, out2)" and s2: "sent_from ?r1 out r2 out2"
      using emit_flight_sent [OF po1 f(2)] by blast
    have clash: "\<not> clashes g flight" if "(peer, x) \<in> set (r_progress ?r1)" "g \<in> set (pr_in_flight x)" for x g
      using good_leader_flights(2) [OF "1.prems"(1,2), of peer x g] that clashes_request [of g flight] req by force
    obtain e where e: "good q A net me r2 out2" "out_messages out2 = out_messages out @ [e]" "carries me peer ?t flight e"
    proof (rule emit_flight_good [OF g1 _ _ _ f(2) _ _ e2, of lim])
      show "good q A net me r2 out2 \<Longrightarrow> out_messages out2 = out_messages out @ [e] \<Longrightarrow>
        carries me peer (ps_term (r_state ?r1)) flight e \<Longrightarrow> thesis" for e
        using that [of e] by simp
    qed (use clash "1.prems"(2-4) req in auto)
    have fields: "r_role r2 = Leader" "r_id r2 = me" "r_state r2 = r_state r" "progress_ok r2"
      using s2 "1.prems"(2,3) by (auto simp: sent_from_def frame_pr_fields)
    let ?r3 = "set_progress r2 peer (push_flight flight)"
    have "requests_bounded (net \<union> set (out_messages out)) me ?t (r_request r)"
      using good_parts(3) [OF "1.prems"(1)] "1.prems"(2) by (simp add: coherent_leader)
    then have "flight_true (insert e (net \<union> set (out_messages out))) me peer ?t flight"
      by (rule flight_true_new) (use req e(3) in simp_all)
    then have "good q A net me ?r3 out2"
      by (intro good_set_progress [OF e(1) fields(1)]) (use e(2) fields(3) in \<open>auto simp: peer_true_def\<close>)
    moreover have "progress_ok ?r3"
    proof (rule progress_ok_set [OF fields(4)])
      fix x assume x: "map_of (r_progress r2) peer = Some x" "peer_ok (r_state r2) x"
      have "pr_matched x = pr_matched p"
        by (rule emit_flight_carries [OF f(2) e2]) (use x(1) p in \<open>auto simp: set_progress_def\<close>)
      with push x(2) fields(3) show "peer_ok (r_state r2) (push_flight flight x)" by simp
    qed
    moreover have "issue_appends peer ?r3 out2 = Inr (r', out')"
      using "1.prems"(6) False lt f(1) e2 by (subst (asm) issue_appends.simps) (simp add: p Let_def)
    ultimately show ?thesis
      by (intro "1.IH" [OF p False _ refl f(1) e2 refl]) (use lt fields "1.prems"(4) in \<open>auto simp: set_progress_def\<close>)
  qed
qed

lemma send_append_good:
  assumes "good q A net me r out" "r_role r = Leader" "r_id r = me" "state_ok lim me (r_state r)" "progress_ok r"
    and "send_append r peer out retry = Inr (r', out')"
  shows "good q A net me r' out'"
proof (cases "map_of (r_progress r) peer")
  case None
  then show ?thesis using assms by (simp add: send_append_def)
next
  case (Some p)
  obtain r1 out1 where 1: "(if retry then emit_flights peer (pr_in_flight p) r out else Inr (r, out)) = Inr (r1, out1)"
      "issue_appends peer r1 out1 = Inr (r', out')"
    using assms(6) by (auto simp: send_append_def Some and_then_eq_Inr)
  have mem: "(peer, p) \<in> set (r_progress r)" using Some by (rule map_of_SomeD)
  have fl: "\<forall>f \<in> set (pr_in_flight p). flight_ok (r_state r) f \<and>
      flight_true (net \<union> set (out_messages out)) me peer (ps_term (r_state r)) f"
    using progress_ok_lookup [OF assms(5) Some] good_leader_flights(1) [OF assms(1,2) mem] by (simp add: peer_ok_def)
  have "good q A net me r1 out1"
    using 1(1) emit_flights_good [OF assms(1-5) fl] assms(1) by (auto split: if_splits)
  moreover have "sent_from r out r1 out1"
    using 1(1) emit_flights_sent [OF assms(5), of "pr_in_flight p" peer out] fl sent_from_refl [OF assms(5)]
    by (auto split: if_splits)
  ultimately show ?thesis
    by (intro issue_appends_good [OF _ _ _ _ _ 1(2), of q A net me lim])
      (use assms(2-4) in \<open>auto simp: sent_from_def frame_pr_fields\<close>)
qed

lemma broadcast_to_good:
  assumes "good q A net me r out" "r_role r = Leader" "r_id r = me" "state_ok lim me (r_state r)" "progress_ok r"
    and "broadcast_to peers retry r out = Inr (r', out')"
  shows "good q A net me r' out'"
  using assms
proof (induction peers arbitrary: r out)
  case (Cons peer peers)
  obtain r1 out1 where 1: "send_append r peer out retry = Inr (r1, out1)" "broadcast_to peers retry r1 out1 = Inr (r', out')"
    using Cons.prems(6) by (auto simp: and_then_eq_Inr)
  have "sent_from r out r1 out1"
    using send_append_sent [OF Cons.prems(5), of peer out retry] 1(1) Cons.prems(4) by (auto simp: state_ok_def)
  then show ?case
    by (intro Cons.IH [OF send_append_good [OF Cons.prems(1-5) 1(1)] _ _ _ _ 1(2)])
      (use Cons.prems(2-4) in \<open>auto simp: sent_from_def frame_pr_fields\<close>)
qed simp

lemma broadcast_good:
  assumes "good q A net me r out" "raft_inv r" "r_role r = Leader" "r_id r = me"
    and "broadcast r out retry = Inr (r', out')"
  shows "good q A net me r' out'"
  using broadcast_to_good [OF assms(1,3,4), of "r_limits r" "bt_keys (r_progress r)" retry r' out'] assms
  by (auto simp: broadcast_def raft_inv_def raft_inv_progress)

lemma leader_send_good:
  assumes "good q A net me r out" "raft_inv r" "r_role r = Leader" "r_id r = me"
    and "send_append r peer out retry = Inr (r', out')"
  shows "good q A net me r' out'"
  using send_append_good [OF assms(1,3,4), of "r_limits r" peer retry r' out'] assms
  by (auto simp: raft_inv_def raft_inv_progress)

section \<open>Steps of the protocol\<close>

definition implemented ::
  "(member_id set \<Rightarrow> bool) \<Rightarrow> 'c envelope set \<Rightarrow> member_id \<Rightarrow> (member_id, 'c) group_log \<Rightarrow> 'c raft \<Rightarrow> 'c raft_output \<Rightarrow> bool" where
  "implemented q net me A r out \<longleftrightarrow> (\<exists>B. (protocol_step q me)\<^sup>*\<^sup>* A B \<and> good q B net me r out)"

lemma implemented_good: "good q A net me r out \<Longrightarrow> implemented q net me A r out"
  unfolding implemented_def by blast

lemma implemented_timer [simp]:
  "implemented q net me A r (out\<lparr>out_reset_election_timer := b\<rparr>) = implemented q net me A r out"
  by (simp add: implemented_def)

lemma implemented_bind:
  assumes "implemented q net me A r out" "\<And>B. good q B net me r out \<Longrightarrow> implemented q net me B r' out'"
  shows "implemented q net me A r' out'"
  using assms unfolding implemented_def by (meson rtranclp_trans)

lemma implemented_mono:
  assumes "implemented q net me A r out" "\<And>B. good q B net me r out \<Longrightarrow> good q B net me r' out'"
  shows "implemented q net me A r' out'"
  using assms unfolding implemented_def by blast

lemma implemented_step:
  assumes "good q A net me r out" "protocol_step q me A B"
    and "tracks q B me (r_state r')" "coherent B (net \<union> set (out_messages out)) me r'"
  shows "implemented q net me A r' out"
proof -
  have "grows A B" "protocol_inv q B" using good_parts(1) [OF assms(1)] assms(2) by (auto intro: step_grows step_protocol_inv)
  then have "good q B net me r' out"
    using assms(1,3,4) msg_true_grows [OF \<open>grows A B\<close> order.refl] by (auto simp: good_def)
  with assms(2) show ?thesis unfolding implemented_def by blast
qed

lemma good_ballot_later:
  assumes "good q A net me r out" "ps_term (r_state r) < t"
  shows "gl_ballot A me t = None" "gl_lead A t \<noteq> Some (me, G)"
proof -
  have t: "gl_term A me < t" using good_parts(2) [OF assms(1)] assms(2) by (simp add: tracks_def)
  note inv = good_parts(1) [OF assms(1)]
  show "gl_ballot A me t = None"
    using t ballot_inv_Some(2) [OF protocol_invD(2) [OF inv], of me t] by (cases "gl_ballot A me t") force+
  show "gl_lead A t \<noteq> Some (me, G)"
    using t lead_inv_Some(3) [OF protocol_invD(3) [OF inv], of t me G] by auto
qed

lemma tracks_raise:
  assumes "good q A net me r out" "ps_term (r_state r) < t"
  shows "protocol_step q me A (A\<lparr>gl_term := (gl_term A)(me := t)\<rparr>)"
    "tracks q (A\<lparr>gl_term := (gl_term A)(me := t)\<rparr>) me ((r_state r)\<lparr>ps_term := t, ps_voted_for := None\<rparr>)"
proof -
  let ?B = "A\<lparr>gl_term := (gl_term A)(me := t)\<rparr>"
  have tr: "tracks q A me (r_state r)" by (rule good_parts(2) [OF assms(1)])
  show st: "protocol_step q me A ?B" using tr assms(2) by (intro protocol_step.raise) (simp add: tracks_def)
  have "settled q ?B t (take (ps_commit_index (r_state r)) (gl_log A me))"
  proof (rule settled_later)
    show "settled q ?B (ps_term (r_state r)) (take (ps_commit_index (r_state r)) (gl_log A me))"
      by (rule grows_settled [OF step_grows [OF good_parts(1) [OF assms(1)] st]]) (use tr in \<open>simp add: tracks_def\<close>)
  qed (use assms(2) in simp)
  then show "tracks q ?B me ((r_state r)\<lparr>ps_term := t, ps_voted_for := None\<rparr>)"
    using tr good_ballot_later(1) [OF assms] by (simp add: tracks_def)
qed

lemma follow_good:
  assumes "good q A net me r out"
  shows "implemented q net me A (follow r t) out"
proof (cases "ps_term (r_state r) < t")
  case True
  show ?thesis
    by (rule implemented_step [OF assms tracks_raise(1) [OF assms True]])
      (use tracks_raise(2) [OF assms True] True in \<open>simp_all add: coherent_def\<close>)
next
  case False
  then show ?thesis
    using assms by (intro implemented_good) (simp add: good_def coherent_def Let_def)
qed

lemma good_no_incoming: "good q A net me r out \<Longrightarrow> good q A net me (r\<lparr>r_incoming_snapshot := None\<rparr>) out"
  by (simp add: good_def coherent_def Let_def)

lemma accept_leader_good:
  assumes "good q A net me r out" "accept_leader r from t out = (r', out')"
  shows "implemented q net me A r' out'"
proof -
  have "good q B net me (follow r t) out \<Longrightarrow> good q B net me r' out'" for B
    using assms(2) good_no_incoming [of q B net me "follow r t" out]
    by (auto simp: accept_leader_def Let_def split: option.splits if_splits)
  with follow_good [OF assms(1)] show ?thesis by (rule implemented_mono)
qed

section \<open>Elections\<close>

lemma candidate_good:
  assumes g: "good q A net me r out" and id: "r_id r = me" and t: "ps_term (r_state r) < t"
  defines "r' \<equiv> (follow r t)\<lparr>r_role := Candidate,
      r_state := (r_state (follow r t))\<lparr>ps_voted_for := Some (r_id (follow r t))\<rparr>,
      r_votes := insert (r_id (follow r t)) (r_votes (follow r t))\<rparr>"
  shows "implemented q net me A r' out"
proof -
  let ?B = "A\<lparr>gl_term := (gl_term A)(me := t)\<rparr>" and ?s = "(r_state r)\<lparr>ps_term := t, ps_voted_for := None\<rparr>"
  let ?C = "?B\<lparr>gl_ballot := (gl_ballot ?B)(me := (gl_ballot ?B me)(t \<mapsto> (me, gl_log ?B me)))\<rparr>"
  have f: "good q ?B net me (follow r t) out"
  proof -
    have "grows A ?B" "protocol_inv q ?B"
      using good_parts(1) [OF g] tracks_raise(1) [OF g t] by (auto intro: step_grows step_protocol_inv)
    then show ?thesis
      using g tracks_raise(2) [OF g t] t msg_true_grows [OF \<open>grows A ?B\<close> order.refl] by (auto simp: good_def coherent_def)
  qed
  have "orderly (gl_term A me) (gl_log A me)" "gl_term A me < t"
    using protocol_invD(1) [OF good_parts(1) [OF g], of me] good_parts(2) [OF g] t by (simp_all add: member_inv_def tracks_def)
  then have stand: "protocol_step q me ?B ?C"
    using good_ballot_later(1) [OF g t] by (intro protocol_step.stand) (auto simp: orderly_def)
  have gC: "grows ?B ?C" by (rule step_grows [OF good_parts(1) [OF f] stand])
  have "implemented q net me ?B r' out"
  proof (rule implemented_step [OF f stand])
    show "tracks q ?C me (r_state r')"
      using good_parts(2) [OF f] t id grows_settled [OF gC] by (simp add: tracks_def r'_def)
    show "coherent ?C (net \<union> set (out_messages out)) me r'"
      using t id good_ballot_later(2) [OF g t] by (simp add: coherent_def r'_def)
  qed
  with tracks_raise(1) [OF g t] show ?thesis
    unfolding implemented_def by (meson converse_rtranclp_into_rtranclp)
qed

lemma leader_extend_good:
  assumes g: "good q A net me r out" and ri: "raft_inv r" and lead: "r_role r = Leader"
    and xs: "\<forall>e \<in> set xs. e_term e = ps_term (r_state r)"
  shows "implemented q net me A (r\<lparr>r_log_changed := b, r_state := (r_state r)\<lparr>ps_entries := ps_entries (r_state r) @ xs\<rparr>\<rparr>) out"
proof -
  let ?t = "ps_term (r_state r)" and ?G = "gl_log A me"
  let ?B = "A\<lparr>gl_lead := (gl_lead A)(?t \<mapsto> (me, ?G @ xs)), gl_log := (gl_log A)(me := ?G @ xs),
      gl_ack := (gl_ack A)(me := (gl_ack A me)(?t := length (?G @ xs)))\<rparr>"
  note p = good_parts [OF g]
  have led: "gl_lead A ?t = Some (me, ?G)" and tr: "tracks q A me (r_state r)"
    using p(2,3) lead by (simp_all add: coherent_leader)
  have st: "protocol_step q me A ?B" using led xs tr by (intro protocol_step.extend) (auto simp: tracks_def)
  have gr: "grows A ?B" by (rule step_grows [OF p(1) st])
  have "ps_commit_index (r_state r) \<le> length ?G"
    using ri tr view_last by (force simp: raft_inv_def state_ok_def tracks_def)
  then have "tracks q ?B me ((r_state r)\<lparr>ps_entries := ps_entries (r_state r) @ xs\<rparr>)"
    using tr view_append grows_settled [OF gr] by (auto simp: tracks_def)
  moreover have "peer_true ?B nt me ?t v pr" if "peer_true A nt me ?t v pr" for nt v pr
    using that grows_ack [OF gr] unfolding peer_true_def by blast
  then have "coherent ?B (net \<union> set (out_messages out)) me
      (r\<lparr>r_log_changed := b, r_state := (r_state r)\<lparr>ps_entries := ps_entries (r_state r) @ xs\<rparr>\<rparr>)"
    using p(3) lead by (auto simp: coherent_leader)
  ultimately show ?thesis by (intro implemented_step [OF g st]) simp_all
qed

text \<open>A leader commits what a quorum has acknowledged.\<close>

lemma advance_commit_good:
  assumes g: "good (quorum c) A net me r out" and ri: "raft_inv r" and lead: "r_role r = Leader" and id: "r_id r = me"
    and c: "ps_configuration (r_state r) = c" and ad: "advance_commit r = Some (r', b)"
  shows "good (quorum c) A net me r' out"
proof -
  let ?s = "r_state r" and ?G = "gl_log A me" and ?t = "ps_term (r_state r)"
  note p = good_parts [OF g]
  have "config_ok c" using ri c by (auto simp: raft_inv_def state_ok_def)
  from quorum_index_spec [OF this] obtain n where n: "quorum_index c (matched_of r) = Some n"
    "\<And>k. k \<le> n \<longleftrightarrow> quorum c {v. k \<le> matched_of r v}"
    by blast
  show ?thesis
  proof (cases "n > ps_commit_index ?s \<and> term_at r n = Some ?t")
    case False
    then show ?thesis using ad n(1) g c by (simp add: advance_commit_def split: if_splits)
  next
    case True
    then have r': "r' = r\<lparr>r_state := ?s\<lparr>ps_commit_index := n\<rparr>\<rparr>"
      using ad n(1) c by (auto simp: advance_commit_def)
    have co: "gl_lead A ?t = Some (me, ?G)" "\<forall>(v, pr) \<in> set (r_progress r). pr_matched pr \<le> gl_ack A v ?t"
      using p(3) lead by (auto simp: coherent_leader peer_true_def)
    have v: "view ?s ?G" using p(2) by (simp add: tracks_def)
    have tm: "n \<le> length ?G" "log_term ?G n = ?t"
      using True view_term [OF v, of n] by (auto simp: term_at_term_of split: if_splits)
    have pos: "0 < n" using True by simp
    have own: "gl_ack A me ?t = length ?G" by (rule lead_inv_Some(5) [OF protocol_invD(3) [OF p(1)] co(1)])
    have "n \<le> gl_ack A w ?t" if m: "n \<le> matched_of r w" for w
    proof (cases "w = me")
      case True
      then show ?thesis using own tm(1) by simp
    next
      case False
      then obtain pr where pr: "map_of (r_progress r) w = Some pr" "n \<le> pr_matched pr"
        using m pos id False by (auto simp: matched_of_def split: option.splits)
      then show ?thesis using co(2) map_of_SomeD [OF pr(1)] by fastforce
    qed
    moreover have "quorum c {v. n \<le> matched_of r v}" using n(2) by blast
    ultimately have "chosen (quorum c) A ?t (take n ?G)"
      unfolding chosen_def using co(1) pos tm by (auto simp: log_term_def)
    then have "settled (quorum c) A ?t (take n ?G)" by (auto simp: settled_def)
    then show ?thesis using g unfolding r' by (simp add: good_def tracks_def coherent_def)
  qed
qed

lemma retry_quorum_probe_good:
  "good q A net me r out \<Longrightarrow> r_id r = me \<Longrightarrow> good q A net me r (retry_quorum_probe r out)"
  by (auto simp: retry_quorum_probe_def replicates_def msg_true_def split: option.splits intro!: good_emit_all)

lemma start_quorum_probe_good:
  assumes "good q A net me r out" "r_id r = me" "start_quorum_probe r out = (r', out')"
  shows "good q A net me r' out'"
  using assms retry_quorum_probe_good [of q A net me r' "out\<lparr>out_reset_election_timer := True\<rparr>"]
  by (auto simp: start_quorum_probe_def Let_def)

text \<open>The electing quorum makes the candidate the only leader of its term.\<close>

lemma candidate_alone:
  assumes g: "good (quorum c) A net me r out" and cand: "r_role r = Candidate"
    and c: "config_ok c" and qr: "quorum c (r_votes r)"
  shows "gl_lead A (ps_term (r_state r)) = None"
proof (rule ccontr)
  let ?t = "ps_term (r_state r)"
  note p = good_parts [OF g]
  assume "gl_lead A ?t \<noteq> None"
  then obtain m G where mG: "gl_lead A ?t = Some (m, G)" by auto
  obtain Q where Q: "quorum c Q" "\<forall>w \<in> Q. \<exists>X. gl_ballot A w ?t = Some (m, X)"
    using lead_inv_Some(8) [OF protocol_invD(3) [OF p(1)] mG] by blast
  obtain w where w: "w \<in> Q" "w \<in> r_votes r" using raft_quorum.intersect [OF c Q(1) qr] by blast
  have "\<exists>X. gl_ballot A w ?t = Some (me, X)" "gl_lead A ?t \<noteq> Some (me, G)"
    using p(3) cand w(2) unfolding coherent_def Let_def by blast+
  with Q(2) w(1) mG show False by fastforce
qed

lemma elect_good:
  assumes g: "good (quorum c) A net me r out" and ri: "raft_inv r" and cand: "r_role r = Candidate" and id: "r_id r = me"
    and c: "ps_configuration (r_state r) = c" and qr: "quorum c (r_votes r)"
  defines "r1 \<equiv> r\<lparr>r_role := Leader, r_leader := Some (r_id r),
      r_progress := fold (\<lambda>m. bt_insert m (fresh_progress (last_index r + 1)))
        (filter (\<lambda>m. m \<noteq> r_id r) (members (ps_configuration (r_state r)))) (r_progress r)\<rparr>"
  shows "implemented (quorum c) net me A r1 out"
proof -
  let ?t = "ps_term (r_state r)" and ?G = "gl_log A me" and ?net = "net \<union> set (out_messages out)"
  let ?B = "A\<lparr>gl_lead := (gl_lead A)(?t \<mapsto> (me, ?G)), gl_ack := (gl_ack A)(me := (gl_ack A me)(?t := length ?G))\<rparr>"
  note p = good_parts [OF g]
  have cfg: "config_ok c" using ri c by (auto simp: raft_inv_def state_ok_def)
  have none: "gl_lead A ?t = None" by (rule candidate_alone [OF g cand cfg qr])
  have co: "gl_ballot A me ?t = Some (me, ?G)" "\<forall>v \<in> r_votes r. \<exists>X. gl_ballot A v ?t = Some (me, X)"
    using p(3) cand unfolding coherent_def Let_def by blast+
  have tm: "gl_term A me = ?t" using p(2) by (simp add: tracks_def)
  have st: "protocol_step (quorum c) me A ?B"
    using tm none co qr by (intro protocol_step.elect) auto
  have quiet: "\<not> delivers me v ?t request e n" "\<not> offers me v ?t request e snap" if "e \<in> ?net" for v request e n snap
    using p(4) [OF that] none
    by (auto simp: delivers_def offers_def msg_true_def append_true_def cut_true_def)
  have empty: "r_progress r = []" "r_incoming_snapshot r = None"
    using ri cand by (auto simp: raft_inv_def role_ok_def)
  have fresh: "pr = fresh_progress (last_index r + 1)" if "(v, pr) \<in> set (r_progress r1)" for v pr
    using that fold_insert_fresh(3) unfolding r1_def empty by simp
  have "peer_true ?B ?net me ?t v pr" if "(v, pr) \<in> set (r_progress r1)" for v pr
    using fresh [OF that] by (simp add: peer_true_def fresh_progress_def)
  moreover have "requests_bounded ?net me ?t n" for n using quiet by (intro requests_boundedI) blast+
  ultimately have "coherent ?B ?net me r1"
    using empty by (auto simp: coherent_leader r1_def)
  moreover have "tracks (quorum c) ?B me (r_state r1)"
    using p(2) grows_settled [OF step_grows [OF p(1) st]] by (simp add: tracks_def r1_def)
  ultimately show ?thesis by (intro implemented_step [OF g st])
qed

lemma lead_good:
  assumes g: "good (quorum c) A net me r out" and ri: "raft_inv r" and lead: "r_role r = Leader" and id: "r_id r = me"
    and c: "ps_configuration (r_state r) = c"
    and run: "(case advance_commit r of None \<Rightarrow> Inl (Panic, r)
      | Some (r1, _) \<Rightarrow>
          and_then (broadcast r1 out False) (\<lambda>(r2, out2).
            Inr (if lv_enabled (r_liveness r2) then start_quorum_probe r2 out2 else (r2, out2)))) = Inr (r', out')"
  shows "good (quorum c) A net me r' out'"
proof -
  obtain n b where a: "advance_commit r = Some (r\<lparr>r_state := (r_state r)\<lparr>ps_commit_index := n\<rparr>\<rparr>, b)"
    and inv: "raft_inv (r\<lparr>r_state := (r_state r)\<lparr>ps_commit_index := n\<rparr>\<rparr>)"
    using advance_commit_kept [OF ri lead] by blast
  let ?r1 = "r\<lparr>r_state := (r_state r)\<lparr>ps_commit_index := n\<rparr>\<rparr>"
  obtain r2 out2 where b: "broadcast ?r1 out False = Inr (r2, out2)"
    and e: "(if lv_enabled (r_liveness r2) then start_quorum_probe r2 out2 else (r2, out2)) = (r', out')"
    using run unfolding a by (auto simp: and_then_eq_Inr)
  have "good (quorum c) A net me r2 out2"
    by (rule broadcast_good [OF advance_commit_good [OF g ri lead id c a] inv _ _ b]) (use lead id in simp_all)
  moreover have "r_id r2 = me"
    using broadcast_kept [OF inv, of out False] b lead id by (auto simp: kept_def evolves_def)
  ultimately show ?thesis
    using e start_quorum_probe_good [of "quorum c" A net me r2 out2 r' out'] by (auto split: if_splits)
qed

lemma become_leader_good:
  assumes g: "good (quorum c) A net me r out" and ri: "raft_inv r" and cand: "r_role r = Candidate" and id: "r_id r = me"
    and c: "ps_configuration (r_state r) = c" and qr: "quorum c (r_votes r)"
    and run: "become_leader r out = Inr (r', out')"
  shows "implemented (quorum c) net me A r' out'"
proof -
  define r1 where "r1 = r\<lparr>r_role := Leader, r_leader := Some (r_id r),
      r_progress := fold (\<lambda>m. bt_insert m (fresh_progress (last_index r + 1)))
        (filter (\<lambda>m. m \<noteq> r_id r) (members (ps_configuration (r_state r)))) (r_progress r)\<rparr>"
  define noop where "noop = [\<lparr>e_term = ps_term (r_state r1), e_command = None :: 'a option\<rparr>]"
  define room where "room \<longleftrightarrow> length (ps_entries (r_state r)) < max_log_entries (r_limits r) \<and> last_index r + 1 < u64_max"
  define r2 where "r2 = (if room then r1\<lparr>r_log_changed := True,
        r_state := (r_state r1)\<lparr>ps_entries := ps_entries (r_state r1) @ noop\<rparr>\<rparr> else r1)"
  have r1: "raft_inv r1" unfolding r1_def by (rule leader_progress_kept(1) [OF ri cand]) (use qr c in simp)
  have f1: "r_role r1 = Leader" "r_handoff r1 = None" "r_state r1 = r_state r" "r_limits r1 = r_limits r" "r_id r1 = me"
    using ri cand id by (auto simp: r1_def raft_inv_def role_ok_def)
  have "raft_inv r2"
    using leader_append_kept(1) [OF r1 f1(1,2), of noop] r1 f1
    by (auto simp: r2_def room_def noop_def last_index_last_of)
  moreover have "implemented (quorum c) net me B r2 out" if "good (quorum c) B net me r1 out" for B
    using leader_extend_good [OF that r1 f1(1), of noop True] implemented_good [OF that] by (simp add: r2_def noop_def)
  then have "implemented (quorum c) net me A r2 out"
    using elect_good [OF g ri cand id c qr] unfolding r1_def [symmetric] by (rule implemented_bind [rotated])
  moreover have "r_role r2 = Leader" "r_id r2 = me" "ps_configuration (r_state r2) = c"
    using f1 c by (simp_all add: r2_def)
  moreover have "become_leader r out =
     (case advance_commit r2 of None \<Rightarrow> Inl (Panic, r2)
      | Some (r1, _) \<Rightarrow>
          and_then (broadcast r1 out False) (\<lambda>(r2, out2).
            Inr (if lv_enabled (r_liveness r2) then start_quorum_probe r2 out2 else (r2, out2))))"
    unfolding become_leader_def Let_def r2_def r1_def noop_def room_def by simp
  ultimately show ?thesis
    using run lead_good [of c _ net me r2 out r' out'] by (auto elim!: implemented_mono)
qed

text \<open>A node of the group: what every operation may assume about where it runs.\<close>

definition seated :: "configuration \<Rightarrow> member_id \<Rightarrow> 'c raft \<Rightarrow> bool" where
  "seated c me r \<longleftrightarrow> raft_inv r \<and> r_id r = me \<and> ps_configuration (r_state r) = c"

lemma seated_kept: "seated c me r \<Longrightarrow> kept r out r' out' \<Longrightarrow> seated c me r'"
  using evolves_state by (metis seated_def kept_def)

lemma seated_evolves: "seated c me r \<Longrightarrow> raft_inv r' \<Longrightarrow> evolves r r' \<Longrightarrow> seated c me r'"
  using evolves_state by (metis seated_def)

lemma campaign_good:
  assumes g: "good (quorum c) A net me r out" and se: "seated c me r" and voter: "me \<in> cfg_voters c"
    and run: "campaign r out = Inr (r', out')"
  shows "implemented (quorum c) net me A r' out'"
proof (cases "r_role r = Leader")
  case True
  then show ?thesis using run g by (simp add: campaign_def implemented_good)
next
  case False
  define t where "t = ps_term (r_state r) + 1"
  define r2 where "r2 = (follow r t)\<lparr>r_role := Candidate,
      r_state := (r_state (follow r t))\<lparr>ps_voted_for := Some (r_id (follow r t))\<rparr>,
      r_votes := insert (r_id (follow r t)) (r_votes (follow r t))\<rparr>"
  let ?out = "out\<lparr>out_reset_election_timer := True\<rparr>"
  let ?voters = "filter (\<lambda>m. m \<noteq> r_id r2) (ascending (cfg_voters (ps_configuration (r_state r2))))"
  have s: "raft_inv r" "r_id r = me" "ps_configuration (r_state r) = c" using se by (auto simp: seated_def)
  have i2: "raft_inv r2" unfolding r2_def by (rule candidate_kept(1) [OF s(1)]) (use voter s in \<open>auto simp: t_def\<close>)
  have g2: "implemented (quorum c) net me A r2 ?out"
    unfolding r2_def by (rule candidate_good) (use g s in \<open>auto simp: t_def\<close>)
  have f2: "r_role r2 = Candidate" "r_id r2 = me" "ps_configuration (r_state r2) = c" "ps_term (r_state r2) = t"
    using s by (auto simp: r2_def t_def)
  have eq: "(if quorum c (r_votes r2) then become_leader r2 ?out
       else Inr (r2, emit_all r2 ?voters (RequestVote t (last_index r2) (last_term r2)) ?out)) = Inr (r', out')"
    using run False f2(3) by (auto simp: campaign_def checked_add_def r2_def t_def Let_def split: if_splits)
  show ?thesis
  proof (rule implemented_bind [OF g2])
    fix B
    assume b: "good (quorum c) B net me r2 ?out"
    show "implemented (quorum c) net me B r' out'"
    proof (cases "quorum c (r_votes r2)")
      case True
      then show ?thesis using become_leader_good [OF b i2 f2(1-3)] eq by simp
    next
      case no: False
      have bal: "gl_ballot B me t = Some (me, gl_log B me)"
        using good_parts(3) [OF b] f2 by (auto simp: coherent_def Let_def)
      have v: "view (r_state r2) (gl_log B me)" using good_parts(2) [OF b] by (simp add: tracks_def)
      have "good (quorum c) B net me r2 (emit_all r2 ?voters (RequestVote t (last_index r2) (last_term r2)) ?out)"
        using bal view_last [OF v] view_last_term [OF v]
        by (intro good_emit_all [OF b f2(2)]) (auto simp: replicates_def msg_true_def last_index_last_of last_term_def2)
      then show ?thesis using eq no by (auto intro: implemented_good)
    qed
  qed
qed

end
