(* ===== verification/RaftRefineSteps.thy ===== *)
theory RaftRefineSteps
  imports RaftRefine
begin

text \<open>
  The handlers of the kernel implement the protocol: votes, appends, snapshots, acknowledgements and
  proposals, then dispatch and whole steps.
\<close>

section \<open>Elections and liveness\<close>

lemma good_idle:
  assumes "good q A net me r out" "r_state r' = r_state r" "r_role r' = Follower \<or> r_role r' = PreCandidate"
    and "r_incoming_snapshot r' = None \<or> r_incoming_snapshot r' = r_incoming_snapshot r"
  shows "good q A net me r' out"
  using assms by (auto simp: good_def coherent_def Let_def)

lemma pre_campaign_good:
  assumes g: "good (quorum c) A net me r out" and se: "seated c me r" and voter: "me \<in> cfg_voters c"
    and run: "pre_campaign r out = Inr (r', out')"
  shows "implemented (quorum c) net me A r' out'"
proof (cases "r_role r = Leader")
  case True
  then show ?thesis using run g by (simp add: pre_campaign_def implemented_good)
next
  case False
  define r1 where "r1 = (follow r (ps_term (r_state r)))\<lparr>r_incoming_snapshot := None, r_role := PreCandidate\<rparr>"
  let ?out = "out\<lparr>out_reset_election_timer := True\<rparr>"
  have s: "raft_inv r" "r_id r = me" "ps_configuration (r_state r) = c" using se by (auto simp: seated_def)
  have k: "raft_inv r1" "evolves r r1"
    unfolding r1_def by (rule pre_candidate_kept; use s voter in simp)+
  have g1: "good (quorum c) A net me r1 ?out"
    using good_idle [OF g, of r1] by (simp add: r1_def)
  define t where "t = ps_term (r_state r) + 1"
  define r2 where "r2 = r1\<lparr>r_liveness := (r_liveness r1)\<lparr>lv_pre_vote :=
      Some \<lparr>pv_term = t, pv_round = r_generation r1, pv_voters = {r_id r1}\<rparr>\<rparr>\<rparr>"
  let ?voters = "filter (\<lambda>m. m \<noteq> r_id r2) (ascending (cfg_voters (ps_configuration (r_state r2))))"
  let ?out2 = "emit_all r2 ?voters (PreVoteRequest t (r_generation r2) (last_index r2) (last_term r2)) ?out"
  have "good (quorum c) A net me r2 ?out" using g1 by (simp add: r2_def)
  then have g2: "good (quorum c) A net me r2 ?out2"
    by (rule good_emit_all) (use s(2) in \<open>simp_all add: r2_def r1_def replicates_def msg_true_def\<close>)
  have "(if quorum (ps_configuration (r_state r1)) {r_id r1} then campaign r1 ?out else Inr (r2, ?out2)) = Inr (r', out')"
    using run False unfolding pre_campaign_def Let_def r1_def [symmetric] r2_def [symmetric] t_def [symmetric]
    by (auto simp: checked_add_def r2_def t_def split: if_splits)
  then show ?thesis
    using campaign_good [OF g1 seated_evolves [OF se k] voter] implemented_good [OF g2] by (auto split: if_splits)
qed

lemma liveness_timeout_good:
  assumes g: "good (quorum c) A net me r out" and se: "seated c me r" and voter: "me \<in> cfg_voters c"
    and run: "liveness_timeout r out = Inr (r', out')"
  shows "implemented (quorum c) net me A r' out'"
proof -
  define r1 where "r1 = r\<lparr>r_liveness := (r_liveness r)\<lparr>lv_enabled := True\<rparr>\<rparr>"
  have s: "raft_inv r" "r_id r = me" using se by (auto simp: seated_def)
  have g1: "good (quorum c) A net me r1 out" using g by (simp add: r1_def)
  have se1: "seated c me r1" unfolding r1_def using seated_evolves [OF se] liveness_kept [OF s(1)] by blast
  have "good (quorum c) A net me (follow r1 (ps_term (r_state r1))) (out\<lparr>out_reset_election_timer := True\<rparr>)"
    using good_idle [OF g1, of "follow r1 (ps_term (r_state r1))"] by simp
  moreover have "r_id r1 = me" using s(2) by (simp add: r1_def)
  ultimately show ?thesis
    using run pre_campaign_good [OF g1 se1 voter, of r' out'] start_quorum_probe_good [OF g1, of r' out']
    unfolding liveness_timeout_def Let_def r1_def [symmetric]
    by (auto split: if_splits option.splits intro: implemented_good)
qed

lemma pre_vote_reply_good:
  assumes g: "good (quorum c) A net me r out" and se: "seated c me r"
    and run: "pre_vote_reply r from prospective round granted out = Inr (r', out')"
  shows "implemented (quorum c) net me A r' out'"
proof (cases "r_role r = PreCandidate")
  case False
  then show ?thesis using run g by (simp add: pre_vote_reply_def implemented_good)
next
  case True
  have s: "raft_inv r" using se by (simp add: seated_def)
  have voter: "me \<in> cfg_voters c" using se True by (auto simp: seated_def raft_inv_def role_ok_def)
  have "implemented (quorum c) net me A r' out'" if "campaign (r\<lparr>r_liveness := l\<rparr>) out = Inr (r', out')" for l
    by (rule campaign_good [OF _ seated_evolves [OF se] voter that]) (use g liveness_kept [OF s] in auto)
  then show ?thesis
    using run g unfolding pre_vote_reply_def Let_def
    by (auto split: option.splits if_splits intro: implemented_good)
qed

lemma pre_vote_request_good:
  assumes "good q A net me r out" "r_id r = me"
  shows "good q A net me r (pre_vote_request r from prospective round lastindex lastterm out)"
  unfolding pre_vote_request_def Let_def
  by (rule good_emit [OF assms]) (simp_all add: replicates_def msg_true_def)

lemma accept_leader_fields:
  assumes "accept_leader r from t out = (r', out')"
  shows "r_id r' = r_id r" "r_state r' = r_state (follow r t)" "r_role r' = Follower"
  using assms by (auto simp: accept_leader_def Let_def split: option.splits if_splits)

lemma quorum_probe_good:
  assumes g: "good q A net me r out" and id: "r_id r = me" and run: "quorum_probe r from t round out = (r', out')"
  shows "implemented q net me A r' out'"
proof -
  obtain r1 out1 where a: "(if t = ps_term (r_state r) then accept_leader r from t out else (r, out)) = (r1, out1)"
    by (metis surj_pair)
  have i: "implemented q net me A r1 out1"
    using a g accept_leader_good [OF g] by (auto split: if_splits intro: implemented_good)
  have id1: "r_id r1 = me" using a id accept_leader_fields(1) by (fastforce split: if_splits)
  have "good q B net me r' out'" if "good q B net me r1 out1" for B
    using run that good_emit [OF that id1, of "QuorumReply (ps_term (r_state r1)) round" "from"]
    unfolding quorum_probe_def a by (auto simp: replicates_def msg_true_def split: if_splits)
  with i show ?thesis by (rule implemented_mono)
qed

lemma quorum_reply_good: "good q A net me r out \<Longrightarrow> good q A net me (quorum_reply r from t round) out"
  by (simp add: quorum_reply_def split: option.splits)

lemma timeout_now_good:
  assumes "good (quorum c) A net me r out" "seated c me r" "timeout_now r from t lastindex lastterm out = Inr (r', out')"
  shows "implemented (quorum c) net me A r' out'"
  using assms campaign_good [OF assms(1,2)]
  by (auto simp: timeout_now_def seated_def split: if_splits intro: implemented_good)

section \<open>Votes\<close>

lemma receive_vote_good:
  assumes g: "good (quorum c) A net me r out" and se: "seated c me r"
    and vote: "granted \<Longrightarrow> \<exists>X. gl_ballot A from t = Some (me, X)"
    and run: "receive_vote r from t granted out = Inr (r', out')"
  shows "implemented (quorum c) net me A r' out'"
proof (cases "t = ps_term (r_state r) \<and> r_role r = Candidate \<and> granted")
  case False
  then have "r' = r \<and> out' = out" using run by (auto simp: receive_vote_def split: if_splits)
  then show ?thesis using g by (simp add: implemented_good)
next
  case True
  let ?r1 = "r\<lparr>r_votes := insert from (r_votes r)\<rparr>"
  have s: "raft_inv r" "r_id r = me" "ps_configuration (r_state r) = c" using se by (auto simp: seated_def)
  have "raft_inv ?r1" using credited_inv [OF s(1), of "from" t granted] True by (simp add: credited_def)
  moreover have "good (quorum c) A net me ?r1 out"
    using g vote True by (simp add: good_def coherent_def Let_def)
  ultimately show ?thesis
    using run True s become_leader_good [of c A net me ?r1 out r' out']
    by (auto simp: receive_vote_def Let_def split: if_splits intro: implemented_good)
qed

lemma log_fresh_fresher:
  assumes "view (r_state r) X" "log_fresh r (length E) (end_term E)"
  shows "fresher E X"
  using assms view_last [OF assms(1)] view_last_term [OF assms(1)]
  by (auto simp: log_fresh_def fresher_def last_index_last_of last_term_def2)

lemma receive_request_vote_good:
  assumes g: "good q A net me r out" and ri: "raft_inv r" and id: "r_id r = me" and from_me: "from \<noteq> me"
    and req: "gl_ballot A from t = Some (from, E)" "lastindex = length E" "lastterm = end_term E"
    and run: "receive_request_vote r from t lastindex lastterm out = (r', out')"
  shows "implemented q net me A r' out'"
proof -
  let ?s = "r_state r"
  define granted where "granted \<longleftrightarrow> t = ps_term ?s \<and> r_id r \<in> cfg_voters (ps_configuration ?s)
    \<and> (ps_voted_for ?s = None \<or> ps_voted_for ?s = Some from) \<and> log_fresh r lastindex lastterm"
  define r1 where "r1 = (if r_role r = PreCandidate then follow r t else r)"
  define r2 where "r2 = (if granted then r1\<lparr>r_state := (r_state r1)\<lparr>ps_voted_for := Some from\<rparr>\<rparr> else r)"
  let ?out = "if granted then out\<lparr>out_reset_election_timer := True\<rparr> else out"
  have res: "r' = r2" "out' = emit r2 from (Vote (ps_term (r_state r2)) granted) ?out"
    using run unfolding receive_request_vote_def Let_def granted_def [symmetric] r1_def [symmetric]
    by (auto simp: r2_def)
  have id2: "r_id r2 = me" using id by (simp add: r2_def r1_def)
  note p = good_parts [OF g]
  have final: "implemented q net me A r' out'"
    if "implemented q net me A r2 ?out" "\<And>B. good q B net me r2 ?out \<Longrightarrow> granted \<Longrightarrow> \<exists>X. gl_ballot B me (ps_term (r_state r2)) = Some (from, X)"
  proof (rule implemented_mono [OF that(1)])
    fix B assume B: "good q B net me r2 ?out"
    show "good q B net me r' out'"
      unfolding res by (rule good_emit [OF B id2]) (use that(2) [OF B] in \<open>auto simp: replicates_def msg_true_def\<close>)
  qed
  show ?thesis
  proof (cases granted)
    case False
    then show ?thesis using g by (intro final) (simp_all add: r2_def implemented_good)
  next
    case True
    then have gr: "t = ps_term ?s" "ps_voted_for ?s = None \<or> ps_voted_for ?s = Some from" "fresher E (gl_log A me)"
      using log_fresh_fresher [of r "gl_log A me" E] p(2) req by (auto simp: granted_def tracks_def)
    have fol: "r_role r1 = Follower" "r_state r1 = ?s" "r_incoming_snapshot r1 = r_incoming_snapshot r"
      using ri gr(1,2) from_me id by (cases "r_role r"; auto simp: r1_def raft_inv_def role_ok_def)+
    have "implemented q net me A r2 out"
    proof (cases "ps_voted_for ?s")
      case None
      then have none: "gl_ballot A me t = None" "gl_term A me = t" using p(2) gr(1) by (auto simp: tracks_def)
      let ?B = "A\<lparr>gl_ballot := (gl_ballot A)(me := (gl_ballot A me)(t \<mapsto> (from, gl_log A me)))\<rparr>"
      have st: "protocol_step q me A ?B"
        using none req(1) gr(3) from_me by (intro protocol_step.vote) auto
      show ?thesis
      proof (rule implemented_step [OF g st])
        show "tracks q ?B me (r_state r2)"
          using p(2) True fol(2) gr(1) grows_settled [OF step_grows [OF p(1) st]] by (simp add: tracks_def r2_def)
        show "coherent ?B (net \<union> set (out_messages out)) me r2"
          using p(3) True fol by (simp add: coherent_def Let_def r2_def)
      qed
    next
      case (Some m)
      then have "ps_voted_for ?s = Some from" using gr(2) by simp
      then have "?s\<lparr>ps_voted_for := Some from\<rparr> = ?s" by (metis persistent_state.surjective persistent_state.update_convs(3) old.unit.exhaust)
      then have "r_state r2 = ?s" using True fol(2) by (simp add: r2_def)
      then have "good q A net me r2 out" by (rule good_idle [OF g]) (use True fol in \<open>simp_all add: r2_def\<close>)
      then show ?thesis by (rule implemented_good)
    qed
    then show ?thesis
      using True by (intro final) (auto simp: r2_def dest!: good_parts(2) simp: tracks_def)
  qed
qed

section \<open>Taking over the leader's log\<close>

lemma adopt_settled:
  assumes "prefix P L" "prefix P G"
  shows "prefix P (adopt (take n G) L)"
  using adopt_keeps [OF assms(1), of n G] assms(2) by (auto simp: parallel_def)

lemma committed_in_leader:
  assumes "good (quorum c) A net me r out" "raft_inv r" "ps_configuration (r_state r) = c"
    and "gl_lead A (ps_term (r_state r)) = Some (m, G)"
  shows "prefix (take (ps_commit_index (r_state r)) (gl_log A me)) G"
    "ps_commit_index (r_state r) \<le> length (gl_log A me)"
proof -
  note p = good_parts [OF assms(1)]
  have ok: "state_ok (r_limits r) (r_id r) (r_state r)" using assms(2) by (simp add: raft_inv_def)
  then have "config_ok c" using assms(3) by (simp add: state_ok_def)
  then show "prefix (take (ps_commit_index (r_state r)) (gl_log A me)) G"
    using raft_quorum.settled_in_leader [OF p(1) _ _ assms(4) order.refl] p(2) by (simp add: tracks_def)
  show "ps_commit_index (r_state r) \<le> length (gl_log A me)"
    using ok p(2) view_last by (force simp: state_ok_def tracks_def)
qed

text \<open>The follower's state after taking over \<open>n\<close> entries of the leader's log and committing up to \<open>k\<close>.\<close>

lemma accept_good:
  assumes g: "good (quorum c) A net me r out" and ri: "raft_inv r" and c: "ps_configuration (r_state r) = c"
    and lead: "gl_lead A (ps_term (r_state r)) = Some (m, G)" "m \<noteq> me" and n: "n \<le> length G"
    and r': "r_role r' = Follower \<or> r_role r' = PreCandidate" "r_incoming_snapshot r' = None \<or> r_incoming_snapshot r' = r_incoming_snapshot r"
      "ps_term (r_state r') = ps_term (r_state r)" "ps_voted_for (r_state r') = ps_voted_for (r_state r)"
    and v: "view (r_state r') (adopt (take n G) (gl_log A me))"
    and k: "ps_commit_index (r_state r') = max (ps_commit_index (r_state r)) k" "k \<le> n"
      "settled (quorum c) A (ps_term (r_state r)) (take k G)"
  obtains B where "protocol_step (quorum c) me A B" "good (quorum c) B net me r' out"
    "n \<le> gl_ack B me (ps_term (r_state r))"
proof -
  let ?t = "ps_term (r_state r)" and ?L = "gl_log A me" and ?c = "ps_commit_index (r_state r)"
  let ?L' = "adopt (take n G) ?L"
  let ?B = "A\<lparr>gl_log := (gl_log A)(me := ?L'), gl_ack := (gl_ack A)(me := (gl_ack A me)(?t := max (gl_ack A me ?t) n))\<rparr>"
  note p = good_parts [OF g]
  have st: "protocol_step (quorum c) me A ?B"
    using p(2) lead n by (intro protocol_step.accept) (auto simp: tracks_def)
  have gr: "grows A ?B" by (rule step_grows [OF p(1) st])
  note com = committed_in_leader [OF g ri c lead(1)]
  have "prefix (take ?c ?L) ?L'" by (rule adopt_settled [OF take_is_prefix com(1)])
  then have old: "take ?c ?L' = take ?c ?L" "?c \<le> length ?L'"
    using prefix_length_le com(2) by (fastforce simp: prefix_def)+
  have new: "take k ?L' = take k G" "k \<le> length ?L'"
    using prefix_take_same [OF adopt_prefix, of k n G ?L] prefix_length_le [OF adopt_prefix, of n G ?L] k(2) n by auto
  have "settled (quorum c) A ?t (take (max ?c k) ?L')"
    using p(2) k(3) old(1) new(1) by (cases "?c \<le> k") (simp_all add: tracks_def max_def)
  then have tr: "tracks (quorum c) ?B me (r_state r')"
    using p(2) v k(1) r'(3,4) grows_settled [OF gr] by (simp add: tracks_def)
  have co: "coherent ?B (net \<union> set (out_messages out)) me r'"
    using p(3) r'(1,2) by (auto simp: coherent_def Let_def)
  have "good (quorum c) ?B net me r' out"
    using g tr co step_protocol_inv [OF p(1) st] msg_true_grows [OF gr order.refl] by (auto simp: good_def)
  with st that show ?thesis by simp
qed

text \<open>The snapshot base lies within the committed prefix, which every leader's log contains.\<close>

lemma view_adopted:
  assumes "good (quorum c) A net me r out" "raft_inv r" "ps_configuration (r_state r) = c"
    and "gl_lead A (ps_term (r_state r)) = Some (m, G)" "es = drop (base_index (r_state r)) (adopt (take n G) (gl_log A me))"
  shows "view ((r_state r)\<lparr>ps_entries := es\<rparr>) (adopt (take n G) (gl_log A me))"
proof -
  let ?s = "r_state r" and ?L = "gl_log A me" and ?L' = "adopt (take n G) (gl_log A me)"
  note com = committed_in_leader [OF assms(1-4)]
  have v: "view ?s ?L" using good_parts(2) [OF assms(1)] by (simp add: tracks_def)
  have b: "base_index ?s \<le> ps_commit_index ?s" using assms(2) by (simp add: raft_inv_def state_ok_def)
  have p: "prefix (take (ps_commit_index ?s) ?L) ?L'" by (rule adopt_settled [OF take_is_prefix com(1)])
  then have len: "base_index ?s \<le> length ?L'" using b com(2) prefix_length_le [OF p] by simp
  have "log_term ?L' (base_index ?s) = log_term (take (ps_commit_index ?s) ?L) (base_index ?s)"
    by (rule log_term_prefix [OF p]) (use b com(2) in simp)
  also have "\<dots> = log_term ?L (base_index ?s)"
    by (rule log_term_prefix [OF take_is_prefix, symmetric]) (use b com(2) in simp)
  finally show ?thesis using v len assms(5) by (simp add: view_def)
qed

lemma append_merges:
  assumes inv: "protocol_inv q A" and v: "view s (gl_log A me)" and lead: "gl_lead A t = Some (m, G)"
    and es: "prev + length es \<le> length G" "es = take (length es) (drop prev G)"
    and prev: "term_of s prev = Some (log_term G prev)"
  shows "merge_list (prev - base_index s) es (ps_entries s) = drop (base_index s) (adopt (take (prev + length es) G) (gl_log A me))"
proof -
  let ?L = "gl_log A me"
  have law: "lawful A ?L" "lawful A G"
    using protocol_invD(1) [OF inv, of me] lead_inv_Some(1) [OF protocol_invD(3) [OF inv] lead] by (auto simp: member_inv_def)
  have b: "base_index s \<le> prev" "prev \<le> length ?L" "log_term ?L prev = log_term G prev"
    using view_term [OF v, of prev] prev by (auto split: if_splits)
  have same: "take prev ?L = take prev G"
  proof (cases prev)
    case (Suc i)
    then have "i < length ?L" "i < length G" "e_term (?L ! i) = e_term (G ! i)"
      using b es(1) by (auto simp: log_term_def)
    then show ?thesis using lawful_matching [OF law] Suc by simp
  qed simp
  have "merge_list (prev - base_index s) (take (length es) (drop prev G)) (drop (base_index s) ?L) =
      drop (base_index s) (adopt (take (prev + length es) G) ?L)"
    by (rule merge_adopt [OF b(1,2) es(1) same]) (rule lawful_matching [OF law])
  then show ?thesis using es(2) v by (simp add: view_def)
qed

lemma receive_append_good:
  assumes g: "good (quorum c) A net me r out" and se: "seated c me r" and t: "t \<le> ps_term (r_state r)"
    and e: "e \<in> net" "env_from e = from" "env_to e = me" "from \<noteq> me"
      "env_message e = Append t request prev prev_term es commit"
    and run: "receive_append r from t request prev prev_term es commit out = (r', out')"
  shows "implemented (quorum c) net me A r' out'"
proof (cases "t < ps_term (r_state r)")
  case True
  then have "r' = r" "out' = emit r from (Appended (ps_term (r_state r)) request False (last_index r + 1)) out"
    using run by (auto simp: receive_append_def)
  moreover have "good (quorum c) A net me r (emit r from (Appended (ps_term (r_state r)) request False (last_index r + 1)) out)"
    by (rule good_emit [OF g]) (use se in \<open>auto simp: seated_def replicates_def msg_true_def\<close>)
  ultimately show ?thesis by (simp add: implemented_good)
next
  case False
  then have tt: "ps_term (r_state r) = t" using t by simp
  have s: "raft_inv r" "r_id r = me" "ps_configuration (r_state r) = c" using se by (auto simp: seated_def)
  obtain r1 out1 where a: "accept_leader r from t out = (r1, out1)" by (metis surj_pair)
  note k = accept_leader_kept [OF s(1) a]
  have st: "r_state r1 = r_state r" using k(4) tt by simp
  have id1: "r_id r1 = me" using accept_leader_fields(1) [OF a] s(2) by simp
  show ?thesis
  proof (rule implemented_bind [OF accept_leader_good [OF g a]])
    fix B
    assume gB: "good (quorum c) B net me r1 out1"
    show "implemented (quorum c) net me B r' out'"
    proof (cases "term_of (r_state r1) prev = Some prev_term")
      case no: False
      have "good (quorum c) B net me r1 (emit r1 from (Appended t request False (conflict_hint r1 prev)) out1)"
        by (rule good_emit [OF gB id1]) (auto simp: replicates_def msg_true_def)
      then show ?thesis
        using run False a no by (auto simp: receive_append_def term_at_term_of implemented_good)
    next
      case True
      have "append_true (quorum c) B from t prev prev_term es commit"
        using good_parts(4) [OF gB, of e] e by (auto simp: msg_true_def)
      then obtain G where G: "gl_lead B t = Some (from, G)" "prev + length es \<le> length G"
        "es = take (length es) (drop prev G)" "prev_term = log_term G prev" "settled (quorum c) B t (take commit G)"
        unfolding append_true_def by blast
      have v: "view (r_state r1) (gl_log B me)" using good_parts(2) [OF gB] by (simp add: tracks_def)
      let ?n = "prev + length es" and ?merged = "merge_list (prev - base_index (r_state r1)) es (ps_entries (r_state r1))"
      have merged: "?merged = drop (base_index (r_state r1)) (adopt (take ?n G) (gl_log B me))"
        by (rule append_merges [OF good_parts(1) [OF gB] v G(1-3)]) (use True G(4) in simp)
      define s' where "s' = (r_state r1)\<lparr>ps_entries := ?merged,
        ps_commit_index := max (ps_commit_index (r_state r1)) (min commit ?n)\<rparr>"
      obtain l where merge: "merge_entries (prev - base_index (r_state r1)) es r1 =
          r1\<lparr>r_state := (r_state r1)\<lparr>ps_entries := ?merged\<rparr>, r_log_changed := l\<rparr>"
        by (rule merge_entries_eq [of "prev - base_index (r_state r1)" es r1]) (rule that)
      define i where "i = (case r_incoming_snapshot r1 of None \<Rightarrow> None
        | Some pending \<Rightarrow> if sc_index (st_snapshot (is_transfer pending)) \<le> ps_commit_index s' then None else Some pending)"
      define r4 where "r4 = r1\<lparr>r_log_changed := l, r_state := s', r_incoming_snapshot := i\<rparr>"
      have res: "r' = r4 \<and> out' = emit r4 from (Appended t request True 0) out1"
        using run False a True
        unfolding receive_append_def Let_def drop_incoming r4_def i_def s'_def
        by (auto simp: term_at_term_of merge cong: option.case_cong)
      have c1: "ps_configuration (r_state r1) = c" "ps_term (r_state r1) = t" using s(3) st tt by simp_all
      have f4: "r_role r4 = Follower \<or> r_role r4 = PreCandidate" "r_incoming_snapshot r4 = None \<or> r_incoming_snapshot r4 = r_incoming_snapshot r1"
        "ps_term (r_state r4) = ps_term (r_state r1)" "ps_voted_for (r_state r4) = ps_voted_for (r_state r1)"
        "ps_commit_index (r_state r4) = max (ps_commit_index (r_state r1)) (min commit ?n)" "min commit ?n \<le> ?n"
        using k(5) by (auto simp: r4_def s'_def i_def split: option.splits)
      have lead: "gl_lead B (ps_term (r_state r1)) = Some (from, G)" using G(1) c1(2) by simp
      have v4: "view (r_state r4) (adopt (take ?n G) (gl_log B me))"
        using view_adopted [OF gB k(1) c1(1) lead merged] by (simp add: r4_def s'_def)
      have se4: "settled (quorum c) B (ps_term (r_state r1)) (take (min commit ?n) G)"
        unfolding c1(2) by (rule settled_prefix [OF G(5) prefix_take_take]) simp
      obtain C where C: "protocol_step (quorum c) me B C" "good (quorum c) C net me r4 out1" "?n \<le> gl_ack C me t"
        using accept_good [OF gB k(1) c1(1) lead e(4) G(2) f4(1-4) v4 f4(5,6) se4] unfolding c1(2) .
      have "good (quorum c) C net me r4 (emit r4 from (Appended t request True 0) out1)"
        by (rule good_emit [OF C(2)])
          (use id1 e C(3) in \<open>auto simp: r4_def replicates_def msg_true_def delivers_def intro!: bexI [of _ e]\<close>)
      then show ?thesis using res C(1) unfolding implemented_def by blast
    qed
  qed
qed

section \<open>Snapshots\<close>

lemma offer_snapshot_good:
  assumes g: "good (quorum c) A net me r out" and se: "seated c me r" and t: "t \<le> ps_term (r_state r)"
    and e: "e \<in> net" "env_from e = from" "env_to e = me" "from \<noteq> me" "env_message e = InstallSnapshot t request snap"
    and run: "offer_snapshot r from t request snap out = (r', out')"
  shows "implemented (quorum c) net me A r' out'"
proof (cases "t < ps_term (r_state r)")
  case True
  then have "r' = r" "out' = emit r from (Appended (ps_term (r_state r)) request False (last_index r + 1)) out"
    using run by (auto simp: offer_snapshot_def)
  moreover have "good (quorum c) A net me r (emit r from (Appended (ps_term (r_state r)) request False (last_index r + 1)) out)"
    by (rule good_emit [OF g]) (use se in \<open>auto simp: seated_def replicates_def msg_true_def\<close>)
  ultimately show ?thesis by (simp add: implemented_good)
next
  case False
  then have tt: "ps_term (r_state r) = t" using t by simp
  have s: "raft_inv r" "r_id r = me" "ps_configuration (r_state r) = c" using se by (auto simp: seated_def)
  obtain r1 out1 where a: "accept_leader r from t out = (r1, out1)" by (metis surj_pair)
  note k = accept_leader_kept [OF s(1) a]
  have st: "r_state r1 = r_state r" using k(4) tt by simp
  have id1: "r_id r1 = me" using accept_leader_fields(1) [OF a] s(2) by simp
  show ?thesis
  proof (rule implemented_bind [OF accept_leader_good [OF g a]])
    fix B
    assume gB: "good (quorum c) B net me r1 out1"
    have off: "offers from me t request e snap" using e by (simp add: offers_def)
    show "implemented (quorum c) net me B r' out'"
    proof (cases "sc_index snap \<le> ps_commit_index (r_state r1)")
      case True
      have "cut_true (quorum c) B from t snap" using good_parts(4) [OF gB, of e] e by (auto simp: msg_true_def)
      then obtain G where G: "gl_lead B t = Some (from, G)" "sc_index snap \<le> length G" unfolding cut_true_def by blast
      have c1: "ps_configuration (r_state r1) = c" "ps_term (r_state r1) = t" using s(3) st tt by simp_all
      have lead: "gl_lead B (ps_term (r_state r1)) = Some (from, G)" using G(1) c1(2) by simp
      note com = committed_in_leader [OF gB k(1) c1(1) lead]
      have "take (sc_index snap) G = take (sc_index snap) (take (ps_commit_index (r_state r1)) (gl_log B me))"
        by (rule prefix_take_same [OF com(1)]) (use True com(2) in simp)
      then have same: "adopt (take (sc_index snap) G) (gl_log B me) = gl_log B me"
        using True by (simp add: adopt_def take_is_prefix min_def)
      have v1: "view (r_state r1) (adopt (take (sc_index snap) G) (gl_log B me))"
        unfolding same using good_parts(2) [OF gB] by (simp add: tracks_def)
      obtain C where C: "protocol_step (quorum c) me B C" "good (quorum c) C net me r1 out1" "sc_index snap \<le> gl_ack C me t"
        using accept_good [OF gB k(1) c1(1) lead e(4) G(2), of r1 0] v1 k(5) c1(2) by auto
      have "good (quorum c) C net me r1 (emit r1 from (SnapshotInstalled t request) out1)"
        by (rule good_emit [OF C(2) id1]) (use e(1) off C(3) in \<open>auto simp: replicates_def msg_true_def\<close>)
      then show ?thesis
        using run False a True C(1) unfolding implemented_def offer_snapshot_def Let_def by auto
    next
      case no: False
      have "awaited (net \<union> set (out_messages out1)) me \<lparr>is_transfer = \<lparr>st_id = n, st_source = from, st_snapshot = snap\<rparr>,
          is_term = t, is_request = request\<rparr>" for n
        using e(1,4) off by (auto simp: awaited_def)
      then have "good (quorum c) B net me (r1\<lparr>r_incoming_snapshot := Some
          \<lparr>is_transfer = \<lparr>st_id = n, st_source = from, st_snapshot = snap\<rparr>, is_term = t, is_request = request\<rparr>\<rparr>) out1" for n
        using gB k(5) by (simp add: good_def coherent_def Let_def)
      then show ?thesis
        using run False a no gB unfolding offer_snapshot_def Let_def
        by (auto split: option.splits if_splits intro!: implemented_good)
    qed
  qed
qed

lemma install_snapshot_good:
  assumes g: "good (quorum c) A net me r out" and se: "seated c me r"
    and va: "validate_transfer r token = Inr ()"
    and run: "install_snapshot r out = Inr (r', out')"
  shows "implemented (quorum c) net me A r' out'"
proof -
  obtain p where p: "r_incoming_snapshot r = Some p"
    using va by (auto simp: validate_transfer_def split: option.splits if_splits)
  let ?snap = "st_snapshot (is_transfer p)" and ?s = "r_state r" and ?m = "st_source (is_transfer p)" and ?L = "gl_log A me"
  let ?n = "sc_index ?snap" and ?t = "ps_term (r_state r)"
  have s: "raft_inv r" "r_id r = me" "ps_configuration ?s = c" using se by (auto simp: seated_def)
  have ok: "state_ok (r_limits r) (r_id r) ?s" and role: "r_role r = Follower \<or> r_role r = PreCandidate"
    and inc: "ps_commit_index ?s < ?n" "is_term p = ?t"
    using s(1) p by (cases "r_role r"; auto simp: raft_inv_def role_ok_def incoming_ok_def)+
  have b: "base_index ?s < ?n" using ok inc(1) by (simp add: state_ok_def)
  have "awaited (net \<union> set (out_messages out)) me p" using good_parts(3) [OF g] p by (simp add: coherent_def Let_def)
  then obtain e where e: "e \<in> net \<union> set (out_messages out)" "offers ?m me ?t (is_request p) e ?snap" "?m \<noteq> me"
    using inc(2) by (auto simp: awaited_def)
  have "cut_true (quorum c) A ?m ?t ?snap" using good_parts(4) [OF g e(1)] e(2) by (auto simp: msg_true_def offers_def)
  then obtain G where G: "gl_lead A ?t = Some (?m, G)" "?n \<le> length G" "log_term G ?n = sc_term ?snap"
      "settled (quorum c) A ?t (take ?n G)"
    unfolding cut_true_def by blast
  have v: "view ?s ?L" using good_parts(2) [OF g] by (simp add: tracks_def)
  have law: "lawful A ?L" "lawful A G"
    using protocol_invD(1) [OF good_parts(1) [OF g], of me]
      lead_inv_Some(1) [OF protocol_invD(3) [OF good_parts(1) [OF g]] G(1)] by (auto simp: member_inv_def)
  define es where "es = (if term_of ?s ?n = Some (sc_term ?snap) then drop (?n - base_index ?s) (ps_entries ?s) else [])"
  define s' where "s' = ?s\<lparr>ps_entries := es, ps_commit_index := ?n, ps_snapshot := Some ?snap\<rparr>"
  define r1 where "r1 = r\<lparr>r_incoming_snapshot := None, r_state := s', r_log_changed := True\<rparr>"
  have res: "r' = r1" "out' = emit r1 ?m (SnapshotInstalled ?t (is_request p)) (out\<lparr>out_installed_snapshot := Some ?snap\<rparr>)"
    using run p inc(1) drain_cut [OF ok b]
    by (auto simp: install_snapshot_def Let_def term_at_term_of r1_def s'_def es_def split: if_splits)
  have "view s' (adopt (take ?n G) ?L)"
  proof (cases "term_of ?s ?n = Some (sc_term ?snap)")
    case True
    then have L: "?n \<le> length ?L" "log_term ?L ?n = sc_term ?snap" using view_term [OF v, of ?n] by (auto split: if_splits)
    have "take (Suc (?n - 1)) ?L = take (Suc (?n - 1)) G"
      by (rule lawful_matching [OF law]) (use L G b in \<open>auto simp: log_term_def\<close>)
    then have same: "adopt (take ?n G) ?L = ?L" using b by (simp add: adopt_def) (metis take_is_prefix)
    have "es = drop ?n ?L" using True v b by (simp add: es_def view_def)
    then show ?thesis unfolding same s'_def using L by (simp add: view_def base_index_def base_term_def)
  next
    case False
    have "\<not> prefix (take ?n G) ?L"
    proof
      assume pre: "prefix (take ?n G) ?L"
      then have "?n \<le> length ?L" using prefix_length_le G(2) by fastforce
      moreover have "log_term ?L ?n = log_term (take ?n G) ?n" by (rule log_term_prefix [OF pre]) (use G(2) in simp)
      moreover have "log_term (take ?n G) ?n = log_term G ?n" by (simp add: log_term_def)
      ultimately show False using False view_term [OF v, of ?n] b G(3) by simp
    qed
    then have same: "adopt (take ?n G) ?L = take ?n G" by (simp add: adopt_def)
    show ?thesis unfolding same s'_def using G(2,3) False b by (simp add: view_def base_index_def base_term_def es_def log_term_def)
  qed
  then obtain B where B: "protocol_step (quorum c) me A B" "good (quorum c) B net me r1 out" "?n \<le> gl_ack B me ?t"
    using accept_good [OF g s(1,3) G(1) e(3) G(2), of r1 ?n] G(4) role inc(1) by (auto simp: r1_def s'_def max_def)
  then have B': "good (quorum c) B net me r1 (out\<lparr>out_installed_snapshot := Some ?snap\<rparr>)" by simp
  have "good (quorum c) B net me r1 (emit r1 ?m (SnapshotInstalled ?t (is_request p)) (out\<lparr>out_installed_snapshot := Some ?snap\<rparr>))"
    by (rule good_emit [OF B']) (use s(2) e(1,2) B(3) in \<open>auto simp: r1_def replicates_def msg_true_def\<close>)
  then show ?thesis using res B(1) unfolding implemented_def by blast
qed

lemma compact_good:
  assumes g: "good q A net me r out" and ri: "raft_inv r" and va: "validate_compact r snap = Inr ()"
    and run: "compact r snap out = Inr (r', out')"
  shows "good q A net me r' out'"
proof (cases "ps_snapshot (r_state r) = Some snap")
  case True
  then show ?thesis using run g by (simp add: compact_def)
next
  case False
  let ?s = "r_state r" and ?L = "gl_log A me"
  have v: "base_index ?s < sc_index snap" "term_of ?s (sc_index snap) = Some (sc_term snap)"
    using va False by (auto simp: validate_compact_def and_then_eq_Inr term_at_term_of split: if_splits)
  have ok: "state_ok (r_limits r) (r_id r) ?s" using ri by (simp add: raft_inv_def)
  let ?s' = "?s\<lparr>ps_entries := drop (sc_index snap - base_index ?s) (ps_entries ?s), ps_snapshot := Some snap\<rparr>"
  have res: "r' = r\<lparr>r_state := ?s', r_log_changed := True,
      r_progress := map (\<lambda>(m, p). (m, reset_progress p)) (r_progress r)\<rparr>" "out' = out"
    using run False drain_cut [OF ok v] by (auto simp: compact_def)
  have vw: "view ?s ?L" using good_parts(2) [OF g] by (simp add: tracks_def)
  have "view ?s' ?L"
    by (rule view_cut) (use view_term [OF vw, of "sc_index snap"] v vw in \<open>auto simp: view_def split: if_splits\<close>)
  then have "tracks q A me ?s'" using good_parts(2) [OF g] by (simp add: tracks_def)
  moreover have "coherent A (net \<union> set (out_messages out)) me r'"
    using good_parts(3) [OF g] unfolding res coherent_def Let_def by (auto simp: reset_progress_def)
  ultimately show ?thesis using g by (simp add: good_def res)
qed

section \<open>Acknowledgements and proposals\<close>

lemma advance_obtain:
  assumes "raft_inv r" "r_role r = Leader"
  obtains n b where "advance_commit r = Some (r\<lparr>r_state := (r_state r)\<lparr>ps_commit_index := n\<rparr>\<rparr>, b)"
    "raft_inv (r\<lparr>r_state := (r_state r)\<lparr>ps_commit_index := n\<rparr>\<rparr>)"
  using advance_commit_kept [OF assms] by blast

lemma acknowledge_good:
  assumes g: "good (quorum c) A net me r out" and se: "seated c me r" and lead: "r_role r = Leader"
    and e: "endpoint \<le> last_of (r_state r)" "endpoint \<le> gl_ack A from (ps_term (r_state r))"
    and run: "acknowledge r from endpoint out = Inr (r', out')"
  shows "good (quorum c) A net me r' out'"
proof -
  define r1 where "r1 = set_progress r from (acknowledge_progress endpoint)"
  have s: "raft_inv r" "r_id r = me" "ps_configuration (r_state r) = c" using se by (auto simp: seated_def)
  have k: "raft_inv r1" "r_role r1 = Leader"
    unfolding r1_def using set_progress_kept [OF s(1) lead] acknowledge_progress_ok [OF _ e(1)] by auto
  have g1: "good (quorum c) A net me r1 out"
    unfolding r1_def
    by (rule good_set_progress [OF g lead]) (use e(2) in \<open>auto simp: peer_true_def acknowledge_progress_def Let_def\<close>)
  have f1: "r_id r1 = me" "ps_configuration (r_state r1) = c" using s by (simp_all add: r1_def set_progress_def)
  obtain n b where a: "advance_commit r1 = Some (r1\<lparr>r_state := (r_state r1)\<lparr>ps_commit_index := n\<rparr>\<rparr>, b)"
    and k2: "raft_inv (r1\<lparr>r_state := (r_state r1)\<lparr>ps_commit_index := n\<rparr>\<rparr>)"
    by (rule advance_obtain [OF k])
  let ?r2 = "r1\<lparr>r_state := (r_state r1)\<lparr>ps_commit_index := n\<rparr>\<rparr>"
  have g2: "good (quorum c) A net me ?r2 out" by (rule advance_commit_good [OF g1 k f1 a])
  have "r_role ?r2 = Leader" "r_id ?r2 = me" using k(2) f1(1) by simp_all
  then have "broadcast ?r2 out False = Inr (r', out') \<Longrightarrow> good (quorum c) A net me r' out'"
    "send_append ?r2 from out False = Inr (r', out') \<Longrightarrow> good (quorum c) A net me r' out'"
    using broadcast_good [OF g2 k2] leader_send_good [OF g2 k2] by blast+
  then show ?thesis
    using run g2 unfolding acknowledge_def Let_def r1_def [symmetric] a by (auto split: if_splits)
qed

lemma pending_append_flight:
  assumes "pending_append r from request = Some (FlightAppend n prev endpoint)"
  obtains p where "(from, p) \<in> set (r_progress r)" "FlightAppend n prev endpoint \<in> set (pr_in_flight p)" "n = request"
proof -
  obtain p where p: "map_of (r_progress r) from = Some p"
    and f: "find (\<lambda>f. case f of FlightAppend issued _ _ \<Rightarrow> issued = request | FlightSnapshot _ _ \<Rightarrow> False)
        (pr_in_flight p) = Some (FlightAppend n prev endpoint)"
    using assms by (auto simp: pending_append_def Option.bind_eq_Some_conv)
  from f obtain i where i: "i < length (pr_in_flight p)" "FlightAppend n prev endpoint = pr_in_flight p ! i"
    "case pr_in_flight p ! i of FlightAppend issued _ _ \<Rightarrow> issued = request | FlightSnapshot _ _ \<Rightarrow> False"
    unfolding find_Some_iff by blast
  then have "FlightAppend n prev endpoint \<in> set (pr_in_flight p)" using nth_mem by simp
  moreover have "n = request" using i(3) unfolding i(2) [symmetric] by simp
  ultimately show thesis using that map_of_SomeD [OF p] by blast
qed

lemma receive_appended_good:
  assumes g: "good (quorum c) A net me r out" and se: "seated c me r"
    and ack: "success \<Longrightarrow> \<exists>f \<in> net \<union> set (out_messages out). \<exists>n. delivers me from t request f n \<and> n \<le> gl_ack A from t"
    and run: "receive_appended r from t request success conflict_next out = Inr (r', out')"
  shows "good (quorum c) A net me r' out'"
proof (cases "t = ps_term (r_state r) \<and> r_role r = Leader \<and>
    (\<exists>n prev endpoint. pending_append r from request = Some (FlightAppend n prev endpoint))")
  case False
  then have "r' = r \<and> out' = out"
    using run by (auto simp: receive_appended_def split: if_splits option.splits in_flight.splits)
  then show ?thesis using g by simp
next
  case True
  then obtain n prev endpoint where f: "pending_append r from request = Some (FlightAppend n prev endpoint)"
    and lead: "r_role r = Leader" and t: "t = ps_term (r_state r)" by blast
  have s: "raft_inv r" "r_id r = me" using se by (auto simp: seated_def)
  note po = raft_inv_progress [OF s(1) lead]
  have ends: "prev \<le> last_of (r_state r)" "endpoint \<le> last_of (r_state r)" using pending_append_last [OF po f] by auto
  obtain p where p: "(from, p) \<in> set (r_progress r)" "FlightAppend n prev endpoint \<in> set (pr_in_flight p)" "n = request"
    by (rule pending_append_flight [OF f])
  note fl = good_leader_flights(1) [OF g lead p(1,2)]
  show ?thesis
  proof (cases success)
    case True
    then have "endpoint \<le> gl_ack A from t" using ack fl t p(3) by auto
    then show ?thesis
      using acknowledge_good [OF g se lead ends(2)] run f t lead True by (simp add: receive_appended_def)
  next
    case False
    let ?r1 = "set_progress r from (reject_progress prev (last_index r + 1) conflict_next)"
    have k: "raft_inv ?r1" "r_role ?r1 = Leader"
      using set_progress_kept [OF s(1) lead] reject_progress_ok [OF _ ends(1)] by (simp_all add: last_index_last_of)
    have "good (quorum c) A net me ?r1 out"
      by (rule good_set_progress [OF g lead]) (auto simp: peer_true_def reject_progress_def Let_def)
    then show ?thesis
      using leader_send_good [OF _ k] s(2) run f t lead False by (simp add: receive_appended_def set_progress_def)
  qed
qed

lemma receive_snapshot_installed_good:
  assumes g: "good (quorum c) A net me r out" and se: "seated c me r"
    and ack: "\<exists>f \<in> net \<union> set (out_messages out). \<exists>snap. offers me from t request f snap \<and> sc_index snap \<le> gl_ack A from t"
    and run: "receive_snapshot_installed r from t request out = Inr (r', out')"
  shows "good (quorum c) A net me r' out'"
proof (cases "t = ps_term (r_state r) \<and> r_role r = Leader \<and>
    (\<exists>p snap fs. map_of (r_progress r) from = Some p \<and> pr_in_flight p = FlightSnapshot request snap # fs)")
  case False
  then have "r' = r \<and> out' = out"
    using run by (auto simp: receive_snapshot_installed_def split: if_splits option.splits in_flight.splits list.splits)
  then show ?thesis using g by simp
next
  case True
  then obtain p snap fs where p: "map_of (r_progress r) from = Some p" "pr_in_flight p = FlightSnapshot request snap # fs"
    and lead: "r_role r = Leader" and t: "t = ps_term (r_state r)" by blast
  have s: "raft_inv r" using se by (simp add: seated_def)
  have "ps_snapshot (r_state r) = Some snap"
    using progress_ok_lookup [OF raft_inv_progress [OF s lead] p(1)] p(2) by (simp add: peer_ok_def)
  then have last: "sc_index snap \<le> last_of (r_state r)" by (simp add: last_of_def base_index_def)
  have "flight_true (net \<union> set (out_messages out)) me from t (FlightSnapshot request snap)"
    unfolding t by (rule good_leader_flights(1) [OF g lead map_of_SomeD [OF p(1)]]) (simp add: p(2))
  then have "sc_index snap \<le> gl_ack A from t" using ack by auto
  then show ?thesis
    using acknowledge_good [OF g se lead last] run p t lead by (simp add: receive_snapshot_installed_def)
qed

lemma append_proposals_good:
  assumes g: "good (quorum c) A net me r out" and se: "seated c me r"
    and va: "validate_proposal_count r (length commands) = Inr ()"
    and run: "append_proposals r commands out = Inr (r', out')"
  shows "implemented (quorum c) net me A r' out'"
proof -
  define new where "new = map (\<lambda>command. \<lparr>e_term = ps_term (r_state r), e_command = Some command\<rparr>) commands"
  define r1 where "r1 = r\<lparr>r_log_changed := True, r_state := (r_state r)\<lparr>ps_entries := ps_entries (r_state r) @ new\<rparr>\<rparr>"
  have s: "raft_inv r" "r_id r = me" "ps_configuration (r_state r) = c" using se by (auto simp: seated_def)
  have "0 < length commands"
    "\<not> max_log_entries (r_limits r) - length (ps_entries (r_state r)) < length commands"
    using va by (auto simp: validate_proposal_count_def saturating_sub_def split: if_splits)
  then have fits: "length (ps_entries (r_state r) @ new) \<le> max_log_entries (r_limits r)"
    unfolding new_def length_append length_map by linarith
  have v: "r_role r = Leader" "r_handoff r = None" "last_index r + length new < u64_max"
    "\<forall>e \<in> set new. e_term e = ps_term (r_state r)"
    using va by (auto simp: validate_proposal_count_def checked_add_def new_def split: if_splits option.splits)
  have k: "raft_inv r1" "r_role r1 = Leader" "r_id r1 = me" "ps_configuration (r_state r1) = c"
    unfolding r1_def using leader_append_kept(1) [OF s(1) v(1,2) fits v(3,4)] v(1) s by simp_all
  obtain n b where a: "advance_commit r1 = Some (r1\<lparr>r_state := (r_state r1)\<lparr>ps_commit_index := n\<rparr>\<rparr>, b)"
    and k2: "raft_inv (r1\<lparr>r_state := (r_state r1)\<lparr>ps_commit_index := n\<rparr>\<rparr>)"
    by (rule advance_obtain [OF k(1,2)])
  have br: "broadcast (r1\<lparr>r_state := (r_state r1)\<lparr>ps_commit_index := n\<rparr>\<rparr>) out False = Inr (r', out')"
    using run a unfolding append_proposals_def Let_def r1_def new_def by simp
  have "implemented (quorum c) net me A r1 out"
    unfolding r1_def by (rule leader_extend_good [OF g s(1) v(1,4)])
  then show ?thesis
  proof (rule implemented_mono)
    fix B assume "good (quorum c) B net me r1 out"
    from broadcast_good [OF advance_commit_good [OF this k a] k2 _ _ br] k(2,3) show "good (quorum c) B net me r' out'" by simp
  qed
qed

lemma start_handoff_good:
  assumes g: "good (quorum c) A net me r out" and se: "seated c me r" and lead: "r_role r = Leader"
    and run: "start_handoff r target out = Inr (r', out')"
  shows "good (quorum c) A net me r' out'"
proof -
  define h where "h = \<lparr>lt_id = \<lparr>pid_incarnation = r_incarnation r, pid_generation = r_generation r\<rparr>,
      lt_target = target, lt_term = ps_term (r_state r),
      lt_last_index = last_index r, lt_last_term = last_term r, lt_phase = CatchingUp\<rparr>"
  define r1 where "r1 = (if r_handoff r = None then r\<lparr>r_handoff := Some h\<rparr> else r)"
  have s: "raft_inv r" "r_id r = me" using se by (auto simp: seated_def)
  have "handoff_ok r h" by (simp add: handoff_ok_def h_def)
  then have k: "raft_inv r1" "r_role r1 = Leader" "r_id r1 = me"
    unfolding r1_def using handoff_kept [OF s(1) lead] s lead by auto
  have g1: "good (quorum c) A net me r1 out" using g by (simp add: r1_def)
  show ?thesis
    using run g1 leader_send_good [OF g1 k] unfolding start_handoff_def Let_def h_def [symmetric] r1_def [symmetric]
    by (auto split: if_splits)
qed

lemma drive_handoff_good:
  assumes g: "good q A net me r out" and id: "r_id r = me" and run: "drive_handoff r out retry = (r', out')"
  shows "good q A net me r' out'"
proof -
  have "r' = r \<and> out' = out \<or> (\<exists>h. r_handoff r = Some h \<and>
      r' = r\<lparr>r_handoff := Some (h\<lparr>lt_phase := ElectionRequested\<rparr>)\<rparr> \<and>
      out' = emit r (lt_target h) (TimeoutNow (lt_term h) (pid_generation (lt_id h))
               (lt_last_index h) (lt_last_term h)) out)"
    using run by (auto simp: drive_handoff_def Let_def split: option.splits if_splits)
  then show ?thesis
  proof (elim disjE exE conjE)
    fix h assume h: "r' = r\<lparr>r_handoff := Some (h\<lparr>lt_phase := ElectionRequested\<rparr>)\<rparr>"
      "out' = emit r (lt_target h) (TimeoutNow (lt_term h) (pid_generation (lt_id h))
               (lt_last_index h) (lt_last_term h)) out"
    show ?thesis unfolding h good_fields
      by (rule good_emit [OF g id]) (simp_all add: replicates_def msg_true_def)
  qed (use g in auto)
qed

section \<open>Whole steps\<close>

lemma receive_good:
  assumes g: "good (quorum c) A net me r0 out" and se: "seated c me r0"
    and va: "validate_receive r0 e = Inr ()" and e: "e \<in> net"
    and run: "receive r0 e out = Inr (r', out')"
  shows "implemented (quorum c) net me A r' out'"
proof -
  let ?t = "message_term (env_message e)"
  define r where "r = (if ?t > ps_term (r_state r0) then follow r0 ?t else r0)"
  note rec = run [unfolded receive_def Let_def, folded r_def]
  have s: "seated c me r"
    unfolding r_def using follow_kept se by (auto simp: seated_def)
  have id: "r_id r = me" and ri: "raft_inv r" using s by (simp_all add: seated_def)
  have t: "?t \<le> ps_term (r_state r)" by (simp add: r_def)
  have v: "env_from e \<noteq> me" "env_to e = me" using validate_receive_spec [OF va] se by (simp_all add: seated_def)
  have "implemented (quorum c) net me A r out"
    unfolding r_def using follow_good [OF g] implemented_good [OF g] by simp
  then show ?thesis
  proof (rule implemented_bind)
    fix B assume gB: "good (quorum c) B net me r out"
    have tr: "msg_true (quorum c) B (net \<union> set (out_messages out)) e" using good_parts(4) [OF gB] e by blast
    show "implemented (quorum c) net me B r' out'"
    proof (cases "env_message e")
      case (PreVoteRequest p n i l)
      then show ?thesis using rec pre_vote_request_good [OF gB id] by (auto intro: implemented_good)
    next
      case (PreVoteReply u p n b)
      then show ?thesis using rec by (auto intro: pre_vote_reply_good [OF gB s])
    next
      case (QuorumProbe u n)
      then show ?thesis using rec by (auto intro: quorum_probe_good [OF gB id])
    next
      case (QuorumReply u n)
      then show ?thesis using rec quorum_reply_good [OF gB] by (auto intro: implemented_good)
    next
      case (TimeoutNow u n i l)
      then show ?thesis using rec by (auto intro: timeout_now_good [OF gB s])
    next
      case (RequestVote u i l)
      then obtain E where "gl_ballot B (env_from e) u = Some (env_from e, E)" "i = length E" "l = end_term E"
        using tr by (auto simp: msg_true_def)
      from receive_request_vote_good [OF gB ri id v(1) this] show ?thesis using rec RequestVote by auto
    next
      case (Vote u b)
      then have "b \<Longrightarrow> \<exists>X. gl_ballot B (env_from e) u = Some (me, X)" using tr v by (simp add: msg_true_def)
      from receive_vote_good [OF gB s this] show ?thesis using rec Vote by auto
    next
      case (Append u n i l es k)
      then have tu: "u \<le> ps_term (r_state r)" using t by simp
      show ?thesis using rec Append by (auto intro!: receive_append_good [OF gB s tu e refl v(2,1)])
    next
      case (Appended u n b k)
      then have "b \<Longrightarrow> \<exists>f \<in> net \<union> set (out_messages out). \<exists>n'. delivers me (env_from e) u n f n' \<and> n' \<le> gl_ack B (env_from e) u"
        using tr v by (simp add: msg_true_def)
      from receive_appended_good [OF gB s this] show ?thesis using rec Appended by (auto intro: implemented_good)
    next
      case (InstallSnapshot u n snap)
      then have tu: "u \<le> ps_term (r_state r)" using t by simp
      show ?thesis using rec InstallSnapshot by (auto intro!: offer_snapshot_good [OF gB s tu e refl v(2,1)])
    next
      case (SnapshotInstalled u n)
      then have "\<exists>f \<in> net \<union> set (out_messages out). \<exists>snap. offers me (env_from e) u n f snap \<and> sc_index snap \<le> gl_ack B (env_from e) u"
        using tr v by (simp add: msg_true_def)
      from receive_snapshot_installed_good [OF gB s this] show ?thesis
        using rec SnapshotInstalled by (auto intro: implemented_good)
    qed
  qed
qed

lemma dispatch_good:
  assumes g: "good (quorum c) A net me r out" and se: "seated c me r"
    and va: "validate_event r ev = Inr ()" and e: "\<And>e. ev = Receive e \<Longrightarrow> e \<in> net"
    and run: "dispatch r ev out = Inr (r', out')"
  shows "implemented (quorum c) net me A r' out'"
proof -
  have s: "raft_inv r" "r_id r = me" "ps_configuration (r_state r) = c" using se by (simp_all add: seated_def)
  note ve = va [unfolded validate_event_def Let_def, simplified and_then_eq_Inr]
  have voter: "ev = ElectionTimeout \<or> ev = LivenessTimeout \<Longrightarrow> me \<in> cfg_voters c"
    using ve s by (auto simp: require_def and_then_eq_Inr split: if_splits)
  show ?thesis
  proof (cases ev)
    case ElectionTimeout
    then show ?thesis using campaign_good [OF g se] voter run by simp
  next
    case LivenessTimeout
    have "seated c me (r\<lparr>r_handoff := None\<rparr>)" using no_handoff_kept(1) [OF s(1)] s by (simp add: seated_def)
    then show ?thesis
      using liveness_timeout_good [of c A net me "r\<lparr>r_handoff := None\<rparr>" out] g voter run LivenessTimeout by simp
  next
    case Heartbeat
    show ?thesis
    proof (cases "r_role r = Leader")
      case True
      then obtain r1 out1 where b: "broadcast r out True = Inr (r1, out1)" "r' = r1" "out' = retry_quorum_probe r1 out1"
        using run Heartbeat by (auto simp: and_then_eq_Inr)
      have "r_id r1 = me" using broadcast_kept [OF s(1) True, of out True] b(1) seated_kept [OF se] by (auto simp: seated_def)
      then show ?thesis
        using retry_quorum_probe_good [OF broadcast_good [OF g s(1) True s(2) b(1)]] b(2,3) by (auto intro: implemented_good)
    qed (use run Heartbeat g in \<open>auto intro: implemented_good\<close>)
  next
    case (TransferLeadership target)
    then have "r_role r = Leader" using ve by (auto split: if_splits)
    then show ?thesis using start_handoff_good [OF g se] run TransferLeadership by (auto intro: implemented_good)
  next
    case (AbortLeadershipTransfer token)
    then show ?thesis using g run by (auto intro: implemented_good)
  next
    case (Propose command)
    then show ?thesis using append_proposals_good [OF g se, of "[command]"] ve run by simp
  next
    case (ProposeBatch commands)
    then show ?thesis using append_proposals_good [OF g se] ve run by simp
  next
    case (Receive env)
    then show ?thesis using receive_good [OF g se _ e] ve run by simp
  next
    case (Compact snap)
    then show ?thesis using compact_good [OF g s(1)] ve run by (auto intro: implemented_good)
  next
    case (SnapshotReady token)
    then show ?thesis using install_snapshot_good [OF g se] ve run by simp
  next
    case (SnapshotFailed token)
    then show ?thesis using good_no_incoming [OF g] run by (auto intro: implemented_good)
  qed
qed

lemma good_output:
  "out_messages out' = out_messages out \<Longrightarrow> good q A net me r out \<Longrightarrow> good q A net me r out'"
  by (simp add: good_def)

lemma step_good:
  assumes g: "good (quorum c) A net me r (empty_output r)" and se: "seated c me r" and wf: "event_wf ev"
    and e: "\<And>e. ev = Receive e \<Longrightarrow> e \<in> net" and run: "step r ev = Inr (r', p)"
  obtains out where "r_pending r' = Some (per_id p, out)" "implemented (quorum c) net me A r' out"
  using run
proof (cases rule: step_cases)
  case (finished r1 out1)
  have s: "seated c me (stepping r)" using se by (simp add: seated_def stepping_inv)
  have "good (quorum c) A net me (stepping r) (empty_output r)" using g by (simp add: stepping_def)
  from dispatch_good [OF this s _ e finished(1)] finished(4)
  have im: "implemented (quorum c) net me A r1 out1" by (simp add: validate_event_stepping)
  have "only_exhausted (dispatch (stepping r) ev (empty_output r)) (kept (credited_event (stepping r) ev) (empty_output r))"
    by (rule dispatch_kept [OF _ _ wf]) (use s finished(4) in \<open>simp_all add: seated_def validate_event_stepping\<close>)
  then have "evolves (credited_event (stepping r) ev) r1" using finished(1) by (simp add: kept_def)
  then have id: "r_id r1 = me"
    using s evolves_state credited_event_simps(1) [OF refl, of "stepping r" ev] by (simp add: seated_def evolves_def)
  obtain r2 out2 where d: "drive_handoff r1 out1 (retries_handoff ev) = (r2, out2)" by (metis surj_pair)
  obtain cs where r': "r' = r2\<lparr>r_pending := Some (per_id p, (cancel_transfers
        (map_option (\<lambda>pending. st_id (is_transfer pending)) (r_incoming_snapshot r)) r2 out2)
        \<lparr>out_committed := cs, out_role := r_role r2, out_leader := r_leader r2\<rparr>), r_poisoned := False\<rparr>"
    using finished(2) by (auto simp: finish_step_def Let_def d split: option.splits)
  define out where "out = (cancel_transfers
        (map_option (\<lambda>pending. st_id (is_transfer pending)) (r_incoming_snapshot r)) r2 out2)
        \<lparr>out_committed := cs, out_role := r_role r2, out_leader := r_leader r2\<rparr>"
  have out: "out_messages out = out_messages out2" "r' = r2\<lparr>r_pending := Some (per_id p, out), r_poisoned := False\<rparr>"
    unfolding r' out_def by (auto simp: cancel_transfers_def split: option.splits)
  have "implemented (quorum c) net me A r2 out2"
    by (rule implemented_mono [OF im drive_handoff_good [OF _ id d]])
  then have "implemented (quorum c) net me A r' out"
    using good_output [OF out(1)] unfolding implemented_def out(2) good_fields by blast
  with out(2) that show ?thesis by simp
qed simp_all

end
