(* ===== verification/RaftProperties.thy ===== *)
theory RaftProperties
  imports RaftStep
begin

text \<open>
  What one node of the consensus kernel guarantees to its caller, over \<open>step\<close>, \<open>persisted\<close> and
  \<open>recover\<close>, with the single-voter node \<open>solo\<close> as the concrete instance.
\<close>

section \<open>A concrete node\<close>

definition solo_configuration :: configuration where
  "solo_configuration = \<lparr>cfg_domain = [7], cfg_identity = [9], cfg_voters = {1}, cfg_learners = {}, cfg_joint = None\<rparr>"

definition solo :: "nat raft" where
  "solo = \<lparr>r_id = 1,
     r_state = from_authenticated_parts solo_configuration 0 None 0 [],
     r_role = Follower, r_leader = None, r_votes = {}, r_progress = [], r_limits = default_limits,
     r_append_window = 1, r_generation = 0, r_incarnation = 0, r_initialized = False,
     r_log_changed = False, r_request = 0, r_incoming_snapshot = None, r_pending = None,
     r_poisoned = False, r_liveness = default_liveness, r_handoff = None\<rparr>"

text \<open>Member \<open>me\<close> of a group of three.\<close>

definition trio_configuration :: configuration where
  "trio_configuration = \<lparr>cfg_domain = [7], cfg_identity = [9], cfg_voters = {1, 2, 3}, cfg_learners = {}, cfg_joint = None\<rparr>"

definition trio :: "member_id \<Rightarrow> nat raft" where
  "trio me = solo\<lparr>r_id := me, r_state := from_authenticated_parts trio_configuration 0 None 0 []\<rparr>"

text \<open>The definitions that evaluate a step of a concrete node.\<close>

lemmas raft_eval =
  rust_simps u64_max_def Let_def solo_def solo_configuration_def trio_def trio_configuration_def from_authenticated_parts_def default_limits_def
  base_index_def base_term_def default_liveness_def liveness_reset_def contains_def members_def
  majority_def quorum_def quorum_index_def majority_index_def
  last_index_def entry_at_def term_at_def last_term_def committed_range_def recover_def new_raft_def
  available_def durable_state_def role_of_def emit_def emit_all_def follow_def accept_leader_def
  set_progress_def emit_flight_def next_flight_def push_flight_def lane_full_def send_append_def
  broadcast_def matched_of_def advance_commit_def retry_quorum_probe_def start_quorum_probe_def
  fresh_progress_def become_leader_def campaign_def pre_campaign_def liveness_timeout_def log_fresh_def
  validate_proposal_count_def append_proposals_def require_def validate_event_def empty_output_def
  drive_handoff_def cancel_transfers_def hard_state_def finish_step_def step_def persisted_def
  start_handoff_def

lemma new_raft_inv:
  fixes r :: "'c raft"
  assumes "new_raft inc me c lim = Inr r" "config_ok c"
  shows "raft_inv r" "r_state r = from_authenticated_parts c 0 None 0 []"
proof -
  obtain r0 where r0: "recover inc me (from_authenticated_parts c 0 None 0 []) lim = Inr r0"
    and r: "r = r0\<lparr>r_initialized := False\<rparr>"
    using assms(1) by (auto simp: new_raft_def and_then_eq_Inr)
  have ok: "state_ok lim me (from_authenticated_parts c 0 None 0 [] :: 'c persistent_state)"
    using recover_Inr(3) [OF r0] assms(2) by (simp add: from_authenticated_parts_def)
  show "raft_inv r"
    using raft_inv_frame [OF recover_inv(1) [OF ok r0], of r] by (simp add: r)
  show "r_state r = from_authenticated_parts c 0 None 0 []"
    using recover_inv(2) [OF ok r0] by (simp add: r)
qed

lemma solo_new: "new_raft 0 1 solo_configuration default_limits = Inr solo"
  by (simp add: raft_eval)

lemma solo_config_ok: "config_ok solo_configuration"
  by (simp add: config_ok_def group_ok_def solo_configuration_def)

lemma solo_inv: "raft_inv solo"
  using new_raft_inv(1) [OF solo_new solo_config_ok] .

lemma trio_new:
  assumes "me \<in> {1, 2, 3}"
  shows "new_raft 0 me trio_configuration default_limits = Inr (trio me)"
  using assms by (auto simp: raft_eval)

lemma trio_config_ok: "config_ok trio_configuration"
  by (simp add: config_ok_def group_ok_def trio_configuration_def)

lemma trio_inv: "me \<in> {1, 2, 3} \<Longrightarrow> raft_inv (trio me)"
  using new_raft_inv(1) [OF trio_new trio_config_ok] .

lemma trio_campaign:
  "step (trio 1) ElectionTimeout = Inr (fst (projr (step (trio 1) ElectionTimeout)), snd (projr (step (trio 1) ElectionTimeout)))"
  by (simp add: raft_eval)

text \<open>The node once it has elected itself, and once that election is durable.\<close>

definition solo_elected :: "nat raft" where
  "solo_elected = fst (projr (step solo ElectionTimeout))"

definition solo_leader :: "nat raft" where
  "solo_leader = fst (projr (persisted solo_elected \<lparr>pid_incarnation = 0, pid_generation = 1\<rparr>))"

lemma solo_step: "\<exists>p. step solo ElectionTimeout = Inr (solo_elected, p)"
  by (simp add: solo_elected_def) (simp add: raft_eval)

lemma solo_elected_inv: "raft_inv solo_elected"
  using solo_step step_Inr [OF solo_inv, of ElectionTimeout solo_elected] by (auto simp: event_wf_def)

lemma solo_persisted:
  "\<exists>out. persisted solo_elected \<lparr>pid_incarnation = 0, pid_generation = 1\<rparr> = Inr (solo_leader, out)"
  unfolding solo_leader_def solo_elected_def by (simp add: raft_eval)

lemma solo_leader_inv: "raft_inv solo_leader"
  using solo_persisted persisted_inv(1) [OF solo_elected_inv] by blast

lemma solo_leader_eval:
  "solo_leader = solo\<lparr>r_state := (r_state solo)\<lparr>ps_term := 1, ps_voted_for := Some 1, ps_commit_index := 1,
      ps_entries := [\<lparr>e_term = 1, e_command = None\<rparr>]\<rparr>, r_role := Leader, r_leader := Some 1,
      r_votes := {1}, r_generation := 1, r_initialized := True, r_log_changed := True\<rparr>"
  unfolding solo_leader_def solo_elected_def by (simp add: raft_eval)

section \<open>Steps\<close>

text \<open>
  C7: Every successful step of a well-formed node leaves it well-formed, and the state it hands out
  for publication is always accepted again by \<open>recover\<close> for the same member and limits, so a crash
  after publication can never strand the node.
\<close>

theorem step_preserves_invariant:
  assumes "raft_inv r" "event_wf ev" "step r ev = Inr (r', p)"
  shows "raft_inv r' \<and>
     (\<exists>r''. recover inc (r_id r) (per_state p) (r_limits r) = Inr r'' \<and> raft_inv r'' \<and> r_state r'' = r_state r')"
proof -
  obtain out where k: "raft_inv r'" "published r r' p out"
    using assms by (rule step_Inr)
  then have ok: "state_ok (r_limits r) (r_id r) (per_state p)" "limits_ok (r_limits r)"
    by (auto simp: raft_inv_def published_def)
  from recover_state_ok [OF this] obtain r'' where rec: "recover inc (r_id r) (per_state p) (r_limits r) = Inr r''"
    by blast
  with k recover_inv [OF ok(1) rec] show ?thesis by (auto simp: published_def)
qed

theorem step_preserves_invariant_witness:
  "step solo ElectionTimeout = Inr (solo_elected, snd (projr (step solo ElectionTimeout))) \<and> raft_inv solo_elected"
proof -
  have eq: "step solo ElectionTimeout = Inr (solo_elected, snd (projr (step solo ElectionTimeout)))"
    using solo_step by auto
  show ?thesis
    using step_preserves_invariant [OF solo_inv _ eq, where inc = 1] eq by (simp add: event_wf_def)
qed

text \<open>
  C8: A step never panics. When it fails, either it refused the event and left the node exactly as it
  was, or a counter ran out midway and the node fails closed: from then on every event and every
  publication token is answered with \<open>RecoveryRequired\<close>.
\<close>

theorem step_fails_closed:
  assumes "raft_inv r" "event_wf ev" "step r ev = Inl (f, r')"
  shows "(\<exists>e. f = Err e) \<and>
     (r' = r \<or> f = Err CounterExhausted \<and> (\<forall>ev'. step r' ev' = Inl (Err RecoveryRequired, r')) \<and>
       (\<forall>token. persisted r' token = Inl RecoveryRequired) \<and> durable_state r' = Inl RecoveryRequired)"
  using assms
  by (cases rule: step_Inl) (auto simp: step_def available_def persisted_def durable_state_def)

theorem step_fails_closed_witness:
  "step solo (Propose 5) = Inl (Err NotLeader, solo) \<and> NotLeader \<noteq> CounterExhausted \<and>
   ((\<exists>e. Err NotLeader = Err e) \<and> solo = solo)"
proof -
  have eq: "step solo (Propose 5) = Inl (Err NotLeader, solo)" by (simp add: raft_eval)
  show ?thesis using step_fails_closed [OF solo_inv _ eq] eq by (simp add: event_wf_def)
qed

text \<open>
  C10: Across a step the durable promises of a node only grow: the term never decreases, a vote is
  never changed within its term, the commit index never decreases, and every committed entry that is
  still retained keeps its index, term and command.
\<close>

theorem step_monotone:
  assumes "raft_inv r" "event_wf ev" "step r ev = Inr (r', p)"
  shows "ps_configuration (r_state r') = ps_configuration (r_state r) \<and>
     ps_term (r_state r) \<le> ps_term (r_state r') \<and>
     (ps_term (r_state r') = ps_term (r_state r) \<and> ps_voted_for (r_state r) \<noteq> None \<longrightarrow>
        ps_voted_for (r_state r') = ps_voted_for (r_state r)) \<and>
     ps_commit_index (r_state r) \<le> ps_commit_index (r_state r') \<and>
     (\<forall>i. base_index (r_state r') < i \<and> i \<le> ps_commit_index (r_state r) \<longrightarrow> entry_at r' i = entry_at r i)"
proof -
  obtain out where "state_evolves (r_state r) (r_state r')"
    using assms by (rule step_Inr)
  then show ?thesis by (auto simp: state_evolves_def entry_at_entry_of)
qed

lemma solo_propose:
  "step solo_leader (Propose 5) = Inr (fst (projr (step solo_leader (Propose 5))), snd (projr (step solo_leader (Propose 5))))"
  unfolding solo_leader_eval by (simp add: raft_eval)

theorem step_monotone_witness:
  "entry_at (fst (projr (step solo_leader (Propose 5)))) 1 = entry_at solo_leader 1 \<and>
   entry_at solo_leader 1 = Some \<lparr>e_term = 1, e_command = None\<rparr>"
proof -
  have "base_index (r_state (fst (projr (step solo_leader (Propose 5))))) = 0"
    unfolding solo_leader_eval by (simp add: raft_eval)
  moreover have "ps_commit_index (r_state solo_leader) = 1" "entry_at solo_leader 1 = Some \<lparr>e_term = 1, e_command = None\<rparr>"
    by (simp_all add: solo_leader_eval raft_eval)
  ultimately show ?thesis
    using step_monotone [OF solo_leader_inv _ solo_propose] by (simp add: event_wf_def)
qed

text \<open>
  C11: The committed entries a step releases are exactly the entries between the old and the new commit
  index, in order, without gaps or duplicates, with the contents of the log. After a snapshot
  installation they start behind the snapshot.
\<close>

theorem step_commits_exactly:
  assumes "raft_inv r" "event_wf ev" "step r ev = Inr (r', p)"
  shows "\<exists>out. r_pending r' = Some (per_id p, out) \<and>
     map co_index (out_committed out) =
       [max (ps_commit_index (r_state r)) (base_index (r_state r')) + 1..<ps_commit_index (r_state r') + 1] \<and>
     map (\<lambda>c. Some (co_entry c)) (out_committed out) = map (\<lambda>c. entry_at r' (co_index c)) (out_committed out)"
proof -
  obtain out where "published r r' p out"
    using assms by (rule step_Inr)
  then show ?thesis by (auto simp: published_def entry_at_entry_of)
qed

theorem step_commits_exactly_witness:
  "\<exists>out. r_pending (fst (projr (step solo_leader (Propose 5)))) =
       Some (per_id (snd (projr (step solo_leader (Propose 5)))), out) \<and> map co_index (out_committed out) = [2]"
proof -
  have "base_index (r_state (fst (projr (step solo_leader (Propose 5))))) = 0"
    "ps_commit_index (r_state (fst (projr (step solo_leader (Propose 5))))) = 2"
    "ps_commit_index (r_state solo_leader) = 1"
    unfolding solo_leader_eval by (simp_all add: raft_eval)
  then show ?thesis
    using step_commits_exactly [OF solo_leader_inv _ solo_propose] by (auto simp: event_wf_def upt_rec)
qed

text \<open>
  C9: No released message runs ahead of the state that was published with it. A granted vote is the
  recorded vote of that term, a vote request carries the candidate's own recorded vote and its log
  endpoint, an append carries a consecutive piece of the log behind the entry it names, and a
  snapshot offer carries the node's own snapshot.
\<close>

theorem step_messages_truthful:
  assumes "raft_inv r" "event_wf ev" "step r ev = Inr (r', p)"
    and "r_pending r' = Some (token, out)" "e \<in> set (out_messages out)"
  shows "env_from e = r_id r \<and>
    (case env_message e of
       Vote t granted \<Rightarrow> granted \<longrightarrow> t = ps_term (per_state p) \<and> ps_voted_for (per_state p) = Some (env_to e)
     | RequestVote t i lt \<Rightarrow> t = ps_term (per_state p) \<and> ps_voted_for (per_state p) = Some (r_id r) \<and>
         i = last_index r' \<and> lt = last_term r'
     | Append t _ prev prev_term es commit \<Rightarrow> t = ps_term (per_state p) \<and> term_at r' prev = Some prev_term \<and>
         (\<forall>k < length es. entry_at r' (prev + 1 + k) = Some (es ! k)) \<and> commit = ps_commit_index (per_state p)
     | InstallSnapshot t _ snap \<Rightarrow> t = ps_term (per_state p) \<and> ps_snapshot (per_state p) = Some snap
     | _ \<Rightarrow> True)"
proof -
  obtain out' where pub: "published r r' p out'" and inv: "raft_inv r'"
    using assms(1-3) by (rule step_Inr)
  then have ps: "per_state p = r_state r'" "r_id r' = r_id r" and ok: "msg_ok (r_state r') (r_id r') e"
    using assms(4,5) by (auto simp: published_def)
  have slice: "entry_of s (prev + 1 + k) = Some (es ! k)"
    if "term_of s prev = Some prev_term" "prev + length es \<le> last_of s" "k < length es"
      "es = take (length es) (drop (prev - base_index s) (ps_entries s))"
    for s :: "'a persistent_state" and prev prev_term es k
  proof -
    have "base_index s \<le> prev" using term_of_bounds [OF that(1)] by simp
    then have "prev + 1 + k - base_index s - 1 = prev - base_index s + k" by simp
    moreover have "es ! k = ps_entries s ! (prev - base_index s + k)"
      using that(2,3) \<open>base_index s \<le> prev\<close> by (subst that(4)) (simp add: last_of_def)
    ultimately show ?thesis
      using that(2,3) \<open>base_index s \<le> prev\<close> by (simp add: entry_of_def)
  qed
  show ?thesis
    using ok ps slice
    by (auto simp: msg_ok_def repl_ok_def last_index_last_of last_term_def2 entry_at_entry_of term_at_term_of
        split: message.splits)
qed

theorem step_messages_truthful_witness:
  "\<exists>token out e. r_pending (fst (projr (step (trio 1) ElectionTimeout))) = Some (token, out) \<and>
     e \<in> set (out_messages out) \<and> env_message e = RequestVote 1 0 0 \<and> env_to e = 2 \<and>
     ps_voted_for (per_state (snd (projr (step (trio 1) ElectionTimeout)))) = Some 1"
proof -
  have "\<exists>token out e. r_pending (fst (projr (step (trio 1) ElectionTimeout))) = Some (token, out) \<and>
     e \<in> set (out_messages out) \<and> env_message e = RequestVote 1 0 0 \<and> env_to e = 2"
    by (simp add: raft_eval) force
  then obtain token out e where w: "r_pending (fst (projr (step (trio 1) ElectionTimeout))) = Some (token, out)"
      "e \<in> set (out_messages out)" "env_message e = RequestVote 1 0 0" "env_to e = 2" by blast
  have "r_id (trio 1) = 1" by (simp add: raft_eval)
  with step_messages_truthful [OF trio_inv _ trio_campaign w(1,2)] w show ?thesis
    by (auto simp: event_wf_def)
qed

text \<open>
  When a step reports that no write is required, the persistent state is the one that was already
  published and the node had been initialised, so skipping the write loses nothing.
\<close>

lemma step_write_flag:
  assumes "raft_inv r" "event_wf ev" "step r ev = Inr (r', p)" "\<not> per_requires_write p"
  shows "r_initialized r \<and> per_state p = r_state r \<and> r_state r' = r_state r"
proof -
  obtain out where "published r r' p out"
    using assms(1-3) by (rule step_Inr)
  with assms(4) show ?thesis by (auto simp: published_def)
qed

text \<open>
  C27: The durability gate. After a step the node refuses every event, hides its state and holds back
  its output until \<open>persisted\<close> is called with the token of that very step. Only then is the output
  released, and the token is spent: it releases nothing again, neither at once nor after the next
  step.
\<close>

theorem durability_gate:
  assumes "raft_inv r" "event_wf ev" "step r ev = Inr (r1, p)"
  shows "(\<forall>ev'. step r1 ev' = Inl (Err AwaitingDurability, r1)) \<and>
    durable_state r1 = Inl AwaitingDurability \<and>
    (\<forall>token. token \<noteq> per_id p \<longrightarrow> persisted r1 token = Inl StalePersistence) \<and>
    (\<exists>r2 out. persisted r1 (per_id p) = Inr (r2, out) \<and> durable_state r2 = Inr (per_state p) \<and>
       persisted r2 (per_id p) = Inl StalePersistence \<and>
       (\<forall>ev2 r3 p3. event_wf ev2 \<and> step r2 ev2 = Inr (r3, p3) \<longrightarrow> persisted r3 (per_id p) = Inl StalePersistence))"
proof -
  obtain out where inv: "raft_inv r1" and pub: "published r r1 p out"
    using assms by (rule step_Inr)
  define r2 where "r2 = r1\<lparr>r_pending := None, r_initialized := True\<rparr>"
  have per: "persisted r1 (per_id p) = Inr (r2, out)"
    using pub by (simp add: persisted_def published_def r2_def)
  note inv2 = persisted_inv [OF inv per]
  have "persisted r3 (per_id p) = Inl StalePersistence" if later: "event_wf ev2" "step r2 ev2 = Inr (r3, p3)" for ev2 r3 p3
  proof -
    obtain out3 where "published r2 r3 p3 out3"
      by (rule step_Inr [OF inv2(1) later])
    then show ?thesis using pub by (auto simp: published_def persisted_def r2_def)
  qed
  moreover have "persisted r2 (per_id p) = Inl StalePersistence" "durable_state r2 = Inr (per_state p)"
    using pub by (simp_all add: persisted_def published_def durable_state_def available_def r2_def)
  moreover have "step r1 ev' = Inl (Err AwaitingDurability, r1)" for ev'
    using pub by (simp add: step_def available_def published_def)
  moreover have "durable_state r1 = Inl AwaitingDurability"
    "token \<noteq> per_id p \<Longrightarrow> persisted r1 token = Inl StalePersistence" for token
    using pub by (auto simp: durable_state_def available_def published_def persisted_def)
  ultimately show ?thesis using per by blast
qed

theorem durability_gate_witness:
  "step solo_elected Heartbeat = Inl (Err AwaitingDurability, solo_elected) \<and>
   durable_state solo_elected = Inl AwaitingDurability"
proof -
  obtain p where eq: "step solo ElectionTimeout = Inr (solo_elected, p)" using solo_step by blast
  show ?thesis using durability_gate [OF solo_inv _ eq] by (simp add: event_wf_def)
qed

section \<open>Recovery\<close>



section \<open>Quorums\<close>

text \<open>
  Any two quorums of an admitted configuration, stable or joint, share a voter, and a superset of a
  quorum is a quorum.
\<close>

lemma quorum_intersection:
  assumes "config_ok c" "quorum c P" "quorum c Q"
  shows "P \<inter> Q \<inter> cfg_voters c \<noteq> {} \<and> quorum c (P \<union> Q)"
  using raft_quorum.intersect [OF assms] raft_quorum.mono [OF assms(1,2), of "P \<union> Q"] by simp

text \<open>
  C32: The two public constructors of a configuration yield only admitted configurations, with the
  voters and learners that were passed in; a joint configuration counts both voter groups.
\<close>

theorem constructors_admitted:
  "(stable d i vs ls = Inr c \<longrightarrow>
      config_ok c \<and> cfg_voters c = set vs \<and> cfg_learners c = set ls \<and> cfg_joint c = None) \<and>
   (joint d i old new ls' = Inr c' \<longrightarrow>
      config_ok c' \<and> cfg_voters c' = set old \<union> set new \<and> cfg_learners c' = set ls' \<and>
      cfg_joint c' = Some \<lparr>jv_old = set old, jv_new = set new\<rparr>)"
  using stable_spec [of d i vs ls c] joint_spec [of d i old new ls' c'] by auto

theorem constructors_admitted_witness:
  "\<exists>c c'. stable [7] [9] [1, 2, 3] [4] = Inr c \<and> config_ok c \<and>
     joint [7] [9] [1, 2] [2, 3] [] = Inr c' \<and> cfg_joint c' = Some \<lparr>jv_old = {1, 2}, jv_new = {2, 3}\<rparr>"
proof -
  have "\<exists>c. stable [7] [9] [1, 2, 3] [4] = Inr c" "\<exists>c. joint [7] [9] [1, 2] [2, 3] [] = Inr c"
    by (simp_all add: stable_def joint_def collect_voters_def)
  then obtain c c' where "stable [7] [9] [1, 2, 3] [4] = Inr c" "joint [7] [9] [1, 2] [2, 3] [] = Inr c'" by blast
  then show ?thesis
    using constructors_admitted [of "[7]" "[9]" "[1, 2, 3]" "[4]" c "[1, 2]" "[2, 3]" "[]" c'] by auto
qed

text \<open>
  The quorum index is the greatest log index that a quorum has reached. In an admitted configuration
  the order statistic never runs on an empty group, and an index is at most the result exactly when
  the members that have reached it form a quorum (in both groups of a joint configuration).
\<close>

lemma quorum_index_greatest:
  assumes "config_ok c"
  shows "\<exists>n. quorum_index c m = Some n \<and> (\<forall>k. k \<le> n \<longleftrightarrow> quorum c {v. k \<le> m v})"
  by (rule quorum_index_spec [OF assms, of m]) blast



end
