(* ===== verification/ReadIndex.thy ===== *)
theory ReadIndex
  imports RaftProperties
begin

text \<open>
  Quorum-confirmed read barriers (\<open>crates/fgdb-order/src/read_index.rs\<close>): a leader pins its commit
  index, collects acknowledgements of exactly this round from a quorum of voters, and yields one
  barrier.
\<close>

section \<open>Definitions\<close>

record read_index_probe =
  rp_domain :: digest
  rp_configuration :: digest
  rp_from :: member_id
  rp_to :: member_id
  rp_term :: u64
  rp_round :: u64

record read_index_ack =
  ra_domain :: digest
  ra_configuration :: digest
  ra_from :: member_id
  ra_to :: member_id
  ra_term :: u64
  ra_round :: u64

datatype read_index_error =
    RaftError error
  | CurrentTermNotCommitted
  | LeaderNotConfirmed
  | WrongTerm
  | WrongRound
  | ForeignRound
  | Completed

text \<open>The conversion \<open>From<Error>\<close> that \<open>?\<close> applies.\<close>

definition lift_error :: "error + 'a \<Rightarrow> read_index_error + 'a" where
  "lift_error x = (case x of Inl e \<Rightarrow> Inl (RaftError e) | Inr a \<Rightarrow> Inr a)"

record read_owner =
  ro_incarnation :: nat
  ro_member :: member_id
  ro_domain :: digest
  ro_configuration :: digest
  ro_term :: u64
  ro_round :: u64

definition validate_owner :: "read_owner \<Rightarrow> 'c raft \<Rightarrow> read_index_error + unit" where
  "validate_owner owner r =
     (if ro_incarnation owner \<noteq> r_incarnation r \<or> ro_member owner \<noteq> r_id r then Inl ForeignRound
      else and_then (lift_error (available r)) (\<lambda>_.
        if ro_domain owner \<noteq> cfg_domain (ps_configuration (r_state r)) then Inl (RaftError WrongDomain)
        else if ro_configuration owner \<noteq> cfg_identity (ps_configuration (r_state r))
        then Inl (RaftError WrongConfiguration)
        else if ro_term owner \<noteq> ps_term (r_state r) then Inl WrongTerm
        else if r_role r \<noteq> Leader then Inl (RaftError NotLeader)
        else if r_handoff r \<noteq> None then Inl (RaftError LeadershipTransferInProgress)
        else Inr ()))"

record read_index_round =
  rr_owner :: "read_owner option"
  rr_configuration :: configuration
  rr_index :: u64
  rr_acknowledged :: "member_id set"

record read_index =
  ri_owner :: read_owner
  ri_index :: u64

definition begin_read_index :: "'c raft \<Rightarrow> read_index_error + (read_index_round \<times> 'c raft)" where
  "begin_read_index r =
     and_then (lift_error (available r)) (\<lambda>_.
       if r_role r \<noteq> Leader then Inl (RaftError NotLeader)
       else if r_handoff r \<noteq> None then Inl (RaftError LeadershipTransferInProgress)
       else if ps_term (r_state r) = 0
          \<or> term_at r (ps_commit_index (r_state r)) \<noteq> Some (ps_term (r_state r))
       then Inl CurrentTermNotCommitted
       else case checked_add (r_request r) 1 of
         None \<Rightarrow> Inl (RaftError CounterExhausted)
       | Some round \<Rightarrow>
           Inr (\<lparr>rr_owner = Some \<lparr>ro_incarnation = r_incarnation r, ro_member = r_id r,
                    ro_domain = cfg_domain (ps_configuration (r_state r)),
                    ro_configuration = cfg_identity (ps_configuration (r_state r)),
                    ro_term = ps_term (r_state r), ro_round = round\<rparr>,
                 rr_configuration = ps_configuration (r_state r),
                 rr_index = ps_commit_index (r_state r), rr_acknowledged = {r_id r}\<rparr>,
                r\<lparr>r_request := round\<rparr>))"

definition acknowledge_read_index :: "'c raft \<Rightarrow> read_index_probe \<Rightarrow> read_index_error + read_index_ack" where
  "acknowledge_read_index r probe =
     and_then (lift_error (available r)) (\<lambda>_.
       let c = ps_configuration (r_state r)
       in if rp_domain probe \<noteq> cfg_domain c then Inl (RaftError WrongDomain)
          else if rp_configuration probe \<noteq> cfg_identity c then Inl (RaftError WrongConfiguration)
          else if rp_to probe \<noteq> r_id r \<or> rp_from probe = r_id r then Inl (RaftError WrongRecipient)
          else if \<not> contains c (rp_from probe) then Inl (RaftError UnknownMember)
          else if rp_from probe \<notin> cfg_voters c \<or> r_id r \<notin> cfg_voters c then Inl (RaftError NotVoter)
          else if rp_round probe = 0 \<or> rp_term probe = 0 then Inl (RaftError InvalidMessage)
          else if rp_term probe \<noteq> ps_term (r_state r) then Inl WrongTerm
          else if r_role r \<noteq> Follower \<or> r_leader r \<noteq> Some (rp_from probe) then Inl LeaderNotConfirmed
          else Inr \<lparr>ra_domain = rp_domain probe, ra_configuration = rp_configuration probe,
                    ra_from = r_id r, ra_to = rp_from probe, ra_term = rp_term probe,
                    ra_round = rp_round probe\<rparr>)"

definition active_owner :: "read_index_round \<Rightarrow> 'c raft \<Rightarrow> read_index_error + read_owner" where
  "active_owner round r =
     (case rr_owner round of
        None \<Rightarrow> Inl Completed
      | Some owner \<Rightarrow> and_then (validate_owner owner r) (\<lambda>_. Inr owner))"

definition probes :: "read_index_round \<Rightarrow> 'c raft \<Rightarrow> read_index_error + read_index_probe list" where
  "probes round r =
     and_then (active_owner round r) (\<lambda>owner.
       Inr (map (\<lambda>member. \<lparr>rp_domain = ro_domain owner, rp_configuration = ro_configuration owner,
                  rp_from = ro_member owner, rp_to = member, rp_term = ro_term owner,
                  rp_round = ro_round owner\<rparr>)
            (ascending (cfg_voters (rr_configuration round) - rr_acknowledged round))))"

definition acknowledge_round ::
  "read_index_round \<Rightarrow> 'c raft \<Rightarrow> read_index_ack \<Rightarrow> read_index_error + read_index_round" where
  "acknowledge_round round r ack =
     and_then (active_owner round r) (\<lambda>owner.
       if ra_domain ack \<noteq> ro_domain owner then Inl (RaftError WrongDomain)
       else if ra_configuration ack \<noteq> ro_configuration owner then Inl (RaftError WrongConfiguration)
       else if ra_to ack \<noteq> ro_member owner \<or> ra_from ack = ro_member owner
       then Inl (RaftError WrongRecipient)
       else if \<not> contains (rr_configuration round) (ra_from ack) then Inl (RaftError UnknownMember)
       else if ra_from ack \<notin> cfg_voters (rr_configuration round) then Inl (RaftError NotVoter)
       else if ra_term ack \<noteq> ro_term owner then Inl WrongTerm
       else if ra_round ack \<noteq> ro_round owner then Inl WrongRound
       else Inr (round\<lparr>rr_acknowledged := insert (ra_from ack) (rr_acknowledged round)\<rparr>))"

definition try_complete ::
  "read_index_round \<Rightarrow> 'c raft \<Rightarrow> read_index_error + (read_index_round \<times> read_index option)" where
  "try_complete round r =
     and_then (active_owner round r) (\<lambda>owner.
       if \<not> quorum (rr_configuration round) (rr_acknowledged round) then Inr (round, None)
       else Inr (round\<lparr>rr_owner := None, rr_acknowledged := {}\<rparr>,
                 Some \<lparr>ri_owner = owner, ri_index = rr_index round\<rparr>))"

definition validate_read_index :: "read_index \<Rightarrow> 'c raft \<Rightarrow> read_index_error + unit" where
  "validate_read_index ri r = validate_owner (ri_owner ri) r"

section \<open>A round\<close>

text \<open>Acknowledgements arrive one by one, each checked against the leader as it is then; a refused one
  leaves the round as it was.\<close>

fun collect_acks :: "read_index_round \<Rightarrow> ('c raft \<times> read_index_ack) list \<Rightarrow> read_index_round" where
  "collect_acks round [] = round"
| "collect_acks round ((r, ack) # rest) =
     collect_acks (case acknowledge_round round r ack of Inl _ \<Rightarrow> round | Inr round' \<Rightarrow> round') rest"

definition answers :: "read_owner \<Rightarrow> member_id \<Rightarrow> read_index_ack \<Rightarrow> bool" where
  "answers owner v ack \<longleftrightarrow> ra_from ack = v \<and> ra_to ack = ro_member owner \<and> ra_term ack = ro_term owner \<and>
     ra_round ack = ro_round owner \<and> ra_domain ack = ro_domain owner \<and>
     ra_configuration ack = ro_configuration owner"

definition round_of :: "read_index_round \<Rightarrow> read_owner \<Rightarrow> read_index_round \<Rightarrow> read_index_ack set \<Rightarrow> bool" where
  "round_of start owner round acks \<longleftrightarrow>
     rr_owner round = Some owner \<and> rr_configuration round = rr_configuration start \<and>
     rr_index round = rr_index start \<and>
     (\<forall>v \<in> rr_acknowledged round. v = ro_member owner \<or>
        v \<in> cfg_voters (rr_configuration start) \<and> (\<exists>a \<in> acks. answers owner v a))"

lemma acknowledge_round_Inr:
  assumes "acknowledge_round round r ack = Inr round'" "rr_owner round = Some owner"
  shows "answers owner (ra_from ack) ack" "ra_from ack \<in> cfg_voters (rr_configuration round)"
    "round' = round\<lparr>rr_acknowledged := insert (ra_from ack) (rr_acknowledged round)\<rparr>"
  using assms
  by (auto simp: acknowledge_round_def active_owner_def and_then_eq_Inr answers_def split: if_splits)

lemma acknowledge_round_keeps:
  assumes "round_of start owner round acks" "acknowledge_round round r ack = Inr round'"
  shows "round_of start owner round' (insert ack acks)"
proof -
  have "rr_owner round = Some owner" using assms(1) by (simp add: round_of_def)
  from acknowledge_round_Inr [OF assms(2) this] assms(1) show ?thesis by (auto simp: round_of_def)
qed

lemma round_of_mono: "round_of start owner round acks \<Longrightarrow> acks \<subseteq> acks' \<Longrightarrow> round_of start owner round acks'"
  unfolding round_of_def by blast

lemma collect_acks_keeps:
  "round_of start owner round acks \<Longrightarrow>
     round_of start owner (collect_acks round steps) (acks \<union> snd ` set steps)"
proof (induction round steps arbitrary: acks rule: collect_acks.induct)
  case (2 round r ack rest)
  have "round_of start owner (case acknowledge_round round r ack of Inl _ \<Rightarrow> round | Inr round' \<Rightarrow> round')
      (insert ack acks)"
    using acknowledge_round_keeps [OF "2.prems"] round_of_mono [OF "2.prems", of "insert ack acks"]
    by (auto split: sum.splits)
  from "2.IH" [OF this] show ?case by simp
qed simp

lemma lift_error_Inr [simp]: "lift_error x = Inr a \<longleftrightarrow> x = Inr a"
  by (simp add: lift_error_def split: sum.splits)

lemma begin_read_index_Inr:
  assumes "begin_read_index r = Inr (round, r')"
  shows "available r = Inr ()" "r_role r = Leader" "r_handoff r = None"
    "term_at r (ps_commit_index (r_state r)) = Some (ps_term (r_state r))"
    "r' = r\<lparr>r_request := r_request r + 1\<rparr>"
    "round = \<lparr>rr_owner = Some \<lparr>ro_incarnation = r_incarnation r, ro_member = r_id r,
                ro_domain = cfg_domain (ps_configuration (r_state r)),
                ro_configuration = cfg_identity (ps_configuration (r_state r)),
                ro_term = ps_term (r_state r), ro_round = r_request r + 1\<rparr>,
              rr_configuration = ps_configuration (r_state r),
              rr_index = ps_commit_index (r_state r), rr_acknowledged = {r_id r}\<rparr>"
  using assms
  by (auto simp: begin_read_index_def and_then_eq_Inr checked_add_def split: if_splits option.splits)

end
