(* ===== verification/RaftCluster.thy ===== *)
theory RaftCluster
  imports ReadIndex
begin

text \<open>
  A group of nodes around the kernel, under the contract its callers follow: a step's state is
  written before its output is released, released messages may be delayed, repeated, reordered or
  lost, and a node may fail or restart from its last written state at any time. The ballots record
  which candidate a member's written state has ever voted for in a term.
\<close>

section \<open>The group\<close>

record 'c cluster =
  cl_node :: "member_id \<Rightarrow> 'c raft"
  cl_durable :: "member_id \<Rightarrow> 'c persistent_state option"
  cl_network :: "'c envelope set"
  cl_ballots :: "member_id \<Rightarrow> u64 \<Rightarrow> member_id option"

definition cast :: "member_id \<Rightarrow> 'c persistent_state \<Rightarrow> (member_id \<Rightarrow> u64 \<Rightarrow> member_id option) \<Rightarrow>
    member_id \<Rightarrow> u64 \<Rightarrow> member_id option" where
  "cast me s ballots =
     (case ps_voted_for s of None \<Rightarrow> ballots
      | Some candidate \<Rightarrow> ballots(me := (ballots me)(ps_term s \<mapsto> candidate)))"

text \<open>What the environment may hand to a node.\<close>

definition deliverable :: "'c cluster \<Rightarrow> 'c event \<Rightarrow> bool" where
  "deliverable cl ev =
     (case ev of Receive e \<Rightarrow> e \<in> cl_network cl | Compact snap \<Rightarrow> cut_wf snap | _ \<Rightarrow> True)"

definition set_node :: "'c cluster \<Rightarrow> member_id \<Rightarrow> 'c raft \<Rightarrow> 'c cluster" where
  "set_node cl me r = cl\<lparr>cl_node := (cl_node cl)(me := r)\<rparr>"

inductive cluster_step ::
  "configuration \<Rightarrow> (member_id \<Rightarrow> limits) \<Rightarrow> 'c cluster \<Rightarrow> 'c cluster \<Rightarrow> bool" for c lim where
  act: "contains c me \<Longrightarrow> deliverable cl ev \<Longrightarrow> step (cl_node cl me) ev = Inr (r, p) \<Longrightarrow>
    cluster_step c lim cl (set_node cl me r)"
| refuse: "contains c me \<Longrightarrow> deliverable cl ev \<Longrightarrow> step (cl_node cl me) ev = Inl (f, r) \<Longrightarrow>
    cluster_step c lim cl (set_node cl me r)"
| publish: "contains c me \<Longrightarrow> \<not> r_poisoned (cl_node cl me) \<Longrightarrow> r_pending (cl_node cl me) \<noteq> None \<Longrightarrow>
    cluster_step c lim cl (cl\<lparr>cl_durable := (cl_durable cl)(me \<mapsto> r_state (cl_node cl me)),
      cl_ballots := cast me (r_state (cl_node cl me)) (cl_ballots cl)\<rparr>)"
| release: "contains c me \<Longrightarrow> cl_durable cl me = Some (r_state (cl_node cl me)) \<Longrightarrow>
    persisted (cl_node cl me) token = Inr (r, out) \<Longrightarrow>
    cluster_step c lim cl ((set_node cl me r)\<lparr>cl_network := cl_network cl \<union> set (out_messages out)\<rparr>)"
| fail: "contains c me \<Longrightarrow>
    cluster_step c lim cl (set_node cl me (publication_failed (cl_node cl me)))"
| restart: "contains c me \<Longrightarrow> cl_durable cl me = Some s \<Longrightarrow> recover inc me s (lim me) = Inr r \<Longrightarrow>
    cluster_step c lim cl (set_node cl me r)"
| rebuild: "contains c me \<Longrightarrow> cl_durable cl me = None \<Longrightarrow> new_raft inc me c (lim me) = Inr r \<Longrightarrow>
    cluster_step c lim cl (set_node cl me r)"
| tune: "contains c me \<Longrightarrow> configure_append_pipeline (cl_node cl me) window = Inr r \<Longrightarrow>
    cluster_step c lim cl (set_node cl me r)"
| read: "contains c me \<Longrightarrow> begin_read_index (cl_node cl me) = Inr (round, r) \<Longrightarrow>
    cluster_step c lim cl (set_node cl me r)"

text \<open>A group starts with fresh nodes, nothing written and nothing sent.\<close>

definition cluster_init :: "configuration \<Rightarrow> (member_id \<Rightarrow> limits) \<Rightarrow> 'c cluster \<Rightarrow> bool" where
  "cluster_init c lim cl \<longleftrightarrow> config_ok c \<and>
     (\<forall>me. contains c me \<longrightarrow> (\<exists>inc. new_raft inc me c (lim me) = Inr (cl_node cl me))) \<and>
     cl_durable cl = (\<lambda>_. None) \<and> cl_network cl = {} \<and> cl_ballots cl = (\<lambda>_ _. None)"

section \<open>The invariant of a member\<close>

definition blank :: "configuration \<Rightarrow> 'c persistent_state" where
  "blank c = from_authenticated_parts c 0 None 0 []"

definition durable_ok :: "configuration \<Rightarrow> (member_id \<Rightarrow> limits) \<Rightarrow> 'c cluster \<Rightarrow> member_id \<Rightarrow> bool" where
  "durable_ok c lim cl me \<longleftrightarrow>
     (case cl_durable cl me of
        None \<Rightarrow> (\<forall>t. cl_ballots cl me t = None)
      | Some s \<Rightarrow> state_ok (lim me) me s \<and> ps_configuration s = c \<and>
          cl_ballots cl me (ps_term s) = ps_voted_for s \<and>
          (\<forall>t. ps_term s < t \<longrightarrow> cl_ballots cl me t = None))"

text \<open>The last written state, the blank one before the first write.\<close>

definition written :: "configuration \<Rightarrow> 'c cluster \<Rightarrow> member_id \<Rightarrow> 'c persistent_state" where
  "written c cl me = (case cl_durable cl me of None \<Rightarrow> blank c | Some s \<Rightarrow> s)"

definition node_ok ::
  "configuration \<Rightarrow> (member_id \<Rightarrow> limits) \<Rightarrow> 'c cluster \<Rightarrow> member_id \<Rightarrow> 'c raft \<Rightarrow> bool" where
  "node_ok c lim cl me r \<longleftrightarrow>
     (\<not> r_poisoned r \<longrightarrow>
        raft_inv r \<and> r_id r = me \<and> r_limits r = lim me \<and> ps_configuration (r_state r) = c \<and>
        state_evolves (written c cl me) (r_state r) \<and>
        (r_pending r = None \<longrightarrow> written c cl me = r_state r) \<and>
        (\<forall>token out. r_pending r = Some (token, out) \<longrightarrow>
           (\<forall>e \<in> set (out_messages out). msg_ok (r_state r) me e)) \<and>
        (electing r \<longrightarrow>
           (\<forall>v \<in> r_votes r. v = me \<or> cl_ballots cl v (ps_term (r_state r)) = Some me)))"

definition network_ok :: "'c cluster \<Rightarrow> bool" where
  "network_ok cl \<longleftrightarrow>
     (\<forall>e \<in> cl_network cl. envelope_wf e \<and>
        (\<forall>t. env_message e = Vote t True \<longrightarrow> cl_ballots cl (env_from e) t = Some (env_to e)))"

definition cluster_inv :: "configuration \<Rightarrow> (member_id \<Rightarrow> limits) \<Rightarrow> 'c cluster \<Rightarrow> bool" where
  "cluster_inv c lim cl \<longleftrightarrow> config_ok c \<and> network_ok cl \<and>
     (\<forall>me. contains c me \<longrightarrow> durable_ok c lim cl me \<and> node_ok c lim cl me (cl_node cl me))"

text \<open>Ballots are never withdrawn.\<close>

definition ballots_le :: "'c cluster \<Rightarrow> 'c cluster \<Rightarrow> bool" where
  "ballots_le cl cl' \<longleftrightarrow> (\<forall>v t m. cl_ballots cl v t = Some m \<longrightarrow> cl_ballots cl' v t = Some m)"

section \<open>Preservation\<close>

lemma set_node_simps [simp]:
  "cl_durable (set_node cl me r) = cl_durable cl" "cl_network (set_node cl me r) = cl_network cl"
  "cl_ballots (set_node cl me r) = cl_ballots cl" "cl_node (set_node cl me r) = (cl_node cl)(me := r)"
  "written c (set_node cl me r) = written c cl" "durable_ok c lim (set_node cl me r) = durable_ok c lim cl"
  "network_ok (set_node cl me r) = network_ok cl" "node_ok c lim (set_node cl me r) = node_ok c lim cl"
  by (simp_all add: set_node_def fun_eq_iff written_def durable_ok_def network_ok_def node_ok_def
      cong: option.case_cong)

lemma set_node_inv:
  assumes "cluster_inv c lim cl" "node_ok c lim cl me r"
  shows "cluster_inv c lim (set_node cl me r)"
  using assms by (auto simp: cluster_inv_def)

lemma cluster_inv_node:
  "cluster_inv c lim cl \<Longrightarrow> contains c me \<Longrightarrow> node_ok c lim cl me (cl_node cl me)"
  by (simp add: cluster_inv_def)

lemma poisoned_ok: "r_poisoned r \<Longrightarrow> node_ok c lim cl me r"
  by (simp add: node_ok_def)

lemma deliverable_wf:
  assumes "cluster_inv c lim cl" "deliverable cl ev"
  shows "event_wf ev"
  using assms by (auto simp: deliverable_def event_wf_def cluster_inv_def network_ok_def split: event.splits)

lemma credited_votes:
  assumes "cluster_inv c lim cl" "deliverable cl ev" "validate_event r ev = Inr ()"
    and "v \<in> r_votes (credited_event (stepping r) ev)"
  shows "v \<in> r_votes r \<or> cl_ballots cl v (ps_term (r_state r)) = Some (r_id r)"
proof (cases "v \<in> r_votes r")
  case False
  then obtain e where e: "ev = Receive e" "env_from e = v" "env_message e = Vote (ps_term (r_state r)) True"
    using assms(4)
    by (auto simp: credited_event_def credited_by_def credited_def split: event.splits message.splits if_splits)
  then have "validate_receive r e = Inr ()"
    using assms(3) by (auto simp: validate_event_def and_then_eq_Inr)
  then have "env_to e = r_id r" by (rule validate_receive_spec(5))
  then show ?thesis
    using assms(1,2) e by (auto simp: cluster_inv_def network_ok_def deliverable_def)
qed simp

lemma act_ok:
  assumes inv: "cluster_inv c lim cl" and me: "contains c me" and ev: "deliverable cl ev"
    and st: "step (cl_node cl me) ev = Inr (r', p)"
  shows "node_ok c lim cl me r'"
proof -
  let ?r = "cl_node cl me"
  have np: "\<not> r_poisoned ?r" "r_pending ?r = None"
    using st by (auto elim!: step_cases simp: available_Inr)
  have ok: "raft_inv ?r" "r_id ?r = me" "r_limits ?r = lim me" "ps_configuration (r_state ?r) = c"
    "written c cl me = r_state ?r"
    "\<And>v. electing ?r \<Longrightarrow> v \<in> r_votes ?r \<Longrightarrow> v = me \<or> cl_ballots cl v (ps_term (r_state ?r)) = Some me"
    using cluster_inv_node [OF inv me] np by (auto simp: node_ok_def)
  obtain out where s: "raft_inv r'" "state_evolves (r_state ?r) (r_state r')" "published ?r r' p out"
      "validate_event ?r ev = Inr ()" "grounded (credited_event (stepping ?r) ev) r'"
    by (rule step_Inr [OF ok(1) deliverable_wf [OF inv ev] st])
  have c: "ps_configuration (r_state r') = c" using s(2) ok(4) by (simp add: state_evolves_def)
  have id: "r_id r' = me" "r_limits r' = lim me" using s(3) ok(2,3) by (simp_all add: published_def)
  have "v = me \<or> cl_ballots cl v (ps_term (r_state r')) = Some me" if "electing r'" "v \<in> r_votes r'" for v
  proof (cases "v = me")
    case False
    with s(5) that id have "electing (credited_event (stepping ?r) ev)"
      "ps_term (r_state r') = ps_term (r_state (credited_event (stepping ?r) ev))"
      "v \<in> r_votes (credited_event (stepping ?r) ev)"
      by (auto simp: grounded_def)
    then have "electing ?r" "ps_term (r_state r') = ps_term (r_state ?r)"
      "v \<in> r_votes (credited_event (stepping ?r) ev)"
      by (simp_all add: electing_def credited_event_simps [OF refl])
    then show ?thesis
      using credited_votes [OF inv ev s(4)] ok(2,6) by auto
  qed simp
  then show ?thesis
    using s(1,2,3) c id ok(5) by (auto simp: node_ok_def published_def)
qed

lemma refuse_ok:
  assumes inv: "cluster_inv c lim cl" and me: "contains c me" and ev: "deliverable cl ev"
    and st: "step (cl_node cl me) ev = Inl (f, r')"
  shows "node_ok c lim cl me r'"
proof (cases "r_poisoned (cl_node cl me)")
  case True
  then have "r' = cl_node cl me" using st by (simp add: step_def available_def)
  with True show ?thesis by (simp add: poisoned_ok)
next
  case False
  then have "raft_inv (cl_node cl me)" using cluster_inv_node [OF inv me] by (simp add: node_ok_def)
  from step_Inl [OF this deliverable_wf [OF inv ev] st] show ?thesis
    using cluster_inv_node [OF inv me] poisoned_ok by metis
qed

lemma ballots_le_refl [simp]: "ballots_le cl cl"
  by (simp add: ballots_le_def)

lemma ballots_le_trans: "ballots_le cl cl' \<Longrightarrow> ballots_le cl' cl'' \<Longrightarrow> ballots_le cl cl''"
  by (simp add: ballots_le_def)

lemma blank_evolves: "ps_configuration s = c \<Longrightarrow> state_evolves (blank c) s"
  by (auto simp: state_evolves_def blank_def from_authenticated_parts_def base_index_def)

lemma node_ok_ballots:
  assumes "node_ok c lim cl me r" "ballots_le cl cl'" "cl_durable cl' me = cl_durable cl me"
  shows "node_ok c lim cl' me r"
  using assms unfolding node_ok_def ballots_le_def written_def by auto

text \<open>Publishing the state of a live node casts its vote in an empty or equal slot.\<close>

lemma ballot_slot:
  assumes "durable_ok c lim cl me" "state_evolves (written c cl me) s"
  shows "(cl_ballots cl me (ps_term s) = None \<or> cl_ballots cl me (ps_term s) = ps_voted_for s) \<and>
    (ps_term s < t \<longrightarrow> cl_ballots cl me t = None)"
proof (cases "cl_durable cl me")
  case (Some x)
  then have x: "ps_term x \<le> ps_term s" "ps_term s = ps_term x \<longrightarrow> ps_voted_for x = None \<or> ps_voted_for s = ps_voted_for x"
      "cl_ballots cl me (ps_term x) = ps_voted_for x" "\<And>t. ps_term x < t \<Longrightarrow> cl_ballots cl me t = None"
    using assms by (auto simp: durable_ok_def written_def state_evolves_def)
  then show ?thesis by (cases "ps_term x = ps_term s") auto
qed (use assms in \<open>auto simp: durable_ok_def\<close>)

lemma cast_le:
  assumes "durable_ok c lim cl me" "state_evolves (written c cl me) s"
  shows "cl_ballots cl v t = Some m \<Longrightarrow> cast me s (cl_ballots cl) v t = Some m"
  using ballot_slot [OF assms] by (auto simp: cast_def split: option.splits)

lemma cast_own:
  assumes "durable_ok c lim cl me" "state_evolves (written c cl me) s"
  shows "cast me s (cl_ballots cl) me (ps_term s) = ps_voted_for s"
    "ps_term s < t \<Longrightarrow> cast me s (cl_ballots cl) me t = None"
  using ballot_slot [OF assms] by (auto simp: cast_def split: option.splits)

lemma cast_other: "v \<noteq> me \<Longrightarrow> cast me s ballots v = ballots v"
  by (simp add: cast_def split: option.splits)

lemma publish_inv:
  assumes inv: "cluster_inv c lim cl" and me: "contains c me"
    and live: "\<not> r_poisoned (cl_node cl me)"
  defines "s \<equiv> r_state (cl_node cl me)"
  defines "cl' \<equiv> cl\<lparr>cl_durable := (cl_durable cl)(me \<mapsto> s), cl_ballots := cast me s (cl_ballots cl)\<rparr>"
  shows "cluster_inv c lim cl'" "ballots_le cl cl'"
proof -
  have ok: "node_ok c lim cl me (cl_node cl me)" "durable_ok c lim cl me"
    using inv me by (auto simp: cluster_inv_def)
  then have ev: "state_evolves (written c cl me) s" and so: "state_ok (lim me) me s" "ps_configuration s = c"
    using live by (auto simp: node_ok_def raft_inv_def s_def)
  show le: "ballots_le cl cl'"
    using cast_le [OF ok(2) ev] by (simp add: ballots_le_def cl'_def)
  have "durable_ok c lim cl' x \<and> node_ok c lim cl' x (cl_node cl' x)" if "contains c x" for x
  proof (cases "x = me")
    case True
    have "durable_ok c lim cl' me"
      using so cast_own [OF ok(2) ev] by (simp add: durable_ok_def cl'_def)
    moreover have "written c cl' me = s" by (simp add: written_def cl'_def)
    then have "node_ok c lim cl' me (cl_node cl me)"
      using ok(1) le by (auto simp: node_ok_def ballots_le_def s_def)
    ultimately show ?thesis using True by (simp add: cl'_def)
  next
    case False
    then have "durable_ok c lim cl x" "node_ok c lim cl x (cl_node cl x)"
      using inv that by (auto simp: cluster_inv_def)
    then show ?thesis
      using False node_ok_ballots [OF _ le, of c lim x]
      by (auto simp: durable_ok_def cl'_def cast_other split: option.splits)
  qed
  moreover have "network_ok cl'"
    using inv le by (auto simp: cluster_inv_def network_ok_def ballots_le_def cl'_def)
  ultimately show "cluster_inv c lim cl'" using inv by (simp add: cluster_inv_def)
qed

lemma msg_ok_wf:
  assumes "msg_ok s me e" "state_ok lim me s"
  shows "envelope_wf e"
  using assms
  by (auto simp: msg_ok_def repl_ok_def envelope_wf_def state_ok_def cut_ok_def cut_wf_def split: message.splits)

lemma release_inv:
  assumes inv: "cluster_inv c lim cl" and me: "contains c me"
    and dur: "cl_durable cl me = Some (r_state (cl_node cl me))"
    and per: "persisted (cl_node cl me) token = Inr (r', out)"
  shows "cluster_inv c lim ((set_node cl me r')\<lparr>cl_network := cl_network cl \<union> set (out_messages out)\<rparr>)"
proof -
  let ?r = "cl_node cl me" and ?cl = "(set_node cl me r')\<lparr>cl_network := cl_network cl \<union> set (out_messages out)\<rparr>"
  note p = persisted_Inr [OF per]
  have ok: "node_ok c lim cl me ?r" "durable_ok c lim cl me" using inv me by (auto simp: cluster_inv_def)
  have r: "raft_inv ?r" "r_id ?r = me" "r_limits ?r = lim me" "written c cl me = r_state ?r"
    and msgs: "\<forall>e \<in> set (out_messages out). msg_ok (r_state ?r) me e"
    using ok(1) p(1,2) dur by (auto simp: node_ok_def written_def)
  have "node_ok c lim cl me r'"
    using ok(1) p r(4) persisted_inv [OF r(1) per] by (auto simp: node_ok_def electing_def)
  then have base: "cluster_inv c lim (set_node cl me r')" by (rule set_node_inv [OF inv])
  have "state_ok (lim me) me (r_state ?r)" using r by (auto simp: raft_inv_def)
  moreover have b: "cl_ballots cl me (ps_term (r_state ?r)) = ps_voted_for (r_state ?r)"
    using ok(2) dur by (simp add: durable_ok_def)
  ultimately have new: "envelope_wf e \<and> (\<forall>t. env_message e = Vote t True \<longrightarrow>
      cl_ballots cl (env_from e) t = Some (env_to e))" if "e \<in> set (out_messages out)" for e
    using msgs that msg_ok_wf by (fastforce simp: msg_ok_def)
  have "network_ok ?cl"
    using new inv by (auto simp: network_ok_def cluster_inv_def)
  moreover have "durable_ok c lim ?cl x = durable_ok c lim (set_node cl me r') x"
    "node_ok c lim ?cl x q = node_ok c lim (set_node cl me r') x q" "cl_node ?cl = cl_node (set_node cl me r')" for x q
    by (simp_all add: durable_ok_def node_ok_def written_def cong: option.case_cong)
  ultimately show ?thesis using base by (simp add: cluster_inv_def)
qed

lemma restart_ok:
  assumes inv: "cluster_inv c lim cl" and me: "contains c me"
    and dur: "cl_durable cl me = Some s" and rec: "recover inc me s (lim me) = Inr r"
  shows "node_ok c lim cl me r"
proof -
  have "state_ok (lim me) me s" "ps_configuration s = c"
    using inv me dur by (auto simp: cluster_inv_def durable_ok_def)
  then show ?thesis
    using recover_inv [OF _ rec] recover_Inr(1) [OF rec] dur
    by (simp add: node_ok_def written_def electing_def)
qed

lemma new_raft_ok:
  assumes "config_ok c" "cl_durable cl me = None" "new_raft inc me c (lim me) = Inr r"
  shows "node_ok c lim cl me r"
proof -
  have "r_id r = me \<and> r_limits r = lim me \<and> r_pending r = None \<and> \<not> r_poisoned r \<and> r_role r = Follower"
    using assms(3) recover_Inr(1) by (fastforce simp: new_raft_def and_then_eq_Inr)
  then show ?thesis
    using new_raft_inv [OF assms(3,1)] assms(2)
    by (simp add: node_ok_def written_def electing_def blank_def from_authenticated_parts_def)
qed

lemma tune_ok:
  assumes inv: "cluster_inv c lim cl" and me: "contains c me"
    and tune: "configure_append_pipeline (cl_node cl me) window = Inr r"
  shows "node_ok c lim cl me r"
proof -
  let ?r = "cl_node cl me"
  have t: "r = ?r\<lparr>r_append_window := window\<rparr>" "0 < window" "window \<le> max_append_window"
    "r_role ?r = Follower" "r_progress ?r = []"
    using tune by (auto simp: configure_append_pipeline_def and_then_eq_Inr split: if_splits)
  have "raft_inv r" if "raft_inv ?r"
    using that t by (auto simp: raft_inv_def role_ok_def incoming_ok_def handoff_ok_def last_index_def last_term_def2)
  then show ?thesis
    using cluster_inv_node [OF inv me] t(1,4) by (auto simp: node_ok_def electing_def)
qed

lemma read_ok:
  assumes inv: "cluster_inv c lim cl" and me: "contains c me"
    and read: "begin_read_index (cl_node cl me) = Inr (round, r)"
  shows "node_ok c lim cl me r"
proof -
  let ?r = "cl_node cl me"
  have r: "r = ?r\<lparr>r_request := r_request ?r + 1\<rparr>" using begin_read_index_Inr(5) [OF read] .
  have "raft_inv r" if "raft_inv ?r" using raft_inv_frame [OF that, of r] by (simp add: r)
  then show ?thesis
    using cluster_inv_node [OF inv me] by (auto simp: node_ok_def electing_def r)
qed

lemma cluster_step_inv:
  assumes "cluster_inv c lim cl" "cluster_step c lim cl cl'"
  shows "cluster_inv c lim cl'"
  using assms(2)
proof cases
  case act
  then show ?thesis using assms(1) by (auto intro: set_node_inv act_ok)
next
  case refuse
  then show ?thesis using assms(1) by (auto intro: set_node_inv refuse_ok)
next
  case publish
  then show ?thesis using publish_inv(1) [OF assms(1)] by simp
next
  case release
  then show ?thesis using release_inv [OF assms(1)] by simp
next
  case (fail me)
  then show ?thesis using assms(1) by (auto intro!: set_node_inv poisoned_ok simp: publication_failed_def)
next
  case restart
  then show ?thesis using assms(1) by (auto intro: set_node_inv restart_ok)
next
  case rebuild
  then show ?thesis using assms(1) by (auto intro: set_node_inv new_raft_ok simp: cluster_inv_def)
next
  case tune
  then show ?thesis using assms(1) by (auto intro: set_node_inv tune_ok)
next
  case read
  then show ?thesis using assms(1) by (auto intro: set_node_inv read_ok)
qed

lemma cluster_step_ballots:
  assumes "cluster_inv c lim cl" "cluster_step c lim cl cl'"
  shows "ballots_le cl cl'"
  using assms(2)
proof cases
  case publish
  then show ?thesis using publish_inv(2) [OF assms(1)] by simp
qed (simp_all add: ballots_le_def)

lemma cluster_init_inv:
  assumes "cluster_init c lim cl"
  shows "cluster_inv c lim cl"
proof -
  have "node_ok c lim cl me (cl_node cl me)" if "contains c me" for me
    using assms that new_raft_ok [of c cl me _ lim "cl_node cl me"] by (auto simp: cluster_init_def)
  then show ?thesis
    using assms by (simp add: cluster_init_def cluster_inv_def network_ok_def durable_ok_def)
qed

interpretation raft_group: safety_system "cluster_init c lim" "cluster_step c lim" "cluster_inv c lim" for c lim
  by unfold_locales (blast intro: cluster_init_inv cluster_step_inv)+

section \<open>Election safety\<close>

definition leads :: "'c cluster \<Rightarrow> member_id \<Rightarrow> u64 \<Rightarrow> bool" where
  "leads cl me t \<longleftrightarrow> role_of (cl_node cl me) = Inr Leader \<and> ps_term (r_state (cl_node cl me)) = t"

text \<open>A live leader whose state is written was elected by written votes.\<close>

lemma leader_elected:
  assumes "cluster_inv c lim cl" "contains c me" "r = cl_node cl me" "\<not> r_poisoned r" "r_role r = Leader"
    and "written c cl me = r_state r"
  shows "\<exists>Q. quorum c Q \<and> (\<forall>v \<in> Q. cl_ballots cl v (ps_term (r_state r)) = Some me)"
proof -
  let ?t = "ps_term (r_state r)"
  have ok: "raft_inv r" "r_id r = me" "ps_configuration (r_state r) = c"
    "\<And>v. v \<in> r_votes r \<Longrightarrow> v = me \<or> cl_ballots cl v ?t = Some me"
    using cluster_inv_node [OF assms(1,2)] assms(3-5) by (auto simp: node_ok_def electing_def)
  then have "quorum c (r_votes r)" and voted: "ps_voted_for (r_state r) = Some me"
    using assms(5) by (auto simp: raft_inv_def role_ok_def)
  moreover have "cl_ballots cl me ?t = Some me"
  proof (cases "cl_durable cl me")
    case None
    with assms(6) have "r_state r = blank c" by (simp add: written_def)
    with voted show ?thesis by (simp add: blank_def from_authenticated_parts_def)
  next
    case (Some s)
    with assms(1,2,6) voted show ?thesis by (auto simp: written_def cluster_inv_def durable_ok_def)
  qed
  ultimately show ?thesis using ok(4) by (intro exI [of _ "r_votes r"]) auto
qed

lemma leads_elected:
  assumes "cluster_inv c lim cl" "contains c me" "leads cl me t"
  shows "\<exists>Q. quorum c Q \<and> (\<forall>v \<in> Q. cl_ballots cl v t = Some me)"
proof -
  have r: "\<not> r_poisoned (cl_node cl me)" "r_pending (cl_node cl me) = None" "r_role (cl_node cl me) = Leader"
    "ps_term (r_state (cl_node cl me)) = t"
    using assms(3) by (auto simp: leads_def role_of_def and_then_eq_Inr available_Inr)
  then have "written c cl me = r_state (cl_node cl me)"
    using cluster_inv_node [OF assms(1,2)] by (simp add: node_ok_def)
  from leader_elected [OF assms(1,2) refl r(1,3) this] show ?thesis by (simp add: r(4))
qed

lemma run_ballots:
  assumes "(cluster_step c lim)\<^sup>*\<^sup>* cl cl'" "cluster_inv c lim cl"
  shows "ballots_le cl cl'"
  using assms(1)
proof (induction rule: rtranclp_induct)
  case (step y z)
  have "cluster_inv c lim y" using raft_group.star_inv [OF step.hyps(1) assms(2)] .
  then show ?case using step.IH cluster_step_ballots [OF _ step.hyps(2)] ballots_le_trans by blast
qed simp

text \<open>What a member has written only moves forward.\<close>

lemma cluster_step_written:
  assumes "cluster_inv c lim cl" "cluster_step c lim cl cl'"
  shows "ps_commit_index (written c cl me) \<le> ps_commit_index (written c cl' me)"
  using assms(2)
proof cases
  case (publish m)
  then have "state_evolves (written c cl m) (r_state (cl_node cl m))"
    using cluster_inv_node [OF assms(1)] by (simp add: node_ok_def)
  then show ?thesis using publish(1) by (auto simp: written_def state_evolves_def)
qed (simp_all add: written_def)

lemma run_written:
  assumes "(cluster_step c lim)\<^sup>*\<^sup>* cl cl'" "cluster_inv c lim cl"
  shows "ps_commit_index (written c cl me) \<le> ps_commit_index (written c cl' me)"
  using assms(1)
proof (induction rule: rtranclp_induct)
  case (step y z)
  have "cluster_inv c lim y" using raft_group.star_inv [OF step.hyps(1) assms(2)] .
  then show ?case using step.IH cluster_step_written [OF _ step.hyps(2)] order_trans by blast
qed simp

text \<open>
  C2: Election safety. In every run of a group, with crashes, restarts, failed publications, lost,
  repeated and reordered messages, at most one member ever leads a term: whoever leads term \<open>t\<close> now is
  the one that led it at any earlier point.
\<close>

theorem election_safety:
  assumes "cluster_init c lim s0" "(cluster_step c lim)\<^sup>*\<^sup>* s0 s1" "(cluster_step c lim)\<^sup>*\<^sup>* s1 s2"
    and "contains c m1" "contains c m2" "leads s1 m1 t" "leads s2 m2 t"
  shows "m1 = m2"
proof -
  have inv: "cluster_inv c lim s1" "cluster_inv c lim s2"
    using raft_group.reachable_inv [OF assms(1)] assms(2,3) by (blast intro: rtranclp_trans)+
  obtain P Q where "quorum c P" "\<forall>v \<in> P. cl_ballots s1 v t = Some m1"
      "quorum c Q" "\<forall>v \<in> Q. cl_ballots s2 v t = Some m2"
    using leads_elected [OF inv(1) assms(4,6)] leads_elected [OF inv(2) assms(5,7)] by blast
  moreover have "config_ok c" using inv(1) by (simp add: cluster_inv_def)
  moreover have "ballots_le s1 s2" using run_ballots [OF assms(3) inv(1)] .
  ultimately show ?thesis
    by (intro raft_quorum.unique_winner [of c P Q "\<lambda>v. cl_ballots s2 v t"]) (auto simp: ballots_le_def)
qed

text \<open>A run of the group of one: elect, publish, release.\<close>

definition solo_group :: "nat cluster" where
  "solo_group = \<lparr>cl_node = (\<lambda>_. solo), cl_durable = (\<lambda>_. None), cl_network = {}, cl_ballots = (\<lambda>_ _. None)\<rparr>"

definition solo_led :: "nat cluster" where
  "solo_led = \<lparr>cl_node = (\<lambda>_. solo)(1 := solo_leader), cl_durable = (\<lambda>_. None)(1 \<mapsto> r_state solo_leader),
     cl_network = {}, cl_ballots = (\<lambda>_ _. None)(1 := (\<lambda>_. None)(1 \<mapsto> 1))\<rparr>"

lemma solo_contains: "contains solo_configuration me \<longleftrightarrow> me = 1"
  by (simp add: contains_def solo_configuration_def)

lemma solo_group_init: "cluster_init solo_configuration (\<lambda>_. default_limits) solo_group"
  using solo_new solo_config_ok by (auto simp: cluster_init_def solo_group_def solo_contains)

lemma solo_elected_eval: "r_pending solo_elected \<noteq> None" "\<not> r_poisoned solo_elected"
    "r_state solo_elected = r_state solo_leader"
  unfolding solo_leader_eval solo_elected_def by (simp_all add: raft_eval)

lemma solo_released:
  "\<exists>out. persisted solo_elected \<lparr>pid_incarnation = 0, pid_generation = 1\<rparr> = Inr (solo_leader, out) \<and>
     out_messages out = []"
  unfolding solo_leader_eval solo_elected_def by (simp add: raft_eval)

definition solo_written :: "nat cluster" where
  "solo_written = (set_node solo_group 1 solo_elected)\<lparr>cl_durable := (cl_durable solo_group)(1 \<mapsto> r_state solo_leader),
     cl_ballots := cast 1 (r_state solo_leader) (cl_ballots solo_group)\<rparr>"

lemma solo_run_written: "(cluster_step solo_configuration (\<lambda>_. default_limits))\<^sup>*\<^sup>* solo_group solo_written"
proof -
  let ?step = "cluster_step solo_configuration (\<lambda>_. default_limits)"
  let ?s1 = "set_node solo_group 1 solo_elected"
  have m: "contains solo_configuration 1" by (simp add: solo_contains)
  obtain p where "step (cl_node solo_group 1) ElectionTimeout = Inr (solo_elected, p)"
    using solo_step by (auto simp: solo_group_def)
  then have one: "?step solo_group ?s1"
    by (intro cluster_step.act [OF m]) (auto simp: deliverable_def)
  have "?step ?s1 (?s1\<lparr>cl_durable := (cl_durable ?s1)(1 \<mapsto> r_state (cl_node ?s1 1)),
      cl_ballots := cast 1 (r_state (cl_node ?s1 1)) (cl_ballots ?s1)\<rparr>)"
    by (rule cluster_step.publish [OF m]) (use solo_elected_eval in auto)
  then have "?step ?s1 solo_written" by (simp add: solo_written_def solo_elected_eval(3))
  with one show ?thesis by simp
qed

lemma solo_run_led: "cluster_step solo_configuration (\<lambda>_. default_limits) solo_written solo_led"
proof -
  have m: "contains solo_configuration 1" by (simp add: solo_contains)
  obtain out where out: "persisted (cl_node solo_written 1) \<lparr>pid_incarnation = 0, pid_generation = 1\<rparr> = Inr (solo_leader, out)"
    "out_messages out = []"
    using solo_released by (auto simp: solo_written_def)
  have "cluster_step solo_configuration (\<lambda>_. default_limits) solo_written
      ((set_node solo_written 1 solo_leader)\<lparr>cl_network := cl_network solo_written \<union> set (out_messages out)\<rparr>)"
    by (rule cluster_step.release [OF m _ out(1)]) (simp add: solo_written_def solo_elected_eval(3))
  moreover have "(set_node solo_written 1 solo_leader)\<lparr>cl_network := cl_network solo_written \<union> set (out_messages out)\<rparr> = solo_led"
    unfolding solo_led_def solo_written_def solo_group_def set_node_def cast_def
    by (auto simp: out(2) solo_leader_eval solo_def from_authenticated_parts_def)
  ultimately show ?thesis by simp
qed

lemma solo_run: "(cluster_step solo_configuration (\<lambda>_. default_limits))\<^sup>*\<^sup>* solo_group solo_led"
  using solo_run_written solo_run_led by simp

theorem election_safety_witness:
  "{m. contains solo_configuration m \<and> leads solo_led m 1} = {1}"
proof -
  have l: "leads solo_led 1 1"
    by (simp add: leads_def solo_led_def solo_leader_eval raft_eval)
  have "1 = m" if "contains solo_configuration m" "leads solo_led m 1" for m
    using election_safety [OF solo_group_init solo_run rtranclp.rtrancl_refl _ _ l that(2)] that(1)
    by (simp add: solo_contains)
  with l show ?thesis by (auto simp: solo_contains)
qed

text \<open>
  C29: Every member of a group can always be restarted: whatever was written last, or nothing, is accepted
  by \<open>recover\<close> or \<open>new\<close>, and the restarted node remembers the term and vote it had written.
\<close>

theorem restart_possible:
  fixes s0 :: "'c cluster"
  assumes "cluster_init c lim s0" "(cluster_step c lim)\<^sup>*\<^sup>* s0 s1" "contains c me"
  shows "case cl_durable s1 me of
      None \<Rightarrow> (\<exists>r :: 'c raft. new_raft inc me c (lim me) = Inr r)
    | Some s \<Rightarrow> (\<exists>r. recover inc me s (lim me) = Inr r \<and> ps_term (r_state r) = ps_term s \<and>
        ps_voted_for (r_state r) = cl_ballots s1 me (ps_term s))"
proof -
  have inv: "cluster_inv c lim s1"
    using raft_group.reachable_inv [OF assms(1,2)] .
  then have d: "durable_ok c lim s1 me" using assms(3) by (simp add: cluster_inv_def)
  have lim: "limits_ok (lim me)"
    using assms(1,3) recover_Inr(2) by (fastforce simp: cluster_init_def new_raft_def and_then_eq_Inr)
  have blank: "state_ok (lim me) me (from_authenticated_parts c 0 None 0 [] :: 'c persistent_state)"
    using inv assms(3)
    by (simp add: cluster_inv_def state_ok_def from_authenticated_parts_def last_of_def base_index_def
        base_term_def u64_max_def)
  show ?thesis
  proof (cases "cl_durable s1 me")
    case None
    then show ?thesis using recover_state_ok [OF blank lim, of inc] by (auto simp: new_raft_def)
  next
    case (Some s)
    with d have ok: "state_ok (lim me) me s" "cl_ballots s1 me (ps_term s) = ps_voted_for s"
      by (auto simp: durable_ok_def)
    then show ?thesis
      using Some recover_state_ok [OF ok(1) lim, of inc] recover_inv(2) [OF ok(1)] by fastforce
  qed
qed

theorem restart_possible_witness:
  "\<exists>r. recover 5 1 (r_state solo_leader) default_limits = Inr r \<and> ps_voted_for (r_state r) = Some 1"
proof -
  have "cl_durable solo_led 1 = Some (r_state solo_leader)" "cl_ballots solo_led 1 (ps_term (r_state solo_leader)) = Some 1"
    by (simp_all add: solo_led_def solo_leader_eval)
  then show ?thesis
    using restart_possible [OF solo_group_init solo_run, of 1 5] by (auto simp: solo_contains)
qed

end
