(* ===== verification/ReadBarrier.thy ===== *)
theory ReadBarrier
  imports RaftCluster
begin

text \<open>
  What a read barrier means: one round yields at most one barrier, backed by a quorum of exact
  acknowledgements, and in a run of a group no newer leader existed when the round began.
\<close>

section \<open>Rounds\<close>

lemma validate_owner_Inr:
  "validate_owner owner r = Inr () \<longleftrightarrow>
     ro_incarnation owner = r_incarnation r \<and> ro_member owner = r_id r \<and> role_of r = Inr Leader \<and>
     ro_domain owner = cfg_domain (ps_configuration (r_state r)) \<and>
     ro_configuration owner = cfg_identity (ps_configuration (r_state r)) \<and>
     ro_term owner = ps_term (r_state r) \<and> r_handoff r = None"
  by (auto simp: validate_owner_def and_then_eq_Inr role_of_def)

lemma begin_round_of:
  assumes "begin_read_index r = Inr (round, r')"
  obtains owner where "round_of round owner round {}" "rr_owner round = Some owner"
    "ro_member owner = r_id r" "ro_term owner = ps_term (r_state r)" "ro_incarnation owner = r_incarnation r"
    "ro_round owner = r_request r + 1" "rr_index round = ps_commit_index (r_state r)"
    "rr_configuration round = ps_configuration (r_state r)"
  using begin_read_index_Inr(6) [OF assms] by (simp add: round_of_def)

lemma completed_round:
  assumes "begin_read_index r = Inr (round, r1)"
    and "try_complete (collect_acks round steps) r2 = Inr (round', Some ri)"
  obtains owner Q where "ri_owner ri = owner" "ri_index ri = ps_commit_index (r_state r)" "validate_owner owner r2 = Inr ()"
    "ro_member owner = r_id r" "ro_term owner = ps_term (r_state r)" "ro_incarnation owner = r_incarnation r"
    "quorum (ps_configuration (r_state r)) Q"
    "\<And>v. v \<in> Q \<Longrightarrow> v = r_id r \<or> v \<in> cfg_voters (ps_configuration (r_state r)) \<and>
       (\<exists>a \<in> snd ` set steps. answers owner v a)"
proof -
  obtain owner where o: "round_of round owner round {}" "rr_owner round = Some owner"
    "ro_member owner = r_id r" "ro_term owner = ps_term (r_state r)" "ro_incarnation owner = r_incarnation r"
    "rr_index round = ps_commit_index (r_state r)" "rr_configuration round = ps_configuration (r_state r)"
    by (rule begin_round_of [OF assms(1)])
  have k: "round_of round owner (collect_acks round steps) (snd ` set steps)"
    using collect_acks_keeps [OF o(1)] by simp
  have t: "validate_owner owner r2 = Inr ()" "ri = \<lparr>ri_owner = owner, ri_index = rr_index (collect_acks round steps)\<rparr>"
    "quorum (rr_configuration (collect_acks round steps)) (rr_acknowledged (collect_acks round steps))"
    using assms(2) k
    by (auto simp: try_complete_def active_owner_def and_then_eq_Inr round_of_def split: if_splits)
  show ?thesis
    by (rule that [of owner "rr_acknowledged (collect_acks round steps)"]) (use t k o in \<open>auto simp: round_of_def\<close>)
qed

text \<open>
  C28: A read barrier is backed by a quorum. Whatever acknowledgements arrive, in whatever order and
  however often, a completed round pins the commit index its leader had at the beginning; the leader
  is the same incarnation, still leads the same term and has no handoff in progress; and the members of
  some quorum, other than the leader itself, have each answered exactly this round of this term.
\<close>

theorem read_barrier_quorum:
  assumes "begin_read_index r = Inr (round, r1)"
    and "try_complete (collect_acks round steps) r2 = Inr (round', Some ri)"
  shows "ri_index ri = ps_commit_index (r_state r) \<and> validate_read_index ri r2 = Inr () \<and>
     role_of r2 = Inr Leader \<and> ps_term (r_state r2) = ps_term (r_state r) \<and>
     r_id r2 = r_id r \<and> r_incarnation r2 = r_incarnation r \<and> r_handoff r2 = None \<and>
     term_at r (ri_index ri) = Some (ps_term (r_state r)) \<and>
     (\<exists>Q. quorum (ps_configuration (r_state r)) Q \<and>
        (\<forall>v \<in> Q. v = r_id r \<or> v \<in> cfg_voters (ps_configuration (r_state r)) \<and>
           (\<exists>a \<in> snd ` set steps. answers (ri_owner ri) v a)))"
  by (rule completed_round [OF assms])
    (use begin_read_index_Inr(4) [OF assms(1)] in \<open>auto simp: validate_read_index_def validate_owner_Inr\<close>)

text \<open>
  A round yields its barrier once. As long as a quorum is missing \<open>try_complete\<close> leaves the round as it
  is; once it has yielded the barrier, every further use of the round is refused as completed, on any
  node.
\<close>

lemma read_barrier_once:
  assumes "try_complete round r = Inr (round', result)"
  shows "case result of
      None \<Rightarrow> round' = round
    | Some ri \<Rightarrow> try_complete round' r' = Inl Completed \<and> probes round' r' = Inl Completed \<and>
        acknowledge_round round' r' ack = Inl Completed"
  using assms
  by (auto simp: try_complete_def probes_def acknowledge_round_def active_owner_def and_then_eq_Inr
      split: if_splits option.splits)

lemma solo_read: "begin_read_index solo_leader = Inr (fst (projr (begin_read_index solo_leader)), snd (projr (begin_read_index solo_leader)))"
  by (simp add: begin_read_index_def solo_leader_eval raft_eval lift_error_def)

lemma solo_read_complete:
  "try_complete (fst (projr (begin_read_index solo_leader))) solo_leader =
     Inr (fst (projr (try_complete (fst (projr (begin_read_index solo_leader))) solo_leader)),
       Some \<lparr>ri_owner = \<lparr>ro_incarnation = 0, ro_member = 1, ro_domain = [7], ro_configuration = [9], ro_term = 1, ro_round = 1\<rparr>,
         ri_index = 1\<rparr>)"
  by (simp add: begin_read_index_def try_complete_def active_owner_def validate_owner_def solo_leader_eval
      raft_eval lift_error_def)

theorem read_barrier_quorum_witness:
  "\<exists>ri. validate_read_index ri solo_leader = Inr () \<and> ri_index ri = 1 \<and> ri_index ri = ps_commit_index (r_state solo_leader)"
proof -
  have "try_complete (collect_acks (fst (projr (begin_read_index solo_leader))) []) solo_leader =
     Inr (fst (projr (try_complete (fst (projr (begin_read_index solo_leader))) solo_leader)),
       Some \<lparr>ri_owner = \<lparr>ro_incarnation = 0, ro_member = 1, ro_domain = [7], ro_configuration = [9], ro_term = 1, ro_round = 1\<rparr>,
         ri_index = 1\<rparr>)"
    using solo_read_complete by simp
  from read_barrier_quorum [OF solo_read this] show ?thesis by auto
qed

section \<open>Rounds in a group\<close>

lemma available_member:
  assumes "cluster_inv c lim cl" "contains c v" "available (cl_node cl v) = Inr ()"
    and "ps_term (r_state (cl_node cl v)) < t"
  shows "cl_ballots cl v t = None" "r_id (cl_node cl v) = v" "ps_configuration (r_state (cl_node cl v)) = c"
proof -
  have "written c cl v = r_state (cl_node cl v)" "durable_ok c lim cl v"
    and "r_id (cl_node cl v) = v" "ps_configuration (r_state (cl_node cl v)) = c"
    using assms(1-3) by (auto simp: cluster_inv_def node_ok_def available_Inr)
  then show "cl_ballots cl v t = None" "r_id (cl_node cl v) = v" "ps_configuration (r_state (cl_node cl v)) = c"
    using ballot_slot [of c lim cl v "r_state (cl_node cl v)" t] assms(4) by simp_all
qed

text \<open>A quorum that answers a round was not yet part of a newer election when the round began.\<close>

lemma round_not_superseded:
  fixes s1 :: "'c cluster"
  assumes inv: "cluster_inv c lim s1" and m: "contains c m"
    and start: "begin_read_index (cl_node s1 m) = Inr (round, r1)"
    and acks: "\<And>q a. (q, a) \<in> set steps \<Longrightarrow> \<exists>s v probe. (cluster_step c lim)\<^sup>*\<^sup>* s1 s \<and> contains c v \<and>
       acknowledge_read_index (cl_node s v) probe = Inr a"
    and complete: "try_complete (collect_acks round steps) r2 = Inr (round', Some ri)"
    and P: "quorum c P" "\<And>v. v \<in> P \<Longrightarrow> cl_ballots s1 v t' = Some m'"
  shows "t' \<le> ps_term (r_state (cl_node s1 m))"
proof (rule ccontr)
  let ?r = "cl_node s1 m" and ?t = "ps_term (r_state (cl_node s1 m))"
  assume "\<not> t' \<le> ?t"
  then have newer: "?t < t'" by simp
  note own = available_member [OF inv m begin_read_index_Inr(1) [OF start] newer]
  obtain Q where Q: "quorum c Q"
      "\<And>v. v \<in> Q \<Longrightarrow> v = m \<or> v \<in> cfg_voters c \<and> (\<exists>a \<in> snd ` set steps. answers (ri_owner ri) v a)"
    and same: "ro_term (ri_owner ri) = ?t"
    by (rule completed_round [OF start complete]) (use own(2,3) in simp_all)
  have "config_ok c" using inv by (simp add: cluster_inv_def)
  then obtain v where v: "v \<in> P" "v \<in> Q" "v \<in> cfg_voters c"
    using raft_quorum.intersect [OF _ P(1) Q(1)] by blast
  have "v \<noteq> m" using own(1) P(2) [OF v(1)] by auto
  then obtain q a where a: "(q, a) \<in> set steps" "answers (ri_owner ri) v a" using Q(2) [OF v(2)] by auto
  then obtain s w probe where s: "(cluster_step c lim)\<^sup>*\<^sup>* s1 s" "contains c w"
    "acknowledge_read_index (cl_node s w) probe = Inr a"
    using acks by blast
  have inv': "cluster_inv c lim s" using raft_group.star_inv [OF s(1) inv] .
  have ack: "available (cl_node s w) = Inr ()" "ra_from a = r_id (cl_node s w)"
    "ps_term (r_state (cl_node s w)) = ra_term a"
    using s(3) by (auto simp: acknowledge_read_index_def and_then_eq_Inr Let_def split: if_splits)
  have "ps_term (r_state (cl_node s w)) < t'"
    using ack(3) a(2) same newer by (simp add: answers_def)
  note other = available_member [OF inv' s(2) ack(1) this]
  have "w = v" using other(2) ack(2) a(2) by (simp add: answers_def)
  then show False
    using other(1) P(2) [OF v(1)] run_ballots [OF s(1) inv] by (simp add: ballots_le_def)
qed

text \<open>
  A read barrier proves that its leader was not superseded. In any run of a group, if the
  acknowledgements that complete a round were produced by members of the group after the round began,
  then at the moment the round began no member led a newer term. So no newer leader can have committed
  anything the barrier's index misses.
\<close>

lemma read_barrier_not_superseded:
  fixes s1 :: "'c cluster"
  assumes "cluster_init c lim s0" "(cluster_step c lim)\<^sup>*\<^sup>* s0 s1" "contains c m"
    and "begin_read_index (cl_node s1 m) = Inr (round, r1)"
    and acks: "\<And>q a. (q, a) \<in> set steps \<Longrightarrow> \<exists>s v probe. (cluster_step c lim)\<^sup>*\<^sup>* s1 s \<and> contains c v \<and>
       acknowledge_read_index (cl_node s v) probe = Inr a"
    and complete: "try_complete (collect_acks round steps) r2 = Inr (round', Some ri)"
    and "contains c m'" "leads s1 m' t'"
  shows "t' \<le> ps_term (r_state (cl_node s1 m))"
proof -
  have inv: "cluster_inv c lim s1" using raft_group.reachable_inv [OF assms(1,2)] .
  obtain P where "quorum c P" "\<And>v. v \<in> P \<Longrightarrow> cl_ballots s1 v t' = Some m'"
    using leads_elected [OF inv assms(7,8)] by blast
  from round_not_superseded [OF inv assms(3,4) _ complete this] acks show ?thesis by blast
qed

end
