(* ===== verification/RaftSafety.thy ===== *)
theory RaftSafety
  imports RaftRefineSteps ReadBarrier
begin

text \<open>
  A run of a group implements the protocol of theory \<open>LogSpec\<close>: every step of the group is matched by
  protocol steps of the member that takes it. So the group inherits that committed entries never
  disagree, that every later leader has them, and that a read barrier covers every acknowledged write.
\<close>

section \<open>The simulation relation\<close>

text \<open>A node whose step is not written yet: its claims are still those of the node before the step.\<close>

definition staged ::
  "configuration \<Rightarrow> (member_id, 'c) group_log \<Rightarrow> 'c cluster \<Rightarrow> member_id \<Rightarrow> 'c raft \<Rightarrow> bool" where
  "staged c A cl me r \<longleftrightarrow> (\<exists>r0 ev p. step r0 ev = Inr (r, p) \<and> seated c me r0 \<and> event_wf ev \<and>
     (\<forall>e. ev = Receive e \<longrightarrow> e \<in> cl_network cl) \<and> written c cl me = r_state r0 \<and>
     coherent A (cl_network cl) me r0)"

text \<open>What an output hands to the state machine is in the committed log.\<close>

definition hands_out :: "'c raft \<Rightarrow> 'c raft_output \<Rightarrow> bool" where
  "hands_out r out \<longleftrightarrow> out_role out = r_role r \<and> (\<forall>x \<in> set (out_committed out).
     co_index x \<le> ps_commit_index (r_state r) \<and> entry_of (r_state r) (co_index x) = Some (co_entry x))"

definition ready ::
  "configuration \<Rightarrow> (member_id, 'c) group_log \<Rightarrow> 'c cluster \<Rightarrow> member_id \<Rightarrow> 'c raft \<Rightarrow> 'c raft_output \<Rightarrow> bool" where
  "ready c A cl me r out \<longleftrightarrow> written c cl me = r_state r \<and> hands_out r out \<and>
     coherent A (cl_network cl \<union> set (out_messages out)) me r \<and>
     (\<forall>e \<in> set (out_messages out). env_from e = me \<and>
        msg_true (quorum c) A (cl_network cl \<union> set (out_messages out)) e)"

definition claimed ::
  "configuration \<Rightarrow> (member_id, 'c) group_log \<Rightarrow> 'c cluster \<Rightarrow> member_id \<Rightarrow> 'c raft \<Rightarrow> bool" where
  "claimed c A cl me r \<longleftrightarrow> (\<not> r_poisoned r \<longrightarrow>
     (case r_pending r of None \<Rightarrow> coherent A (cl_network cl) me r
      | Some (token, out) \<Rightarrow> staged c A cl me r \<or> ready c A cl me r out))"

definition follows ::
  "configuration \<Rightarrow> (member_id \<Rightarrow> limits) \<Rightarrow> 'c cluster \<Rightarrow> (member_id, 'c) group_log \<Rightarrow> bool" where
  "follows c lim cl A \<longleftrightarrow> cluster_inv c lim cl \<and> protocol_inv (quorum c) A \<and>
     (\<forall>e \<in> cl_network cl. msg_true (quorum c) A (cl_network cl) e) \<and>
     (\<forall>me. contains c me \<longrightarrow> tracks (quorum c) A me (written c cl me) \<and> claimed c A cl me (cl_node cl me))"

lemma followsD:
  assumes "follows c lim cl A"
  shows "cluster_inv c lim cl" "protocol_inv (quorum c) A"
    "e \<in> cl_network cl \<Longrightarrow> msg_true (quorum c) A (cl_network cl) e"
    "contains c me \<Longrightarrow> tracks (quorum c) A me (written c cl me)"
    "contains c me \<Longrightarrow> claimed c A cl me (cl_node cl me)"
  using assms by (simp_all add: follows_def)

text \<open>Steps of one member leave the claims of the others alone.\<close>

lemma claimed_stable:
  assumes "claimed c A cl me r" "grows A B" "spares m A B" "m \<noteq> me"
    and "\<forall>e \<in> new. env_from e = m" "cl_network cl' = cl_network cl \<union> new" "cl_durable cl' me = cl_durable cl me"
  shows "claimed c B cl' me r"
proof -
  have w: "written c cl' me = written c cl me" by (simp add: written_def assms(7))
  note st = coherent_stable [OF _ assms(2-5)]
  have "staged c B cl' me r" if "staged c A cl me r"
    using that st unfolding staged_def w assms(6) by blast
  moreover have "ready c B cl' me r out" if "ready c A cl me r out" for out
  proof -
    have "cl_network cl' \<union> set (out_messages out) = (cl_network cl \<union> set (out_messages out)) \<union> new"
      using assms(6) by auto
    then show ?thesis
      using that st msg_true_grows [OF assms(2) Un_upper1] unfolding ready_def w by simp
  qed
  ultimately show ?thesis
    using assms(1) st unfolding claimed_def assms(6) by (auto split: option.splits)
qed

lemma follows_member:
  assumes f: "follows c lim cl A" and B: "(protocol_step (quorum c) m)\<^sup>*\<^sup>* A B" and inv: "cluster_inv c lim cl'"
    and same: "\<And>x. x \<noteq> m \<Longrightarrow> cl_durable cl' x = cl_durable cl x \<and> cl_node cl' x = cl_node cl x"
    and net: "cl_network cl' = cl_network cl \<union> new" "\<forall>e \<in> new. env_from e = m \<and> msg_true (quorum c) B (cl_network cl') e"
    and me: "contains c m \<Longrightarrow> tracks (quorum c) B m (written c cl' m) \<and> claimed c B cl' m (cl_node cl' m)"
  shows "follows c lim cl' B"
proof -
  note pinv = followsD(2) [OF f]
  have g: "grows A B" "spares m A B" "protocol_inv (quorum c) B"
    using run_grows [OF B pinv] run_spares [OF B pinv] run_inv [OF B pinv] by auto
  have "msg_true (quorum c) B (cl_network cl') e" if "e \<in> cl_network cl'" for e
    using that net msg_true_grows [OF g(1), of "cl_network cl" "cl_network cl'"] followsD(3) [OF f] by blast
  moreover have "tracks (quorum c) B x (written c cl' x) \<and> claimed c B cl' x (cl_node cl' x)" if x: "contains c x" for x
  proof (cases "x = m")
    case False
    have "tracks (quorum c) B x (written c cl x)"
      using tracks_stable [OF followsD(4) [OF f x] g(1,2)] False by blast
    moreover have "claimed c B cl' x (cl_node cl x)"
      using claimed_stable [OF followsD(5) [OF f x] g(1,2) _ _ net(1)] net(2) same [OF False] False by blast
    ultimately show ?thesis using same [OF False] by (simp add: written_def)
  qed (use me x in simp)
  ultimately show ?thesis using inv g(3) by (simp add: follows_def)
qed

lemma follows_set_node:
  assumes f: "follows c lim cl A" and inv: "cluster_inv c lim (set_node cl me r)"
    and cl: "contains c me \<Longrightarrow> claimed c A (set_node cl me r) me r"
  shows "follows c lim (set_node cl me r) A"
  by (rule follows_member [OF f rtranclp.rtrancl_refl inv, where new = "{}"])
    (use cl followsD(4) [OF f] in auto)

lemma claimed_set_node [simp]: "claimed c A (set_node cl m r') me r = claimed c A cl me r"
  by (simp add: claimed_def staged_def ready_def cong: option.case_cong)

section \<open>Steps of a group\<close>

text \<open>The protocol steps of a node's step are taken when its state is written, or when its output is
  released if there was nothing to write.\<close>

lemma good_follows:
  assumes "follows c lim cl A" "contains c me" "written c cl me = r_state r" "coherent A (cl_network cl) me r"
  shows "good (quorum c) A (cl_network cl) me r (empty_output r)"
  using followsD(2,3) [OF assms(1)] followsD(4) [OF assms(1,2)] assms(3,4) by (simp add: good_def empty_output_def)

lemma hands_out_published:
  assumes "published r0 r p out"
  shows "hands_out r out"
proof -
  have "co_index x \<le> ps_commit_index (r_state r)" if "x \<in> set (out_committed out)" for x
  proof -
    have "co_index x \<in> set (map co_index (out_committed out))" using that by simp
    also have "map co_index (out_committed out) =
        [max (ps_commit_index (r_state r0)) (base_index (r_state r)) + 1..<ps_commit_index (r_state r) + 1]"
      using assms by (simp add: published_def)
    finally show ?thesis by auto
  qed
  then show ?thesis using assms by (simp add: published_def hands_out_def)
qed

lemma pending_implemented:
  assumes f: "follows c lim cl A" and me: "contains c me" and live: "\<not> r_poisoned r"
    and pend: "r_pending r = Some (token, out)" and r: "r = cl_node cl me"
  obtains B where "(protocol_step (quorum c) me)\<^sup>*\<^sup>* A B" "tracks (quorum c) B me (r_state r)"
    "hands_out r out" "coherent B (cl_network cl \<union> set (out_messages out)) me r"
    "\<forall>e \<in> set (out_messages out). env_from e = me \<and> msg_true (quorum c) B (cl_network cl \<union> set (out_messages out)) e"
proof (cases "ready c A cl me r out")
  case True
  then have "tracks (quorum c) A me (r_state r)" using followsD(4) [OF f me] by (simp add: ready_def)
  with True show ?thesis using that [OF rtranclp.rtrancl_refl] by (simp add: ready_def)
next
  case False
  then have "staged c A cl me r" using followsD(5) [OF f me] live pend r by (simp add: claimed_def)
  then obtain r0 ev p where st: "step r0 ev = Inr (r, p)" "seated c me r0" "event_wf ev"
    "\<And>e. ev = Receive e \<Longrightarrow> e \<in> cl_network cl" "written c cl me = r_state r0" "coherent A (cl_network cl) me r0"
    unfolding staged_def by blast
  have ri: "raft_inv r0" using st(2) by (simp add: seated_def)
  obtain out' where o: "published r0 r p out'" by (rule step_Inr [OF ri st(3,1)])
  then have "out' = out" using pend by (simp add: published_def)
  with hands_out_published [OF o] have h: "hands_out r out" by simp
  obtain out2 where "r_pending r = Some (per_id p, out2)" "implemented (quorum c) (cl_network cl) me A r out2"
    by (rule step_good [OF good_follows [OF f me st(5,6)] st(2,3,4,1)])
  then obtain B where B: "(protocol_step (quorum c) me)\<^sup>*\<^sup>* A B" "good (quorum c) B (cl_network cl) me r out"
    using pend by (auto simp: implemented_def)
  show ?thesis
    by (rule that [OF B(1) good_parts(2) [OF B(2)] h good_parts(3) [OF B(2)]]) (use B(2) in \<open>auto simp: good_def\<close>)
qed

lemma publish_follows:
  assumes f: "follows c lim cl A" and me: "contains c me" and live: "\<not> r_poisoned (cl_node cl me)"
    and pend: "r_pending (cl_node cl me) \<noteq> None"
    and cl': "cl' = cl\<lparr>cl_durable := (cl_durable cl)(me \<mapsto> r_state (cl_node cl me)),
      cl_ballots := cast me (r_state (cl_node cl me)) (cl_ballots cl)\<rparr>"
  shows "\<exists>B. (protocol_step (quorum c) me)\<^sup>*\<^sup>* A B \<and> follows c lim cl' B"
proof -
  let ?r = "cl_node cl me"
  obtain token out where p: "r_pending ?r = Some (token, out)" using pend by auto
  obtain B where B: "(protocol_step (quorum c) me)\<^sup>*\<^sup>* A B" "tracks (quorum c) B me (r_state ?r)"
    "hands_out ?r out" "coherent B (cl_network cl \<union> set (out_messages out)) me ?r"
    "\<forall>e \<in> set (out_messages out). env_from e = me \<and> msg_true (quorum c) B (cl_network cl \<union> set (out_messages out)) e"
    by (rule pending_implemented [OF f me live p refl])
  have w: "written c cl' me = r_state ?r" by (simp add: written_def cl')
  have inv: "cluster_inv c lim cl'" unfolding cl' by (rule publish_inv(1) [OF followsD(1) [OF f] me live])
  have "ready c B cl' me ?r out" using B(3-5) w by (simp add: ready_def cl')
  then have "claimed c B cl' me (cl_node cl' me)" using p by (simp add: claimed_def cl')
  then have "follows c lim cl' B"
    by (intro follows_member [OF f B(1) inv, where new = "{}"]) (use w B(2) in \<open>auto simp: cl'\<close>)
  with B(1) show ?thesis by blast
qed

lemma release_follows:
  assumes f: "follows c lim cl A" and me: "contains c me" and dur: "cl_durable cl me = Some (r_state (cl_node cl me))"
    and per: "persisted (cl_node cl me) token = Inr (r, out)"
    and cl': "cl' = (set_node cl me r)\<lparr>cl_network := cl_network cl \<union> set (out_messages out)\<rparr>"
  shows "\<exists>B. (protocol_step (quorum c) me)\<^sup>*\<^sup>* A B \<and> follows c lim cl' B"
proof -
  let ?r = "cl_node cl me"
  note p = persisted_Inr [OF per]
  obtain B where B: "(protocol_step (quorum c) me)\<^sup>*\<^sup>* A B" "tracks (quorum c) B me (r_state ?r)"
    "coherent B (cl_network cl \<union> set (out_messages out)) me ?r"
    "\<forall>e \<in> set (out_messages out). env_from e = me \<and> msg_true (quorum c) B (cl_network cl \<union> set (out_messages out)) e"
    by (rule pending_implemented [OF f me p(2,1) refl])
  have w: "written c cl' me = r_state ?r" by (simp add: written_def cl' dur)
  have inv: "cluster_inv c lim cl'" unfolding cl' by (rule release_inv [OF followsD(1) [OF f] me dur per])
  have "coherent B (cl_network cl') me r" using B(3) by (simp add: cl' p(3) coherent_def)
  then have "claimed c B cl' me (cl_node cl' me)" by (simp add: claimed_def cl' p(3))
  then have "follows c lim cl' B"
    by (intro follows_member [OF f B(1) inv, where new = "set (out_messages out)"]) (use w B(2,4) in \<open>auto simp: cl'\<close>)
  with B(1) show ?thesis by blast
qed

text \<open>A fresh or restarted node claims nothing.\<close>

lemma follower_claimed: "r_role r = Follower \<Longrightarrow> r_incoming_snapshot r = None \<Longrightarrow> r_pending r = None \<Longrightarrow> claimed c A cl me r"
  by (simp add: claimed_def coherent_def)

lemma new_raft_fields:
  assumes "new_raft inc me c lim = Inr r"
  shows "r_role r = Follower" "r_incoming_snapshot r = None" "r_pending r = None" "\<not> r_poisoned r"
  using assms recover_Inr(1) by (fastforce simp: new_raft_def and_then_eq_Inr)+

lemma idle_coherent:
  assumes "follows c lim cl A" "contains c me" "available (cl_node cl me) = Inr ()"
  shows "coherent A (cl_network cl) me (cl_node cl me)" "written c cl me = r_state (cl_node cl me)" "seated c me (cl_node cl me)"
  using followsD(5) [OF assms(1,2)] cluster_inv_node [OF followsD(1) [OF assms(1)] assms(2)] assms(3)
  by (auto simp: claimed_def node_ok_def available_Inr seated_def)

lemma act_claimed:
  assumes f: "follows c lim cl A" and me: "contains c me" and ev: "deliverable cl ev"
    and st: "step (cl_node cl me) ev = Inr (r, p)"
  shows "claimed c A cl me r"
proof -
  have av: "available (cl_node cl me) = Inr ()" using st by (auto elim!: step_cases)
  note i = idle_coherent [OF f me av]
  have wf: "event_wf ev" by (rule deliverable_wf [OF followsD(1) [OF f] ev])
  obtain out where "published (cl_node cl me) r p out"
    using step_Inr [OF _ wf st] i(3) by (auto simp: seated_def)
  then have "r_pending r = Some (per_id p, out)" by (simp add: published_def)
  moreover have "staged c A cl me r"
    unfolding staged_def
    by (intro exI [of _ "cl_node cl me"] exI [of _ ev] exI [of _ p]) (use st i wf ev in \<open>auto simp: deliverable_def\<close>)
  ultimately show ?thesis by (simp add: claimed_def)
qed

lemma refuse_claimed:
  assumes f: "follows c lim cl A" and me: "contains c me" and ev: "deliverable cl ev"
    and st: "step (cl_node cl me) ev = Inl (x, r)"
  shows "claimed c A cl me r"
proof (cases "r_poisoned (cl_node cl me)")
  case True
  then have "r = cl_node cl me" using st by (simp add: step_def available_def)
  then show ?thesis using followsD(5) [OF f me] by simp
next
  case False
  then have "raft_inv (cl_node cl me)" using cluster_inv_node [OF followsD(1) [OF f] me] by (simp add: node_ok_def)
  from step_Inl [OF this deliverable_wf [OF followsD(1) [OF f] ev] st] show ?thesis
    using followsD(5) [OF f me] by (metis claimed_def)
qed

lemma tune_claimed:
  assumes "follows c lim cl A" "contains c me" "configure_append_pipeline (cl_node cl me) window = Inr r"
  shows "claimed c A cl me r"
proof -
  have t: "available (cl_node cl me) = Inr ()" "r = (cl_node cl me)\<lparr>r_append_window := window\<rparr>"
    using assms(3) by (auto simp: configure_append_pipeline_def and_then_eq_Inr split: if_splits)
  then show ?thesis
    using idle_coherent(1) [OF assms(1,2) t(1)] by (simp add: claimed_def coherent_def available_Inr)
qed

lemma read_claimed:
  assumes "follows c lim cl A" "contains c me" "begin_read_index (cl_node cl me) = Inr (round, r)"
  shows "claimed c A cl me r"
proof -
  note b = begin_read_index_Inr [OF assms(3)]
  have "requests_bounded net m t n \<Longrightarrow> requests_bounded net m t (n + 1)" for net :: "'a envelope set" and m t n
    unfolding requests_bounded_def by (meson le_add1 order_trans)
  then show ?thesis
    using idle_coherent(1) [OF assms(1,2) b(1)] b(1,5) by (auto simp: claimed_def coherent_def Let_def available_Inr)
qed

lemma step_follows:
  assumes f: "follows c lim cl A" and st: "cluster_step c lim cl cl'"
  shows "\<exists>me B. (protocol_step (quorum c) me)\<^sup>*\<^sup>* A B \<and> follows c lim cl' B"
proof -
  have inv: "cluster_inv c lim cl'" by (rule cluster_step_inv [OF followsD(1) [OF f] st])
  have local: ?thesis if "cl' = set_node cl me r" "claimed c A cl me r" for me r
    using follows_set_node [OF f, of me r] inv that by fastforce
  from st show ?thesis
  proof cases
    case (publish me)
    then show ?thesis using publish_follows [OF f] by blast
  next
    case (release me token r out)
    then show ?thesis using release_follows [OF f] by blast
  next
    case (fail me)
    show ?thesis by (rule local [OF fail(1)]) (simp add: publication_failed_def claimed_def)
  next
    case (restart me s inc r)
    have "claimed c A cl me r" using recover_Inr(1) [OF restart(4)] by (intro follower_claimed) auto
    then show ?thesis by (rule local [OF restart(1)])
  next
    case (rebuild me inc r)
    have "claimed c A cl me r" using new_raft_fields [OF rebuild(4)] by (intro follower_claimed) auto
    then show ?thesis by (rule local [OF rebuild(1)])
  qed (use local act_claimed [OF f] refuse_claimed [OF f] tune_claimed [OF f] read_claimed [OF f] in blast)+
qed

lemma init_follows:
  assumes "cluster_init c lim cl"
  shows "follows c lim cl protocol_init"
proof -
  have "claimed c protocol_init cl me (cl_node cl me)" if m: "contains c me" for me
  proof -
    obtain inc where "new_raft inc me c (lim me) = Inr (cl_node cl me)" using assms m by (auto simp: cluster_init_def)
    from new_raft_fields(1-3) [OF this] show ?thesis by (rule follower_claimed)
  qed
  moreover have "tracks (quorum c) protocol_init me (written c cl me)" for me
    using assms by (simp add: cluster_init_def written_def blank_def from_authenticated_parts_def tracks_def
        protocol_init_def view_def base_index_def base_term_def)
  ultimately show ?thesis
    using cluster_init_inv [OF assms] init_protocol_inv assms by (simp add: follows_def cluster_init_def)
qed

lemma run_follows:
  assumes "(cluster_step c lim)\<^sup>*\<^sup>* cl cl'" "follows c lim cl A"
  shows "\<exists>B. (\<lambda>A B. \<exists>me. protocol_step (quorum c) me A B)\<^sup>*\<^sup>* A B \<and> grows A B \<and> follows c lim cl' B"
  using assms(1)
proof (induction rule: rtranclp_induct)
  case base
  then show ?case using assms(2) grows_refl by blast
next
  case (step y z)
  then obtain B where B: "(\<lambda>A B. \<exists>me. protocol_step (quorum c) me A B)\<^sup>*\<^sup>* A B" "grows A B" "follows c lim y B" by blast
  obtain me D where D: "(protocol_step (quorum c) me)\<^sup>*\<^sup>* B D" "follows c lim z D"
    using step_follows [OF B(3) step.hyps(2)] by blast
  have "(\<lambda>A B. \<exists>me. protocol_step (quorum c) me A B)\<^sup>*\<^sup>* B D"
    using D(1) by (rule rtranclp_mono [THEN predicate2D, rotated]) blast
  moreover have "grows A D" using grows_trans [OF B(2) run_grows [OF D(1) followsD(2) [OF B(3)]]] .
  ultimately show ?case using B(1) D(2) by (blast intro: rtranclp_trans)
qed

text \<open>Two points of a run, the protocol states they follow, and what the group has agreed on.\<close>

lemma reached_follows:
  assumes "cluster_init c lim s0" "(cluster_step c lim)\<^sup>*\<^sup>* s0 s1" "(cluster_step c lim)\<^sup>*\<^sup>* s1 s2"
  obtains A B where "follows c lim s1 A" "follows c lim s2 B" "grows A B"
  using run_follows [OF assms(2) init_follows [OF assms(1)]] run_follows [OF assms(3)] by blast

lemma leads_follows:
  assumes "follows c lim cl A" "contains c m" "leads cl m t"
  shows "gl_lead A t = Some (m, gl_log A m)" "tracks (quorum c) A m (r_state (cl_node cl m))"
    "state_ok (lim m) m (r_state (cl_node cl m))"
proof -
  have l: "available (cl_node cl m) = Inr ()" "r_role (cl_node cl m) = Leader" "ps_term (r_state (cl_node cl m)) = t"
    using assms(3) by (auto simp: leads_def role_of_def and_then_eq_Inr)
  note i = idle_coherent [OF assms(1,2) l(1)]
  show "gl_lead A t = Some (m, gl_log A m)" using i(1) l by (simp add: coherent_def Let_def)
  show "tracks (quorum c) A m (r_state (cl_node cl m))" using followsD(4) [OF assms(1,2)] i(2) by simp
  show "state_ok (lim m) m (r_state (cl_node cl m))"
    using cluster_inv_node [OF followsD(1) [OF assms(1)] assms(2)] l(1) by (auto simp: node_ok_def available_Inr raft_inv_def)
qed

lemma durable_follows:
  assumes "follows c lim cl A" "contains c m" "cl_durable cl m = Some s"
  shows "tracks (quorum c) A m s" "state_ok (lim m) m s"
  using followsD(4) [OF assms(1,2)] followsD(1) [OF assms(1)] assms(2,3)
  by (auto simp: written_def cluster_inv_def durable_ok_def)

definition agreed ::
  "configuration \<Rightarrow> (member_id, 'c) group_log \<Rightarrow> u64 \<Rightarrow> u64 \<Rightarrow> 'c entry \<Rightarrow> bool" where
  "agreed c A t i e \<longleftrightarrow> (\<exists>P. settled (quorum c) A t P \<and> 0 < i \<and> i \<le> length P \<and> P ! (i - 1) = e)"

lemma committed_agreed:
  assumes "tracks (quorum c) A m s" "state_ok lim m s" "i \<le> ps_commit_index s" "entry_of s i = Some e"
  shows "agreed c A (ps_term s) i e"
proof -
  have v: "view s (gl_log A m)" and st: "settled (quorum c) A (ps_term s) (take (ps_commit_index s) (gl_log A m))"
    using assms(1) by (simp_all add: tracks_def)
  have len: "ps_commit_index s \<le> length (gl_log A m)" using assms(2) view_last [OF v] by (simp add: state_ok_def)
  have "0 < i" "e = gl_log A m ! (i - 1)" using assms(4) by (auto simp: view_entry [OF v] split: if_splits)
  then show ?thesis
    unfolding agreed_def using st len assms(3) by (intro exI [of _ "take (ps_commit_index s) (gl_log A m)"]) simp
qed

lemma agreed_grows: "grows A B \<Longrightarrow> agreed c A t i e \<Longrightarrow> agreed c B t i e"
  unfolding agreed_def using grows_settled by blast

lemma agreed_unique:
  assumes "protocol_inv (quorum c) A" "config_ok c" "agreed c A t i e" "agreed c A u i e'"
  shows "e = e'"
proof -
  obtain P R where P: "settled (quorum c) A t P" "0 < i" "i \<le> length P" "P ! (i - 1) = e"
    and R: "settled (quorum c) A u R" "i \<le> length R" "R ! (i - 1) = e'"
    using assms(3,4) unfolding agreed_def by blast
  from raft_quorum.settled_agree [OF assms(1,2) P(1) R(1)] show ?thesis
    using P R by (auto simp: prefix_def nth_append split: if_splits)
qed

lemma agreed_in_leader:
  assumes "protocol_inv (quorum c) A" "config_ok c" "agreed c A t i e" "gl_lead A u = Some (m, G)" "t \<le> u"
  shows "0 < i" "i \<le> length G" "G ! (i - 1) = e"
proof -
  obtain P where P: "settled (quorum c) A t P" "0 < i" "i \<le> length P" "P ! (i - 1) = e"
    using assms(3) unfolding agreed_def by blast
  have "prefix P G" by (rule raft_quorum.settled_in_leader [OF assms(1,2) P(1) assms(4,5)])
  then show "0 < i" "i \<le> length G" "G ! (i - 1) = e" using P by (auto simp: prefix_def nth_append)
qed

lemma follows_config: "follows c lim cl A \<Longrightarrow> config_ok c"
  using followsD(1) by (auto simp: cluster_inv_def)

section \<open>Releases\<close>

text \<open>The output that \<open>me\<close> may release now: its step's state is written and \<open>persisted\<close> accepts.\<close>

definition releases :: "'c cluster \<Rightarrow> member_id \<Rightarrow> 'c raft_output \<Rightarrow> bool" where
  "releases cl me out \<longleftrightarrow> cl_durable cl me = Some (r_state (cl_node cl me)) \<and>
     (\<exists>token r. persisted (cl_node cl me) token = Inr (r, out))"

lemma releases_node:
  assumes "follows c lim cl A" "contains c m" "releases cl m out" "r = cl_node cl m"
  shows "\<not> r_poisoned r" "written c cl m = r_state r" "hands_out r out"
proof -
  obtain token r' where d: "cl_durable cl m = Some (r_state r)" "persisted r token = Inr (r', out)"
    using assms(3,4) unfolding releases_def by blast
  note p = persisted_Inr [OF d(2)]
  show "\<not> r_poisoned r" "written c cl m = r_state r" using p(2) d(1) by (simp_all add: written_def)
  show "hands_out r out" using pending_implemented [OF assms(1,2) p(2,1) assms(4)] by blast
qed

lemma released_agreed:
  assumes "follows c lim cl A" "contains c m" "releases cl m out" "x \<in> set (out_committed out)"
  shows "agreed c A (ps_term (r_state (cl_node cl m))) (co_index x) (co_entry x)"
    "co_index x \<le> ps_commit_index (r_state (cl_node cl m))"
proof -
  note n = releases_node [OF assms(1-3) refl]
  have x: "co_index x \<le> ps_commit_index (r_state (cl_node cl m))"
    "entry_of (r_state (cl_node cl m)) (co_index x) = Some (co_entry x)"
    using n(3) assms(4) by (auto simp: hands_out_def)
  have "cl_durable cl m = Some (r_state (cl_node cl m))" using assms(3) by (simp add: releases_def)
  note d = durable_follows [OF assms(1,2) this]
  show "agreed c A (ps_term (r_state (cl_node cl m))) (co_index x) (co_entry x)" by (rule committed_agreed [OF d x])
  show "co_index x \<le> ps_commit_index (r_state (cl_node cl m))" by (rule x(1))
qed

section \<open>Safety of the replicated log\<close>

text \<open>
  C6: A group implements the replication protocol. Every run of a group, with its messages, speculative
  states, crashes and snapshots, is matched by a run of the protocol of theory \<open>LogSpec\<close> in which every
  member's written state is a view of its log: same term, same vote, same entries after the snapshot
  cut, a committed prefix that a quorum has chosen; and the members that lead are the protocol's leaders.
\<close>

theorem group_implements_protocol:
  assumes "cluster_init c lim s0" "(cluster_step c lim)\<^sup>*\<^sup>* s0 s1"
  shows "\<exists>A. (\<lambda>A B. \<exists>me. protocol_step (quorum c) me A B)\<^sup>*\<^sup>* protocol_init A \<and>
     (\<forall>me. contains c me \<longrightarrow> tracks (quorum c) A me (written c s1 me) \<and>
        (\<forall>t. leads s1 me t \<longrightarrow> gl_lead A t = Some (me, gl_log A me)))"
  using run_follows [OF assms(2) init_follows [OF assms(1)]] followsD(4) leads_follows(1) by blast

text \<open>
  C1: State machine safety. Whatever two members ever hand to their state machines for the same log
  index, now or at any two points of a run, is the same entry: same term and same command.
\<close>

theorem state_machine_safety:
  assumes "cluster_init c lim s0" "(cluster_step c lim)\<^sup>*\<^sup>* s0 s1" "(cluster_step c lim)\<^sup>*\<^sup>* s1 s2"
    and "contains c m1" "contains c m2" "releases s1 m1 out1" "releases s2 m2 out2"
    and "x1 \<in> set (out_committed out1)" "x2 \<in> set (out_committed out2)" "co_index x1 = co_index x2"
  shows "co_entry x1 = co_entry x2"
proof -
  obtain A B where f: "follows c lim s1 A" "follows c lim s2 B" "grows A B"
    by (rule reached_follows [OF assms(1-3)])
  have "agreed c B (ps_term (r_state (cl_node s1 m1))) (co_index x1) (co_entry x1)"
    using agreed_grows [OF f(3) released_agreed(1) [OF f(1) assms(4,6,8)]] .
  moreover have "agreed c B (ps_term (r_state (cl_node s2 m2))) (co_index x1) (co_entry x2)"
    using released_agreed(1) [OF f(2) assms(5,7,9)] assms(10) by simp
  ultimately show ?thesis by (rule agreed_unique [OF followsD(2) [OF f(2)] follows_config [OF f(2)]])
qed

text \<open>
  C3: Leader completeness. What any member has written as committed at some point of a run is in the log
  of every member that later leads the same or a newer term: the leader's log reaches that far and has
  the same entry wherever both still retain one.
\<close>

theorem leader_completeness:
  assumes "cluster_init c lim s0" "(cluster_step c lim)\<^sup>*\<^sup>* s0 s1" "(cluster_step c lim)\<^sup>*\<^sup>* s1 s2"
    and "contains c m1" "contains c m2" "cl_durable s1 m1 = Some s" "leads s2 m2 t" "ps_term s \<le> t"
    and "i \<le> ps_commit_index s" "entry_of s i = Some e"
  shows "i \<le> last_of (r_state (cl_node s2 m2)) \<and>
     (base_index (r_state (cl_node s2 m2)) < i \<longrightarrow> entry_at (cl_node s2 m2) i = Some e)"
proof -
  obtain A B where f: "follows c lim s1 A" "follows c lim s2 B" "grows A B"
    by (rule reached_follows [OF assms(1-3)])
  have a: "agreed c B (ps_term s) i e"
    using agreed_grows [OF f(3) committed_agreed [OF durable_follows [OF f(1) assms(4,6)] assms(9,10)]] .
  note l = leads_follows [OF f(2) assms(5,7)]
  have v: "view (r_state (cl_node s2 m2)) (gl_log B m2)" using l(2) by (simp add: tracks_def)
  note g = agreed_in_leader [OF followsD(2) [OF f(2)] follows_config [OF f(2)] a l(1) assms(8)]
  show ?thesis using g by (simp add: entry_at_entry_of view_last [OF v] view_entry [OF v])
qed

text \<open>
  C5: Log matching. If two written states, of any two members at any two points of a run, have the same
  term at an index, then they have the same entries at every earlier index that both still retain. The
  index may be the cut of a snapshot, which then stands for the entries the other member still has.
\<close>

theorem log_matching:
  assumes "cluster_init c lim s0" "(cluster_step c lim)\<^sup>*\<^sup>* s0 s1" "(cluster_step c lim)\<^sup>*\<^sup>* s1 s2"
    and "contains c m1" "contains c m2" "cl_durable s1 m1 = Some s" "cl_durable s2 m2 = Some s'"
    and "term_of s i = Some t" "term_of s' i = Some t" "j \<le> i" "base_index s < j" "base_index s' < j"
  shows "entry_of s j = entry_of s' j"
proof -
  obtain A B where f: "follows c lim s1 A" "follows c lim s2 B" "grows A B"
    by (rule reached_follows [OF assms(1-3)])
  let ?X = "gl_log A m1" and ?Y = "gl_log B m2"
  have v: "view s ?X" "view s' ?Y"
    using durable_follows(1) [OF f(1) assms(4,6)] durable_follows(1) [OF f(2) assms(5,7)] by (simp_all add: tracks_def)
  have law: "lawful B ?X" "lawful B ?Y"
    using protocol_invD(1) [OF followsD(2) [OF f(1)], of m1] protocol_invD(1) [OF followsD(2) [OF f(2)], of m2]
      grows_lawful [OF f(3)] by (simp_all add: member_inv_def)
  have t: "0 < i" "i \<le> length ?X" "i \<le> length ?Y" "e_term (?X ! (i - 1)) = e_term (?Y ! (i - 1))"
    using assms(8-12) by (auto simp: view_term [OF v(1)] view_term [OF v(2)] log_term_def split: if_splits)
  have "take (Suc (i - 1)) ?X = take (Suc (i - 1)) ?Y"
    by (rule lawful_matching [OF law]) (use t in auto)
  moreover have "j - 1 < Suc (i - 1)" using assms(10) by simp
  ultimately have "?X ! (j - 1) = ?Y ! (j - 1)" by (metis nth_take)
  then show ?thesis using t(2,3) assms(10-12) by (simp add: view_entry [OF v(1)] view_entry [OF v(2)])
qed

section \<open>Reads\<close>




section \<open>The group of one\<close>

lemma solo_out:
  obtains out where "releases solo_written 1 out" "out_role out = Leader"
    "out_committed out = [\<lparr>co_index = 1, co_entry = \<lparr>e_term = 1, e_command = None\<rparr>\<rparr>]"
proof -
  obtain out where "persisted solo_elected \<lparr>pid_incarnation = 0, pid_generation = 1\<rparr> = Inr (solo_leader, out)"
    "out_role out = Leader" "out_committed out = [\<lparr>co_index = 1, co_entry = \<lparr>e_term = 1, e_command = None\<rparr>\<rparr>]"
    unfolding solo_leader_eval solo_elected_def by (simp add: raft_eval)
  then show thesis
    using that by (auto simp: releases_def solo_written_def solo_elected_eval(3))
qed

lemma solo_durable: "cl_durable solo_written 1 = Some (r_state solo_leader)" "cl_durable solo_led 1 = Some (r_state solo_leader)"
    "leads solo_led 1 1" "cl_node solo_led 1 = solo_leader"
  by (simp_all add: solo_written_def solo_led_def leads_def solo_leader_eval raft_eval)

lemma solo_entry: "entry_of (r_state solo_leader) 1 = Some \<lparr>e_term = 1, e_command = None\<rparr>" "base_index (r_state solo_leader) = 0"
    "term_of (r_state solo_leader) 1 = Some 1" "ps_commit_index (r_state solo_leader) = 1" "ps_term (r_state solo_leader) = 1"
  by (simp_all add: solo_leader_eval entry_of_def term_of_def last_of_def raft_eval)

lemma solo_run_later: "(cluster_step solo_configuration (\<lambda>_. default_limits))\<^sup>*\<^sup>* solo_written solo_led"
  using solo_run_led by simp

theorem group_implements_protocol_witness:
  "\<exists>A. (\<lambda>A B. \<exists>me. protocol_step (quorum solo_configuration) me A B)\<^sup>*\<^sup>* protocol_init A \<and>
     gl_lead A 1 = Some (1, [\<lparr>e_term = 1, e_command = None :: nat option\<rparr>])"
proof -
  obtain A where A: "(\<lambda>A B. \<exists>me. protocol_step (quorum solo_configuration) me A B)\<^sup>*\<^sup>* protocol_init A"
    "tracks (quorum solo_configuration) A 1 (written solo_configuration solo_led 1)" "gl_lead A 1 = Some (1, gl_log A 1)"
    using group_implements_protocol [OF solo_group_init solo_run] solo_durable(3) by (auto simp: solo_contains)
  have "view (r_state solo_leader) (gl_log A 1)" using A(2) unfolding written_def solo_durable(2) by (simp add: tracks_def)
  then have "gl_log A 1 = [\<lparr>e_term = 1, e_command = None\<rparr>]"
    unfolding view_def solo_entry(2) by (simp add: solo_leader_eval)
  with A show ?thesis by auto
qed

theorem state_machine_safety_witness:
  "{co_entry x | x out. releases solo_written 1 out \<and> x \<in> set (out_committed out) \<and> co_index x = 1} =
     {\<lparr>e_term = 1, e_command = None\<rparr>}"
proof -
  obtain o1 where o1: "releases solo_written 1 o1"
    "out_committed o1 = [\<lparr>co_index = 1, co_entry = \<lparr>e_term = 1, e_command = None\<rparr>\<rparr>]"
    by (rule solo_out)
  have "co_entry x = \<lparr>e_term = 1, e_command = None\<rparr>"
    if "releases solo_written 1 out" "x \<in> set (out_committed out)" "co_index x = 1" for out x
    using state_machine_safety [OF solo_group_init solo_run_written rtranclp.rtrancl_refl _ _ o1(1) that(1) _ that(2),
        of "hd (out_committed o1)"] o1(2) that(3) by (simp add: solo_contains)
  with o1 show ?thesis by force
qed

theorem leader_completeness_witness:
  "leads solo_led 1 1 \<and> cl_durable solo_written 1 = Some (r_state solo_leader) \<and>
   entry_at (cl_node solo_led 1) 1 = Some \<lparr>e_term = 1, e_command = None\<rparr>"
  using leader_completeness [OF solo_group_init solo_run_written solo_run_later _ _
      solo_durable(1,3), of 1] solo_durable solo_entry by (simp add: solo_contains)

theorem log_matching_witness:
  "cl_durable solo_written 1 = Some (r_state solo_leader) \<and> cl_durable solo_led 1 = Some (r_state solo_leader) \<and>
   term_of (r_state solo_leader) 1 = Some 1 \<and> entry_of (r_state solo_leader) 1 = entry_of (r_state solo_leader) 1"
  using log_matching [OF solo_group_init solo_run_written solo_run_later _ _
      solo_durable(1,2) solo_entry(3,3), of 1] solo_durable solo_entry by (simp add: solo_contains)


end
