(* ===== verification/Varint.thy ===== *)
theory Varint
  imports Prelude
begin

text \<open>
  Canonical unsigned LEB128 (\<open>crates/fgdb-codec/src/varint.rs\<close>). Values are 64-bit words and bytes 8-bit
  words. An index past the inline array would panic, the value \<open>None\<close>; the encoder is shown never to
  reach it. The reference is \<open>leb128\<close>, the base-128 digits of a natural number.
\<close>

unbundle bit_operations_syntax

section \<open>Definitions\<close>

definition max_u64_varint_bytes :: nat where
  "max_u64_varint_bytes = 10"

record encoded_u64 =
  eu_bytes :: "byte list"
  eu_len :: byte

definition as_bytes :: "encoded_u64 \<Rightarrow> byte list" where
  "as_bytes e = take (unat (eu_len e)) (eu_bytes e)"

datatype varint_encode_error =
    BufferTooSmall nat nat
  | AllocationFailed nat

datatype varint_decode_error =
    Empty
  | Truncated nat
  | Overflow nat
  | NonMinimal nat nat
  | TrailingBytes nat nat

text \<open>\<open>u64::leading_zeros\<close> and \<open>usize::div_ceil\<close>.\<close>

fun significant_bits :: "nat \<Rightarrow> nat" where
  "significant_bits n = (if n = 0 then 0 else Suc (significant_bits (n div 2)))"

declare significant_bits.simps [simp del]

definition leading_zeros :: "64 word \<Rightarrow> nat" where
  "leading_zeros v = 64 - significant_bits (unat v)"

definition div_ceil :: "nat \<Rightarrow> nat \<Rightarrow> nat" where
  "div_ceil a b = (if a mod b = 0 then a div b else a div b + 1)"

definition encoded_len_u64 :: "64 word \<Rightarrow> nat" where
  "encoded_len_u64 value =
     (let significant = 64 - leading_zeros value;
          nonzero_len = div_ceil significant 7
      in if nonzero_len = 0 then 1 else nonzero_len)"

lemma unat_shift: "unat (drop_bit 7 v) = unat v div 128"
  for v :: "64 word"
  by (simp only: unat_drop_bit_eq drop_bit_nat_def) simp

lemma unat_shift_less: "drop_bit 7 v \<noteq> 0 \<Longrightarrow> unat (drop_bit 7 v) < unat v"
  for v :: "64 word"
  unfolding unat_shift using unat_shift [of v] unsigned_eq_0_iff [of "drop_bit 7 v", where ?'a = nat]
  by (cases "unat v = 0") auto

function encode_loop :: "64 word \<Rightarrow> byte list \<Rightarrow> nat \<Rightarrow> (byte list \<times> nat) option" where
  "encode_loop value bytes len =
     (let payload = ucast (value AND 0x7f) :: byte;
          value' = drop_bit 7 value;
          byte = (if value' = 0 then payload else payload OR 0x80)
      in if len < length bytes
         then (let bytes' = bytes[len := byte]
               in if value' = 0 then Some (bytes', len + 1) else encode_loop value' bytes' (len + 1))
         else None)"
  by pat_completeness auto
termination
  by (relation "measure (\<lambda>(value, bytes, len). unat value)") (auto simp: unat_shift_less)

declare encode_loop.simps [simp del]

definition encode_u64 :: "64 word \<Rightarrow> encoded_u64 option" where
  "encode_u64 value =
     map_option (\<lambda>(bytes, len). \<lparr>eu_bytes = bytes, eu_len = of_nat len\<rparr>)
       (encode_loop value (replicate max_u64_varint_bytes 0) 0)"

text \<open>Writing returns the count and the buffer; appending takes whether the allocator can reserve.\<close>

definition write_u64 :: "64 word \<Rightarrow> byte list \<Rightarrow> (varint_encode_error + (nat \<times> byte list)) option" where
  "write_u64 value buffer =
     map_option (\<lambda>encoded.
       let required = unat (eu_len encoded)
       in if length buffer < required then Inl (BufferTooSmall required (length buffer))
          else Inr (required, as_bytes encoded @ drop required buffer)) (encode_u64 value)"

definition append_u64 ::
  "(nat \<Rightarrow> bool) \<Rightarrow> 64 word \<Rightarrow> byte list \<Rightarrow> (varint_encode_error + (nat \<times> byte list)) option" where
  "append_u64 try_reserve value buffer =
     map_option (\<lambda>encoded.
       let additional = unat (eu_len encoded)
       in if \<not> try_reserve additional then Inl (AllocationFailed additional)
          else Inr (additional, buffer @ as_bytes encoded)) (encode_u64 value)"

fun decode_loop :: "nat \<Rightarrow> byte list \<Rightarrow> nat \<Rightarrow> 64 word \<Rightarrow> varint_decode_error + (64 word \<times> nat)" where
  "decode_loop supplied [] index value = Inl (Truncated (min supplied max_u64_varint_bytes))"
| "decode_loop supplied (byte # rest) index value =
     (let payload = byte AND 0x7f
      in if index = max_u64_varint_bytes - 1 \<and> (payload > 1 \<or> byte AND 0x80 \<noteq> 0) then Inl (Overflow index)
         else
           (let value' = value OR push_bit (index * 7) (ucast payload)
            in if byte AND 0x80 = 0
               then (let consumed = index + 1; canonical_len = encoded_len_u64 value'
                     in if consumed \<noteq> canonical_len then Inl (NonMinimal consumed canonical_len)
                        else Inr (value', consumed))
               else decode_loop supplied rest (index + 1) value'))"

definition decode_u64_prefix :: "byte list \<Rightarrow> varint_decode_error + (64 word \<times> nat)" where
  "decode_u64_prefix input =
     (if input = [] then Inl Empty
      else decode_loop (length input) (take max_u64_varint_bytes input) 0 0)"

definition decode_u64 :: "byte list \<Rightarrow> varint_decode_error + 64 word" where
  "decode_u64 input =
     and_then (decode_u64_prefix input) (\<lambda>(value, consumed).
       if consumed \<noteq> length input then Inl (TrailingBytes consumed (length input - consumed))
       else Inr value)"

section \<open>Digits\<close>

fun leb128 :: "nat \<Rightarrow> byte list" where
  "leb128 n = (if n < 128 then [of_nat n] else of_nat (n mod 128 + 128) # leb128 (n div 128))"

declare leb128.simps [simp del]

lemma leb128_small: "n < 128 \<Longrightarrow> leb128 n = [of_nat n]"
  by (simp add: leb128.simps)

lemma leb128_large: "128 \<le> n \<Longrightarrow> leb128 n = of_nat (n mod 128 + 128) # leb128 (n div 128)"
  by (simp add: leb128.simps [of n])

lemma leb128_ne [simp]: "leb128 n \<noteq> []"
  by (simp add: leb128.simps [of n])

lemma significant_bits_le: "significant_bits n \<le> k \<longleftrightarrow> n < 2 ^ k"
proof (induction k arbitrary: n)
  case 0
  then show ?case by (simp add: significant_bits.simps [of n])
next
  case (Suc k)
  show ?case
    using Suc [of "n div 2"] by (simp add: significant_bits.simps [of n] less_mult_imp_div_less div_less_iff_less_mult mult.commute)
qed

lemma significant_bits_div: "significant_bits (n div 2 ^ k) = significant_bits n - k"
proof (induction k arbitrary: n)
  case (Suc k)
  have "n div 2 ^ Suc k = n div 2 div 2 ^ k" by (simp add: div_mult2_eq)
  with Suc [of "n div 2"] show ?case
    by (cases "n = 0") (simp_all add: significant_bits.simps [of n] significant_bits.simps [of 0])
qed simp

text \<open>The length function counts the digits.\<close>

definition digits :: "nat \<Rightarrow> nat" where
  "digits n = (if significant_bits n = 0 then 1 else div_ceil (significant_bits n) 7)"

lemma digits_small: "n < 128 \<Longrightarrow> digits n = 1"
proof -
  assume "n < 128"
  then have le: "significant_bits n \<le> 7" by (simp add: significant_bits_le)
  show ?thesis
  proof (cases "significant_bits n = 7")
    case False
    with le have "significant_bits n < 7" by simp
    then show ?thesis by (auto simp: digits_def div_ceil_def)
  qed (simp add: digits_def div_ceil_def)
qed

lemma digits_large:
  assumes "128 \<le> n"
  shows "digits n = Suc (digits (n div 128))"
proof -
  have d: "significant_bits (n div 128) = significant_bits n - 7"
    using significant_bits_div [of n 7] by simp
  have "\<not> significant_bits n \<le> 7" using assms by (simp add: significant_bits_le)
  then obtain k where k: "significant_bits n = k + 7" "0 < k"
    by (metis add.commute add_diff_cancel_left' le_add_diff_inverse nat_le_linear zero_less_diff not_le)
  have "(k + 7) div 7 = Suc (k div 7)" by presburger
  then show ?thesis unfolding digits_def d k(1) using k(2) by (simp add: div_ceil_def)
qed

lemma length_leb128: "length (leb128 n) = digits n"
proof (induction n rule: leb128.induct)
  case (1 n)
  then show ?case
    by (cases "n < 128") (simp_all add: leb128_small leb128_large digits_small digits_large)
qed

lemma encoded_len_digits: "encoded_len_u64 v = digits (unat v)"
proof -
  have "significant_bits (unat v) \<le> 64"
    using unsigned_less [of v] by (simp add: significant_bits_le)
  then have "64 - leading_zeros v = significant_bits (unat v)" by (simp add: leading_zeros_def)
  moreover have "s mod 7 = 0 \<Longrightarrow> 0 < s \<Longrightarrow> s div 7 \<noteq> 0" for s :: nat by presburger
  ultimately show ?thesis by (auto simp: encoded_len_u64_def digits_def div_ceil_def Let_def)
qed

lemma digits_bound: "n < 2 ^ 64 \<Longrightarrow> digits n \<le> 10"
proof -
  assume "n < 2 ^ 64"
  then have "significant_bits n \<le> 64" by (simp only: significant_bits_le)
  then have "significant_bits n div 7 \<le> 9" by simp
  then show ?thesis by (simp add: digits_def div_ceil_def)
qed

section \<open>Bytes\<close>

lemma mask7: "(0x7f :: byte) = mask 7" "(0x7f :: 64 word) = mask 7"
  by (simp_all add: mask_eq_exp_minus_1)

lemma payload_unat: "unat (b AND 0x7f) = unat b mod 128" for b :: byte
  by (simp add: mask7 unsigned_take_bit_eq take_bit_nat_def flip: take_bit_eq_mask)

lemma payload_value: "unat (v AND 0x7f) = unat v mod 128" for v :: "64 word"
  by (simp add: mask7 unsigned_take_bit_eq take_bit_nat_def flip: take_bit_eq_mask)

lemma byte_less: "unat b < 256" for b :: byte
  using unsigned_less [of b] by simp

lemma continued_iff: "b AND 0x80 \<noteq> 0 \<longleftrightarrow> 128 \<le> unat b" for b :: byte
proof -
  have "b AND 2 ^ 7 = (if bit b 7 then 2 ^ 7 else 0)"
    by (rule bit_word_eqI) (auto simp: bit_simps simp del: power_numeral)
  then have "b AND 0x80 \<noteq> 0 \<longleftrightarrow> bit b 7" by simp
  moreover have "bit b 7 \<longleftrightarrow> odd (unat b div 128)"
    using bit_unsigned_iff [of b 7, where ?'a = nat] by (simp add: bit_iff_odd)
  moreover have "unat b div 128 = (if 128 \<le> unat b then 1 else 0)"
    using byte_less [of b] by (auto simp: div_eq_dividend_iff div_nat_eqI)
  ultimately show ?thesis by (auto split: if_splits)
qed

lemma of_nat_byte: "n < 256 \<Longrightarrow> unat (of_nat n :: byte) = n"
  by (simp add: unsigned_of_nat take_bit_nat_eq_self)

lemma byte_of_unat: "of_nat (unat b) = b" for b :: byte
  by simp

lemma first_byte:
  "(ucast (v AND 0x7f) :: byte) = of_nat (unat v mod 128)"
  "(ucast (v AND 0x7f) :: byte) OR 0x80 = of_nat (unat v mod 128 + 128)"
  for v :: "64 word"
proof -
  show p: "(ucast (v AND 0x7f) :: byte) = of_nat (unat v mod 128)"
    by (simp add: payload_value [symmetric])
  have "unat (of_nat (unat v mod 128) OR 0x80 :: byte) = unat v mod 128 OR 128"
    by (simp add: unsigned_or_eq of_nat_byte)
  also have "\<dots> = unat v mod 128 + 128"
  proof -
    have "concat_bit 7 (int (unat v mod 128)) 1 = int (unat v mod 128) + 128"
      by (simp add: concat_bit_eq take_bit_int_def zmod_int)
    moreover have "concat_bit 7 (int (unat v mod 128)) 1 = int (unat v mod 128) OR 128"
      by (simp add: concat_bit_def take_bit_int_def zmod_int)
    ultimately have "int (unat v mod 128) OR int 128 = int (unat v mod 128 + 128)" by simp
    then show ?thesis unfolding of_nat_or_eq [symmetric] of_nat_eq_iff .
  qed
  finally have "unat (of_nat (unat v mod 128) OR 0x80 :: byte) = unat v mod 128 + 128" .
  then have "(of_nat (unat v mod 128) OR 0x80 :: byte) = of_nat (unat v mod 128 + 128)"
    by (metis byte_of_unat)
  then show "(ucast (v AND 0x7f) :: byte) OR 0x80 = of_nat (unat v mod 128 + 128)"
    unfolding p .
qed

section \<open>The encoder\<close>

lemma shift_zero: "drop_bit 7 v = 0 \<longleftrightarrow> unat v < 128" for v :: "64 word"
proof -
  have "drop_bit 7 v = 0 \<longleftrightarrow> unat (drop_bit 7 v) = 0" by (rule unsigned_eq_0_iff [symmetric])
  then show ?thesis unfolding unat_shift by (simp add: div_eq_0_iff)
qed

lemma update_append: "len < length xs \<Longrightarrow> xs[len := x] = take len xs @ x # drop (Suc len) xs"
  by (simp add: upd_conv_take_nth_drop)

lemma encode_loop_leb128:
  "len + length (leb128 (unat v)) \<le> length bytes \<Longrightarrow>
     encode_loop v bytes len =
       Some (take len bytes @ leb128 (unat v) @ drop (len + length (leb128 (unat v))) bytes,
         len + length (leb128 (unat v)))"
proof (induction v bytes len rule: encode_loop.induct)
  case (1 v bytes len)
  have len: "len < length bytes" using "1.prems" by (cases "leb128 (unat v)") auto
  show ?case
  proof (cases "unat v < 128")
    case True
    then show ?thesis
      using len by (simp add: encode_loop.simps [of v] shift_zero first_byte leb128_small update_append)
  next
    case False
    let ?b = "of_nat (unat v mod 128 + 128) :: byte" and ?v = "drop_bit 7 v"
    have nz: "?v \<noteq> 0" using False by (simp add: shift_zero)
    have leb: "leb128 (unat v) = ?b # leb128 (unat ?v)" using False by (simp add: leb128_large unat_shift)
    have step: "encode_loop v bytes len = encode_loop ?v (bytes[len := ?b]) (len + 1)"
      using len nz by (simp add: encode_loop.simps [of v] first_byte(2) del: of_nat_add)
    have "len + 1 + length (leb128 (unat ?v)) \<le> length (bytes[len := ?b])"
      using "1.prems" by (simp add: leb)
    then have "encode_loop ?v (bytes[len := ?b]) (len + 1) =
       Some (take (len + 1) (bytes[len := ?b]) @ leb128 (unat ?v) @
         drop (len + 1 + length (leb128 (unat ?v))) (bytes[len := ?b]), len + 1 + length (leb128 (unat ?v)))"
      using "1.IH" [OF refl refl refl len refl nz] nz by (simp add: first_byte(2) del: of_nat_add)
    moreover have "take (len + 1) (bytes[len := ?b]) = take len bytes @ [?b]"
      using len by (simp add: take_Suc_conv_app_nth)
    ultimately show ?thesis unfolding step leb by simp
  qed
qed

lemma length_bound: "length (leb128 (unat v)) \<le> 10" for v :: "64 word"
  using digits_bound [of "unat v"] unsigned_less [of v] by (simp add: length_leb128)

lemma encode_u64_leb128:
  obtains e where "encode_u64 v = Some e" "as_bytes e = leb128 (unat v)" "unat (eu_len e) = length (leb128 (unat v))"
proof -
  let ?n = "length (leb128 (unat v))"
  have n: "?n \<le> 10" by (rule length_bound)
  then have "unat (of_nat ?n :: byte) = ?n" by (intro of_nat_byte) simp
  moreover have "encode_loop v (replicate 10 0) 0 = Some (leb128 (unat v) @ replicate (10 - ?n) 0, ?n)"
    using encode_loop_leb128 [of 0 v "replicate 10 0"] n by simp
  ultimately show ?thesis
    using that by (simp add: encode_u64_def max_u64_varint_bytes_def as_bytes_def)
qed

section \<open>The decoder\<close>

text \<open>A digit lands above the digits read so far.\<close>

lemma or_digit:
  fixes a p i :: nat
  assumes "a < 2 ^ (7 * i)" "a + p * 2 ^ (7 * i) < 2 ^ 64" "p < 256"
  shows "(of_nat a :: 64 word) OR push_bit (i * 7) (ucast (of_nat p :: byte)) = of_nat (a + p * 2 ^ (7 * i))"
proof -
  have "int a OR push_bit (7 * i) (int p) = int a + push_bit (7 * i) (int p)"
  proof -
    have "take_bit (7 * i) (int a) = int a" using assms(1) by (simp add: take_bit_int_eq_self)
    then show ?thesis
      using concat_bit_eq [of "7 * i" "int a" "int p"] by (simp add: concat_bit_def)
  qed
  then have "word_of_int (int a OR push_bit (7 * i) (int p)) = (of_nat (a + p * 2 ^ (7 * i)) :: 64 word)"
    by (simp add: push_bit_eq_mult)
  moreover have "(ucast (of_nat p :: byte) :: 64 word) = of_nat p"
    using assms(3) by (simp add: unsigned_of_nat take_bit_nat_eq_self)
  moreover have "word_of_int (int a OR push_bit (7 * i) (int p)) =
      (word_of_int (int a) OR push_bit (7 * i) (word_of_int (int p)) :: 64 word)"
    by (simp only: of_int_or_eq of_int_push_bit)
  ultimately show ?thesis by (simp add: mult.commute)
qed

lemma payload_byte: "b AND 0x7f = (of_nat (unat b mod 128) :: byte)" for b :: byte
  by (metis byte_of_unat payload_unat)

lemma payload_large: "payload > (1 :: byte) \<longleftrightarrow> 1 < unat payload" for payload :: byte
  by (simp add: word_less_nat_alt)

text \<open>One turn of the loop, over the digit of the byte.\<close>

lemma decode_turn:
  assumes "a < 2 ^ (7 * i)" "a + unat b mod 128 * 2 ^ (7 * i) < 2 ^ 64"
  defines "v \<equiv> of_nat (a + unat b mod 128 * 2 ^ (7 * i)) :: 64 word"
  shows "decode_loop supplied (b # rest) i (of_nat a) =
     (if i = 9 \<and> (1 < unat b mod 128 \<or> 128 \<le> unat b) then Inl (Overflow i)
      else if unat b < 128
      then (if i + 1 \<noteq> encoded_len_u64 v then Inl (NonMinimal (i + 1) (encoded_len_u64 v)) else Inr (v, i + 1))
      else decode_loop supplied rest (i + 1) v)"
proof -
  have "unat b mod 128 < 256" using mod_less_divisor [of 128 "unat b"] by linarith
  then have v: "(of_nat a :: 64 word) OR push_bit (i * 7) (ucast (b AND 0x7f)) = v"
    using or_digit [OF assms(1,2)] by (simp only: payload_byte v_def)
  have c: "b AND 0x80 = 0 \<longleftrightarrow> unat b < 128" using continued_iff [of b] by auto
  show ?thesis
    by (simp only: decode_loop.simps Let_def v c payload_large payload_unat max_u64_varint_bytes_def)
      (simp add: not_less)
qed

lemma shifted_digit:
  fixes a i n :: nat
  shows "a + n mod 128 * 2 ^ (7 * i) + n div 128 * 2 ^ (7 * (i + 1)) = a + n * 2 ^ (7 * i)"
proof -
  have "m * 2 ^ (7 * i) + d * 2 ^ (7 * (i + 1)) = (m + d * 128) * 2 ^ (7 * i)" for m d :: nat
    by (simp add: power_add algebra_simps)
  from this [of "n mod 128" "n div 128"] show ?thesis by simp
qed

lemma digit_bound:
  fixes a i p :: nat
  assumes "a < 2 ^ (7 * i)" "p < 128"
  shows "a + p * 2 ^ (7 * i) < 2 ^ (7 * (i + 1))"
proof -
  have "(p + 1) * 2 ^ (7 * i) \<le> 128 * 2 ^ (7 * i)" using assms(2) by (intro mult_right_mono) auto
  moreover have "2 ^ (7 * (i + 1)) = 128 * (2 ^ (7 * i) :: nat)" by (simp add: power_add)
  moreover have "(p + 1) * 2 ^ (7 * i) = p * 2 ^ (7 * i) + 2 ^ (7 * i)" by simp
  ultimately show ?thesis using assms(1) by linarith
qed

lemma decode_loop_leb128:
  assumes "a < 2 ^ (7 * i)" "a + n * 2 ^ (7 * i) < 2 ^ 64" "i + length (leb128 n) \<le> 10"
    and "digits (a + n * 2 ^ (7 * i)) = i + length (leb128 n)"
  shows "decode_loop supplied (leb128 n @ rest) i (of_nat a) =
    Inr (of_nat (a + n * 2 ^ (7 * i)), i + length (leb128 n))"
  using assms
proof (induction n arbitrary: a i rule: leb128.induct)
  case (1 n)
  show ?case
  proof (cases "n < 128")
    case True
    have b: "unat (of_nat n :: byte) = n" using True by (simp add: of_nat_byte)
    have "n \<le> 1" if "i = 9" using "1.prems"(2) that by simp
    then show ?thesis
      using True "1.prems" decode_turn [of a i "of_nat n" supplied rest]
      by (auto simp: leb128_small b encoded_len_digits unsigned_of_nat take_bit_nat_eq_self simp del: of_nat_add)
  next
    case False
    let ?b = "of_nat (n mod 128 + 128) :: byte" and ?a = "a + n mod 128 * 2 ^ (7 * i)"
    have b: "unat ?b = n mod 128 + 128" using mod_less_divisor [of 128 n] by (intro of_nat_byte) linarith
    have leb: "leb128 n = ?b # leb128 (n div 128)" using False by (simp add: leb128_large)
    have i: "i \<noteq> 9" using "1.prems"(3) by (cases "leb128 (n div 128)") (auto simp: leb)
    note sum = shifted_digit [of a n i]
    have lt: "?a < 2 ^ 64" using "1.prems"(2) sum by linarith
    have "decode_loop supplied (leb128 n @ rest) i (of_nat a) =
        decode_loop supplied (leb128 (n div 128) @ rest) (i + 1) (of_nat ?a)"
      using decode_turn [of a i ?b supplied "leb128 (n div 128) @ rest"] "1.prems"(1) lt i
      by (simp add: leb b del: of_nat_add)
    also have "\<dots> = Inr (of_nat (a + n * 2 ^ (7 * i)), i + length (leb128 n))"
      using "1.IH" [OF False, of ?a "i + 1"] digit_bound [OF "1.prems"(1), of "n mod 128"] "1.prems"(2-4)
      unfolding sum by (simp add: leb del: of_nat_add)
    finally show ?thesis .
  qed
qed

text \<open>What the decoder accepts: a run of continued bytes and a last one, with the least number of digits.\<close>

fun terminated :: "byte list \<Rightarrow> bool" where
  "terminated [] = False"
| "terminated (b # bs) = (if unat b < 128 then bs = [] else terminated bs)"

fun raw :: "byte list \<Rightarrow> nat" where
  "raw [] = 0"
| "raw (b # bs) = unat b mod 128 + 128 * raw bs"

lemma terminated_minimal:
  "terminated bs \<Longrightarrow> digits (raw bs) \<le> length bs \<and> (digits (raw bs) = length bs \<longrightarrow> leb128 (raw bs) = bs)"
proof (induction bs)
  case (Cons b bs)
  show ?case
  proof (cases "unat b < 128")
    case True
    with Cons.prems show ?thesis by (simp add: digits_small leb128_small)
  next
    case False
    with Cons.prems have t: "terminated bs" "bs \<noteq> []" by auto
    have b: "unat b = unat b mod 128 + 128"
      using False byte_less [of b] by (simp add: le_mod_geq)
    show ?thesis
    proof (cases "raw bs = 0")
      case True
      then have "raw (b # bs) < 128" by simp
      moreover have "1 < length (b # bs)" using t(2) by (cases bs) auto
      ultimately show ?thesis by (simp only: digits_small) simp
    next
      case nz: False
      then have large: "128 \<le> raw (b # bs)" by simp
      have div: "raw (b # bs) div 128 = raw bs" "raw (b # bs) mod 128 = unat b mod 128" by simp_all
      have "of_nat (unat b mod 128 + 128) = b" using b by (metis byte_of_unat)
      then show ?thesis
        using Cons.IH [OF t(1)] by (simp only: digits_large [OF large] leb128_large [OF large] div) simp
    qed
  qed
qed simp

lemma decode_overflow:
  assumes "1 < unat b mod 128 \<or> 128 \<le> unat b"
  shows "decode_loop supplied (b # rest) 9 v = Inl (Overflow 9)"
proof -
  have "b AND 0x80 \<noteq> 0 \<longleftrightarrow> 128 \<le> unat b" by (rule continued_iff)
  with assms show ?thesis
    by (simp only: decode_loop.simps Let_def payload_large payload_unat max_u64_varint_bytes_def) simp
qed

lemma decode_loop_sound:
  assumes "decode_loop supplied bs i (of_nat a) = Inr (v, consumed)" "a < 2 ^ (7 * i)" "i + length bs \<le> 10"
  shows "\<exists>pre post. bs = pre @ post \<and> terminated pre \<and> consumed = i + length pre \<and>
    unat v = a + raw pre * 2 ^ (7 * i) \<and> encoded_len_u64 v = consumed"
  using assms
proof (induction bs arbitrary: i a)
  case (Cons b bs)
  let ?p = "unat b mod 128"
  let ?a = "a + ?p * 2 ^ (7 * i)"
  have p: "?p < 128" by simp
  note next_bound = digit_bound [OF Cons.prems(2) p]
  have ok: "\<not> (i = 9 \<and> (1 < ?p \<or> 128 \<le> unat b))"
    using Cons.prems(1) decode_overflow [of b supplied bs] by auto
  have lt: "?a < 2 ^ 64"
  proof (cases "i = 9")
    case False
    with Cons.prems(3) have "7 * (i + 1) \<le> 64" by simp
    then have "(2::nat) ^ (7 * (i + 1)) \<le> 2 ^ 64" by (rule power_increasing) simp
    with next_bound show ?thesis by (rule less_le_trans)
  next
    case True
    with ok have "?p \<le> 1" by auto
    then have "?p * 2 ^ 63 \<le> 1 * 2 ^ 63" by (rule mult_right_mono) simp
    with True Cons.prems(2) show ?thesis by simp
  qed
  note turn = decode_turn [OF Cons.prems(2) lt, of supplied bs]
  show ?case
  proof (cases "unat b < 128")
    case True
    then have res: "i + 1 = encoded_len_u64 v" "v = of_nat ?a" "consumed = i + 1"
      using Cons.prems(1) turn ok by (auto split: if_splits simp del: of_nat_add)
    have "unat v = ?a" unfolding res(2) using lt by (simp add: unsigned_of_nat take_bit_nat_eq_self del: of_nat_add)
    then have "b # bs = [b] @ bs \<and> terminated [b] \<and> consumed = i + length [b] \<and>
        unat v = a + raw [b] * 2 ^ (7 * i) \<and> encoded_len_u64 v = consumed"
      using True res by simp
    then show ?thesis by blast
  next
    case False
    then have "decode_loop supplied bs (i + 1) (of_nat ?a) = Inr (v, consumed)"
      using Cons.prems(1) turn ok by (simp del: of_nat_add)
    from Cons.IH [OF this next_bound] Cons.prems(3) obtain pre post where
      pre: "bs = pre @ post" "terminated pre" "consumed = i + 1 + length pre"
        "unat v = ?a + raw pre * 2 ^ (7 * (i + 1))" "encoded_len_u64 v = consumed" by auto
    have "?a + raw pre * 2 ^ (7 * (i + 1)) = a + raw (b # pre) * 2 ^ (7 * i)"
      using shifted_digit [of a "raw (b # pre)" i] by simp
    then have "b # bs = (b # pre) @ post \<and> terminated (b # pre) \<and> consumed = i + length (b # pre) \<and>
        unat v = a + raw (b # pre) * 2 ^ (7 * i) \<and> encoded_len_u64 v = consumed"
      using pre False by simp
    then show ?thesis by blast
  qed
qed simp

section \<open>Properties\<close>

lemma decode_prefix_leb128:
  "decode_u64_prefix (leb128 (unat v) @ rest) = Inr (v, length (leb128 (unat v)))"
proof -
  let ?n = "length (leb128 (unat v))"
  have n: "?n \<le> 10" by (rule length_bound)
  have "decode_loop (?n + length rest) (leb128 (unat v) @ take (10 - ?n) rest) 0 (of_nat 0) =
      Inr (of_nat (0 + unat v * 2 ^ (7 * 0)), 0 + ?n)"
    by (rule decode_loop_leb128) (use n unsigned_less [of v] in \<open>simp_all add: length_leb128\<close>)
  then show ?thesis
    using n by (simp add: decode_u64_prefix_def max_u64_varint_bytes_def)
qed

lemma decode_prefix_sound:
  assumes "decode_u64_prefix input = Inr (v, consumed)"
  shows "take consumed input = leb128 (unat v)" "consumed = length (leb128 (unat v))" "consumed \<le> length input"
proof -
  have "decode_loop (length input) (take 10 input) 0 (of_nat 0) = Inr (v, consumed)"
    using assms by (simp add: decode_u64_prefix_def max_u64_varint_bytes_def split: if_splits)
  then obtain pre post where pre: "take 10 input = pre @ post" "terminated pre" "consumed = length pre"
      "unat v = raw pre" "encoded_len_u64 v = consumed"
    using decode_loop_sound [of "length input" "take 10 input" 0 0 v consumed] by auto
  have len: "length pre = digits (unat v)" using pre(3,5) by (simp add: encoded_len_digits)
  then have leb: "leb128 (unat v) = pre" using terminated_minimal [OF pre(2)] pre(4) by simp
  have le: "length pre \<le> length (take 10 input)" unfolding pre(1) by simp
  have "take (length pre) (take 10 input) = pre" by (simp add: pre(1))
  then show "take consumed input = leb128 (unat v)" using le leb pre(3) by (simp add: min_absorb1)
  show "consumed = length (leb128 (unat v))" using leb pre(3) by simp
  show "consumed \<le> length input" using le pre(3) by simp
qed

text \<open>
  C33: Every 64-bit value encodes without leaving the inline array, in exactly the number of bytes
  \<open>encoded_len_u64\<close> announces, at most ten, and decodes back to itself, both alone and in front of any
  further bytes.
\<close>

theorem varint_roundtrip:
  "\<exists>e. encode_u64 v = Some e \<and> length (as_bytes e) = encoded_len_u64 v \<and>
     encoded_len_u64 v \<le> max_u64_varint_bytes \<and> decode_u64 (as_bytes e) = Inr v \<and>
     decode_u64_prefix (as_bytes e @ rest) = Inr (v, encoded_len_u64 v)"
proof -
  obtain e where e: "encode_u64 v = Some e" "as_bytes e = leb128 (unat v)" by (rule encode_u64_leb128)
  have "decode_u64 (as_bytes e) = Inr v"
    using decode_prefix_leb128 [of v "[]"] by (simp add: decode_u64_def e(2))
  then show ?thesis
    using e decode_prefix_leb128 [of v rest] length_bound [of v]
    by (simp add: encoded_len_digits length_leb128 max_u64_varint_bytes_def)
qed

text \<open>
  C34: The encoding is canonical: the exact decoder accepts a byte string for a value if and only if it is
  the encoding of that value, so no value has two accepted representations.
\<close>

theorem varint_canonical:
  "decode_u64 input = Inr v \<longleftrightarrow> (\<exists>e. encode_u64 v = Some e \<and> as_bytes e = input)"
proof
  assume "decode_u64 input = Inr v"
  then have "decode_u64_prefix input = Inr (v, length input)"
    by (auto simp: decode_u64_def and_then_eq_Inr split: if_splits)
  from decode_prefix_sound(1) [OF this] have "input = leb128 (unat v)" by simp
  then show "\<exists>e. encode_u64 v = Some e \<and> as_bytes e = input"
    by (metis encode_u64_leb128)
next
  assume "\<exists>e. encode_u64 v = Some e \<and> as_bytes e = input"
  then have "input = leb128 (unat v)" using encode_u64_leb128 [of v] by (metis option.inject)
  then show "decode_u64 input = Inr v"
    using decode_prefix_leb128 [of v "[]"] by (simp add: decode_u64_def)
qed

end
