(* ===== verification/DeltaVarint.thy ===== *)
theory DeltaVarint
  imports Varint
begin

text \<open>
  Delta coding of nondecreasing sequences (\<open>crates/fgdb-codec/src/delta_varint.rs\<close>): the first value and
  then the gaps, each a canonical varint. \<open>try_reserve\<close> is the allocator's answer to a reservation.
\<close>

section \<open>Definitions\<close>

datatype delta_encode_cause =
    NotMonotone "64 word" "64 word"
  | OutputLengthOverflow nat

datatype delta_encode_error =
    EncodeValue nat nat delta_encode_cause
  | EncodeAllocationFailed nat

datatype delta_decode_cause =
    DecodeVarint varint_decode_error
  | ValueOverflow "64 word" "64 word"
  | DecodeTrailingBytes nat

datatype delta_decode_error =
    EntryLimitExceeded nat nat
  | DecodeAllocationFailed nat
  | DecodeValue nat nat delta_decode_cause

text \<open>\<open>u64::checked_sub\<close> and \<open>u64::checked_add\<close> on words.\<close>

definition word_checked_sub :: "64 word \<Rightarrow> 64 word \<Rightarrow> 64 word option" where
  "word_checked_sub a b = (if b \<le> a then Some (a - b) else None)"

definition word_checked_add :: "64 word \<Rightarrow> 64 word \<Rightarrow> 64 word option" where
  "word_checked_add a b = (if unat a + unat b < 2 ^ 64 then Some (a + b) else None)"

text \<open>The first pass: validation and the exact output length.\<close>

fun measure_values ::
  "nat \<Rightarrow> nat \<Rightarrow> 64 word option \<Rightarrow> 64 word list \<Rightarrow> delta_encode_error + nat" where
  "measure_values value_index output_len previous [] = Inr output_len"
| "measure_values value_index output_len previous (current # rest) =
     and_then (case previous of
         None \<Rightarrow> Inr current
       | Some previous_value \<Rightarrow>
          (case word_checked_sub current previous_value of
             None \<Rightarrow> Inl (EncodeValue value_index output_len (NotMonotone previous_value current))
           | Some gap \<Rightarrow> Inr gap))
       (\<lambda>component.
         let component_len = encoded_len_u64 component
         in case checked_add output_len component_len of
              None \<Rightarrow> Inl (EncodeValue value_index output_len (OutputLengthOverflow component_len))
            | Some output_len' \<Rightarrow> measure_values (value_index + 1) output_len' (Some current) rest)"

text \<open>The second pass, \<open>None\<close> if the scalar encoder panicked.\<close>

fun emit_values :: "64 word option \<Rightarrow> 64 word list \<Rightarrow> byte list \<Rightarrow> byte list option" where
  "emit_values previous [] out = Some out"
| "emit_values previous (current # rest) out =
     (let component = (case previous of None \<Rightarrow> current | Some previous_value \<Rightarrow> current - previous_value)
      in case encode_u64 component of
           None \<Rightarrow> None
         | Some encoded \<Rightarrow> emit_values (Some current) rest (out @ as_bytes encoded))"

definition encode ::
  "(nat \<Rightarrow> bool) \<Rightarrow> 64 word list \<Rightarrow> (delta_encode_error + byte list) option" where
  "encode try_reserve vals =
     (case measure_values 0 0 None vals of
        Inl e \<Rightarrow> Some (Inl e)
      | Inr output_len \<Rightarrow>
          if \<not> try_reserve output_len then Some (Inl (EncodeAllocationFailed output_len))
          else map_option Inr (emit_values None vals []))"

text \<open>The decoder's walk, with the vals it observes.\<close>

fun walk_loop ::
  "byte list \<Rightarrow> nat \<Rightarrow> nat \<Rightarrow> nat \<Rightarrow> 64 word option \<Rightarrow> delta_decode_error + (64 word list \<times> nat)" where
  "walk_loop input 0 value_index byte_offset previous = Inr ([], byte_offset)"
| "walk_loop input (Suc remaining) value_index byte_offset previous =
     (case decode_u64_prefix (drop byte_offset input) of
        Inl source \<Rightarrow> Inl (DecodeValue value_index byte_offset (DecodeVarint source))
      | Inr (component, consumed) \<Rightarrow>
          and_then (case previous of
              None \<Rightarrow> Inr component
            | Some previous_value \<Rightarrow>
               (case word_checked_add previous_value component of
                  None \<Rightarrow> Inl (DecodeValue value_index byte_offset (ValueOverflow previous_value component))
                | Some current \<Rightarrow> Inr current))
            (\<lambda>current.
              and_then (walk_loop input remaining (value_index + 1) (byte_offset + consumed) (Some current))
                (\<lambda>(vals, offset). Inr (current # vals, offset))))"

definition walk_values :: "byte list \<Rightarrow> nat \<Rightarrow> delta_decode_error + 64 word list" where
  "walk_values input count =
     and_then (walk_loop input count 0 0 None) (\<lambda>(vals, byte_offset).
       if byte_offset \<noteq> length input
       then Inl (DecodeValue count byte_offset (DecodeTrailingBytes (length input - byte_offset)))
       else Inr vals)"

definition decode ::
  "(nat \<Rightarrow> bool) \<Rightarrow> byte list \<Rightarrow> nat \<Rightarrow> nat \<Rightarrow> delta_decode_error + 64 word list" where
  "decode try_reserve input count limit =
     (if count > limit then Inl (EntryLimitExceeded count limit)
      else and_then (walk_values input count) (\<lambda>_.
        if count \<noteq> 0 \<and> \<not> try_reserve count then Inl (DecodeAllocationFailed count)
        else walk_values input count))"

section \<open>The encoding of a sequence\<close>

fun components :: "64 word option \<Rightarrow> 64 word list \<Rightarrow> 64 word list" where
  "components previous [] = []"
| "components previous (current # rest) =
     (case previous of None \<Rightarrow> current | Some p \<Rightarrow> current - p) # components (Some current) rest"

definition layout :: "64 word option \<Rightarrow> 64 word list \<Rightarrow> byte list" where
  "layout previous vals = concat (map (\<lambda>v. leb128 (unat v)) (components previous vals))"

lemma layout_simps [simp]:
  "layout previous [] = []"
  "layout previous (current # rest) =
     leb128 (unat (case previous of None \<Rightarrow> current | Some p \<Rightarrow> current - p)) @ layout (Some current) rest"
  by (simp_all add: layout_def)

fun ascends :: "64 word option \<Rightarrow> 64 word list \<Rightarrow> bool" where
  "ascends previous [] = True"
| "ascends previous (current # rest) =
     ((case previous of None \<Rightarrow> True | Some p \<Rightarrow> p \<le> current) \<and> ascends (Some current) rest)"

lemma ascends_sorted: "ascends previous vals \<longleftrightarrow> sorted (case previous of None \<Rightarrow> vals | Some p \<Rightarrow> p # vals)"
  by (induction previous vals rule: ascends.induct) (force split: option.splits)+

lemma emit_values_layout: "emit_values previous vals out = Some (out @ layout previous vals)"
proof (induction vals arbitrary: previous out)
  case (Cons current rest)
  let ?c = "case previous of None \<Rightarrow> current | Some p \<Rightarrow> current - p"
  obtain e where "encode_u64 ?c = Some e" "as_bytes e = leb128 (unat ?c)"
    by (rule encode_u64_leb128)
  with Cons [of "Some current" "out @ leb128 (unat ?c)"] show ?case by simp
qed simp

lemma measure_values_layout:
  assumes "ascends previous vals" "output_len + length (layout previous vals) \<le> u64_max"
  shows "measure_values i output_len previous vals = Inr (output_len + length (layout previous vals))"
  using assms
proof (induction vals arbitrary: i output_len previous)
  case (Cons current rest)
  let ?c = "case previous of None \<Rightarrow> current | Some p \<Rightarrow> current - p"
  have "measure_values (i + 1) (output_len + encoded_len_u64 ?c) (Some current) rest =
      Inr (output_len + encoded_len_u64 ?c + length (layout (Some current) rest))"
    by (rule Cons.IH) (use Cons.prems in \<open>simp_all add: encoded_len_digits length_leb128\<close>)
  moreover have "output_len + encoded_len_u64 ?c \<le> u64_max"
    using Cons.prems(2) by (simp add: encoded_len_digits length_leb128)
  ultimately show ?case
    using Cons.prems(1)
    by (cases previous)
      (simp_all add: encoded_len_digits length_leb128 checked_add_def and_then_def word_checked_sub_def)
qed simp

lemma measure_values_ascends:
  "measure_values i output_len previous vals = Inr n \<Longrightarrow> ascends previous vals"
  by (induction i output_len previous vals rule: measure_values.induct)
    (auto simp: and_then_eq_Inr word_checked_sub_def Let_def split: option.splits if_splits)

section \<open>Decoding a sequence\<close>

lemma word_gap:
  fixes p c :: "64 word"
  assumes "p \<le> c"
  shows "word_checked_add p (c - p) = Some c"
proof -
  have "unat (c - p) = unat c - unat p" using assms by (simp add: unat_sub)
  moreover have "unat p \<le> unat c" using assms by (simp add: word_le_nat_alt)
  ultimately show ?thesis using unsigned_less [of c] by (simp add: word_checked_add_def)
qed

lemma word_checked_add_Some:
  assumes "word_checked_add p g = Some c"
  shows "p \<le> c" "c - p = g"
proof -
  have c: "c = p + g" and lt: "unat p + unat g < 2 ^ 64"
    using assms by (auto simp: word_checked_add_def split: if_splits)
  then have "unat c = unat p + unat g" by (simp add: unat_word_ariths)
  then show "p \<le> c" by (simp add: word_le_nat_alt)
  show "c - p = g" by (simp add: c)
qed

lemma walk_loop_layout:
  assumes "ascends previous vals" "drop offset input = layout previous vals @ rest"
  shows "walk_loop input (length vals) i offset previous = Inr (vals, offset + length (layout previous vals))"
  using assms
proof (induction vals arbitrary: i offset previous)
  case (Cons current more)
  let ?c = "case previous of None \<Rightarrow> current | Some p \<Rightarrow> current - p"
  let ?n = "length (leb128 (unat ?c))"
  have dec: "decode_u64_prefix (drop offset input) = Inr (?c, ?n)"
    unfolding Cons.prems(2) by (simp add: decode_prefix_leb128)
  have "drop (offset + ?n) input = drop ?n (drop offset input)" by (simp add: add.commute)
  also have "\<dots> = layout (Some current) more @ rest" unfolding Cons.prems(2) by simp
  finally have "walk_loop input (length more) (i + 1) (offset + ?n) (Some current) =
      Inr (more, offset + ?n + length (layout (Some current) more))"
    using Cons.prems(1) by (intro Cons.IH) simp_all
  then show ?case
    using dec Cons.prems(1) by (cases previous) (simp_all add: and_then_def word_gap)
qed simp

lemma walk_loop_sound:
  assumes "walk_loop input n i offset previous = Inr (vals, stop)"
  shows "length vals = n" "ascends previous vals" "take (stop - offset) (drop offset input) = layout previous vals"
    "stop = offset + length (layout previous vals)"
proof -
  have "length vals = n \<and> ascends previous vals \<and>
      take (length (layout previous vals)) (drop offset input) = layout previous vals \<and>
      stop = offset + length (layout previous vals)"
    using assms
  proof (induction n arbitrary: i offset previous vals stop)
    case (Suc n)
    obtain g k where dec: "decode_u64_prefix (drop offset input) = Inr (g, k)"
      using Suc.prems by (auto split: sum.splits)
    obtain current more where res: "vals = current # more"
        "walk_loop input n (i + 1) (offset + k) (Some current) = Inr (more, stop)"
      and c: "previous = None \<Longrightarrow> current = g" "\<And>p. previous = Some p \<Longrightarrow> word_checked_add p g = Some current"
      using Suc.prems dec by (auto simp: and_then_eq_Inr split: option.splits)
    have g: "(case previous of None \<Rightarrow> current | Some p \<Rightarrow> current - p) = g"
      "case previous of None \<Rightarrow> True | Some p \<Rightarrow> p \<le> current"
      using c word_checked_add_Some by (auto split: option.splits)
    note s = decode_prefix_sound [OF dec]
    have ih: "length more = n" "ascends (Some current) more"
      "take (length (layout (Some current) more)) (drop (offset + k) input) = layout (Some current) more"
      "stop = offset + k + length (layout (Some current) more)"
      using Suc.IH [OF res(2)] by auto
    have "take (k + length (layout (Some current) more)) (drop offset input) =
        leb128 (unat g) @ layout (Some current) more"
      using s(1) ih(3) by (simp add: take_add add.commute)
    then show ?case using ih g s(2) by (simp add: res(1))
  qed simp
  then show "length vals = n" "ascends previous vals" "take (stop - offset) (drop offset input) = layout previous vals"
    "stop = offset + length (layout previous vals)" by auto
qed

lemma walk_values_iff:
  "walk_values input n = Inr vals \<longleftrightarrow> length vals = n \<and> sorted vals \<and> input = layout None vals"
proof
  assume "walk_values input n = Inr vals"
  then have "walk_loop input n 0 0 None = Inr (vals, length input)"
    by (auto simp: walk_values_def and_then_eq_Inr split: if_splits)
  from walk_loop_sound [OF this] show "length vals = n \<and> sorted vals \<and> input = layout None vals"
    by (simp add: ascends_sorted)
next
  assume "length vals = n \<and> sorted vals \<and> input = layout None vals"
  then show "walk_values input n = Inr vals"
    using walk_loop_layout [of None vals 0 input "[]" 0] by (auto simp: walk_values_def and_then_def ascends_sorted)
qed


lemma encode_sorted:
  assumes "sorted vals" "length (layout None vals) \<le> u64_max"
  shows "encode grant vals = Some (if grant (length (layout None vals)) then Inr (layout None vals)
     else Inl (EncodeAllocationFailed (length (layout None vals))))"
  using measure_values_layout [of None vals 0 0] assms
  by (simp add: encode_def emit_values_layout ascends_sorted)


section \<open>Properties\<close>



text \<open>
  C36: Delta coding is canonical: on an input of addressable length the decoder returns a sequence if and
  only if the count is within the limit and matches, the storage is granted, and the input is the
  encoding of that nondecreasing sequence.
\<close>

theorem delta_canonical:
  assumes "length input \<le> u64_max"
  shows "decode grant input count limit = Inr vals \<longleftrightarrow>
     count \<le> limit \<and> length vals = count \<and> sorted vals \<and> (count = 0 \<or> grant count) \<and>
     encode (\<lambda>_. True) vals = Some (Inr input)"
proof -
  have "walk_values input count = Inr vals \<longleftrightarrow>
      length vals = count \<and> sorted vals \<and> encode (\<lambda>_. True) vals = Some (Inr input)"
  proof
    assume "walk_values input count = Inr vals"
    then have "length vals = count" "sorted vals" "input = layout None vals" by (auto simp: walk_values_iff)
    with encode_sorted [of vals "\<lambda>_. True"] assms
    show "length vals = count \<and> sorted vals \<and> encode (\<lambda>_. True) vals = Some (Inr input)" by simp
  next
    assume a: "length vals = count \<and> sorted vals \<and> encode (\<lambda>_. True) vals = Some (Inr input)"
    then have "input = layout None vals"
      by (auto simp: encode_def emit_values_layout split: sum.splits)
    with a show "walk_values input count = Inr vals" by (simp add: walk_values_iff)
  qed
  then show ?thesis
    by (auto simp: decode_def and_then_eq_Inr split: if_splits)
qed

theorem delta_canonical_witness:
  "decode (\<lambda>_. True) [5, 2] 2 2 = Inr [5, 7] \<and> encode (\<lambda>_. True) [5, 7] = Some (Inr [5, 2])"
proof -
  have "decode (\<lambda>_. True) [5, 2] 2 2 = Inr [5, 7]"
    by (auto simp: decode_def walk_values_iff leb128_small and_then_eq_Inr intro: exI [of _ "[5, 7]"])
  with delta_canonical [of "[5, 2]" "\<lambda>_. True" 2 2 "[5, 7]"] show ?thesis by (simp add: u64_max_def)
qed

end
