(* ===== verification/Ssi.thy ===== *)
theory Ssi
  imports Prelude
begin

text \<open>
  The serializability oracle (\<open>crates/fgdb-reference/src/ssi.rs\<close>): transaction traces, read-write
  antidependencies and the search for dangerous structures, with the theorem the oracle rests on. A
  history without a dangerous structure has a serial order in which every transaction reads what it
  read under snapshot isolation.

  Sequence numbers and transaction ids are natural numbers: the oracle only compares them. Identifiers
  of vertices, edges, relations, escrow domains and sketch profiles are only compared too.
\<close>

section \<open>Traces and structures\<close>

type_synonym identity = nat

datatype element_id = Vertex identity | Edge identity

datatype conflict_key =
    Element element_id
  | Adjacency identity identity
  | Escrow identity
  | Sketch identity
  | CoordinateExistence
  | EndpointExistence identity
  | CoordinateRoots

record txn_trace =
  tt_id :: nat
  tt_snapshot_high :: nat
  tt_commit_seq :: "nat option"
  tt_reads :: "conflict_key set"
  tt_writes :: "conflict_key set"

definition committed_at :: "txn_trace \<Rightarrow> nat \<Rightarrow> txn_trace" where
  "committed_at t s = t\<lparr>tt_commit_seq := Some s\<rparr>"

datatype dangerous_structure =
  DangerousStructure (ds_pivot: nat) (ds_incoming_from: nat) (ds_outgoing_to: nat)

text \<open>The derived \<open>Ord\<close> compares the fields in their order.\<close>

definition ds_key :: "dangerous_structure \<Rightarrow> nat list" where
  "ds_key d = [ds_pivot d, ds_incoming_from d, ds_outgoing_to d]"

lemma ds_key_inject: "ds_key d = ds_key e \<longleftrightarrow> d = e"
  by (cases d; cases e) (simp add: ds_key_def)

instantiation dangerous_structure :: linorder
begin

definition less_eq_dangerous_structure :: "dangerous_structure \<Rightarrow> dangerous_structure \<Rightarrow> bool" where
  "less_eq_dangerous_structure d e \<longleftrightarrow> ds_key d = ds_key e \<or> (ds_key d, ds_key e) \<in> lexord {(a, b). a < b}"

definition less_dangerous_structure :: "dangerous_structure \<Rightarrow> dangerous_structure \<Rightarrow> bool" where
  "less_dangerous_structure d e \<longleftrightarrow> (ds_key d, ds_key e) \<in> lexord {(a, b). a < b}"

instance
proof
  fix d e f :: dangerous_structure
  let ?r = "lexord {(a, b :: nat). a < b}"
  have irrefl: "(x, x) \<notin> ?r" for x by (rule lexord_irreflexive) auto
  have trans: "(x, z) \<in> ?r" if "(x, y) \<in> ?r" "(y, z) \<in> ?r" for x y z
    using that by (rule lexord_trans) (auto simp: trans_def)
  have linear: "(x, y) \<in> ?r \<or> x = y \<or> (y, x) \<in> ?r" for x y by (rule lexord_linear) auto
  show "d < e \<longleftrightarrow> d \<le> e \<and> \<not> e \<le> d"
    using irrefl trans by (auto simp: less_eq_dangerous_structure_def less_dangerous_structure_def)
  show "d \<le> d" by (simp add: less_eq_dangerous_structure_def)
  show "d \<le> f" if "d \<le> e" "e \<le> f" using that trans by (auto simp: less_eq_dangerous_structure_def)
  show "d = e" if "d \<le> e" "e \<le> d"
    using that irrefl trans by (auto simp: less_eq_dangerous_structure_def ds_key_inject)
  show "d \<le> e \<or> e \<le> d"
    using linear [of "ds_key d" "ds_key e"] by (auto simp: less_eq_dangerous_structure_def)
qed

end

definition antidependency :: "txn_trace \<Rightarrow> txn_trace \<Rightarrow> bool" where
  "antidependency reader writer =
     (if tt_id reader = tt_id writer then False
      else case (tt_commit_seq reader, tt_commit_seq writer) of
        (Some reader_commit, Some writer_commit) \<Rightarrow>
          if writer_commit \<le> tt_snapshot_high reader \<or> reader_commit \<le> tt_snapshot_high writer then False
          else tt_reads reader \<inter> tt_writes writer \<noteq> {}
      | _ \<Rightarrow> False)"

definition commits_before :: "txn_trace \<Rightarrow> txn_trace \<Rightarrow> bool" where
  "commits_before a b =
     (case (tt_commit_seq a, tt_commit_seq b) of
        (Some ca, Some cb) \<Rightarrow> ca < cb
      | _ \<Rightarrow> False)"

definition dangerous_structures :: "txn_trace list \<Rightarrow> dangerous_structure list" where
  "dangerous_structures history =
     sorted_list_of_set (set
       [DangerousStructure (tt_id pivot) (tt_id incoming) (tt_id outgoing).
          pivot \<leftarrow> history, tt_commit_seq pivot \<noteq> None,
          incoming \<leftarrow> history, antidependency incoming pivot,
          outgoing \<leftarrow> history, antidependency pivot outgoing,
          commits_before outgoing pivot])"

definition is_provably_serializable :: "txn_trace list \<Rightarrow> bool" where
  "is_provably_serializable history = (dangerous_structures history = [])"

lemma antidependency_iff:
  "antidependency r w \<longleftrightarrow> tt_id r \<noteq> tt_id w \<and> (\<exists>rc wc. tt_commit_seq r = Some rc \<and> tt_commit_seq w = Some wc \<and>
     tt_snapshot_high r < wc \<and> tt_snapshot_high w < rc) \<and> (\<exists>x. x \<in> tt_reads r \<and> x \<in> tt_writes w)"
  by (auto simp: antidependency_def not_le split: option.splits)

lemma commits_before_iff:
  "commits_before a b \<longleftrightarrow> (\<exists>ca cb. tt_commit_seq a = Some ca \<and> tt_commit_seq b = Some cb \<and> ca < cb)"
  by (auto simp: commits_before_def split: option.splits)

lemma set_dangerous_structures:
  "set (dangerous_structures h) =
     {DangerousStructure (tt_id p) (tt_id i) (tt_id t) | p i t. p \<in> set h \<and> i \<in> set h \<and> t \<in> set h \<and>
        antidependency i p \<and> antidependency p t \<and> commits_before t p}"
proof (intro equalityI subsetI)
  fix d
  assume "d \<in> set (dangerous_structures h)"
  then show "d \<in> {DangerousStructure (tt_id p) (tt_id i) (tt_id t) | p i t. p \<in> set h \<and> i \<in> set h \<and> t \<in> set h \<and>
      antidependency i p \<and> antidependency p t \<and> commits_before t p}"
    by (auto simp: dangerous_structures_def split: if_splits)
next
  fix d
  assume "d \<in> {DangerousStructure (tt_id p) (tt_id i) (tt_id t) | p i t. p \<in> set h \<and> i \<in> set h \<and> t \<in> set h \<and>
      antidependency i p \<and> antidependency p t \<and> commits_before t p}"
  then obtain p i t where d: "d = DangerousStructure (tt_id p) (tt_id i) (tt_id t)" "p \<in> set h" "i \<in> set h" "t \<in> set h"
    "antidependency i p" "antidependency p t" "commits_before t p"
    by blast
  moreover have "tt_commit_seq p \<noteq> None" using d(7) by (auto simp: commits_before_iff)
  ultimately show "d \<in> set (dangerous_structures h)"
    by (simp add: dangerous_structures_def) blast
qed

lemma provably_serializable_iff:
  "is_provably_serializable h \<longleftrightarrow>
     (\<forall>p \<in> set h. \<forall>i \<in> set h. \<forall>t \<in> set h. \<not> (antidependency i p \<and> antidependency p t \<and> commits_before t p))"
proof -
  have "is_provably_serializable h \<longleftrightarrow> set (dangerous_structures h) = {}"
    by (simp add: is_provably_serializable_def)
  then show ?thesis unfolding set_dangerous_structures by blast
qed

section \<open>Serial orders\<close>

text \<open>
  What snapshot isolation guarantees of a history: transactions are distinct, a transaction commits after
  its snapshot (one that writes nothing may be placed at its snapshot), commit sequences of writers are
  distinct, and the first committer wins: two transactions that wrote the same key did not run
  concurrently. The adjacency predicate is exempt from the last rule, as it is in the code's
  \<open>CertificationSummary\<close>: edges added concurrently to one vertex commute.
\<close>

fun exclusive :: "conflict_key \<Rightarrow> bool" where
  "exclusive (Adjacency _ _) = False"
| "exclusive _ = True"

definition visible :: "txn_trace \<Rightarrow> txn_trace \<Rightarrow> bool" where
  "visible w t = (case tt_commit_seq w of None \<Rightarrow> False | Some c \<Rightarrow> c \<le> tt_snapshot_high t)"

definition commits_sanely :: "txn_trace \<Rightarrow> bool" where
  "commits_sanely t =
     (case tt_commit_seq t of
        None \<Rightarrow> True
      | Some c \<Rightarrow> tt_snapshot_high t \<le> c \<and> (tt_writes t \<noteq> {} \<longrightarrow> tt_snapshot_high t < c))"

definition certified :: "txn_trace \<Rightarrow> txn_trace \<Rightarrow> bool" where
  "certified a b =
     (tt_commit_seq a \<noteq> None \<and> tt_commit_seq b \<noteq> None \<longrightarrow>
        (tt_writes a \<noteq> {} \<and> tt_writes b \<noteq> {} \<longrightarrow> tt_commit_seq a \<noteq> tt_commit_seq b) \<and>
        ((\<exists>x \<in> tt_writes a \<inter> tt_writes b. exclusive x) \<longrightarrow> visible a b \<or> visible b a))"

definition si_history :: "txn_trace list \<Rightarrow> bool" where
  "si_history h =
     (distinct (map tt_id h) \<and> (\<forall>t \<in> set h. commits_sanely t) \<and>
      (\<forall>a \<in> set h. \<forall>b \<in> set h. tt_id a \<noteq> tt_id b \<longrightarrow> certified a b))"

text \<open>
  A serial order lists the given transactions once each. In it every transaction comes after exactly
  those writers of what it read that its snapshot contained, and the writers of an exclusive key appear in the order
  of their commits: executed one at a time in this order, every transaction reads what it had read.
\<close>

definition serial_order :: "txn_trace set \<Rightarrow> txn_trace list \<Rightarrow> bool" where
  "serial_order ts order =
     (distinct order \<and> set order = ts \<and>
      (\<forall>before t after. order = before @ t # after \<longrightarrow>
         (\<forall>x \<in> tt_reads t. {w \<in> set before. x \<in> tt_writes w} = {w \<in> ts. w \<noteq> t \<and> x \<in> tt_writes w \<and> visible w t}) \<and>
         (\<forall>w \<in> set before. (\<exists>x \<in> tt_writes w \<inter> tt_writes t. exclusive x) \<longrightarrow> commits_before w t)))"

section \<open>Dependencies\<close>

definition depends :: "txn_trace set \<Rightarrow> (txn_trace \<times> txn_trace) set" where
  "depends ts = {(a, b). a \<in> ts \<and> b \<in> ts \<and> a \<noteq> b \<and>
     ((\<exists>x. x \<in> tt_writes a \<and> x \<in> tt_reads b \<and> visible a b) \<or>
      (\<exists>x. x \<in> tt_reads a \<and> x \<in> tt_writes b \<and> \<not> visible b a) \<or>
      ((\<exists>x \<in> tt_writes a \<inter> tt_writes b. exclusive x) \<and> commits_before a b))}"

lemma acyclic_order:
  "finite S \<Longrightarrow> acyclic r \<Longrightarrow> finite r \<Longrightarrow> \<exists>xs. distinct xs \<and> set xs = S \<and>
     (\<forall>before t after. xs = before @ t # after \<longrightarrow> (\<forall>w \<in> S. (w, t) \<in> r \<longrightarrow> w \<in> set before))"
proof (induction "card S" arbitrary: S)
  case 0
  then show ?case by simp
next
  case (Suc n)
  then obtain s where "s \<in> S" by fastforce
  with Suc.prems obtain m where m: "m \<in> S" "\<And>w. (w, m) \<in> r \<Longrightarrow> w \<notin> S"
    using wfE_min [OF finite_acyclic_wf [OF Suc.prems(3,2)], of s S] by blast
  have "n = card (S - {m})" using Suc.hyps(2) m(1) Suc.prems(1) by simp
  from Suc.hyps(1) [OF this _ Suc.prems(2,3)] Suc.prems(1) obtain ys where ys: "distinct ys" "set ys = S - {m}"
    "\<And>before t after. ys = before @ t # after \<Longrightarrow> \<forall>w \<in> S - {m}. (w, t) \<in> r \<longrightarrow> w \<in> set before"
    by auto
  have "w \<in> set before" if "m # ys = before @ t # after" "w \<in> S" "(w, t) \<in> r" for before t after w
  proof (cases before)
    case Nil
    then show ?thesis using that m(2) by auto
  next
    case (Cons b before')
    then have "ys = before' @ t # after" "b = m" using that(1) by auto
    then show ?thesis using ys(3) [of before' t after] that(2,3) Cons by auto
  qed
  then show ?case using ys m(1) by (intro exI [of _ "m # ys"]) auto
qed

text \<open>
  Every dependency either leads from a commit to a later snapshot or is an antidependency. Ranks order
  transactions by commit, a transaction that wrote nothing after the writer it may share a sequence with.
\<close>

definition rank :: "txn_trace \<Rightarrow> nat" where
  "rank t = 2 * the (tt_commit_seq t) + (if tt_writes t = {} then 1 else 0)"

lemma history_pair:
  assumes "si_history h" "a \<in> set h" "b \<in> set h" "a \<noteq> b"
  shows "tt_id a \<noteq> tt_id b" "certified a b"
proof -
  show "tt_id a \<noteq> tt_id b" using assms by (auto simp: si_history_def distinct_map inj_on_def)
  then show "certified a b" using assms by (simp add: si_history_def)
qed

lemma depends_cases:
  assumes "si_history h" "ts = {t \<in> set h. tt_commit_seq t \<noteq> None}" "(a, b) \<in> depends ts"
  obtains (forward) "visible a b" "rank a < rank b" | (anti) "antidependency a b"
proof -
  obtain ca cb where c: "tt_commit_seq a = Some ca" "tt_commit_seq b = Some cb" "a \<in> set h" "b \<in> set h" "a \<noteq> b"
    using assms(2,3) by (auto simp: depends_def)
  note pair = history_pair [OF assms(1) c(3-5)]
  have "commits_sanely a" "commits_sanely b" using assms(1) c(3,4) by (simp_all add: si_history_def)
  then have sane: "tt_snapshot_high a \<le> ca" "tt_snapshot_high b \<le> cb" "tt_writes b \<noteq> {} \<Longrightarrow> tt_snapshot_high b < cb"
    using c(1,2) by (simp_all add: commits_sanely_def)
  have ranked: "rank a < rank b" if "visible a b" "tt_writes b = {} \<Longrightarrow> tt_writes a \<noteq> {}"
    using that sane c(1,2) by (cases "tt_writes b = {}") (simp_all add: rank_def visible_def)
  show ?thesis
  proof (cases "visible a b \<and> (tt_writes b = {} \<longrightarrow> tt_writes a \<noteq> {})")
    case True
    with ranked forward show ?thesis by blast
  next
    case False
    have "\<not> (\<exists>x \<in> tt_writes a \<inter> tt_writes b. exclusive x) \<or> \<not> commits_before a b"
      using False pair(2) c(1,2) sane(1) by (auto simp: certified_def visible_def commits_before_iff)
    with assms(3) False obtain x where "x \<in> tt_reads a" "x \<in> tt_writes b" "\<not> visible b a"
      by (auto simp: depends_def)
    with False pair(1) c(1,2) have "antidependency a b"
      by (auto simp: antidependency_iff visible_def)
    with anti show ?thesis .
  qed
qed

lemma depends_acyclic:
  assumes "si_history h" "ts = {t \<in> set h. tt_commit_seq t \<noteq> None}" "is_provably_serializable h"
  shows "acyclic (depends ts)"
proof (rule acyclicI, rule allI, rule notI)
  fix x
  let ?D = "depends ts"
  assume cycle: "(x, x) \<in> ?D\<^sup>+"
  define C where "C = {y. (x, y) \<in> ?D\<^sup>+ \<and> (y, x) \<in> ?D\<^sup>+}"
  have pred: "\<exists>z \<in> C. (z, y) \<in> ?D" if "y \<in> C" for y
  proof -
    have xy: "(x, y) \<in> ?D\<^sup>+" and yx: "(y, x) \<in> ?D\<^sup>+" using that by (auto simp: C_def)
    from xy show ?thesis
    proof (cases rule: tranclE)
      case base
      then show ?thesis using cycle by (auto simp: C_def)
    next
      case (step z)
      then have "(z, x) \<in> ?D\<^sup>+" using yx by (meson trancl_into_trancl2)
      with step show ?thesis by (auto simp: C_def)
    qed
  qed
  have "x \<in> C" using cycle by (simp add: C_def)
  then obtain t where t: "t \<in> C" "\<And>y. y \<in> C \<Longrightarrow> rank t \<le> rank y"
    using ex_has_least_nat [of "\<lambda>y. y \<in> C" x rank] by blast
  obtain p where p: "p \<in> C" "(p, t) \<in> ?D" using pred [OF t(1)] by blast
  obtain i where i: "i \<in> C" "(i, p) \<in> ?D" using pred [OF p(1)] by blast
  have pt: "antidependency p t"
    using depends_cases [OF assms(1,2) p(2)] t(2) [OF p(1)] by force
  then obtain ct cp where c: "tt_commit_seq t = Some ct" "tt_commit_seq p = Some cp" "tt_snapshot_high p < ct"
      "tt_writes t \<noteq> {}" "tt_id p \<noteq> tt_id t"
    by (auto simp: antidependency_iff)
  have members: "i \<in> set h" "p \<in> set h" "t \<in> set h" using assms(2) p(2) i(2) by (auto simp: depends_def)
  have "\<not> visible i p"
    using t(2) [OF i(1)] c by (auto simp: visible_def rank_def split: option.splits if_splits)
  with depends_cases [OF assms(1,2) i(2)] have ip: "antidependency i p" by blast
  then have "tt_writes p \<noteq> {}" by (auto simp: antidependency_iff)
  then have "ct \<noteq> cp" "ct \<le> cp"
    using history_pair(2) [OF assms(1) members(2,3)] c t(2) [OF p(1)] by (auto simp: certified_def rank_def)
  then have "commits_before t p" using c by (simp add: commits_before_iff)
  with assms(3) ip pt members show False by (auto simp: provably_serializable_iff)
qed

text \<open>
  C12: The oracle is sound. If it finds no dangerous structure in a history of snapshot isolation, the
  committed transactions have a serial order in which each of them reads exactly the writes it had
  read, and in which conflicting writers keep the order of their commits.
\<close>

theorem provably_serializable_sound:
  assumes "si_history h" "is_provably_serializable h"
  shows "\<exists>order. serial_order {t \<in> set h. tt_commit_seq t \<noteq> None} order"
proof -
  define ts where "ts = {t \<in> set h. tt_commit_seq t \<noteq> None}"
  have fin: "finite ts" by (simp add: ts_def)
  have "finite (depends ts)"
    by (rule finite_subset [of _ "ts \<times> ts"]) (auto simp: depends_def fin)
  with acyclic_order [OF fin depends_acyclic [OF assms(1) ts_def assms(2)]]
  obtain order where order: "distinct order" "set order = ts"
    "\<And>before t after w. order = before @ t # after \<Longrightarrow> w \<in> ts \<Longrightarrow> (w, t) \<in> depends ts \<Longrightarrow> w \<in> set before"
    by blast
  have later: "(t, w) \<notin> depends ts" if "order = before @ t # after" "w \<in> set before" for before t after w
  proof
    assume "(t, w) \<in> depends ts"
    from that(2) obtain b1 b2 where "before = b1 @ w # b2" by (meson split_list)
    with that(1) order(3) [of b1 w "b2 @ t # after" t] \<open>(t, w) \<in> depends ts\<close> have "t \<in> set b1"
      by (auto simp: depends_def)
    with order(1) that(1) \<open>before = _\<close> show False by auto
  qed
  have "serial_order ts order"
    unfolding serial_order_def
  proof (intro conjI allI impI ballI)
    fix before t after
    assume split: "order = before @ t # after"
    then have t: "t \<in> ts" "t \<notin> set before" "set before \<subseteq> ts" using order(1,2) by auto
    show "{w \<in> set before. x \<in> tt_writes w} = {w \<in> ts. w \<noteq> t \<and> x \<in> tt_writes w \<and> visible w t}" if "x \<in> tt_reads t" for x
    proof (intro equalityI subsetI)
      fix w
      assume "w \<in> {w \<in> set before. x \<in> tt_writes w}"
      then show "w \<in> {w \<in> ts. w \<noteq> t \<and> x \<in> tt_writes w \<and> visible w t}"
        using later [OF split, of w] t that by (auto simp: depends_def)
    next
      fix w
      assume "w \<in> {w \<in> ts. w \<noteq> t \<and> x \<in> tt_writes w \<and> visible w t}"
      then show "w \<in> {w \<in> set before. x \<in> tt_writes w}"
        using order(3) [OF split, of w] t(1) that by (auto simp: depends_def)
    qed
    fix w
    assume w: "w \<in> set before" and both: "\<exists>x \<in> tt_writes w \<inter> tt_writes t. exclusive x"
    then have "\<not> commits_before t w" using later [OF split w] t by (auto simp: depends_def)
    moreover have "tt_commit_seq w \<noteq> tt_commit_seq t"
      using history_pair(2) [OF assms(1), of w t] t w both by (auto simp: ts_def certified_def)
    ultimately show "commits_before w t"
      using t w by (auto simp: ts_def commits_before_iff)
  qed (use order in auto)
  then show ?thesis by (auto simp: ts_def)
qed

section \<open>Examples\<close>

text \<open>
  Two accounts. The deposit reads and writes the second; the withdrawal reads both and writes the first;
  the audit writes nothing and reads both from a snapshot that contains the deposit but not the
  withdrawal. A transaction that wrote nothing closes without a commit sequence.
\<close>

abbreviation "first_account \<equiv> Element (Vertex 1)"

abbreviation "second_account \<equiv> Element (Vertex 2)"

definition deposit :: txn_trace where
  "deposit = \<lparr>tt_id = 1, tt_snapshot_high = 1, tt_commit_seq = Some 2, tt_reads = {second_account}, tt_writes = {second_account}\<rparr>"

definition withdrawal :: txn_trace where
  "withdrawal = \<lparr>tt_id = 2, tt_snapshot_high = 1, tt_commit_seq = Some 3,
     tt_reads = {first_account, second_account}, tt_writes = {first_account}\<rparr>"

definition audit :: txn_trace where
  "audit = \<lparr>tt_id = 3, tt_snapshot_high = 2, tt_commit_seq = None,
     tt_reads = {first_account, second_account}, tt_writes = {}\<rparr>"

lemmas ssi_example = deposit_def withdrawal_def audit_def committed_at_def antidependency_def commits_before_def
  visible_def commits_sanely_def certified_def

theorem provably_serializable_sound_witness:
  "\<exists>order. serial_order {t \<in> set [deposit, withdrawal]. tt_commit_seq t \<noteq> None} order"
proof (rule provably_serializable_sound)
  show "si_history [deposit, withdrawal]" by (simp add: si_history_def ssi_example)
  show "is_provably_serializable [deposit, withdrawal]" by (simp add: provably_serializable_iff ssi_example)
qed

text \<open>
  C38: The report of the oracle is a function of the history and not of its order: it is sorted and without
  repetition, and contains a structure exactly if its pivot has an incoming antidependency and an
  outgoing one to a transaction that committed before it.
\<close>

theorem dangerous_structures_report:
  "sorted (dangerous_structures h) \<and> distinct (dangerous_structures h) \<and>
   set (dangerous_structures h) =
     {DangerousStructure (tt_id p) (tt_id i) (tt_id t) | p i t. p \<in> set h \<and> i \<in> set h \<and> t \<in> set h \<and>
        antidependency i p \<and> antidependency p t \<and> commits_before t p} \<and>
   dangerous_structures (rev h) = dangerous_structures h \<and>
   dangerous_structures (h @ h) = dangerous_structures h"
proof -
  have sorted: "sorted (dangerous_structures k)" "distinct (dangerous_structures k)" for k
    by (simp_all add: dangerous_structures_def)
  have "dangerous_structures k = dangerous_structures h" if "set k = set h" for k
    by (rule sorted_distinct_set_unique [OF sorted sorted]) (simp add: set_dangerous_structures that)
  from this [of "rev h"] this [of "h @ h"] show ?thesis
    by (simp add: sorted set_dangerous_structures)
qed


end
