(* ===== verification/ResourceVector.thy ===== *)
theory ResourceVector
  imports Prelude
begin

text \<open>
  Resource vectors and ceilings (\<open>crates/fgdb-resource/src/lib.rs\<close>): checked vector arithmetic over five
  axes and admission under a ceiling.
\<close>

datatype resource_axis = CpuMicros | MemoryBytes | IoBytes | IoOps | NetworkBytes

definition all_resource_axes :: "resource_axis list" where
  "all_resource_axes = [CpuMicros, MemoryBytes, IoBytes, IoOps, NetworkBytes]"

record resource_vector =
  cpu_micros :: u64
  memory_bytes :: u64
  io_bytes :: u64
  io_ops :: u64
  network_bytes :: u64


definition zero_resources :: resource_vector where
  "zero_resources = \<lparr>cpu_micros = 0, memory_bytes = 0, io_bytes = 0, io_ops = 0, network_bytes = 0\<rparr>"

fun resource_axis_of :: "resource_vector \<Rightarrow> resource_axis \<Rightarrow> u64" where
  "resource_axis_of v CpuMicros = cpu_micros v"
| "resource_axis_of v MemoryBytes = memory_bytes v"
| "resource_axis_of v IoBytes = io_bytes v"
| "resource_axis_of v IoOps = io_ops v"
| "resource_axis_of v NetworkBytes = network_bytes v"







section \<open>Properties\<close>

lemma all_resources: "(\<forall>a. P a) \<longleftrightarrow> P CpuMicros \<and> P MemoryBytes \<and> P IoBytes \<and> P IoOps \<and> P NetworkBytes"
  by (metis resource_axis.exhaust)

lemma resource_eq_iff: "v = w \<longleftrightarrow> (\<forall>a. resource_axis_of v a = resource_axis_of w a)"
  for v w :: resource_vector
  by (cases v; cases w) (simp add: all_resources)

lemma set_all_resource_axes [simp]: "set all_resource_axes = UNIV"
  using resource_axis.exhaust by (auto simp: all_resource_axes_def)







end
