(* ===== verification/ChargeVector.thy ===== *)
theory ChargeVector
  imports Prelude
begin

text \<open>
  Durable charges of the resource ledger (\<open>crates/fgdb-resource/src/ledger.rs\<close>): the six-axis charge
  vector with its checked arithmetic, and its componentwise reading.
\<close>

named_theorems charge_simps \<open>componentwise reading of charge vectors\<close>

section \<open>Charge vectors\<close>

datatype charge_axis =
    CanonicalDurableBytes
  | RetainedHistoryBytes
  | BranchCount
  | IndexCount
  | ViewCount
  | SubscriptionCount

definition all_charge_axes :: "charge_axis list" where
  "all_charge_axes =
     [CanonicalDurableBytes, RetainedHistoryBytes, BranchCount, IndexCount, ViewCount, SubscriptionCount]"

record charge_vector =
  canonical_durable_bytes :: u64
  retained_history_bytes :: u64
  branch_count :: u64
  index_count :: u64
  view_count :: u64
  subscription_count :: u64

definition zero_charge :: charge_vector where
  "zero_charge =
     \<lparr>canonical_durable_bytes = 0, retained_history_bytes = 0, branch_count = 0, index_count = 0,
      view_count = 0, subscription_count = 0\<rparr>"

fun axis :: "charge_vector \<Rightarrow> charge_axis \<Rightarrow> u64" where
  "axis v CanonicalDurableBytes = canonical_durable_bytes v"
| "axis v RetainedHistoryBytes = retained_history_bytes v"
| "axis v BranchCount = branch_count v"
| "axis v IndexCount = index_count v"
| "axis v ViewCount = view_count v"
| "axis v SubscriptionCount = subscription_count v"

definition is_zero_charge :: "charge_vector \<Rightarrow> bool" where
  "is_zero_charge v = (v = zero_charge)"

definition charge_fits_within :: "charge_vector \<Rightarrow> charge_vector \<Rightarrow> bool" where
  "charge_fits_within v ceiling = list_all (\<lambda>a. axis v a \<le> axis ceiling a) all_charge_axes"

datatype charge_vector_error =
    ChargeOverflow charge_axis u64 u64
  | ChargeUnderflow charge_axis u64 u64

definition add_axis :: "charge_axis \<Rightarrow> u64 \<Rightarrow> u64 \<Rightarrow> charge_vector_error + u64" where
  "add_axis a lhs rhs = (case checked_add lhs rhs of None \<Rightarrow> Inl (ChargeOverflow a lhs rhs) | Some n \<Rightarrow> Inr n)"

definition sub_axis :: "charge_axis \<Rightarrow> u64 \<Rightarrow> u64 \<Rightarrow> charge_vector_error + u64" where
  "sub_axis a held released =
     (case checked_sub held released of None \<Rightarrow> Inl (ChargeUnderflow a held released) | Some n \<Rightarrow> Inr n)"

definition add_charge :: "charge_vector \<Rightarrow> charge_vector \<Rightarrow> charge_vector_error + charge_vector" where
  "add_charge v w =
     and_then (add_axis CanonicalDurableBytes (canonical_durable_bytes v) (canonical_durable_bytes w)) (\<lambda>c.
     and_then (add_axis RetainedHistoryBytes (retained_history_bytes v) (retained_history_bytes w)) (\<lambda>r.
     and_then (add_axis BranchCount (branch_count v) (branch_count w)) (\<lambda>b.
     and_then (add_axis IndexCount (index_count v) (index_count w)) (\<lambda>i.
     and_then (add_axis ViewCount (view_count v) (view_count w)) (\<lambda>vc.
     and_then (add_axis SubscriptionCount (subscription_count v) (subscription_count w)) (\<lambda>s.
       Inr \<lparr>canonical_durable_bytes = c, retained_history_bytes = r, branch_count = b, index_count = i,
            view_count = vc, subscription_count = s\<rparr>))))))"

definition sub_charge :: "charge_vector \<Rightarrow> charge_vector \<Rightarrow> charge_vector_error + charge_vector" where
  "sub_charge v w =
     and_then (sub_axis CanonicalDurableBytes (canonical_durable_bytes v) (canonical_durable_bytes w)) (\<lambda>c.
     and_then (sub_axis RetainedHistoryBytes (retained_history_bytes v) (retained_history_bytes w)) (\<lambda>r.
     and_then (sub_axis BranchCount (branch_count v) (branch_count w)) (\<lambda>b.
     and_then (sub_axis IndexCount (index_count v) (index_count w)) (\<lambda>i.
     and_then (sub_axis ViewCount (view_count v) (view_count w)) (\<lambda>vc.
     and_then (sub_axis SubscriptionCount (subscription_count v) (subscription_count w)) (\<lambda>s.
       Inr \<lparr>canonical_durable_bytes = c, retained_history_bytes = r, branch_count = b, index_count = i,
            view_count = vc, subscription_count = s\<rparr>))))))"

lemma all_axes: "(\<forall>a. P a) \<longleftrightarrow> P CanonicalDurableBytes \<and> P RetainedHistoryBytes \<and> P BranchCount \<and>
    P IndexCount \<and> P ViewCount \<and> P SubscriptionCount"
  by (metis charge_axis.exhaust)

lemma set_all_charge_axes [simp]: "set all_charge_axes = UNIV"
  using charge_axis.exhaust by (auto simp: all_charge_axes_def)

lemma charge_eq_iff: "v = w \<longleftrightarrow> (\<forall>a. axis v a = axis w a)"
  for v w :: charge_vector
  by (cases v; cases w) (simp add: all_axes)

lemma axis_zero [simp]: "axis zero_charge a = 0"
  by (cases a) (simp_all add: zero_charge_def)

lemma is_zero_charge_iff [charge_simps]: "is_zero_charge v \<longleftrightarrow> (\<forall>a. axis v a = 0)"
  by (simp add: is_zero_charge_def charge_eq_iff)

lemma charge_fits_iff [charge_simps]: "charge_fits_within v w \<longleftrightarrow> (\<forall>a. axis v a \<le> axis w a)"
  by (simp add: charge_fits_within_def list_all_iff)

lemma add_axis_Inr: "add_axis a m n = Inr k \<longleftrightarrow> k = m + n \<and> m + n \<le> u64_max"
  by (auto simp: add_axis_def rust_simps)

lemma sub_axis_Inr: "sub_axis a m n = Inr k \<longleftrightarrow> k = m - n \<and> n \<le> m"
  by (auto simp: sub_axis_def rust_simps)

lemma add_charge_Inr [charge_simps]:
  "add_charge v w = Inr u \<longleftrightarrow> (\<forall>a. axis u a = axis v a + axis w a \<and> axis v a + axis w a \<le> u64_max)"
  by (cases u) (auto simp: add_charge_def and_then_eq_Inr add_axis_Inr all_axes)

lemma sub_charge_Inr [charge_simps]:
  "sub_charge v w = Inr u \<longleftrightarrow> (\<forall>a. axis u a = axis v a - axis w a \<and> axis w a \<le> axis v a)"
  by (cases u) (auto simp: sub_charge_def and_then_eq_Inr sub_axis_Inr all_axes)

text \<open>Every function of the axes is the reading of a vector, so the checked operations are total on their domain.\<close>

definition charge_of :: "(charge_axis \<Rightarrow> u64) \<Rightarrow> charge_vector" where
  "charge_of f =
     \<lparr>canonical_durable_bytes = f CanonicalDurableBytes, retained_history_bytes = f RetainedHistoryBytes,
      branch_count = f BranchCount, index_count = f IndexCount, view_count = f ViewCount,
      subscription_count = f SubscriptionCount\<rparr>"

lemma axis_charge_of [simp]: "axis (charge_of f) a = f a"
  by (cases a) (simp_all add: charge_of_def)

lemma add_charge_total: "(\<And>a. axis v a + axis w a \<le> u64_max) \<Longrightarrow> add_charge v w = Inr (charge_of (\<lambda>a. axis v a + axis w a))"
  by (simp add: charge_simps)

lemma sub_charge_total: "(\<And>a. axis w a \<le> axis v a) \<Longrightarrow> sub_charge v w = Inr (charge_of (\<lambda>a. axis v a - axis w a))"
  by (simp add: charge_simps)

end
