(* ===== verification/QuotaPolicy.thy ===== *)
theory QuotaPolicy
  imports ChargeVector "HOL-Library.List_Lexorder"
begin

text \<open>
  Quota paths, bucket states and the limit policy of the resource ledger
  (\<open>crates/fgdb-resource/src/ledger.rs\<close>). Identifiers are natural numbers in the order of their
  bytes. A path is the list of its segments; slices are ordered lexicographically.
\<close>

section \<open>Quota paths\<close>

datatype quota_segment =
    Database nat
  | Tenant nat
  | Graph nat
  | Branch nat
  | Feature nat

fun segment_rank :: "quota_segment \<Rightarrow> nat" where
  "segment_rank (Database _) = 0"
| "segment_rank (Tenant _) = 1"
| "segment_rank (Graph _) = 2"
| "segment_rank (Branch _) = 3"
| "segment_rank (Feature _) = 4"

fun segment_identity :: "quota_segment \<Rightarrow> nat" where
  "segment_identity (Database n) = n"
| "segment_identity (Tenant n) = n"
| "segment_identity (Graph n) = n"
| "segment_identity (Branch n) = n"
| "segment_identity (Feature n) = n"

text \<open>The derived order compares the variant first, then the identifier.\<close>

lemma segment_eq_iff: "s = t \<longleftrightarrow> segment_rank s = segment_rank t \<and> segment_identity s = segment_identity t"
  by (cases s; cases t) simp_all

instantiation quota_segment :: linorder
begin

definition less_quota_segment :: "quota_segment \<Rightarrow> quota_segment \<Rightarrow> bool" where
  "less_quota_segment s t \<longleftrightarrow> segment_rank s < segment_rank t \<or>
     segment_rank s = segment_rank t \<and> segment_identity s < segment_identity t"

definition less_eq_quota_segment :: "quota_segment \<Rightarrow> quota_segment \<Rightarrow> bool" where
  "less_eq_quota_segment s t \<longleftrightarrow> segment_rank s < segment_rank t \<or>
     segment_rank s = segment_rank t \<and> segment_identity s \<le> segment_identity t"

instance
  by intro_classes (auto simp: less_quota_segment_def less_eq_quota_segment_def segment_eq_iff)

end

type_synonym quota_path = "quota_segment list"

datatype quota_path_error =
    PathEmpty
  | TooDeep nat nat
  | MissingDatabaseRoot nat
  | NonCanonicalLevel nat nat nat

definition max_segments :: nat where
  "max_segments = 5"

text \<open>The loop over \<open>windows(2)\<close>, which numbers the pairs from zero.\<close>

fun check_levels :: "nat \<Rightarrow> quota_segment list \<Rightarrow> quota_path_error + unit" where
  "check_levels index (s # t # rest) =
     (let expected = segment_rank s + 1; actual = segment_rank t
      in if actual \<noteq> expected then Inl (NonCanonicalLevel (index + 1) expected actual)
         else check_levels (index + 1) (t # rest))"
| "check_levels index _ = Inr ()"

definition quota_path_try_new :: "quota_segment list \<Rightarrow> quota_path_error + quota_path" where
  "quota_path_try_new segments =
     (if segments = [] then Inl PathEmpty
      else if length segments > max_segments then Inl (TooDeep (length segments) max_segments)
      else if segment_rank (hd segments) \<noteq> 0 then Inl (MissingDatabaseRoot (segment_rank (hd segments)))
      else and_then (check_levels 0 segments) (\<lambda>_. Inr segments))"

definition ancestors_inclusive :: "quota_path \<Rightarrow> quota_path list" where
  "ancestors_inclusive p = map (\<lambda>n. take n p) [1..<length p + 1]"

text \<open>A canonical path names the levels from the database downwards without a gap.\<close>

definition canonical_path :: "quota_path \<Rightarrow> bool" where
  "canonical_path p \<longleftrightarrow> p \<noteq> [] \<and> length p \<le> 5 \<and> map segment_rank p = [0..<length p]"

lemma check_levels_Inr:
  "check_levels index (s # rest) = Inr () \<longleftrightarrow>
     map segment_rank (s # rest) = [segment_rank s..<segment_rank s + length (s # rest)]"
proof (induction rest arbitrary: index s)
  case (Cons t rest)
  show ?case
  proof (cases "segment_rank t = segment_rank s + 1")
    case True
    then show ?thesis using Cons [of "index + 1" t] by (simp add: upt_conv_Cons del: upt_Suc)
  next
    case False
    then show ?thesis by (simp add: upt_conv_Cons del: upt_Suc)
  qed
qed simp

lemma quota_path_try_new_Inr:
  "quota_path_try_new segments = Inr p \<longleftrightarrow> p = segments \<and> canonical_path segments"
proof (cases segments)
  case (Cons s rest)
  have "map segment_rank segments = [0..<length segments] \<Longrightarrow> segment_rank s = 0"
    using Cons by (simp add: upt_conv_Cons del: upt_Suc)
  then show ?thesis
    using Cons check_levels_Inr [of 0 s rest]
    by (auto simp: quota_path_try_new_def canonical_path_def max_segments_def and_then_eq_Inr)
qed (simp add: quota_path_try_new_def canonical_path_def)

lemma set_ancestors: "set (ancestors_inclusive p) = {q. q \<noteq> [] \<and> (\<exists>r. p = q @ r)}"
proof -
  have "q \<in> set (ancestors_inclusive p)" if "q \<noteq> []" "p = q @ r" for q r
    using that by (auto simp: ancestors_inclusive_def image_iff Suc_le_eq intro!: bexI [of _ "length q"])
  then show ?thesis
    by (auto simp: ancestors_inclusive_def) (metis append_take_drop_id)
qed

lemma distinct_ancestors: "distinct (ancestors_inclusive p)"
proof -
  have "m = n" if "m \<in> set [1..<length p + 1]" "n \<in> set [1..<length p + 1]" "take m p = take n p" for m n
    using arg_cong [OF that(3), of length] that(1,2) by (auto simp: min_def split: if_splits)
  then show ?thesis by (simp only: ancestors_inclusive_def distinct_map inj_on_def) simp
qed

lemma ancestors_self: "p \<noteq> [] \<Longrightarrow> p \<in> set (ancestors_inclusive p)"
  by (simp add: set_ancestors)

lemma ancestors_trans: "q \<in> set (ancestors_inclusive p) \<Longrightarrow> p \<in> set (ancestors_inclusive r) \<Longrightarrow> q \<in> set (ancestors_inclusive r)"
  by (auto simp: set_ancestors)

section \<open>Bucket states\<close>

datatype resource_class = Ordinary | RegisteredMaintenance

record bucket_state =
  hard_limit :: charge_vector
  protected_maintenance_reserve :: charge_vector
  ordinary_reserved :: charge_vector
  maintenance_reserved :: charge_vector
  ordinary_committed :: charge_vector
  maintenance_committed :: charge_vector

datatype bucket_state_error =
    ReserveExceedsHardLimit charge_axis u64 u64
  | UsageOverflow charge_axis u64 u64
  | OrdinaryCapacityExceeded charge_axis u64 u64
  | MaintenanceReserveExceeded charge_axis u64 u64
  | HardLimitExceeded charge_axis u64 u64

definition usage_sum :: "charge_axis \<Rightarrow> u64 \<Rightarrow> u64 \<Rightarrow> bucket_state_error + u64" where
  "usage_sum a x y = (case checked_add x y of None \<Rightarrow> Inl (UsageOverflow a x y) | Some n \<Rightarrow> Inr n)"

definition validate_bucket_axis :: "bucket_state \<Rightarrow> charge_axis \<Rightarrow> bucket_state_error + unit" where
  "validate_bucket_axis s a =
     (let hard = axis (hard_limit s) a;
          reserve = axis (protected_maintenance_reserve s) a
      in if reserve > hard then Inl (ReserveExceedsHardLimit a reserve hard)
         else
           (let ordinary_limit = hard - reserve
            in and_then (usage_sum a (axis (ordinary_committed s) a) (axis (ordinary_reserved s) a)) (\<lambda>ordinary_use.
               if ordinary_use > ordinary_limit then Inl (OrdinaryCapacityExceeded a ordinary_use ordinary_limit)
               else and_then (usage_sum a (axis (maintenance_committed s) a) (axis (maintenance_reserved s) a)) (\<lambda>maintenance_use.
               if maintenance_use > reserve then Inl (MaintenanceReserveExceeded a maintenance_use reserve)
               else and_then (usage_sum a ordinary_use maintenance_use) (\<lambda>total_use.
               if total_use > hard then Inl (HardLimitExceeded a total_use hard) else Inr ())))))"

fun validate_bucket_axes :: "bucket_state \<Rightarrow> charge_axis list \<Rightarrow> bucket_state_error + unit" where
  "validate_bucket_axes s [] = Inr ()"
| "validate_bucket_axes s (a # rest) = and_then (validate_bucket_axis s a) (\<lambda>_. validate_bucket_axes s rest)"

definition validate_bucket :: "bucket_state \<Rightarrow> bucket_state_error + unit" where
  "validate_bucket s = validate_bucket_axes s all_charge_axes"

definition bucket_try_new ::
  "charge_vector \<Rightarrow> charge_vector \<Rightarrow> charge_vector \<Rightarrow> charge_vector \<Rightarrow> charge_vector \<Rightarrow> charge_vector \<Rightarrow>
   bucket_state_error + bucket_state" where
  "bucket_try_new hard reserve ordinary_res maintenance_res ordinary_com maintenance_com =
     (let state = \<lparr>hard_limit = hard, protected_maintenance_reserve = reserve, ordinary_reserved = ordinary_res,
                   maintenance_reserved = maintenance_res, ordinary_committed = ordinary_com,
                   maintenance_committed = maintenance_com\<rparr>
      in and_then (validate_bucket state) (\<lambda>_. Inr state))"

definition bucket_empty :: "charge_vector \<Rightarrow> charge_vector \<Rightarrow> bucket_state_error + bucket_state" where
  "bucket_empty hard reserve =
     bucket_try_new hard reserve zero_charge zero_charge zero_charge zero_charge"

text \<open>
  The total committed usage is summed without a check; \<open>None\<close> is the overflow panic.
\<close>

definition plain_add :: "u64 \<Rightarrow> u64 \<Rightarrow> u64 option" where
  "plain_add x y = (if x + y \<le> u64_max then Some (x + y) else None)"

definition set_axis :: "charge_axis \<Rightarrow> u64 \<Rightarrow> charge_vector \<Rightarrow> charge_vector" where
  "set_axis a n v =
     (case a of
        CanonicalDurableBytes \<Rightarrow> v\<lparr>canonical_durable_bytes := n\<rparr>
      | RetainedHistoryBytes \<Rightarrow> v\<lparr>retained_history_bytes := n\<rparr>
      | BranchCount \<Rightarrow> v\<lparr>branch_count := n\<rparr>
      | IndexCount \<Rightarrow> v\<lparr>index_count := n\<rparr>
      | ViewCount \<Rightarrow> v\<lparr>view_count := n\<rparr>
      | SubscriptionCount \<Rightarrow> v\<lparr>subscription_count := n\<rparr>)"

fun committed_axes :: "bucket_state \<Rightarrow> charge_axis list \<Rightarrow> charge_vector \<Rightarrow> charge_vector option" where
  "committed_axes s [] total_use = Some total_use"
| "committed_axes s (a # rest) total_use =
     (case plain_add (axis (ordinary_committed s) a) (axis (maintenance_committed s) a) of
        None \<Rightarrow> None
      | Some n \<Rightarrow> committed_axes s rest (set_axis a n total_use))"

definition bucket_committed :: "bucket_state \<Rightarrow> charge_vector option" where
  "bucket_committed s = committed_axes s all_charge_axes zero_charge"

text \<open>The laws of the two lanes on every axis.\<close>

definition bucket_ok :: "bucket_state \<Rightarrow> bool" where
  "bucket_ok s \<longleftrightarrow> (\<forall>a.
     axis (protected_maintenance_reserve s) a \<le> axis (hard_limit s) a \<and>
     axis (ordinary_committed s) a + axis (ordinary_reserved s) a
       \<le> axis (hard_limit s) a - axis (protected_maintenance_reserve s) a \<and>
     axis (maintenance_committed s) a + axis (maintenance_reserved s) a \<le> axis (protected_maintenance_reserve s) a)"

lemma validate_bucket_axes_Inr: "validate_bucket_axes s as = Inr () \<longleftrightarrow> (\<forall>a \<in> set as. validate_bucket_axis s a = Inr ())"
  by (induction as) (auto simp: and_then_eq_Inr)

lemma validate_bucket_axis_Inr:
  assumes "axis (hard_limit s) a \<le> u64_max"
  shows "validate_bucket_axis s a = Inr () \<longleftrightarrow>
     axis (protected_maintenance_reserve s) a \<le> axis (hard_limit s) a \<and>
     axis (ordinary_committed s) a + axis (ordinary_reserved s) a
       \<le> axis (hard_limit s) a - axis (protected_maintenance_reserve s) a \<and>
     axis (maintenance_committed s) a + axis (maintenance_reserved s) a \<le> axis (protected_maintenance_reserve s) a"
  using assms
  by (auto simp: validate_bucket_axis_def Let_def usage_sum_def rust_simps and_then_eq_Inr split: if_splits)

lemma validate_bucket_Inr:
  "(\<And>a. axis (hard_limit s) a \<le> u64_max) \<Longrightarrow> validate_bucket s = Inr () \<longleftrightarrow> bucket_ok s"
  by (simp add: validate_bucket_def validate_bucket_axes_Inr validate_bucket_axis_Inr bucket_ok_def)

lemma validate_bucket_axis_sound:
  "validate_bucket_axis s a = Inr () \<Longrightarrow>
     axis (protected_maintenance_reserve s) a \<le> axis (hard_limit s) a \<and>
     axis (ordinary_committed s) a + axis (ordinary_reserved s) a
       \<le> axis (hard_limit s) a - axis (protected_maintenance_reserve s) a \<and>
     axis (maintenance_committed s) a + axis (maintenance_reserved s) a \<le> axis (protected_maintenance_reserve s) a"
  by (auto simp: validate_bucket_axis_def Let_def usage_sum_def rust_simps and_then_eq_Inr split: if_splits)

lemma validate_bucket_sound: "validate_bucket s = Inr () \<Longrightarrow> bucket_ok s"
  by (simp add: validate_bucket_def validate_bucket_axes_Inr validate_bucket_axis_sound bucket_ok_def)

section \<open>Limit policies\<close>

datatype ledger_operation_kind = KReserve | KCharge | KRelease | KExpire | KTransfer | KAdjust

record bucket_policy =
  bp_hard_limit :: charge_vector
  bp_protected_maintenance_reserve :: charge_vector

definition bucket_policy_try_new :: "charge_vector \<Rightarrow> charge_vector \<Rightarrow> bucket_state_error + bucket_policy" where
  "bucket_policy_try_new hard reserve =
     and_then (bucket_empty hard reserve) (\<lambda>_.
       Inr \<lparr>bp_hard_limit = hard, bp_protected_maintenance_reserve = reserve\<rparr>)"

definition empty_state :: "bucket_policy \<Rightarrow> bucket_state" where
  "empty_state p =
     \<lparr>hard_limit = bp_hard_limit p, protected_maintenance_reserve = bp_protected_maintenance_reserve p,
      ordinary_reserved = zero_charge, maintenance_reserved = zero_charge,
      ordinary_committed = zero_charge, maintenance_committed = zero_charge\<rparr>"

record class_rule =
  cr_resource_class :: resource_class
  cr_allowed_operations :: "ledger_operation_kind set"

datatype policy_error =
    NoBuckets
  | DuplicateBucket quota_path
  | MissingAncestorBucket quota_path quota_path
  | RootCount nat
  | DuplicateClassRule resource_class
  | MissingClassRule resource_class
  | DuplicateOperationRule resource_class ledger_operation_kind
  | DuplicateRegisteredMaintenanceClass nat

fun collect_operations ::
  "resource_class \<Rightarrow> ledger_operation_kind list \<Rightarrow> ledger_operation_kind set \<Rightarrow>
   policy_error + ledger_operation_kind set" where
  "collect_operations c [] operations = Inr operations"
| "collect_operations c (k # rest) operations =
     (if k \<in> operations then Inl (DuplicateOperationRule c k)
      else collect_operations c rest (insert k operations))"

definition class_rule_try_new :: "resource_class \<Rightarrow> ledger_operation_kind list \<Rightarrow> policy_error + class_rule" where
  "class_rule_try_new c allowed =
     and_then (collect_operations c allowed {}) (\<lambda>operations.
       Inr \<lparr>cr_resource_class = c, cr_allowed_operations = operations\<rparr>)"

record limit_policy =
  lp_epoch :: u64
  lp_buckets :: "(quota_path, bucket_policy) btree"
  lp_class_rules :: "resource_class \<rightharpoonup> class_rule"
  lp_registered_maintenance_classes :: "nat set"

fun collect_buckets ::
  "(quota_path \<times> bucket_policy) list \<Rightarrow> (quota_path, bucket_policy) btree \<Rightarrow>
   policy_error + (quota_path, bucket_policy) btree" where
  "collect_buckets [] m = Inr m"
| "collect_buckets ((p, b) # rest) m =
     (if map_of m p \<noteq> None then Inl (DuplicateBucket p) else collect_buckets rest (bt_insert p b m))"

fun check_ancestors ::
  "(quota_path, bucket_policy) btree \<Rightarrow> quota_path \<Rightarrow> quota_path list \<Rightarrow> policy_error + unit" where
  "check_ancestors m p [] = Inr ()"
| "check_ancestors m p (q # rest) =
     (if map_of m q = None then Inl (MissingAncestorBucket p q) else check_ancestors m p rest)"

fun check_paths :: "(quota_path, bucket_policy) btree \<Rightarrow> quota_path list \<Rightarrow> policy_error + unit" where
  "check_paths m [] = Inr ()"
| "check_paths m (p # rest) =
     and_then (check_ancestors m p (ancestors_inclusive p)) (\<lambda>_. check_paths m rest)"

fun collect_rules :: "class_rule list \<Rightarrow> (resource_class \<rightharpoonup> class_rule) \<Rightarrow> policy_error + (resource_class \<rightharpoonup> class_rule)" where
  "collect_rules [] m = Inr m"
| "collect_rules (r # rest) m =
     (if m (cr_resource_class r) \<noteq> None then Inl (DuplicateClassRule (cr_resource_class r))
      else collect_rules rest (m(cr_resource_class r \<mapsto> r)))"

fun check_rules :: "resource_class list \<Rightarrow> (resource_class \<rightharpoonup> class_rule) \<Rightarrow> policy_error + unit" where
  "check_rules [] m = Inr ()"
| "check_rules (c # rest) m = (if m c = None then Inl (MissingClassRule c) else check_rules rest m)"

fun collect_classes :: "nat list \<Rightarrow> nat set \<Rightarrow> policy_error + nat set" where
  "collect_classes [] s = Inr s"
| "collect_classes (c # rest) s =
     (if c \<in> s then Inl (DuplicateRegisteredMaintenanceClass c) else collect_classes rest (insert c s))"

definition policy_try_new ::
  "u64 \<Rightarrow> (quota_path \<times> bucket_policy) list \<Rightarrow> class_rule list \<Rightarrow> nat list \<Rightarrow> policy_error + limit_policy" where
  "policy_try_new epoch buckets class_rules registered =
     and_then (collect_buckets buckets []) (\<lambda>bucket_map.
     if bucket_map = [] then Inl NoBuckets
     else and_then (check_paths bucket_map (bt_keys bucket_map)) (\<lambda>_.
     let roots = length (filter (\<lambda>p. length p = 1) (bt_keys bucket_map))
     in if roots \<noteq> 1 then Inl (RootCount roots)
        else and_then (collect_rules class_rules Map.empty) (\<lambda>rule_map.
             and_then (check_rules [Ordinary, RegisteredMaintenance] rule_map) (\<lambda>_.
             and_then (collect_classes registered {}) (\<lambda>maintenance_classes.
               Inr \<lparr>lp_epoch = epoch, lp_buckets = bucket_map, lp_class_rules = rule_map,
                    lp_registered_maintenance_classes = maintenance_classes\<rparr>)))))"

definition policy_allows :: "limit_policy \<Rightarrow> resource_class \<Rightarrow> ledger_operation_kind \<Rightarrow> bool" where
  "policy_allows p c k =
     (case lp_class_rules p c of None \<Rightarrow> False | Some rule \<Rightarrow> k \<in> cr_allowed_operations rule)"

end
