(* ===== verification/Ledger.thy ===== *)
theory Ledger
  imports QuotaPolicy
begin

text \<open>
  The atomic resource ledger (\<open>crates/fgdb-resource/src/ledger.rs\<close>): its entries, transitions and the
  engine \<open>apply\<close>. An operation takes the ledger and returns it together with its result, so that the state
  an operation leaves behind when it fails is part of the model. Whether the allocator can reserve
  the storage of a plan is a parameter.
\<close>

section \<open>Data\<close>

type_synonym reservation_id = nat

type_synonym charge_id = nat

type_synonym transition_id = nat

type_synonym stable_subject_key = nat

text \<open>Fixed-width identities inside an owner key are only compared.\<close>

datatype owner_key =
    Attempt nat nat
  | Statement nat nat u64
  | ResultDelivery nat nat
  | Subscription nat
  | DurableObject nat nat
  | Replay nat
  | BackupPin nat nat
  | PreparedClosure nat
  | Maintenance nat nat

datatype owner_hold =
    NoHold
  | PreparedOwnership
  | FinalCertification
  | ResultDeliveryHold
  | Backup
  | RemoteGrant

record reservation_entry =
  re_id :: reservation_id
  re_generation :: u64
  re_owner :: owner_key
  re_path :: quota_path
  re_class :: resource_class
  re_vector :: charge_vector
  re_hold :: owner_hold

record charge_entry =
  ce_id :: charge_id
  ce_generation :: u64
  ce_owner :: owner_key
  ce_path :: quota_path
  ce_class :: resource_class
  ce_vector :: charge_vector
  ce_stable_subject_key :: stable_subject_key

datatype accounting_role = Local | Meta

record ledger_identity =
  li_namespace :: nat
  li_cluster_incarnation :: nat
  li_role :: accounting_role
  li_limit_policy_oid :: nat
  li_limit_policy_epoch :: u64

datatype identity_mismatch =
    NamespaceMismatch nat nat
  | IncarnationMismatch nat nat
  | LimitPolicyMismatch nat nat
  | LimitPolicyEpochDiffers u64 u64

datatype ledger_subject = ReservationSubject reservation_id | ChargeSubject charge_id

datatype time_classification = NotExpired | TimeExpired

record expiry_evidence =
  ev_reservation_id :: reservation_id
  ev_reservation_generation :: u64
  ev_owner_quiescence_proof_ref :: nat
  ev_time_validation_evidence_ref :: nat
  ev_time_classification :: time_classification
  ev_confirms_quiescence :: bool

text \<open>
  Constructor arguments in the order of the source's fields. \<open>Reserve\<close>: reservation, vector, hold.
  \<open>Charge\<close>: reservation, its expected generation, charge, vector, subject key. \<open>Release\<close>: subject, expected
  generation, exact vector. \<open>Expire\<close>: reservation, expected generation, exact vector, evidence.
  \<open>Transfer\<close>: subject, expected generation, target owner, target path, exact vector. \<open>Adjust\<close>: charge,
  expected generation, vector before, vector after, subject key.
\<close>

datatype ledger_operation =
    Reserve reservation_id charge_vector owner_hold
  | Charge reservation_id u64 charge_id charge_vector stable_subject_key
  | Release ledger_subject u64 charge_vector
  | Expire reservation_id u64 charge_vector expiry_evidence
  | Transfer ledger_subject u64 owner_key quota_path charge_vector
  | Adjust charge_id u64 charge_vector charge_vector stable_subject_key

fun operation_kind :: "ledger_operation \<Rightarrow> ledger_operation_kind" where
  "operation_kind (Reserve _ _ _) = KReserve"
| "operation_kind (Charge _ _ _ _ _) = KCharge"
| "operation_kind (Release _ _ _) = KRelease"
| "operation_kind (Expire _ _ _ _) = KExpire"
| "operation_kind (Transfer _ _ _ _ _) = KTransfer"
| "operation_kind (Adjust _ _ _ _ _) = KAdjust"

record transition_header =
  th_expected_ledger_identity :: ledger_identity
  th_transition_id :: transition_id
  th_idempotency_key_digest :: "byte list"
  th_expected_ledger_generation :: u64
  th_owner :: owner_key
  th_resource_class :: resource_class
  th_quota_path :: quota_path

record ledger_transition =
  lt_header :: transition_header
  lt_operation :: ledger_operation
  lt_body_digest :: "byte list"

datatype applied_operation = Reserved | Charged | Released | Expired | Transferred | Adjusted

datatype apply_disposition = Applied | Replayed

record apply_outcome =
  ao_ledger_generation :: u64
  ao_operation :: applied_operation
  ao_disposition :: apply_disposition

record applied_transition =
  at_transition :: ledger_transition
  at_outcome :: apply_outcome

record resource_ledger =
  rl_identity :: ledger_identity
  rl_policy :: limit_policy
  rl_generation :: u64
  rl_buckets :: "(quota_path, bucket_state) btree"
  rl_reservations :: "(reservation_id, reservation_entry) btree"
  rl_charges :: "(charge_id, charge_entry) btree"
  rl_used_reservation_ids :: "reservation_id set"
  rl_used_charge_ids :: "charge_id set"
  rl_applied_transitions :: "(transition_id, applied_transition) btree"

datatype ledger_error =
    UnknownBucket quota_path
  | BucketRejected quota_path bucket_state_error
  | BucketPlanAllocationFailed nat
  | LimitPolicyEpochMismatch u64 u64
  | VectorError charge_vector_error
  | WrongAuthorityRole accounting_role accounting_role
  | WrongLedgerIdentity identity_mismatch
  | StaleLedgerGeneration u64 u64
  | LedgerGenerationOverflow
  | EntryGenerationOverflow
  | IdempotencyBodyDrift transition_id "byte list" "byte list"
  | IdempotencySemanticDrift transition_id
  | ZeroVector
  | ReservationIdAlreadyUsed reservation_id
  | ChargeIdAlreadyUsed charge_id
  | OperationDisallowedByPolicy resource_class ledger_operation_kind
  | MaintenanceReserveRequiresRegisteredOwner
  | UnregisteredMaintenanceClass nat
  | UnknownReservation reservation_id
  | UnknownCharge charge_id
  | OwnerMismatch
  | QuotaPathMismatch quota_path quota_path
  | ResourceClassMismatch resource_class resource_class
  | StaleEntryGeneration u64 u64
  | ExactVectorMismatch charge_vector charge_vector
  | ChargeExceedsReservation reservation_id charge_axis u64 u64
  | ExpiryEvidenceSubjectMismatch reservation_id reservation_id
  | ExpiryEvidenceGenerationMismatch u64 u64
  | ExpiryTimeNotExpired reservation_id
  | ExpiryNotQuiescent reservation_id
  | ProtectedOwnerCannotExpire reservation_id owner_hold
  | NoopTransfer
  | NoopAdjust charge_id
  | StableSubjectKeyMismatch charge_id stable_subject_key stable_subject_key
  | WholeChargeMustUseRelease charge_id

section \<open>Bucket changes\<close>

record bucket_change =
  ordinary_sub :: charge_vector
  ordinary_add :: charge_vector
  maintenance_sub :: charge_vector
  maintenance_add :: charge_vector
  ordinary_committed_sub :: charge_vector
  ordinary_committed_add :: charge_vector
  maintenance_committed_sub :: charge_vector
  maintenance_committed_add :: charge_vector

definition no_change :: bucket_change where
  "no_change =
     \<lparr>ordinary_sub = zero_charge, ordinary_add = zero_charge,
      maintenance_sub = zero_charge, maintenance_add = zero_charge,
      ordinary_committed_sub = zero_charge, ordinary_committed_add = zero_charge,
      maintenance_committed_sub = zero_charge, maintenance_committed_add = zero_charge\<rparr>"

datatype change_direction = Add | Subtract

text \<open>The conversion of a vector error by \<open>?\<close>.\<close>

definition vector_result :: "charge_vector_error + 'a \<Rightarrow> ledger_error + 'a" where
  "vector_result r = (case r of Inl e \<Rightarrow> Inl (VectorError e) | Inr v \<Rightarrow> Inr v)"

definition bump_reserved ::
  "resource_class \<Rightarrow> change_direction \<Rightarrow> charge_vector \<Rightarrow> bucket_change \<Rightarrow> ledger_error + bucket_change" where
  "bump_reserved c d v ch =
     (case (c, d) of
        (Ordinary, Add) \<Rightarrow>
          and_then (vector_result (add_charge (ordinary_add ch) v)) (\<lambda>n. Inr (ch\<lparr>ordinary_add := n\<rparr>))
      | (Ordinary, Subtract) \<Rightarrow>
          and_then (vector_result (add_charge (ordinary_sub ch) v)) (\<lambda>n. Inr (ch\<lparr>ordinary_sub := n\<rparr>))
      | (RegisteredMaintenance, Add) \<Rightarrow>
          and_then (vector_result (add_charge (maintenance_add ch) v)) (\<lambda>n. Inr (ch\<lparr>maintenance_add := n\<rparr>))
      | (RegisteredMaintenance, Subtract) \<Rightarrow>
          and_then (vector_result (add_charge (maintenance_sub ch) v)) (\<lambda>n. Inr (ch\<lparr>maintenance_sub := n\<rparr>)))"

definition bump_committed ::
  "resource_class \<Rightarrow> change_direction \<Rightarrow> charge_vector \<Rightarrow> bucket_change \<Rightarrow> ledger_error + bucket_change" where
  "bump_committed c d v ch =
     (case (c, d) of
        (Ordinary, Add) \<Rightarrow>
          and_then (vector_result (add_charge (ordinary_committed_add ch) v)) (\<lambda>n. Inr (ch\<lparr>ordinary_committed_add := n\<rparr>))
      | (Ordinary, Subtract) \<Rightarrow>
          and_then (vector_result (add_charge (ordinary_committed_sub ch) v)) (\<lambda>n. Inr (ch\<lparr>ordinary_committed_sub := n\<rparr>))
      | (RegisteredMaintenance, Add) \<Rightarrow>
          and_then (vector_result (add_charge (maintenance_committed_add ch) v)) (\<lambda>n. Inr (ch\<lparr>maintenance_committed_add := n\<rparr>))
      | (RegisteredMaintenance, Subtract) \<Rightarrow>
          and_then (vector_result (add_charge (maintenance_committed_sub ch) v)) (\<lambda>n. Inr (ch\<lparr>maintenance_committed_sub := n\<rparr>)))"

text \<open>\<open>changes.entry(ancestor).or_default()\<close>, then the update through the reference.\<close>

fun change_ancestors ::
  "(bucket_change \<Rightarrow> ledger_error + bucket_change) \<Rightarrow> quota_path list \<Rightarrow>
   (quota_path, bucket_change) btree \<Rightarrow> ledger_error + (quota_path, bucket_change) btree" where
  "change_ancestors f [] changes = Inr changes"
| "change_ancestors f (p # rest) changes =
     and_then (f (case map_of changes p of None \<Rightarrow> no_change | Some ch \<Rightarrow> ch)) (\<lambda>ch.
       change_ancestors f rest (bt_insert p ch changes))"

definition add_path_change ::
  "(quota_path, bucket_change) btree \<Rightarrow> quota_path \<Rightarrow> resource_class \<Rightarrow> change_direction \<Rightarrow> charge_vector \<Rightarrow>
   ledger_error + (quota_path, bucket_change) btree" where
  "add_path_change changes p c d v = change_ancestors (bump_reserved c d v) (ancestors_inclusive p) changes"

definition add_committed_path_change ::
  "(quota_path, bucket_change) btree \<Rightarrow> quota_path \<Rightarrow> resource_class \<Rightarrow> change_direction \<Rightarrow> charge_vector \<Rightarrow>
   ledger_error + (quota_path, bucket_change) btree" where
  "add_committed_path_change changes p c d v =
     change_ancestors (bump_committed c d v) (ancestors_inclusive p) changes"

definition move_pool :: "charge_vector \<Rightarrow> charge_vector \<Rightarrow> charge_vector \<Rightarrow> ledger_error + charge_vector" where
  "move_pool held subtracted added =
     and_then (vector_result (sub_charge held subtracted)) (\<lambda>n. vector_result (add_charge n added))"

definition plan_state :: "quota_path \<Rightarrow> bucket_state \<Rightarrow> bucket_change \<Rightarrow> ledger_error + bucket_state" where
  "plan_state p s ch =
     and_then (move_pool (ordinary_reserved s) (ordinary_sub ch) (ordinary_add ch)) (\<lambda>new_or.
     and_then (move_pool (maintenance_reserved s) (maintenance_sub ch) (maintenance_add ch)) (\<lambda>new_mr.
     and_then (move_pool (ordinary_committed s) (ordinary_committed_sub ch) (ordinary_committed_add ch)) (\<lambda>new_oc.
     and_then (move_pool (maintenance_committed s) (maintenance_committed_sub ch) (maintenance_committed_add ch)) (\<lambda>new_mc.
       let s' = s\<lparr>ordinary_reserved := new_or, maintenance_reserved := new_mr,
                  ordinary_committed := new_oc, maintenance_committed := new_mc\<rparr>
       in case validate_bucket s' of
            Inl cause \<Rightarrow> Inl (BucketRejected p cause)
          | Inr _ \<Rightarrow> Inr s'))))"

fun plan_loop ::
  "(quota_path, bucket_state) btree \<Rightarrow> (quota_path \<times> bucket_change) list \<Rightarrow>
   ledger_error + (quota_path \<times> bucket_state) list" where
  "plan_loop buckets [] = Inr []"
| "plan_loop buckets ((p, ch) # rest) =
     (case map_of buckets p of
        None \<Rightarrow> Inl (UnknownBucket p)
      | Some s \<Rightarrow>
          and_then (plan_state p s ch) (\<lambda>s'.
          and_then (plan_loop buckets rest) (\<lambda>plan. Inr ((p, s') # plan))))"

definition plan_bucket_changes ::
  "(nat \<Rightarrow> bool) \<Rightarrow> resource_ledger \<Rightarrow> (quota_path, bucket_change) btree \<Rightarrow>
   ledger_error + (quota_path \<times> bucket_state) list" where
  "plan_bucket_changes try_reserve l changes =
     (if \<not> try_reserve (length changes) then Inl (BucketPlanAllocationFailed (length changes))
      else plan_loop (rl_buckets l) changes)"

definition install_bucket_plan :: "(quota_path \<times> bucket_state) list \<Rightarrow> resource_ledger \<Rightarrow> resource_ledger" where
  "install_bucket_plan plan l = l\<lparr>rl_buckets := fold (\<lambda>(p, s). bt_insert p s) plan (rl_buckets l)\<rparr>"

section \<open>Operations\<close>

definition ledger_try_new :: "ledger_identity \<Rightarrow> limit_policy \<Rightarrow> ledger_error + resource_ledger" where
  "ledger_try_new identity policy =
     (if li_limit_policy_epoch identity \<noteq> lp_epoch policy
      then Inl (LimitPolicyEpochMismatch (li_limit_policy_epoch identity) (lp_epoch policy))
      else Inr \<lparr>rl_identity = identity, rl_policy = policy, rl_generation = 0,
                rl_buckets = map (\<lambda>(p, b). (p, empty_state b)) (lp_buckets policy),
                rl_reservations = [], rl_charges = [], rl_used_reservation_ids = {},
                rl_used_charge_ids = {}, rl_applied_transitions = []\<rparr>)"

definition validate_entry_binding ::
  "owner_key \<Rightarrow> quota_path \<Rightarrow> resource_class \<Rightarrow> u64 \<Rightarrow> charge_vector \<Rightarrow> ledger_transition \<Rightarrow> u64 \<Rightarrow>
   charge_vector option \<Rightarrow> ledger_error + unit" where
  "validate_entry_binding owner path c generation vector t expected_generation exact =
     (let h = lt_header t
      in if owner \<noteq> th_owner h then Inl OwnerMismatch
         else if path \<noteq> th_quota_path h then Inl (QuotaPathMismatch path (th_quota_path h))
         else if c \<noteq> th_resource_class h then Inl (ResourceClassMismatch c (th_resource_class h))
         else if generation \<noteq> expected_generation then Inl (StaleEntryGeneration generation expected_generation)
         else case exact of
             None \<Rightarrow> Inr ()
           | Some v \<Rightarrow> if vector \<noteq> v then Inl (ExactVectorMismatch vector v) else Inr ())"

definition validate_policy_owner :: "limit_policy \<Rightarrow> resource_class \<Rightarrow> owner_key \<Rightarrow> ledger_error + unit" where
  "validate_policy_owner policy c owner =
     (if c \<noteq> RegisteredMaintenance then Inr ()
      else case owner of
          Maintenance job registered_class \<Rightarrow>
            if registered_class \<notin> lp_registered_maintenance_classes policy
            then Inl (UnregisteredMaintenanceClass registered_class) else Inr ()
        | _ \<Rightarrow> Inl MaintenanceReserveRequiresRegisteredOwner)"

datatype subject_component = ReservationComponent | CommittedComponent

record subject_snapshot =
  ss_owner :: owner_key
  ss_path :: quota_path
  ss_class :: resource_class
  ss_generation :: u64
  ss_vector :: charge_vector
  ss_component :: subject_component

fun subject_snapshot_of :: "resource_ledger \<Rightarrow> ledger_subject \<Rightarrow> ledger_error + subject_snapshot" where
  "subject_snapshot_of l (ReservationSubject i) =
     (case map_of (rl_reservations l) i of
        None \<Rightarrow> Inl (UnknownReservation i)
      | Some e \<Rightarrow> Inr \<lparr>ss_owner = re_owner e, ss_path = re_path e, ss_class = re_class e,
          ss_generation = re_generation e, ss_vector = re_vector e, ss_component = ReservationComponent\<rparr>)"
| "subject_snapshot_of l (ChargeSubject i) =
     (case map_of (rl_charges l) i of
        None \<Rightarrow> Inl (UnknownCharge i)
      | Some e \<Rightarrow> Inr \<lparr>ss_owner = ce_owner e, ss_path = ce_path e, ss_class = ce_class e,
          ss_generation = ce_generation e, ss_vector = ce_vector e, ss_component = CommittedComponent\<rparr>)"

definition validate_binding :: "subject_snapshot \<Rightarrow> ledger_transition \<Rightarrow> u64 \<Rightarrow> charge_vector \<Rightarrow> ledger_error + unit" where
  "validate_binding s t expected_generation exact =
     validate_entry_binding (ss_owner s) (ss_path s) (ss_class s) (ss_generation s) (ss_vector s) t
       expected_generation (Some exact)"

definition add_change_at ::
  "subject_snapshot \<Rightarrow> (quota_path, bucket_change) btree \<Rightarrow> quota_path \<Rightarrow> change_direction \<Rightarrow>
   ledger_error + (quota_path, bucket_change) btree" where
  "add_change_at s changes p d =
     (case ss_component s of
        ReservationComponent \<Rightarrow> add_path_change changes p (ss_class s) d (ss_vector s)
      | CommittedComponent \<Rightarrow> add_committed_path_change changes p (ss_class s) d (ss_vector s))"

definition add_change ::
  "subject_snapshot \<Rightarrow> (quota_path, bucket_change) btree \<Rightarrow> change_direction \<Rightarrow>
   ledger_error + (quota_path, bucket_change) btree" where
  "add_change s changes d = add_change_at s changes (ss_path s) d"

fun remove_subject :: "ledger_subject \<Rightarrow> resource_ledger \<Rightarrow> resource_ledger" where
  "remove_subject (ReservationSubject i) l = l\<lparr>rl_reservations := bt_remove i (rl_reservations l)\<rparr>"
| "remove_subject (ChargeSubject i) l = l\<lparr>rl_charges := bt_remove i (rl_charges l)\<rparr>"

text \<open>
  The state after an operation with its result; the checks of an operation run before it touches the
  ledger.
\<close>

type_synonym 'a ledger_result = "resource_ledger \<times> (ledger_error + 'a)"

definition commit_plan ::
  "resource_ledger \<Rightarrow> ledger_error + 'p \<Rightarrow> ('p \<Rightarrow> unit ledger_result) \<Rightarrow> unit ledger_result" where
  "commit_plan l checks action = (case checks of Inl e \<Rightarrow> (l, Inl e) | Inr plan \<Rightarrow> action plan)"

definition apply_reserve ::
  "(nat \<Rightarrow> bool) \<Rightarrow> resource_ledger \<Rightarrow> ledger_transition \<Rightarrow> reservation_id \<Rightarrow> charge_vector \<Rightarrow> owner_hold \<Rightarrow>
   unit ledger_result" where
  "apply_reserve grant l t i v hold =
     commit_plan l
       (if is_zero_charge v then Inl ZeroVector
        else if i \<in> rl_used_reservation_ids l then Inl (ReservationIdAlreadyUsed i)
        else and_then (add_path_change [] (th_quota_path (lt_header t)) (th_resource_class (lt_header t)) Add v)
               (plan_bucket_changes grant l))
       (\<lambda>plan.
         let l1 = install_bucket_plan plan l;
             entry = \<lparr>re_id = i, re_generation = 0, re_owner = th_owner (lt_header t),
                      re_path = th_quota_path (lt_header t), re_class = th_resource_class (lt_header t),
                      re_vector = v, re_hold = hold\<rparr>
         in (l1\<lparr>rl_reservations := bt_insert i entry (rl_reservations l1),
                rl_used_reservation_ids := insert i (rl_used_reservation_ids l1)\<rparr>, Inr ()))"

definition check_charge_fits :: "reservation_id \<Rightarrow> charge_vector \<Rightarrow> charge_vector \<Rightarrow> ledger_error + unit" where
  "check_charge_fits i reserved charged =
     (case find (\<lambda>a. axis charged a > axis reserved a) all_charge_axes of
        None \<Rightarrow> Inr ()
      | Some a \<Rightarrow> Inl (ChargeExceedsReservation i a (axis reserved a) (axis charged a)))"

definition apply_charge ::
  "(nat \<Rightarrow> bool) \<Rightarrow> resource_ledger \<Rightarrow> ledger_transition \<Rightarrow> reservation_id \<Rightarrow> u64 \<Rightarrow> charge_id \<Rightarrow> charge_vector \<Rightarrow>
   stable_subject_key \<Rightarrow> unit ledger_result" where
  "apply_charge grant l t i expected_generation c charged key =
     (case map_of (rl_reservations l) i of
        None \<Rightarrow> (l, Inl (UnknownReservation i))
      | Some r \<Rightarrow>
          commit_plan l
            (and_then (validate_entry_binding (re_owner r) (re_path r) (re_class r) (re_generation r) (re_vector r) t
                 expected_generation None) (\<lambda>_.
             if is_zero_charge charged then Inl ZeroVector
             else and_then (check_charge_fits i (re_vector r) charged) (\<lambda>_.
             if c \<in> rl_used_charge_ids l then Inl (ChargeIdAlreadyUsed c)
             else and_then (add_path_change [] (re_path r) (re_class r) Subtract (re_vector r)) (\<lambda>changes.
                  and_then (add_committed_path_change changes (re_path r) (re_class r) Add charged)
                    (plan_bucket_changes grant l)))))
            (\<lambda>plan.
              let l1 = install_bucket_plan plan l;
                  l2 = l1\<lparr>rl_reservations := bt_remove i (rl_reservations l1)\<rparr>;
                  entry = \<lparr>ce_id = c, ce_generation = 0, ce_owner = re_owner r, ce_path = re_path r,
                           ce_class = re_class r, ce_vector = charged, ce_stable_subject_key = key\<rparr>
              in (l2\<lparr>rl_charges := bt_insert c entry (rl_charges l2),
                     rl_used_charge_ids := insert c (rl_used_charge_ids l2)\<rparr>, Inr ())))"

definition apply_release ::
  "(nat \<Rightarrow> bool) \<Rightarrow> resource_ledger \<Rightarrow> ledger_transition \<Rightarrow> ledger_subject \<Rightarrow> u64 \<Rightarrow> charge_vector \<Rightarrow>
   unit ledger_result" where
  "apply_release grant l t subject expected_generation exact =
     commit_plan l
       (and_then (subject_snapshot_of l subject) (\<lambda>snapshot.
        and_then (validate_binding snapshot t expected_generation exact) (\<lambda>_.
        and_then (add_change snapshot [] Subtract) (plan_bucket_changes grant l))))
       (\<lambda>plan. (remove_subject subject (install_bucket_plan plan l), Inr ()))"

definition apply_expire ::
  "(nat \<Rightarrow> bool) \<Rightarrow> resource_ledger \<Rightarrow> ledger_transition \<Rightarrow> reservation_id \<Rightarrow> u64 \<Rightarrow> charge_vector \<Rightarrow>
   expiry_evidence \<Rightarrow> unit ledger_result" where
  "apply_expire grant l t i expected_generation exact evidence =
     (case map_of (rl_reservations l) i of
        None \<Rightarrow> (l, Inl (UnknownReservation i))
      | Some r \<Rightarrow>
          commit_plan l
            (and_then (validate_entry_binding (re_owner r) (re_path r) (re_class r) (re_generation r) (re_vector r) t
                 expected_generation (Some exact)) (\<lambda>_.
             if ev_reservation_id evidence \<noteq> i
             then Inl (ExpiryEvidenceSubjectMismatch i (ev_reservation_id evidence))
             else if ev_reservation_generation evidence \<noteq> expected_generation
             then Inl (ExpiryEvidenceGenerationMismatch expected_generation (ev_reservation_generation evidence))
             else if ev_time_classification evidence \<noteq> TimeExpired then Inl (ExpiryTimeNotExpired i)
             else if \<not> ev_confirms_quiescence evidence then Inl (ExpiryNotQuiescent i)
             else if re_hold r \<noteq> NoHold then Inl (ProtectedOwnerCannotExpire i (re_hold r))
             else and_then (add_path_change [] (re_path r) (re_class r) Subtract (re_vector r))
                    (plan_bucket_changes grant l)))
            (\<lambda>plan.
              let l1 = install_bucket_plan plan l
              in (l1\<lparr>rl_reservations := bt_remove i (rl_reservations l1)\<rparr>, Inr ())))"

fun retarget_subject :: "ledger_subject \<Rightarrow> u64 \<Rightarrow> owner_key \<Rightarrow> quota_path \<Rightarrow> resource_ledger \<Rightarrow> unit ledger_result" where
  "retarget_subject (ReservationSubject i) generation owner path l =
     (case map_of (rl_reservations l) i of
        None \<Rightarrow> (l, Inl (UnknownReservation i))
      | Some _ \<Rightarrow>
          (l\<lparr>rl_reservations := bt_adjust i (\<lambda>e. e\<lparr>re_generation := generation, re_owner := owner, re_path := path\<rparr>)
               (rl_reservations l)\<rparr>, Inr ()))"
| "retarget_subject (ChargeSubject i) generation owner path l =
     (case map_of (rl_charges l) i of
        None \<Rightarrow> (l, Inl (UnknownCharge i))
      | Some _ \<Rightarrow>
          (l\<lparr>rl_charges := bt_adjust i (\<lambda>e. e\<lparr>ce_generation := generation, ce_owner := owner, ce_path := path\<rparr>)
               (rl_charges l)\<rparr>, Inr ()))"

definition apply_transfer ::
  "(nat \<Rightarrow> bool) \<Rightarrow> resource_ledger \<Rightarrow> ledger_transition \<Rightarrow> ledger_subject \<Rightarrow> u64 \<Rightarrow> owner_key \<Rightarrow> quota_path \<Rightarrow>
   charge_vector \<Rightarrow> unit ledger_result" where
  "apply_transfer grant l t subject expected_generation target_owner target_path exact =
     commit_plan l
       (and_then (subject_snapshot_of l subject) (\<lambda>snapshot.
        and_then (validate_binding snapshot t expected_generation exact) (\<lambda>_.
        and_then (validate_policy_owner (rl_policy l) (ss_class snapshot) target_owner) (\<lambda>_.
        if ss_owner snapshot = target_owner \<and> ss_path snapshot = target_path then Inl NoopTransfer
        else case checked_add (ss_generation snapshot) 1 of
            None \<Rightarrow> Inl EntryGenerationOverflow
          | Some next_entry_generation \<Rightarrow>
              and_then (add_change snapshot [] Subtract) (\<lambda>changes.
              and_then (add_change_at snapshot changes target_path Add) (\<lambda>changes'.
              and_then (plan_bucket_changes grant l changes') (\<lambda>plan.
                Inr (next_entry_generation, plan))))))))
       (\<lambda>(next_entry_generation, plan).
         case retarget_subject subject next_entry_generation target_owner target_path l of
           (l1, Inl e) \<Rightarrow> (l1, Inl e)
         | (l1, Inr _) \<Rightarrow> (install_bucket_plan plan l1, Inr ()))"

definition apply_adjust ::
  "(nat \<Rightarrow> bool) \<Rightarrow> resource_ledger \<Rightarrow> ledger_transition \<Rightarrow> charge_id \<Rightarrow> u64 \<Rightarrow> charge_vector \<Rightarrow> charge_vector \<Rightarrow>
   stable_subject_key \<Rightarrow> unit ledger_result" where
  "apply_adjust grant l t c expected_generation before_vector after_vector key =
     (case map_of (rl_charges l) c of
        None \<Rightarrow> (l, Inl (UnknownCharge c))
      | Some e \<Rightarrow>
          commit_plan l
            (and_then (validate_entry_binding (ce_owner e) (ce_path e) (ce_class e) (ce_generation e) (ce_vector e) t
                 expected_generation (Some before_vector)) (\<lambda>_.
             if key \<noteq> ce_stable_subject_key e then Inl (StableSubjectKeyMismatch c (ce_stable_subject_key e) key)
             else if is_zero_charge after_vector then Inl (WholeChargeMustUseRelease c)
             else if before_vector = after_vector then Inl (NoopAdjust c)
             else case checked_add (ce_generation e) 1 of
                 None \<Rightarrow> Inl EntryGenerationOverflow
               | Some next_entry_generation \<Rightarrow>
                   and_then (add_committed_path_change [] (ce_path e) (ce_class e) Subtract before_vector) (\<lambda>changes.
                   and_then (add_committed_path_change changes (ce_path e) (ce_class e) Add after_vector) (\<lambda>changes'.
                   and_then (plan_bucket_changes grant l changes') (\<lambda>plan.
                     Inr (next_entry_generation, plan))))))
            (\<lambda>(next_entry_generation, plan).
              case map_of (rl_charges l) c of
                None \<Rightarrow> (l, Inl (UnknownCharge c))
              | Some _ \<Rightarrow>
                  (install_bucket_plan plan (l\<lparr>rl_charges := bt_adjust c (\<lambda>e. e\<lparr>ce_generation := next_entry_generation,
                       ce_vector := after_vector\<rparr>) (rl_charges l)\<rparr>), Inr ())))"

section \<open>The engine\<close>

definition digest_matches :: "byte list \<Rightarrow> byte list \<Rightarrow> bool" where
  "digest_matches lhs rhs =
     (fold (\<lambda>(left, right) difference. or difference (xor left right)) (zip lhs rhs) 0 = 0)"

definition ledger_identity_mismatch :: "ledger_identity \<Rightarrow> ledger_identity \<Rightarrow> identity_mismatch option" where
  "ledger_identity_mismatch expected actual =
     (if li_namespace expected \<noteq> li_namespace actual
      then Some (NamespaceMismatch (li_namespace expected) (li_namespace actual))
      else if li_cluster_incarnation expected \<noteq> li_cluster_incarnation actual
      then Some (IncarnationMismatch (li_cluster_incarnation expected) (li_cluster_incarnation actual))
      else if li_limit_policy_oid expected \<noteq> li_limit_policy_oid actual
      then Some (LimitPolicyMismatch (li_limit_policy_oid expected) (li_limit_policy_oid actual))
      else if li_limit_policy_epoch expected \<noteq> li_limit_policy_epoch actual
      then Some (LimitPolicyEpochDiffers (li_limit_policy_epoch expected) (li_limit_policy_epoch actual))
      else None)"

definition admit_transition :: "resource_ledger \<Rightarrow> ledger_transition \<Rightarrow> ledger_error + u64" where
  "admit_transition l t =
     (let h = lt_header t; kind = operation_kind (lt_operation t)
      in if li_role (th_expected_ledger_identity h) \<noteq> li_role (rl_identity l)
         then Inl (WrongAuthorityRole (li_role (rl_identity l)) (li_role (th_expected_ledger_identity h)))
         else case ledger_identity_mismatch (rl_identity l) (th_expected_ledger_identity h) of
             Some mismatch \<Rightarrow> Inl (WrongLedgerIdentity mismatch)
           | None \<Rightarrow>
               if th_expected_ledger_generation h \<noteq> rl_generation l
               then Inl (StaleLedgerGeneration (rl_generation l) (th_expected_ledger_generation h))
               else if \<not> policy_allows (rl_policy l) (th_resource_class h) kind
               then Inl (OperationDisallowedByPolicy (th_resource_class h) kind)
               else and_then (validate_policy_owner (rl_policy l) (th_resource_class h) (th_owner h)) (\<lambda>_.
                 case checked_add (rl_generation l) 1 of
                   None \<Rightarrow> Inl LedgerGenerationOverflow
                 | Some next_generation \<Rightarrow> Inr next_generation))"

fun perform ::
  "(nat \<Rightarrow> bool) \<Rightarrow> resource_ledger \<Rightarrow> ledger_transition \<Rightarrow> ledger_operation \<Rightarrow> unit ledger_result \<times> applied_operation" where
  "perform grant l t (Reserve i v hold) = (apply_reserve grant l t i v hold, Reserved)"
| "perform grant l t (Charge i g c v key) = (apply_charge grant l t i g c v key, Charged)"
| "perform grant l t (Release subject g v) = (apply_release grant l t subject g v, Released)"
| "perform grant l t (Expire i g v evidence) = (apply_expire grant l t i g v evidence, Expired)"
| "perform grant l t (Transfer subject g owner path v) = (apply_transfer grant l t subject g owner path v, Transferred)"
| "perform grant l t (Adjust c g v w key) = (apply_adjust grant l t c g v w key, Adjusted)"

definition record_outcome :: "u64 \<Rightarrow> applied_operation \<Rightarrow> ledger_transition \<Rightarrow> resource_ledger \<Rightarrow> apply_outcome ledger_result" where
  "record_outcome next_generation operation t l =
     (let outcome = \<lparr>ao_ledger_generation = next_generation, ao_operation = operation, ao_disposition = Applied\<rparr>
      in (l\<lparr>rl_generation := next_generation,
            rl_applied_transitions := bt_insert (th_transition_id (lt_header t))
              \<lparr>at_transition = t, at_outcome = outcome\<rparr> (rl_applied_transitions l)\<rparr>, Inr outcome))"

definition replay :: "applied_transition \<Rightarrow> ledger_transition \<Rightarrow> ledger_error + apply_outcome" where
  "replay applied t =
     (let i = th_transition_id (lt_header t); recorded = at_transition applied
      in if \<not> digest_matches (lt_body_digest recorded) (lt_body_digest t)
         then Inl (IdempotencyBodyDrift i (lt_body_digest recorded) (lt_body_digest t))
         else if recorded \<noteq> t then Inl (IdempotencySemanticDrift i)
         else Inr ((at_outcome applied)\<lparr>ao_disposition := Replayed\<rparr>))"

definition ledger_apply ::
  "(nat \<Rightarrow> bool) \<Rightarrow> resource_ledger \<Rightarrow> ledger_transition \<Rightarrow> apply_outcome ledger_result" where
  "ledger_apply grant l t =
     (case map_of (rl_applied_transitions l) (th_transition_id (lt_header t)) of
        Some applied \<Rightarrow> (l, replay applied t)
      | None \<Rightarrow>
          (case admit_transition l t of
             Inl e \<Rightarrow> (l, Inl e)
           | Inr next_generation \<Rightarrow>
               (case perform grant l t (lt_operation t) of
                  ((l1, Inl e), _) \<Rightarrow> (l1, Inl e)
                | ((l1, Inr _), operation) \<Rightarrow> record_outcome next_generation operation t l1)))"

end
