(* ===== verification/LedgerChanges.thy ===== *)
theory LedgerChanges
  imports Ledger
begin

text \<open>
  How the planning of bucket changes reads on the pools of a bucket: the effect of the change maps built
  along a path, of planning one state, and of installing a plan; and how the usage that entries put on
  a path changes when an entry is inserted, removed or adjusted.
\<close>

section \<open>Pools and deltas\<close>

fun pool :: "resource_class \<Rightarrow> subject_component \<Rightarrow> bucket_state \<Rightarrow> charge_vector" where
  "pool Ordinary ReservationComponent s = ordinary_reserved s"
| "pool RegisteredMaintenance ReservationComponent s = maintenance_reserved s"
| "pool Ordinary CommittedComponent s = ordinary_committed s"
| "pool RegisteredMaintenance CommittedComponent s = maintenance_committed s"

fun delta :: "resource_class \<Rightarrow> subject_component \<Rightarrow> change_direction \<Rightarrow> bucket_change \<Rightarrow> charge_vector" where
  "delta Ordinary ReservationComponent Add ch = ordinary_add ch"
| "delta Ordinary ReservationComponent Subtract ch = ordinary_sub ch"
| "delta RegisteredMaintenance ReservationComponent Add ch = maintenance_add ch"
| "delta RegisteredMaintenance ReservationComponent Subtract ch = maintenance_sub ch"
| "delta Ordinary CommittedComponent Add ch = ordinary_committed_add ch"
| "delta Ordinary CommittedComponent Subtract ch = ordinary_committed_sub ch"
| "delta RegisteredMaintenance CommittedComponent Add ch = maintenance_committed_add ch"
| "delta RegisteredMaintenance CommittedComponent Subtract ch = maintenance_committed_sub ch"

lemma delta_no_change [simp]: "delta c k d no_change = zero_charge"
  by (cases c; cases k; cases d) (simp_all add: no_change_def)

definition change_at :: "(quota_path, bucket_change) btree \<Rightarrow> quota_path \<Rightarrow> bucket_change" where
  "change_at changes p = (case map_of changes p of None \<Rightarrow> no_change | Some ch \<Rightarrow> ch)"

lemma change_at_Nil [simp]: "change_at [] p = no_change"
  by (simp add: change_at_def)

fun bump :: "subject_component \<Rightarrow> resource_class \<Rightarrow> change_direction \<Rightarrow> charge_vector \<Rightarrow> bucket_change \<Rightarrow> ledger_error + bucket_change" where
  "bump ReservationComponent = bump_reserved"
| "bump CommittedComponent = bump_committed"

definition path_change ::
  "subject_component \<Rightarrow> (quota_path, bucket_change) btree \<Rightarrow> quota_path \<Rightarrow> resource_class \<Rightarrow> change_direction \<Rightarrow> charge_vector \<Rightarrow>
   ledger_error + (quota_path, bucket_change) btree" where
  "path_change k changes p c d v = change_ancestors (bump k c d v) (ancestors_inclusive p) changes"

lemma path_change_folds:
  "add_path_change = path_change ReservationComponent"
  "add_committed_path_change = path_change CommittedComponent"
  "add_change_at s changes p d = path_change (ss_component s) changes p (ss_class s) d (ss_vector s)"
  by (simp_all add: fun_eq_iff add_path_change_def add_committed_path_change_def path_change_def add_change_at_def
      split: subject_component.split)

lemma vector_result_Inr: "vector_result r = Inr v \<longleftrightarrow> r = Inr v"
  by (cases r) (simp_all add: vector_result_def)

lemma bump_Inr:
  assumes "bump k c d v ch = Inr ch'"
  shows "axis (delta c' k' d' ch') a = axis (delta c' k' d' ch) a + (if c' = c \<and> k' = k \<and> d' = d then axis v a else 0)"
  using assms
  by (cases k; cases c; cases d; cases k'; cases c'; cases d')
    (auto simp: bump_reserved_def bump_committed_def and_then_eq_Inr vector_result_Inr add_charge_Inr)

lemma bump_total:
  assumes "\<And>a. axis (delta c k d ch) a + axis v a \<le> u64_max"
  shows "\<exists>ch'. bump k c d v ch = Inr ch'"
  using assms add_charge_total [of "delta c k d ch" v]
  by (cases k; cases c; cases d) (simp_all add: bump_reserved_def bump_committed_def vector_result_def)

lemma change_ancestors_Inr:
  assumes "change_ancestors (bump k c d v) ps changes = Inr changes'" "distinct ps" "bt_invar changes"
  shows "bt_invar changes' \<and> set (bt_keys changes') = set (bt_keys changes) \<union> set ps \<and>
    (\<forall>q c' k' d' a. axis (delta c' k' d' (change_at changes' q)) a =
       axis (delta c' k' d' (change_at changes q)) a + (if q \<in> set ps \<and> c' = c \<and> k' = k \<and> d' = d then axis v a else 0))"
  using assms
proof (induction ps arbitrary: changes)
  case (Cons p ps)
  then obtain ch where ch: "bump k c d v (change_at changes p) = Inr ch"
      "change_ancestors (bump k c d v) ps (bt_insert p ch changes) = Inr changes'"
    by (auto simp: and_then_eq_Inr change_at_def)
  have at: "change_at (bt_insert p ch changes) q = (if q = p then ch else change_at changes q)" for q
    by (simp add: change_at_def bt_lookup_insert)
  note ih = Cons.IH [OF ch(2)]
  have "p \<notin> set ps" "distinct ps" using Cons.prems(2) by simp_all
  with ih bt_insert_invar [OF Cons.prems(3)] show ?case
    by (auto simp: at bt_insert_keys bump_Inr [OF ch(1)])
qed simp

lemma change_ancestors_total:
  assumes "\<And>q a. q \<in> set ps \<Longrightarrow> axis (delta c k d (change_at changes q)) a + axis v a \<le> u64_max" "distinct ps"
  shows "\<exists>changes'. change_ancestors (bump k c d v) ps changes = Inr changes'"
  using assms
proof (induction ps arbitrary: changes)
  case (Cons p ps)
  obtain ch where ch: "bump k c d v (change_at changes p) = Inr ch"
    using bump_total [of c k d "change_at changes p" v] Cons.prems(1) by auto
  have at: "change_at (bt_insert p ch changes) q = (if q = p then ch else change_at changes q)" for q
    by (simp add: change_at_def bt_lookup_insert)
  have "\<exists>changes'. change_ancestors (bump k c d v) ps (bt_insert p ch changes) = Inr changes'"
    by (rule Cons.IH) (use Cons.prems at in auto)
  with ch show ?case by (simp add: change_at_def)
qed simp

lemma path_change_Inr:
  assumes "path_change k changes p c d v = Inr changes'" "bt_invar changes"
  shows "bt_invar changes'" "set (bt_keys changes') = set (bt_keys changes) \<union> set (ancestors_inclusive p)"
    "axis (delta c' k' d' (change_at changes' q)) a = axis (delta c' k' d' (change_at changes q)) a +
       (if q \<in> set (ancestors_inclusive p) \<and> c' = c \<and> k' = k \<and> d' = d then axis v a else 0)"
  using change_ancestors_Inr [OF assms(1) [unfolded path_change_def] distinct_ancestors assms(2)] by blast+

lemma first_change:
  assumes "path_change k [] p c d v = Inr changes"
  shows "bt_invar changes" "set (bt_keys changes) = set (ancestors_inclusive p)"
    "axis (delta c' k' d' (change_at changes q)) a =
       (if q \<in> set (ancestors_inclusive p) \<and> c' = c \<and> k' = k \<and> d' = d then axis v a else 0)"
  using path_change_Inr [OF assms] by simp_all

lemma path_change_total:
  assumes "\<And>q a. q \<in> set (ancestors_inclusive p) \<Longrightarrow> axis (delta c k d (change_at changes q)) a + axis v a \<le> u64_max"
  shows "\<exists>changes'. path_change k changes p c d v = Inr changes'"
  unfolding path_change_def by (rule change_ancestors_total [OF assms distinct_ancestors])

section \<open>Planning and installing\<close>

definition planned :: "bucket_state \<Rightarrow> bucket_change \<Rightarrow> bucket_state \<Rightarrow> bool" where
  "planned s ch s' \<longleftrightarrow> hard_limit s' = hard_limit s \<and>
     protected_maintenance_reserve s' = protected_maintenance_reserve s \<and>
     (\<forall>c k a. axis (delta c k Subtract ch) a \<le> axis (pool c k s) a \<and>
        axis (pool c k s') a = axis (pool c k s) a - axis (delta c k Subtract ch) a + axis (delta c k Add ch) a)"

lemma all_pools: "(\<forall>c k. P c k) \<longleftrightarrow> P Ordinary ReservationComponent \<and> P RegisteredMaintenance ReservationComponent \<and>
    P Ordinary CommittedComponent \<and> P RegisteredMaintenance CommittedComponent"
  by (metis resource_class.exhaust subject_component.exhaust)

lemma move_pool_Inr:
  "move_pool x s d = Inr y \<longleftrightarrow> (\<forall>a. axis s a \<le> axis x a \<and> axis y a = axis x a - axis s a + axis d a \<and> axis y a \<le> u64_max)"
proof
  assume "move_pool x s d = Inr y"
  then obtain n where "sub_charge x s = Inr n" "add_charge n d = Inr y"
    by (auto simp: move_pool_def and_then_eq_Inr vector_result_Inr)
  then show "\<forall>a. axis s a \<le> axis x a \<and> axis y a = axis x a - axis s a + axis d a \<and> axis y a \<le> u64_max"
    by (simp add: charge_simps)
next
  assume a: "\<forall>a. axis s a \<le> axis x a \<and> axis y a = axis x a - axis s a + axis d a \<and> axis y a \<le> u64_max"
  then have "sub_charge x s = Inr (charge_of (\<lambda>a. axis x a - axis s a))" by (intro sub_charge_total) simp
  moreover have sum: "axis (charge_of (\<lambda>a. axis x a - axis s a)) a' + axis d a' = axis y a'" for a' using a by simp
  have "\<forall>a. axis y a \<le> u64_max" using a by blast
  then have "add_charge (charge_of (\<lambda>a. axis x a - axis s a)) d = Inr y" by (simp only: add_charge_Inr sum) simp
  ultimately show "move_pool x s d = Inr y" by (simp add: move_pool_def vector_result_def)
qed

lemma checked_Inr: "(case r of Inl e \<Rightarrow> Inl (f e) | Inr _ \<Rightarrow> Inr x) = Inr y \<longleftrightarrow> r = Inr () \<and> x = y"
  by (cases r) auto

lemma plan_state_Inr:
  "plan_state p s ch = Inr s' \<longleftrightarrow>
     planned s ch s' \<and> (\<forall>c k a. axis (pool c k s') a \<le> u64_max) \<and> validate_bucket s' = Inr ()"
proof -
  have "plan_state p s ch = Inr s' \<longleftrightarrow>
      move_pool (ordinary_reserved s) (ordinary_sub ch) (ordinary_add ch) = Inr (ordinary_reserved s') \<and>
      move_pool (maintenance_reserved s) (maintenance_sub ch) (maintenance_add ch) = Inr (maintenance_reserved s') \<and>
      move_pool (ordinary_committed s) (ordinary_committed_sub ch) (ordinary_committed_add ch) = Inr (ordinary_committed s') \<and>
      move_pool (maintenance_committed s) (maintenance_committed_sub ch) (maintenance_committed_add ch)
        = Inr (maintenance_committed s') \<and>
      hard_limit s' = hard_limit s \<and> protected_maintenance_reserve s' = protected_maintenance_reserve s \<and>
      validate_bucket s' = Inr ()"
    by (cases s; cases s') (auto simp: plan_state_def and_then_eq_Inr Let_def checked_Inr)
  then show ?thesis
    by (simp add: move_pool_Inr planned_def all_pools) blast
qed

lemma plan_loop_Inr:
  "plan_loop buckets chs = Inr plan \<longleftrightarrow>
     list_all2 (\<lambda>(p, ch) (q, s'). p = q \<and> (\<exists>s. map_of buckets p = Some s \<and> plan_state p s ch = Inr s')) chs plan"
proof (induction chs arbitrary: plan)
  case (Cons e chs)
  obtain p ch where e: "e = (p, ch)" by fastforce
  show ?case
    by (cases plan) (auto simp: e and_then_eq_Inr Cons split: option.splits)
qed auto

lemma plan_loop_lookup:
  assumes "plan_loop buckets chs = Inr plan" "distinct (map fst chs)"
  shows "map fst plan = map fst chs"
    "map_of chs p = Some ch \<Longrightarrow> \<exists>s s'. map_of buckets p = Some s \<and> plan_state p s ch = Inr s' \<and> map_of plan p = Some s'"
  using assms unfolding plan_loop_Inr
  by (induction rule: list_all2_induct) auto

lemma lookup_install:
  "distinct (map fst plan) \<Longrightarrow> map_of (fold (\<lambda>(p, s). bt_insert p s) plan m) q =
     (case map_of plan q of None \<Rightarrow> map_of m q | Some s \<Rightarrow> Some s)"
proof (induction plan arbitrary: m)
  case (Cons e plan)
  obtain p s where e: "e = (p, s)" by fastforce
  have "map_of plan p = None" using Cons.prems e by (simp add: map_of_eq_None_iff)
  then show ?case using Cons e by (auto simp: bt_lookup_insert split: option.splits)
qed simp

lemma invar_install: "bt_invar m \<Longrightarrow> bt_invar (fold (\<lambda>(p, s). bt_insert p s) plan m)"
  by (induction plan arbitrary: m) (auto intro: bt_insert_invar)

text \<open>A plan moves the pools of every bucket by the changes collected for its path.\<close>

lemma installed:
  assumes "plan_bucket_changes grant l changes = Inr plan" "bt_invar changes" "bt_invar (rl_buckets l)"
  defines "l' \<equiv> install_bucket_plan plan l"
  shows "l' = l\<lparr>rl_buckets := rl_buckets l'\<rparr>" "bt_invar (rl_buckets l')"
    "p \<in> set (bt_keys changes) \<Longrightarrow> map_of (rl_buckets l) p \<noteq> None"
    "map_of (rl_buckets l) p = None \<Longrightarrow> map_of (rl_buckets l') p = None"
    "map_of (rl_buckets l) p = Some s \<Longrightarrow> \<exists>s'. map_of (rl_buckets l') p = Some s' \<and> planned s (change_at changes p) s' \<and>
       (s' = s \<or> bucket_ok s')"
proof -
  have loop: "plan_loop (rl_buckets l) changes = Inr plan"
    using assms(1) by (simp add: plan_bucket_changes_def split: if_splits)
  have dist: "distinct (map fst changes)" using bt_invar_sorted [OF assms(2)] by simp
  note look = plan_loop_lookup [OF loop dist]
  have lookup: "map_of (rl_buckets l') q = (case map_of plan q of None \<Rightarrow> map_of (rl_buckets l) q | Some s \<Rightarrow> Some s)" for q
    using look(1) dist by (simp add: l'_def install_bucket_plan_def lookup_install)
  show "l' = l\<lparr>rl_buckets := rl_buckets l'\<rparr>" by (simp add: l'_def install_bucket_plan_def)
  show "bt_invar (rl_buckets l')" using assms(3) by (simp add: l'_def install_bucket_plan_def invar_install)
  show known: "map_of (rl_buckets l) p \<noteq> None" if "p \<in> set (bt_keys changes)"
  proof -
    from that obtain ch where "map_of changes p = Some ch" unfolding bt_lookup_keys by auto
    from look(2) [OF this] show ?thesis by auto
  qed
  have planless: "map_of plan q = None \<longleftrightarrow> map_of changes q = None" for q
    using arg_cong [OF look(1), of set] by (simp add: map_of_eq_None_iff)
  show "map_of (rl_buckets l') p = None" if "map_of (rl_buckets l) p = None"
    using that look(2) [of p] planless [of p] by (cases "map_of changes p") (auto simp: lookup)
  show "\<exists>s'. map_of (rl_buckets l') p = Some s' \<and> planned s (change_at changes p) s' \<and> (s' = s \<or> bucket_ok s')"
    if "map_of (rl_buckets l) p = Some s"
  proof (cases "map_of changes p")
    case None
    then show ?thesis using that planless [of p] by (simp add: lookup change_at_def planned_def)
  next
    case (Some ch)
    from look(2) [OF this] that Some show ?thesis
      by (auto simp: lookup change_at_def plan_state_Inr dest: validate_bucket_sound)
  qed
qed

end
