(* ===== verification/LedgerInvariant.thy ===== *)
theory LedgerInvariant
  imports LedgerChanges
begin

text \<open>
  The invariant of the resource ledger: every pool of every bucket is exactly the sum of the entries
  below it, and the pools respect the limits of the policy. Every operation keeps it.
\<close>

section \<open>Usage\<close>

definition reservation_load :: "resource_class \<Rightarrow> quota_path \<Rightarrow> charge_axis \<Rightarrow> reservation_entry \<Rightarrow> nat" where
  "reservation_load c p a e = (if re_class e = c \<and> p \<in> set (ancestors_inclusive (re_path e)) then axis (re_vector e) a else 0)"

definition charge_load :: "resource_class \<Rightarrow> quota_path \<Rightarrow> charge_axis \<Rightarrow> charge_entry \<Rightarrow> nat" where
  "charge_load c p a e = (if ce_class e = c \<and> p \<in> set (ancestors_inclusive (ce_path e)) then axis (ce_vector e) a else 0)"

definition usage :: "resource_ledger \<Rightarrow> resource_class \<Rightarrow> subject_component \<Rightarrow> quota_path \<Rightarrow> charge_axis \<Rightarrow> nat" where
  "usage l c k p a =
     (case k of
        ReservationComponent \<Rightarrow> bt_sum (reservation_load c p a) (rl_reservations l)
      | CommittedComponent \<Rightarrow> bt_sum (charge_load c p a) (rl_charges l))"

definition balanced :: "resource_ledger \<Rightarrow> bool" where
  "balanced l \<longleftrightarrow> (\<forall>p s c k a. map_of (rl_buckets l) p = Some s \<longrightarrow> axis (pool c k s) a = usage l c k p a)"

section \<open>The invariant\<close>

definition bucket_policy_ok :: "bucket_policy \<Rightarrow> bool" where
  "bucket_policy_ok b \<longleftrightarrow> (\<forall>a. axis (bp_protected_maintenance_reserve b) a \<le> axis (bp_hard_limit b) a \<and>
     axis (bp_hard_limit b) a \<le> u64_max)"

definition policy_ok :: "limit_policy \<Rightarrow> bool" where
  "policy_ok policy \<longleftrightarrow> bt_invar (lp_buckets policy) \<and>
     (\<forall>p b. map_of (lp_buckets policy) p = Some b \<longrightarrow> bucket_policy_ok b \<and>
        (\<forall>q \<in> set (ancestors_inclusive p). map_of (lp_buckets policy) q \<noteq> None))"

definition limits_match :: "resource_ledger \<Rightarrow> bool" where
  "limits_match l \<longleftrightarrow> (\<forall>p. map_option (\<lambda>s. (hard_limit s, protected_maintenance_reserve s)) (map_of (rl_buckets l) p) =
     map_option (\<lambda>b. (bp_hard_limit b, bp_protected_maintenance_reserve b)) (map_of (lp_buckets (rl_policy l)) p))"

definition buckets_inv :: "resource_ledger \<Rightarrow> bool" where
  "buckets_inv l \<longleftrightarrow> policy_ok (rl_policy l) \<and> bt_invar (rl_buckets l) \<and> limits_match l \<and> balanced l \<and>
     (\<forall>p s. map_of (rl_buckets l) p = Some s \<longrightarrow> bucket_ok s)"

definition reservation_ok :: "resource_ledger \<Rightarrow> reservation_id \<Rightarrow> reservation_entry \<Rightarrow> bool" where
  "reservation_ok l i e \<longleftrightarrow> re_id e = i \<and> i \<in> rl_used_reservation_ids l \<and> \<not> is_zero_charge (re_vector e) \<and>
     map_of (rl_buckets l) (re_path e) \<noteq> None \<and> validate_policy_owner (rl_policy l) (re_class e) (re_owner e) = Inr ()"

definition charge_ok :: "resource_ledger \<Rightarrow> charge_id \<Rightarrow> charge_entry \<Rightarrow> bool" where
  "charge_ok l i e \<longleftrightarrow> ce_id e = i \<and> i \<in> rl_used_charge_ids l \<and> \<not> is_zero_charge (ce_vector e) \<and>
     map_of (rl_buckets l) (ce_path e) \<noteq> None \<and> validate_policy_owner (rl_policy l) (ce_class e) (ce_owner e) = Inr ()"

definition entries_inv :: "resource_ledger \<Rightarrow> bool" where
  "entries_inv l \<longleftrightarrow> bt_invar (rl_reservations l) \<and> bt_invar (rl_charges l) \<and>
     (\<forall>i e. map_of (rl_reservations l) i = Some e \<longrightarrow> reservation_ok l i e) \<and>
     (\<forall>i e. map_of (rl_charges l) i = Some e \<longrightarrow> charge_ok l i e)"

definition history_ok :: "resource_ledger \<Rightarrow> transition_id \<Rightarrow> applied_transition \<Rightarrow> bool" where
  "history_ok l i at \<longleftrightarrow> th_transition_id (lt_header (at_transition at)) = i \<and>
     ao_disposition (at_outcome at) = Applied \<and> ao_ledger_generation (at_outcome at) \<le> rl_generation l"

definition history_inv :: "resource_ledger \<Rightarrow> bool" where
  "history_inv l \<longleftrightarrow> bt_invar (rl_applied_transitions l) \<and> rl_generation l = length (rl_applied_transitions l) \<and>
     (\<forall>i at. map_of (rl_applied_transitions l) i = Some at \<longrightarrow> history_ok l i at)"

definition ledger_inv :: "resource_ledger \<Rightarrow> bool" where
  "ledger_inv l \<longleftrightarrow> buckets_inv l \<and> entries_inv l \<and> history_inv l"

text \<open>Paths come from \<open>QuotaPath::try_new\<close>, and digests have 32 bytes.\<close>

fun target_path_wf :: "ledger_operation \<Rightarrow> bool" where
  "target_path_wf (Transfer _ _ _ p _) = canonical_path p"
| "target_path_wf _ = True"

definition transition_wf :: "ledger_transition \<Rightarrow> bool" where
  "transition_wf t \<longleftrightarrow> canonical_path (th_quota_path (lt_header t)) \<and> target_path_wf (lt_operation t) \<and>
     length (lt_body_digest t) = 32"

section \<open>Rebalancing\<close>

lemma known_frame:
  assumes "plan_bucket_changes grant l changes = Inr plan" "bt_invar changes" "bt_invar (rl_buckets l)"
  shows "(map_of (rl_buckets (install_bucket_plan plan l)) p = None) = (map_of (rl_buckets l) p = None)"
proof (cases "map_of (rl_buckets l) p")
  case (Some s)
  from installed(5) [OF assms this] Some show ?thesis by auto
qed (simp add: installed(4) [OF assms])

text \<open>
  A plan is right for an update of the entries if the deltas it collected for each path are the
  differences in usage.
\<close>

lemma rebalance:
  assumes plan: "plan_bucket_changes grant l changes = Inr plan" "bt_invar changes" and inv: "buckets_inv l"
    and l': "rl_buckets l' = rl_buckets (install_bucket_plan plan l)" "rl_policy l' = rl_policy l"
    and moved: "\<And>p c k a. usage l' c k p a + axis (delta c k Subtract (change_at changes p)) a =
      usage l c k p a + axis (delta c k Add (change_at changes p)) a"
  shows "buckets_inv l'"
proof -
  have bt: "bt_invar (rl_buckets l)" using inv by (simp add: buckets_inv_def)
  note inst = installed [OF plan bt]
  have new: "\<exists>s. map_of (rl_buckets l) p = Some s \<and> planned s (change_at changes p) s' \<and> (s' = s \<or> bucket_ok s')"
    if look: "map_of (rl_buckets l') p = Some s'" for p s'
  proof (cases "map_of (rl_buckets l) p")
    case None
    with inst(4) look l'(1) show ?thesis by simp
  next
    case (Some s)
    from inst(5) [OF this] look l'(1) Some show ?thesis by auto
  qed
  have "axis (pool c k s') a = usage l' c k p a" if look: "map_of (rl_buckets l') p = Some s'" for p s' c k a
  proof -
    from new [OF look] obtain s where s: "map_of (rl_buckets l) p = Some s" "planned s (change_at changes p) s'" by blast
    have "axis (pool c k s) a = usage l c k p a" using inv s(1) by (simp add: buckets_inv_def balanced_def)
    moreover have "axis (delta c k Subtract (change_at changes p)) a \<le> axis (pool c k s) a"
      and "axis (pool c k s') a = axis (pool c k s) a - axis (delta c k Subtract (change_at changes p)) a +
        axis (delta c k Add (change_at changes p)) a"
      using s(2) unfolding planned_def by blast+
    ultimately show ?thesis using moved [of c k p a] by linarith
  qed
  moreover have "limits_match l'"
    unfolding limits_match_def
  proof
    fix p
    have old: "map_option (\<lambda>s. (hard_limit s, protected_maintenance_reserve s)) (map_of (rl_buckets l) p) =
     map_option (\<lambda>b. (bp_hard_limit b, bp_protected_maintenance_reserve b)) (map_of (lp_buckets (rl_policy l)) p)"
      using inv by (simp add: buckets_inv_def limits_match_def)
    show "map_option (\<lambda>s. (hard_limit s, protected_maintenance_reserve s)) (map_of (rl_buckets l') p) =
     map_option (\<lambda>b. (bp_hard_limit b, bp_protected_maintenance_reserve b)) (map_of (lp_buckets (rl_policy l')) p)"
    proof (cases "map_of (rl_buckets l) p")
      case None
      with inst(4) old l' show ?thesis by simp
    next
      case (Some s)
      from inst(5) [OF this] obtain s' where "map_of (rl_buckets l') p = Some s'" "planned s (change_at changes p) s'"
        using l'(1) by auto
      with old Some l'(2) show ?thesis by (simp add: planned_def)
    qed
  qed
  moreover have "bucket_ok s'" if "map_of (rl_buckets l') p = Some s'" for p s'
    using new [OF that] inv unfolding buckets_inv_def by blast
  ultimately show ?thesis
    using inv inst(2) l' unfolding buckets_inv_def balanced_def by simp
qed

lemma commit_plan_Inr:
  "commit_plan l checks action = (l', Inr ()) \<longleftrightarrow> (\<exists>plan. checks = Inr plan \<and> action plan = (l', Inr ()))"
  by (cases checks) (auto simp: commit_plan_def)

lemma commit_plan_Inl:
  "commit_plan l checks action = (l', Inl e) \<longleftrightarrow>
     checks = Inl e \<and> l' = l \<or> (\<exists>plan. checks = Inr plan \<and> action plan = (l', Inl e))"
  by (cases checks) (auto simp: commit_plan_def)

lemma install_frame [simp]:
  "rl_identity (install_bucket_plan plan l) = rl_identity l"
  "rl_policy (install_bucket_plan plan l) = rl_policy l"
  "rl_generation (install_bucket_plan plan l) = rl_generation l"
  "rl_reservations (install_bucket_plan plan l) = rl_reservations l"
  "rl_charges (install_bucket_plan plan l) = rl_charges l"
  "rl_used_reservation_ids (install_bucket_plan plan l) = rl_used_reservation_ids l"
  "rl_used_charge_ids (install_bucket_plan plan l) = rl_used_charge_ids l"
  "rl_applied_transitions (install_bucket_plan plan l) = rl_applied_transitions l"
  by (simp_all add: install_bucket_plan_def)

lemma buckets_of_install [simp]:
  "rl_buckets (install_bucket_plan plan (l\<lparr>rl_reservations := rs\<rparr>)) = rl_buckets (install_bucket_plan plan l)"
  "rl_buckets (install_bucket_plan plan (l\<lparr>rl_charges := cs\<rparr>)) = rl_buckets (install_bucket_plan plan l)"
  by (simp_all add: install_bucket_plan_def)

section \<open>Operations keep the invariant\<close>

definition books_kept :: "resource_ledger \<Rightarrow> resource_ledger \<Rightarrow> bool" where
  "books_kept l l' \<longleftrightarrow> rl_identity l' = rl_identity l \<and> rl_policy l' = rl_policy l \<and> rl_generation l' = rl_generation l \<and>
     rl_applied_transitions l' = rl_applied_transitions l \<and>
     rl_used_reservation_ids l \<subseteq> rl_used_reservation_ids l' \<and> rl_used_charge_ids l \<subseteq> rl_used_charge_ids l' \<and>
     (\<forall>p. (map_of (rl_buckets l') p = None) = (map_of (rl_buckets l) p = None))"

lemma reservation_ok_kept: "books_kept l l' \<Longrightarrow> reservation_ok l i e \<Longrightarrow> reservation_ok l' i e"
  by (auto simp: books_kept_def reservation_ok_def)

lemma charge_ok_kept: "books_kept l l' \<Longrightarrow> charge_ok l i e \<Longrightarrow> charge_ok l' i e"
  by (auto simp: books_kept_def charge_ok_def)

text \<open>The bookkeeping every successful operation shares.\<close>

lemma entries_kept:
  assumes "entries_inv l" "books_kept l l'" "bt_invar (rl_reservations l')" "bt_invar (rl_charges l')"
    and "\<And>i e. map_of (rl_reservations l') i = Some e \<Longrightarrow> map_of (rl_reservations l) i = Some e \<or> reservation_ok l' i e"
    and "\<And>i e. map_of (rl_charges l') i = Some e \<Longrightarrow> map_of (rl_charges l) i = Some e \<or> charge_ok l' i e"
  shows "entries_inv l'"
  using assms reservation_ok_kept [OF assms(2)] charge_ok_kept [OF assms(2)] unfolding entries_inv_def by blast

definition sound :: "resource_ledger \<Rightarrow> bool" where
  "sound l \<longleftrightarrow> buckets_inv l \<and> entries_inv l"

lemma sound_bt: "sound l \<Longrightarrow> bt_invar (rl_buckets l)" "sound l \<Longrightarrow> bt_invar (rl_reservations l)" "sound l \<Longrightarrow> bt_invar (rl_charges l)"
  by (simp_all add: sound_def buckets_inv_def entries_inv_def)

lemma sound_reservation: "sound l \<Longrightarrow> map_of (rl_reservations l) i = Some e \<Longrightarrow> reservation_ok l i e"
  by (simp add: sound_def entries_inv_def)

lemma sound_charge: "sound l \<Longrightarrow> map_of (rl_charges l) i = Some e \<Longrightarrow> charge_ok l i e"
  by (simp add: sound_def entries_inv_def)

lemma books_kept_install:
  assumes "plan_bucket_changes grant l changes = Inr plan" "bt_invar changes" "sound l"
  shows "books_kept l (install_bucket_plan plan l)"
  using known_frame [OF assms(1,2) sound_bt(1) [OF assms(3)]] by (simp add: books_kept_def)

lemma apply_reserve_Inr:
  assumes "apply_reserve grant l t i v hold = (l', Inr ())"
  obtains changes plan where "\<not> is_zero_charge v" "i \<notin> rl_used_reservation_ids l"
    "path_change ReservationComponent [] (th_quota_path (lt_header t)) (th_resource_class (lt_header t)) Add v = Inr changes"
    "plan_bucket_changes grant l changes = Inr plan"
    "l' = (install_bucket_plan plan l)\<lparr>rl_reservations := bt_insert i
        \<lparr>re_id = i, re_generation = 0, re_owner = th_owner (lt_header t), re_path = th_quota_path (lt_header t),
         re_class = th_resource_class (lt_header t), re_vector = v, re_hold = hold\<rparr> (rl_reservations l),
      rl_used_reservation_ids := insert i (rl_used_reservation_ids l)\<rparr>"
  using assms
  by (auto simp: apply_reserve_def commit_plan_Inr Let_def and_then_eq_Inr path_change_folds split: if_splits)

lemma apply_reserve_sound:
  assumes "apply_reserve grant l t i v hold = (l', Inr ())" "sound l" "th_quota_path (lt_header t) \<noteq> []"
    and "validate_policy_owner (rl_policy l) (th_resource_class (lt_header t)) (th_owner (lt_header t)) = Inr ()"
  shows "sound l' \<and> books_kept l l'"
proof -
  obtain changes plan where op: "\<not> is_zero_charge v" "i \<notin> rl_used_reservation_ids l"
    "path_change ReservationComponent [] (th_quota_path (lt_header t)) (th_resource_class (lt_header t)) Add v = Inr changes"
    "plan_bucket_changes grant l changes = Inr plan"
    and l': "l' = (install_bucket_plan plan l)\<lparr>rl_reservations := bt_insert i
        \<lparr>re_id = i, re_generation = 0, re_owner = th_owner (lt_header t), re_path = th_quota_path (lt_header t),
         re_class = th_resource_class (lt_header t), re_vector = v, re_hold = hold\<rparr> (rl_reservations l),
      rl_used_reservation_ids := insert i (rl_used_reservation_ids l)\<rparr>"
    by (rule apply_reserve_Inr [OF assms(1)])
  note ch = path_change_Inr [OF op(3)]
  have bt: "bt_invar changes" using ch(1) by simp
  have books_kept: "books_kept l l'" using books_kept_install [OF op(4) bt assms(2)] by (auto simp: books_kept_def l')
  have fresh: "map_of (rl_reservations l) i = None"
    using sound_reservation [OF assms(2), of i] op(2) by (cases "map_of (rl_reservations l) i") (auto simp: reservation_ok_def)
  have known: "map_of (rl_buckets l) (th_quota_path (lt_header t)) \<noteq> None"
    using installed(3) [OF op(4) bt sound_bt(1) [OF assms(2)]] ch(2) ancestors_self [OF assms(3)] by simp
  have "buckets_inv l'"
    by (rule rebalance [OF op(4) bt])
      (use assms(2) ch(3) fresh in \<open>auto simp: l' sound_def bt_sum_insert reservation_load_def usage_def split: subject_component.split\<close>)
  moreover have "entries_inv l'"
    by (rule entries_kept [OF _ books_kept])
      (use assms(2,4) sound_bt [OF assms(2)] known books_kept op(1) in
        \<open>auto simp: sound_def l' bt_insert_invar bt_lookup_insert reservation_ok_def books_kept_def split: if_splits\<close>)
  ultimately show ?thesis using books_kept by (simp add: sound_def)
qed

lemma apply_charge_Inr:
  assumes "apply_charge grant l t i g c v key = (l', Inr ())"
  obtains r changes0 changes plan where "map_of (rl_reservations l) i = Some r"
    "validate_entry_binding (re_owner r) (re_path r) (re_class r) (re_generation r) (re_vector r) t g None = Inr ()"
    "\<not> is_zero_charge v" "check_charge_fits i (re_vector r) v = Inr ()" "c \<notin> rl_used_charge_ids l"
    "path_change ReservationComponent [] (re_path r) (re_class r) Subtract (re_vector r) = Inr changes0"
    "path_change CommittedComponent changes0 (re_path r) (re_class r) Add v = Inr changes"
    "plan_bucket_changes grant l changes = Inr plan"
    "l' = (install_bucket_plan plan l)\<lparr>rl_reservations := bt_remove i (rl_reservations l),
      rl_charges := bt_insert c \<lparr>ce_id = c, ce_generation = 0, ce_owner = re_owner r, ce_path = re_path r,
         ce_class = re_class r, ce_vector = v, ce_stable_subject_key = key\<rparr> (rl_charges l),
      rl_used_charge_ids := insert c (rl_used_charge_ids l)\<rparr>"
  using assms
  by (auto simp: apply_charge_def commit_plan_Inr Let_def and_then_eq_Inr path_change_folds split: if_splits option.splits)

lemma apply_charge_sound:
  assumes "apply_charge grant l t i g c v key = (l', Inr ())" "sound l"
  shows "sound l' \<and> books_kept l l'"
proof -
  obtain r changes0 changes plan where r: "map_of (rl_reservations l) i = Some r" and op: "\<not> is_zero_charge v" "c \<notin> rl_used_charge_ids l"
    "path_change ReservationComponent [] (re_path r) (re_class r) Subtract (re_vector r) = Inr changes0"
    "path_change CommittedComponent changes0 (re_path r) (re_class r) Add v = Inr changes"
    "plan_bucket_changes grant l changes = Inr plan"
    and l': "l' = (install_bucket_plan plan l)\<lparr>rl_reservations := bt_remove i (rl_reservations l),
      rl_charges := bt_insert c \<lparr>ce_id = c, ce_generation = 0, ce_owner = re_owner r, ce_path = re_path r,
         ce_class = re_class r, ce_vector = v, ce_stable_subject_key = key\<rparr> (rl_charges l),
      rl_used_charge_ids := insert c (rl_used_charge_ids l)\<rparr>"
    by (rule apply_charge_Inr [OF assms(1)])
  have bt0: "bt_invar changes0" using path_change_Inr(1) [OF op(3)] by simp
  note bt = path_change_Inr(1) [OF op(4) bt0]
  have ch: "axis (delta c' k d (change_at changes p)) a =
      (if p \<in> set (ancestors_inclusive (re_path r)) \<and> c' = re_class r \<and> k = ReservationComponent \<and> d = Subtract then axis (re_vector r) a else 0) +
      (if p \<in> set (ancestors_inclusive (re_path r)) \<and> c' = re_class r \<and> k = CommittedComponent \<and> d = Add then axis v a else 0)" for c' k d p a
    using path_change_Inr(3) [OF op(3), of c' k d p a] path_change_Inr(3) [OF op(4) bt0, of c' k d p a] by simp
  have books_kept: "books_kept l l'" using books_kept_install [OF op(5) bt assms(2)] by (auto simp: books_kept_def l')
  have fresh: "map_of (rl_charges l) c = None"
    using sound_charge [OF assms(2), of c] op(2) by (cases "map_of (rl_charges l) c") (auto simp: charge_ok_def)
  have rok: "reservation_ok l i r" using sound_reservation [OF assms(2) r] .
  have "buckets_inv l'"
    by (rule rebalance [OF op(5) bt])
      (use assms(2) ch fresh bt_sum_remove [OF sound_bt(2) [OF assms(2)] r] in
        \<open>auto simp: l' sound_def bt_sum_insert reservation_load_def charge_load_def usage_def split: subject_component.split\<close>)
  moreover have "entries_inv l'"
    by (rule entries_kept [OF _ books_kept])
      (use assms(2) sound_bt [OF assms(2)] rok books_kept op(1) in
        \<open>auto simp: sound_def l' bt_insert_invar bt_remove_invar bt_lookup_insert reservation_ok_def charge_ok_def books_kept_def
          split: if_splits\<close>)
  ultimately show ?thesis using books_kept by (simp add: sound_def)
qed

text \<open>Removing or retargeting a subject moves exactly its own load.\<close>

definition snapshot_load :: "subject_snapshot \<Rightarrow> quota_path \<Rightarrow> resource_class \<Rightarrow> subject_component \<Rightarrow> quota_path \<Rightarrow> charge_axis \<Rightarrow> nat" where
  "snapshot_load s path c k p a =
     (if p \<in> set (ancestors_inclusive path) \<and> c = ss_class s \<and> k = ss_component s then axis (ss_vector s) a else 0)"

lemma usage_remove_subject:
  assumes "sound l" "subject_snapshot_of l subject = Inr s"
  shows "usage l c k p a = usage (remove_subject subject l) c k p a + snapshot_load s (ss_path s) c k p a"
  using assms(2) sound_bt [OF assms(1)]
  by (cases subject)
    (auto simp: usage_def snapshot_load_def reservation_load_def charge_load_def bt_sum_remove
      split: subject_component.splits option.splits)

lemma usage_retarget:
  assumes "sound l" "subject_snapshot_of l subject = Inr s" "retarget_subject subject g owner path l = (l1, Inr ())"
  shows "usage l1 c k p a + snapshot_load s (ss_path s) c k p a = usage l c k p a + snapshot_load s path c k p a"
proof (cases subject)
  case (ReservationSubject i)
  then obtain e where e: "map_of (rl_reservations l) i = Some e"
    and s: "ss_path s = re_path e" "ss_class s = re_class e" "ss_vector s = re_vector e" "ss_component s = ReservationComponent"
    using assms(2) by (auto split: option.splits)
  note adj = bt_sum_adjust [OF sound_bt(2) [OF assms(1)] e, of "reservation_load c p a"
      "\<lambda>e. e\<lparr>re_generation := g, re_owner := owner, re_path := path\<rparr>"]
  show ?thesis
    using assms(3) e s adj ReservationSubject
    by (auto simp: usage_def snapshot_load_def reservation_load_def split: subject_component.split)
next
  case (ChargeSubject i)
  then obtain e where e: "map_of (rl_charges l) i = Some e"
    and s: "ss_path s = ce_path e" "ss_class s = ce_class e" "ss_vector s = ce_vector e" "ss_component s = CommittedComponent"
    using assms(2) by (auto split: option.splits)
  note adj = bt_sum_adjust [OF sound_bt(3) [OF assms(1)] e, of "charge_load c p a"
      "\<lambda>e. e\<lparr>ce_generation := g, ce_owner := owner, ce_path := path\<rparr>"]
  show ?thesis
    using assms(3) e s adj ChargeSubject
    by (auto simp: usage_def snapshot_load_def charge_load_def split: subject_component.split)
qed

lemma retarget_frame:
  assumes "retarget_subject subject g owner path l = (l1, Inr ())"
  shows "rl_buckets (install_bucket_plan plan l1) = rl_buckets (install_bucket_plan plan l)" "rl_policy l1 = rl_policy l"
    "rl_identity l1 = rl_identity l" "rl_generation l1 = rl_generation l" "rl_applied_transitions l1 = rl_applied_transitions l"
    "rl_used_reservation_ids l1 = rl_used_reservation_ids l" "rl_used_charge_ids l1 = rl_used_charge_ids l"
  using assms by (cases subject; auto split: option.splits)+

lemma remove_subject_frame [simp]:
  "rl_buckets (remove_subject subject l) = rl_buckets l" "rl_policy (remove_subject subject l) = rl_policy l"
  "rl_identity (remove_subject subject l) = rl_identity l" "rl_generation (remove_subject subject l) = rl_generation l"
  "rl_applied_transitions (remove_subject subject l) = rl_applied_transitions l"
  "rl_used_reservation_ids (remove_subject subject l) = rl_used_reservation_ids l"
  "rl_used_charge_ids (remove_subject subject l) = rl_used_charge_ids l"
  by (cases subject; simp)+

lemma usage_install [simp]: "usage (install_bucket_plan plan l) = usage l"
  by (simp add: fun_eq_iff usage_def split: subject_component.split)

lemma usage_remove_install: "usage (remove_subject subject (install_bucket_plan plan l)) = usage (remove_subject subject l)"
  by (cases subject) (simp_all add: fun_eq_iff usage_def split: subject_component.split)

lemma remove_install [simp]:
  "rl_reservations (remove_subject subject (install_bucket_plan plan l)) = rl_reservations (remove_subject subject l)"
  "rl_charges (remove_subject subject (install_bucket_plan plan l)) = rl_charges (remove_subject subject l)"
  by (cases subject; simp)+

lemma remove_subject_entries:
  assumes "sound l"
  shows "bt_invar (rl_reservations (remove_subject subject l))" "bt_invar (rl_charges (remove_subject subject l))"
    "map_of (rl_reservations (remove_subject subject l)) i = Some e \<Longrightarrow> map_of (rl_reservations l) i = Some e"
    "map_of (rl_charges (remove_subject subject l)) j = Some e' \<Longrightarrow> map_of (rl_charges l) j = Some e'"
  using sound_bt [OF assms] by (cases subject; auto simp: bt_remove_invar split: if_splits)+

text \<open>A release or an expiry removes one subject and its load.\<close>

lemma removal_sound:
  assumes "sound l" "subject_snapshot_of l subject = Inr s" "add_change s [] Subtract = Inr changes"
    and "plan_bucket_changes grant l changes = Inr plan" "l' = remove_subject subject (install_bucket_plan plan l)"
  shows "sound l' \<and> books_kept l l'"
proof -
  have ch: "path_change (ss_component s) [] (ss_path s) (ss_class s) Subtract (ss_vector s) = Inr changes"
    using assms(3) by (simp add: add_change_def path_change_folds)
  have bt: "bt_invar changes" using path_change_Inr(1) [OF ch] by simp
  have books_kept: "books_kept l l'" using books_kept_install [OF assms(4) bt assms(1)] assms(5) by (auto simp: books_kept_def)
  have move: "usage l' c k p a + axis (delta c k Subtract (change_at changes p)) a =
      usage l c k p a + axis (delta c k Add (change_at changes p)) a" for p c k a
    unfolding usage_remove_subject [OF assms(1,2)] first_change(3) [OF ch] assms(5)
    by (simp add: usage_remove_install snapshot_load_def)
  have "buckets_inv l'"
    by (rule rebalance [OF assms(4) bt _ _ _ move]) (use assms(1,5) in \<open>simp_all add: sound_def\<close>)
  moreover have "entries_inv l'"
    by (rule entries_kept [OF _ books_kept])
      (use assms(1) in \<open>simp_all add: assms(5) sound_def remove_subject_entries [OF assms(1)]\<close>)
  ultimately show ?thesis using books_kept by (simp add: sound_def)
qed

lemma apply_release_sound:
  assumes "apply_release grant l t subject g v = (l', Inr ())" "sound l"
  shows "sound l' \<and> books_kept l l'"
proof -
  obtain s changes plan where "subject_snapshot_of l subject = Inr s" "add_change s [] Subtract = Inr changes"
    "plan_bucket_changes grant l changes = Inr plan" "l' = remove_subject subject (install_bucket_plan plan l)"
    using assms(1) by (auto simp: apply_release_def commit_plan_Inr and_then_eq_Inr)
  with removal_sound [OF assms(2)] show ?thesis by blast
qed

lemma apply_expire_Inr:
  assumes "apply_expire grant l t i g v evidence = (l', Inr ())"
  obtains r changes plan where "map_of (rl_reservations l) i = Some r"
    "validate_entry_binding (re_owner r) (re_path r) (re_class r) (re_generation r) (re_vector r) t g (Some v) = Inr ()"
    "ev_reservation_id evidence = i" "ev_reservation_generation evidence = g"
    "ev_time_classification evidence = TimeExpired" "ev_confirms_quiescence evidence" "re_hold r = NoHold"
    "path_change ReservationComponent [] (re_path r) (re_class r) Subtract (re_vector r) = Inr changes"
    "plan_bucket_changes grant l changes = Inr plan"
    "l' = remove_subject (ReservationSubject i) (install_bucket_plan plan l)"
  using assms
  by (auto simp: apply_expire_def commit_plan_Inr Let_def and_then_eq_Inr path_change_folds split: if_splits option.splits)

lemma apply_expire_sound:
  assumes "apply_expire grant l t i g v evidence = (l', Inr ())" "sound l"
  shows "sound l' \<and> books_kept l l'"
proof -
  obtain r changes plan where r: "map_of (rl_reservations l) i = Some r"
    and ch: "path_change ReservationComponent [] (re_path r) (re_class r) Subtract (re_vector r) = Inr changes"
      "plan_bucket_changes grant l changes = Inr plan" "l' = remove_subject (ReservationSubject i) (install_bucket_plan plan l)"
    by (rule apply_expire_Inr [OF assms(1)])
  let ?s = "\<lparr>ss_owner = re_owner r, ss_path = re_path r, ss_class = re_class r, ss_generation = re_generation r,
    ss_vector = re_vector r, ss_component = ReservationComponent\<rparr>"
  have "subject_snapshot_of l (ReservationSubject i) = Inr ?s" using r by simp
  moreover have "add_change ?s [] Subtract = Inr changes" using ch(1) by (simp add: add_change_def path_change_folds)
  ultimately show ?thesis using removal_sound [OF assms(2)] ch(2,3) by blast
qed

lemma subject_owner_ok:
  assumes "sound l" "subject_snapshot_of l subject = Inr s"
  shows "\<not> is_zero_charge (ss_vector s)" "map_of (rl_buckets l) (ss_path s) \<noteq> None"
    "validate_policy_owner (rl_policy l) (ss_class s) (ss_owner s) = Inr ()"
  using assms(2) sound_reservation [OF assms(1)] sound_charge [OF assms(1)]
  by (cases subject; fastforce simp: reservation_ok_def charge_ok_def split: option.splits)+

lemma apply_transfer_Inr:
  assumes "apply_transfer grant l t subject g owner path v = (l', Inr ())"
  obtains s next_generation changes0 changes plan l1 where "subject_snapshot_of l subject = Inr s"
    "validate_binding s t g v = Inr ()" "validate_policy_owner (rl_policy l) (ss_class s) owner = Inr ()"
    "path_change (ss_component s) [] (ss_path s) (ss_class s) Subtract (ss_vector s) = Inr changes0"
    "path_change (ss_component s) changes0 path (ss_class s) Add (ss_vector s) = Inr changes"
    "plan_bucket_changes grant l changes = Inr plan"
    "retarget_subject subject next_generation owner path l = (l1, Inr ())" "l' = install_bucket_plan plan l1"
  using assms
  by (auto simp: apply_transfer_def commit_plan_Inr Let_def and_then_eq_Inr path_change_folds add_change_def
      split: if_splits option.splits prod.splits sum.splits)

lemma apply_transfer_sound:
  assumes "apply_transfer grant l t subject g owner path v = (l', Inr ())" "sound l" "path \<noteq> []"
  shows "sound l' \<and> books_kept l l'"
proof -
  obtain s next_generation changes0 changes plan l1 where s: "subject_snapshot_of l subject = Inr s"
    and owner: "validate_policy_owner (rl_policy l) (ss_class s) owner = Inr ()"
    and ch: "path_change (ss_component s) [] (ss_path s) (ss_class s) Subtract (ss_vector s) = Inr changes0"
      "path_change (ss_component s) changes0 path (ss_class s) Add (ss_vector s) = Inr changes"
      "plan_bucket_changes grant l changes = Inr plan"
    and l1: "retarget_subject subject next_generation owner path l = (l1, Inr ())" "l' = install_bucket_plan plan l1"
    by (rule apply_transfer_Inr [OF assms(1)])
  note bt0 = first_change(1) [OF ch(1)]
  note bt = path_change_Inr(1) [OF ch(2) bt0]
  note frame = retarget_frame [OF l1(1)]
  have books_kept: "books_kept l l'"
    using books_kept_install [OF ch(3) bt assms(2)] by (auto simp: books_kept_def l1(2) frame)
  have known: "map_of (rl_buckets l) path \<noteq> None"
    using installed(3) [OF ch(3) bt sound_bt(1) [OF assms(2)]] path_change_Inr(2) [OF ch(2) bt0] ancestors_self [OF assms(3)]
    by simp
  have move: "usage l' c k p a + axis (delta c k Subtract (change_at changes p)) a =
      usage l c k p a + axis (delta c k Add (change_at changes p)) a" for p c k a
    using usage_retarget [OF assms(2) s l1(1), of c k p a]
    unfolding path_change_Inr(3) [OF ch(2) bt0] first_change(3) [OF ch(1)] l1(2)
    by (simp add: snapshot_load_def)
  have "buckets_inv l'"
    by (rule rebalance [OF ch(3) bt _ _ _ move]) (use assms(2) in \<open>simp_all add: sound_def l1(2) frame\<close>)
  moreover have "entries_inv l'"
  proof (rule entries_kept [OF _ books_kept])
    show "entries_inv l" using assms(2) by (simp add: sound_def)
    show "bt_invar (rl_reservations l')" "bt_invar (rl_charges l')"
      using l1 sound_bt [OF assms(2)] by (cases subject; auto split: option.splits)+
    have known': "map_of (rl_buckets l') path \<noteq> None" using known books_kept by (simp add: books_kept_def)
    show "map_of (rl_reservations l) i = Some e \<or> reservation_ok l' i e" if "map_of (rl_reservations l') i = Some e" for i e
      using that l1 s owner known known' books_kept sound_reservation [OF assms(2), of i]
      by (cases subject) (auto simp: reservation_ok_def books_kept_def split: option.splits if_splits)
    show "map_of (rl_charges l) i = Some e \<or> charge_ok l' i e" if "map_of (rl_charges l') i = Some e" for i e
      using that l1 s owner known known' books_kept sound_charge [OF assms(2), of i]
      by (cases subject) (auto simp: charge_ok_def books_kept_def split: option.splits if_splits)
  qed
  ultimately show ?thesis using books_kept by (simp add: sound_def)
qed

lemma apply_adjust_Inr:
  assumes "apply_adjust grant l t c g v w key = (l', Inr ())"
  obtains e next_generation changes0 changes plan where "map_of (rl_charges l) c = Some e"
    "validate_entry_binding (ce_owner e) (ce_path e) (ce_class e) (ce_generation e) (ce_vector e) t g (Some v) = Inr ()"
    "\<not> is_zero_charge w" "next_generation = ce_generation e + 1"
    "path_change CommittedComponent [] (ce_path e) (ce_class e) Subtract v = Inr changes0"
    "path_change CommittedComponent changes0 (ce_path e) (ce_class e) Add w = Inr changes"
    "plan_bucket_changes grant l changes = Inr plan"
    "l' = install_bucket_plan plan (l\<lparr>rl_charges := bt_adjust c (\<lambda>e. e\<lparr>ce_generation := next_generation,
       ce_vector := w\<rparr>) (rl_charges l)\<rparr>)"
  using assms
  by (auto simp: apply_adjust_def commit_plan_Inr Let_def and_then_eq_Inr path_change_folds rust_simps
      split: if_splits option.splits prod.splits)

lemma binding_exact:
  "validate_entry_binding owner path c generation vector t g (Some v) = Inr () \<Longrightarrow> v = vector"
  by (auto simp: validate_entry_binding_def Let_def split: if_splits)

lemma apply_adjust_sound:
  assumes "apply_adjust grant l t c g v w key = (l', Inr ())" "sound l"
  shows "sound l' \<and> books_kept l l'"
proof -
  obtain e next_generation changes0 changes plan where e: "map_of (rl_charges l) c = Some e"
    "validate_entry_binding (ce_owner e) (ce_path e) (ce_class e) (ce_generation e) (ce_vector e) t g (Some v) = Inr ()"
    and w: "\<not> is_zero_charge w"
    and ch: "path_change CommittedComponent [] (ce_path e) (ce_class e) Subtract v = Inr changes0"
      "path_change CommittedComponent changes0 (ce_path e) (ce_class e) Add w = Inr changes"
      "plan_bucket_changes grant l changes = Inr plan"
    and l': "l' = install_bucket_plan plan (l\<lparr>rl_charges := bt_adjust c (\<lambda>e. e\<lparr>ce_generation := next_generation,
       ce_vector := w\<rparr>) (rl_charges l)\<rparr>)"
    by (rule apply_adjust_Inr [OF assms(1)])
  have v: "v = ce_vector e" by (rule binding_exact [OF e(2)])
  note bt0 = first_change(1) [OF ch(1)]
  note bt = path_change_Inr(1) [OF ch(2) bt0]
  have books_kept: "books_kept l l'" using books_kept_install [OF ch(3) bt assms(2)] by (auto simp: books_kept_def l')
  have eok: "charge_ok l c e" using sound_charge [OF assms(2) e(1)] .
  have move: "usage l' c' k p a + axis (delta c' k Subtract (change_at changes p)) a =
      usage l c' k p a + axis (delta c' k Add (change_at changes p)) a" for p c' k a
    using bt_sum_adjust [OF sound_bt(3) [OF assms(2)] e(1), of "charge_load c' p a"
        "\<lambda>e. e\<lparr>ce_generation := next_generation, ce_vector := w\<rparr>"]
    unfolding path_change_Inr(3) [OF ch(2) bt0] first_change(3) [OF ch(1)] l' v
    by (auto simp: usage_def charge_load_def split: subject_component.split)
  have "buckets_inv l'"
    by (rule rebalance [OF ch(3) bt _ _ _ move]) (use assms(2) in \<open>simp_all add: sound_def l'\<close>)
  moreover have "entries_inv l'"
    by (rule entries_kept [OF _ books_kept])
      (use assms(2) sound_bt [OF assms(2)] books_kept eok w e(1) in
        \<open>auto simp: sound_def l' charge_ok_def books_kept_def split: if_splits\<close>)
  ultimately show ?thesis using books_kept by (simp add: sound_def)
qed

end
