(* ===== verification/LedgerEngine.thy ===== *)
theory LedgerEngine
  imports LedgerInvariant
begin

text \<open>
  The engine of the ledger: failures leave it untouched, a success is one operation followed by its
  entry in the history, and every application keeps the invariant.
\<close>

section \<open>Failures leave the ledger untouched\<close>

lemma apply_transfer_Inl:
  assumes "apply_transfer grant l t subject g owner path v = (l', Inl e)"
  shows "l' = l"
proof -
  have retarget: "l1 = l" if "retarget_subject subject n owner path l = (l1, Inl e')" for l1 n e'
    using that by (cases subject) (auto split: option.splits)
  have split: "q = (l', Inl e)"
    if "(case q of (l1, Inl e) \<Rightarrow> (l1, Inl e) | (l1, Inr _) \<Rightarrow> (f l1, Inr ())) = (l', Inl e)"
    for q :: "unit ledger_result" and f
    using that by (cases q; cases "snd q") auto
  from assms consider "l' = l" | plan where "(case plan of (n, plan) \<Rightarrow>
         case retarget_subject subject n owner path l of
           (l1, Inl e) \<Rightarrow> (l1, Inl e)
         | (l1, Inr _) \<Rightarrow> (install_bucket_plan plan l1, Inr ())) = (l', Inl e)"
    unfolding apply_transfer_def commit_plan_Inl by blast
  then show ?thesis
  proof cases
    case 2
    obtain n pl where "plan = (n, pl)" by fastforce
    with 2 have "retarget_subject subject n owner path l = (l', Inl e)"
      using split [of "install_bucket_plan pl" "retarget_subject subject n owner path l"] by simp
    then show ?thesis by (rule retarget)
  qed
qed

lemma perform_Inl:
  assumes "perform grant l t operation = ((l', Inl e), kind)"
  shows "l' = l"
  using assms
proof (cases operation)
  case (Transfer subject g owner path v)
  then show ?thesis using assms apply_transfer_Inl by auto
qed (auto simp: apply_reserve_def apply_charge_def apply_release_def apply_expire_def apply_adjust_def commit_plan_Inl
    Let_def split: option.splits)

lemma perform_sound:
  assumes "perform grant l t (lt_operation t) = ((l', Inr ()), kind)" "sound l" "transition_wf t"
    and "validate_policy_owner (rl_policy l) (th_resource_class (lt_header t)) (th_owner (lt_header t)) = Inr ()"
  shows "sound l' \<and> books_kept l l'"
proof -
  have paths: "th_quota_path (lt_header t) \<noteq> []" "target_path_wf (lt_operation t)"
    using assms(3) by (auto simp: transition_wf_def canonical_path_def)
  show ?thesis
  proof (cases "lt_operation t")
    case (Reserve i v hold)
    then show ?thesis using assms apply_reserve_sound [OF _ assms(2) paths(1) assms(4)] by auto
  next
    case (Transfer subject g owner path v)
    then have "path \<noteq> []" using paths(2) by (auto simp: canonical_path_def)
    with Transfer show ?thesis using assms apply_transfer_sound by auto
  qed (use assms apply_charge_sound apply_release_sound apply_expire_sound apply_adjust_sound in auto)
qed

section \<open>The engine\<close>

lemma admit_transition_Inr:
  assumes "admit_transition l t = Inr n"
  shows "n = rl_generation l + 1" "n \<le> u64_max" "th_expected_ledger_generation (lt_header t) = rl_generation l"
    "th_expected_ledger_identity (lt_header t) = rl_identity l"
    "policy_allows (rl_policy l) (th_resource_class (lt_header t)) (operation_kind (lt_operation t))"
    "validate_policy_owner (rl_policy l) (th_resource_class (lt_header t)) (th_owner (lt_header t)) = Inr ()"
  using assms
  by (auto simp: admit_transition_def Let_def and_then_eq_Inr rust_simps ledger_identity_mismatch_def
      intro: ledger_identity.equality split: if_splits option.splits)

lemma ledger_apply_cases:
  assumes "ledger_apply grant l t = (l', r)"
  obtains (replayed) applied where "map_of (rl_applied_transitions l) (th_transition_id (lt_header t)) = Some applied"
      "l' = l" "r = replay applied t"
  | (failed) e where "map_of (rl_applied_transitions l) (th_transition_id (lt_header t)) = None" "l' = l" "r = Inl e"
  | (applied) l1 kind where "map_of (rl_applied_transitions l) (th_transition_id (lt_header t)) = None"
      "admit_transition l t = Inr (rl_generation l + 1)"
      "perform grant l t (lt_operation t) = ((l1, Inr ()), kind)"
      "record_outcome (rl_generation l + 1) kind t l1 = (l', r)"
proof (cases "map_of (rl_applied_transitions l) (th_transition_id (lt_header t))")
  case (Some x)
  with assms show ?thesis by (intro replayed [OF Some]) (simp_all add: ledger_apply_def)
next
  case None
  show ?thesis
  proof (cases "admit_transition l t")
    case (Inl e)
    with None assms show ?thesis by (intro failed [OF None, of e]) (simp_all add: ledger_apply_def)
  next
    case adm: (Inr n)
    note n = admit_transition_Inr(1) [OF adm]
    obtain l1 r1 kind where p: "perform grant l t (lt_operation t) = ((l1, r1), kind)" by (metis surj_pair)
    show ?thesis
    proof (cases r1)
      case (Inl e)
      have "l1 = l" using perform_Inl p Inl by blast
      with None adm p Inl assms show ?thesis by (intro failed [OF None, of e]) (simp_all add: ledger_apply_def)
    next
      case (Inr u)
      with None adm n p assms show ?thesis by (intro applied [OF None, of l1 kind]) (simp_all add: ledger_apply_def)
    qed
  qed
qed

lemma length_bt_insert: "map_of m k = None \<Longrightarrow> length (bt_insert k v m) = Suc (length m)"
  by (induction k v m rule: bt_insert.induct) (auto split: if_splits)

lemma sound_frame:
  "sound l \<Longrightarrow> sound (l\<lparr>rl_generation := n, rl_applied_transitions := h\<rparr>)"
  by (simp add: sound_def buckets_inv_def entries_inv_def limits_match_def balanced_def usage_def reservation_ok_def charge_ok_def
      cong: subject_component.case_cong)

lemma ledger_apply_inv:
  assumes "ledger_apply grant l t = (l', r)" "ledger_inv l" "transition_wf t"
  shows "ledger_inv l'"
proof -
  have s: "sound l" and h: "history_inv l" using assms(2) by (simp_all add: ledger_inv_def sound_def)
  from assms(1) show ?thesis
  proof (cases rule: ledger_apply_cases)
    case (applied l1 kind)
    from perform_sound [OF applied(3) s assms(3) admit_transition_Inr(6) [OF applied(2)]]
    have l1: "sound l1" "books_kept l l1" by blast+
    have l': "l' = l1\<lparr>rl_generation := rl_generation l + 1, rl_applied_transitions := bt_insert (th_transition_id (lt_header t))
        \<lparr>at_transition = t, at_outcome = \<lparr>ao_ledger_generation = rl_generation l + 1, ao_operation = kind, ao_disposition = Applied\<rparr>\<rparr>
        (rl_applied_transitions l)\<rparr>"
      using applied(4) l1(2) by (simp add: record_outcome_def Let_def books_kept_def)
    have "history_inv l'"
      using h applied(1)
      by (auto simp: history_inv_def l' bt_insert_invar length_bt_insert bt_lookup_insert history_ok_def le_SucI split: if_splits)
    moreover have "sound l'" unfolding l' by (rule sound_frame [OF l1(1)])
    ultimately show ?thesis by (simp add: ledger_inv_def sound_def)
  qed (use assms(2) in auto)
qed

end
