(* ===== verification/LedgerProperties.thy ===== *)
theory LedgerProperties
  imports LedgerEngine
begin

text \<open>
  What the resource ledger guarantees: conservation along every run, exact admission of reservations,
  reservations that can always be charged, idempotent retries, and entries that only their owner
  changes.
\<close>

section \<open>Policies and fresh ledgers\<close>

lemma bucket_policy_try_new_ok:
  assumes "bucket_policy_try_new hard reserve = Inr b" "\<And>a. axis hard a \<le> u64_max"
  shows "bucket_policy_ok b"
proof -
  have "bucket_ok (empty_state b)" "bp_hard_limit b = hard"
    using assms(1)
    by (auto simp: bucket_policy_try_new_def bucket_empty_def bucket_try_new_def and_then_eq_Inr empty_state_def Let_def
        dest: validate_bucket_sound)
  then show ?thesis using assms(2) by (auto simp: bucket_policy_ok_def bucket_ok_def empty_state_def)
qed

lemma collect_buckets_Inr:
  assumes "collect_buckets bs m = Inr m'" "bt_invar m" "\<forall>p b. map_of m p = Some b \<longrightarrow> P b" "\<forall>e \<in> set bs. P (snd e)"
  shows "bt_invar m' \<and> (\<forall>p b. map_of m' p = Some b \<longrightarrow> P b)"
  using assms
proof (induction bs arbitrary: m)
  case (Cons e bs)
  obtain p b where e: "e = (p, b)" by fastforce
  have rest: "collect_buckets bs (bt_insert p b m) = Inr m'" using Cons.prems(1) e by (simp split: if_splits)
  have "\<forall>q c. map_of (bt_insert p b m) q = Some c \<longrightarrow> P c"
    using Cons.prems(3,4) e by (simp add: bt_lookup_insert)
  from Cons.IH [OF rest bt_insert_invar [OF Cons.prems(2)] this] Cons.prems(4) show ?case by simp
qed simp

lemma check_ancestors_Inr: "check_ancestors m p qs = Inr () \<longleftrightarrow> (\<forall>q \<in> set qs. map_of m q \<noteq> None)"
  by (induction m p qs rule: check_ancestors.induct) auto

lemma check_paths_Inr: "check_paths m ps = Inr () \<longleftrightarrow> (\<forall>p \<in> set ps. \<forall>q \<in> set (ancestors_inclusive p). map_of m q \<noteq> None)"
  by (induction m ps rule: check_paths.induct) (auto simp: and_then_eq_Inr check_ancestors_Inr)

lemma policy_try_new_ok:
  assumes "policy_try_new epoch buckets rules classes = Inr policy" "\<And>p b. (p, b) \<in> set buckets \<Longrightarrow> bucket_policy_ok b"
  shows "policy_ok policy"
proof -
  obtain m where m: "collect_buckets buckets [] = Inr m" "check_paths m (bt_keys m) = Inr ()" "lp_buckets policy = m"
    using assms(1) by (auto simp: policy_try_new_def and_then_eq_Inr Let_def split: if_splits)
  have bt: "bt_invar m" and ok: "\<And>p b. map_of m p = Some b \<Longrightarrow> bucket_policy_ok b"
    using collect_buckets_Inr [OF m(1), of bucket_policy_ok] assms(2) by force+
  have "map_of m q \<noteq> None" if "map_of m p = Some b" "q \<in> set (ancestors_inclusive p)" for p b q
  proof -
    have "p \<in> set (bt_keys m)" unfolding bt_lookup_keys using that(1) by simp
    with m(2) that(2) show ?thesis unfolding check_paths_Inr by blast
  qed
  with bt ok m(3) show ?thesis by (auto simp: policy_ok_def)
qed

lemma ledger_try_new_inv:
  assumes "ledger_try_new identity policy = Inr l" "policy_ok policy"
  shows "ledger_inv l"
proof -
  let ?bs = "map (\<lambda>(p, b). (p, empty_state b)) (lp_buckets policy)"
  have l: "rl_buckets l = ?bs" "rl_policy l = policy" "rl_reservations l = []" "rl_charges l = []"
    "rl_applied_transitions l = []" "rl_generation l = 0"
    using assms(1) by (auto simp: ledger_try_new_def split: if_splits)
  have keys: "map fst ?bs = map fst (lp_buckets policy)" by (simp add: case_prod_unfold comp_def)
  have look: "map_of ?bs p = map_option empty_state (map_of (lp_buckets policy) p)" for p
    by (simp add: map_of_map)
  have "axis (pool c k (empty_state b)) a = 0" for c k b a
    by (cases c; cases k) (simp_all add: empty_state_def)
  then have "balanced l"
    by (auto simp: balanced_def l look usage_def split: subject_component.split)
  moreover have "bucket_ok (empty_state b)" if "map_of (lp_buckets policy) p = Some b" for p b
    using assms(2) that by (auto simp: policy_ok_def bucket_policy_ok_def bucket_ok_def empty_state_def)
  moreover have "limits_match l" 
    by (simp add: limits_match_def l look option.map_comp comp_def) (simp add: empty_state_def)
  moreover have "bt_invar (lp_buckets policy)" using assms(2) by (simp add: policy_ok_def)
  ultimately show ?thesis
    using assms(2) unfolding ledger_inv_def buckets_inv_def entries_inv_def history_inv_def l(1) keys look
    by (auto simp: l)
qed

section \<open>Runs\<close>

definition ledger_step :: "resource_ledger \<Rightarrow> resource_ledger \<Rightarrow> bool" where
  "ledger_step l l' \<longleftrightarrow> (\<exists>grant t. transition_wf t \<and> fst (ledger_apply grant l t) = l')"

definition ledger_init :: "resource_ledger \<Rightarrow> bool" where
  "ledger_init l \<longleftrightarrow> (\<exists>identity policy. policy_ok policy \<and> ledger_try_new identity policy = Inr l)"

interpretation charge_ledger: safety_system ledger_init ledger_step ledger_inv
proof unfold_locales
  show "ledger_inv l" if "ledger_init l" for l using that ledger_try_new_inv by (auto simp: ledger_init_def)
  show "ledger_inv l'" if "ledger_inv l" "ledger_step l l'" for l l'
    using that ledger_apply_inv by (metis ledger_step_def prod.collapse)
qed

section \<open>Totality of planning\<close>

lemma plan_loop_total:
  "(\<And>p ch. (p, ch) \<in> set chs \<Longrightarrow> \<exists>s s'. map_of buckets p = Some s \<and> plan_state p s ch = Inr s') \<Longrightarrow>
     \<exists>plan. plan_loop buckets chs = Inr plan"
proof (induction chs)
  case (Cons e chs)
  obtain p ch where e: "e = (p, ch)" by fastforce
  from Cons.prems [of p ch] e obtain s s' where "map_of buckets p = Some s" "plan_state p s ch = Inr s'" by auto
  moreover from Cons obtain plan where "plan_loop buckets chs = Inr plan" by auto
  ultimately show ?case by (simp add: e)
qed simp

definition lane_limit :: "bucket_state \<Rightarrow> resource_class \<Rightarrow> charge_axis \<Rightarrow> nat" where
  "lane_limit s c a =
     (case c of
        Ordinary \<Rightarrow> axis (hard_limit s) a - axis (protected_maintenance_reserve s) a
      | RegisteredMaintenance \<Rightarrow> axis (protected_maintenance_reserve s) a)"

lemma bucket_ok_lanes:
  "bucket_ok s \<longleftrightarrow> (\<forall>a. axis (protected_maintenance_reserve s) a \<le> axis (hard_limit s) a) \<and>
     (\<forall>c a. axis (pool c CommittedComponent s) a + axis (pool c ReservationComponent s) a \<le> lane_limit s c a)"
proof -
  have "(\<forall>c. P c) \<longleftrightarrow> P Ordinary \<and> P RegisteredMaintenance" for P
    by (metis resource_class.exhaust)
  then show ?thesis by (simp add: bucket_ok_def lane_limit_def) blast
qed

lemma sound_hard_limit:
  assumes "sound l" "map_of (rl_buckets l) p = Some s"
  shows "axis (hard_limit s) a \<le> u64_max"
proof -
  have pol: "policy_ok (rl_policy l)" and "limits_match l" using assms(1) by (simp_all add: sound_def buckets_inv_def)
  then have "map_option (\<lambda>b. (bp_hard_limit b, bp_protected_maintenance_reserve b)) (map_of (lp_buckets (rl_policy l)) p) =
      Some (hard_limit s, protected_maintenance_reserve s)"
    using assms(2) unfolding limits_match_def by (metis (no_types, lifting) option.map(2))
  then obtain b where "map_of (lp_buckets (rl_policy l)) p = Some b" "bp_hard_limit b = hard_limit s" by auto
  with pol show ?thesis unfolding policy_ok_def bucket_policy_ok_def by metis
qed

text \<open>A change that only takes what is there and stays within the lanes is planned.\<close>

lemma plan_state_total:
  assumes "\<And>c k a. axis (delta c k Subtract ch) a \<le> axis (pool c k s) a" "bucket_ok s" "\<And>a. axis (hard_limit s) a \<le> u64_max"
    and lanes: "\<And>c a. (\<Sum>k \<in> {CommittedComponent, ReservationComponent}.
      axis (pool c k s) a - axis (delta c k Subtract ch) a + axis (delta c k Add ch) a) \<le> lane_limit s c a"
  shows "\<exists>s'. plan_state p s ch = Inr s'"
proof -
  let ?new = "\<lambda>c k. charge_of (\<lambda>a. axis (pool c k s) a - axis (delta c k Subtract ch) a + axis (delta c k Add ch) a)"
  define s' where "s' = s\<lparr>ordinary_reserved := ?new Ordinary ReservationComponent,
    maintenance_reserved := ?new RegisteredMaintenance ReservationComponent,
    ordinary_committed := ?new Ordinary CommittedComponent, maintenance_committed := ?new RegisteredMaintenance CommittedComponent\<rparr>"
  have pool: "pool c k s' = ?new c k" for c k by (cases c; cases k) (simp_all add: s'_def)
  have limits: "hard_limit s' = hard_limit s" "protected_maintenance_reserve s' = protected_maintenance_reserve s"
    by (simp_all add: s'_def)
  have lane: "lane_limit s' = lane_limit s" by (simp add: fun_eq_iff lane_limit_def limits split: resource_class.split)
  have ok: "bucket_ok s'"
    using assms(2) lanes by (simp add: bucket_ok_lanes pool limits lane)
  have le: "lane_limit s c a \<le> u64_max" for c a
    using assms(2,3) by (cases c) (auto simp: lane_limit_def bucket_ok_def intro: le_trans [OF diff_le_self] le_trans)
  have "axis (pool c k s') a \<le> u64_max" for c k a
  proof -
    have "axis (pool c CommittedComponent s') a + axis (pool c ReservationComponent s') a \<le> u64_max"
      using ok le [of c a] lane unfolding bucket_ok_lanes by (metis order_trans)
    then show ?thesis by (cases k) simp_all
  qed
  then have "plan_state p s ch = Inr s'"
    using assms(1,3) ok by (simp add: plan_state_Inr planned_def pool limits validate_bucket_Inr)
  then show ?thesis by blast
qed

lemma sound_ancestors:
  assumes "sound l" "map_of (rl_buckets l) p \<noteq> None" "q \<in> set (ancestors_inclusive p)"
  obtains s where "map_of (rl_buckets l) q = Some s"
proof -
  have pol: "policy_ok (rl_policy l)" and "limits_match l" using assms(1) by (simp_all add: sound_def buckets_inv_def)
  then have known: "(map_of (rl_buckets l) x = None) = (map_of (lp_buckets (rl_policy l)) x = None)" for x
    unfolding limits_match_def by (metis (no_types, lifting) option.map_disc_iff)
  then have "map_of (lp_buckets (rl_policy l)) q \<noteq> None" using pol assms(2,3) unfolding policy_ok_def by (metis option.exhaust)
  then obtain s where "map_of (rl_buckets l) q = Some s" using known by (metis option.exhaust)
  then show ?thesis by (rule that)
qed

lemma sound_bucket:
  assumes "sound l" "map_of (rl_buckets l) p = Some s"
  shows "bucket_ok s" "axis (pool c k s) a = usage l c k p a"
  using assms by (simp_all add: sound_def buckets_inv_def balanced_def)

lemma reservation_in_pool:
  assumes "sound l" "map_of (rl_reservations l) i = Some r" "p \<in> set (ancestors_inclusive (re_path r))"
    and "map_of (rl_buckets l) p = Some s"
  shows "axis (re_vector r) a \<le> axis (pool (re_class r) ReservationComponent s) a"
proof -
  have "axis (re_vector r) a \<le> usage l (re_class r) ReservationComponent p a"
    using bt_sum_remove [OF sound_bt(2) [OF assms(1)] assms(2), of "reservation_load (re_class r) p a"] assms(3)
    by (simp add: usage_def reservation_load_def)
  then show ?thesis using sound_bucket(2) [OF assms(1,4)] by simp
qed

lemma pool_bound:
  assumes "sound l" "map_of (rl_buckets l) p = Some s"
  shows "axis (pool c CommittedComponent s) a + axis (pool c ReservationComponent s) a \<le> lane_limit s c a"
    "lane_limit s c a \<le> u64_max"
proof -
  show "axis (pool c CommittedComponent s) a + axis (pool c ReservationComponent s) a \<le> lane_limit s c a"
    using sound_bucket(1) [OF assms] by (simp add: bucket_ok_lanes)
  have "axis (protected_maintenance_reserve s) a \<le> axis (hard_limit s) a"
    using sound_bucket(1) [OF assms] by (simp add: bucket_ok_def)
  then show "lane_limit s c a \<le> u64_max"
    using sound_hard_limit [OF assms, of a] by (cases c) (simp_all add: lane_limit_def)
qed

lemma plan_total:
  assumes "sound l" "bt_invar changes" "\<And>p. p \<in> set (bt_keys changes) \<Longrightarrow> map_of (rl_buckets l) p \<noteq> None"
    and "\<And>p s c k a. p \<in> set (bt_keys changes) \<Longrightarrow> map_of (rl_buckets l) p = Some s \<Longrightarrow>
      axis (delta c k Subtract (change_at changes p)) a \<le> axis (pool c k s) a"
    and "\<And>p s c a. p \<in> set (bt_keys changes) \<Longrightarrow> map_of (rl_buckets l) p = Some s \<Longrightarrow>
      (\<Sum>k \<in> {CommittedComponent, ReservationComponent}. axis (pool c k s) a -
        axis (delta c k Subtract (change_at changes p)) a + axis (delta c k Add (change_at changes p)) a) \<le> lane_limit s c a"
  shows "\<exists>plan. plan_bucket_changes (\<lambda>_. True) l changes = Inr plan"
proof -
  have "\<exists>s s'. map_of (rl_buckets l) p = Some s \<and> plan_state p s ch = Inr s'" if mem: "(p, ch) \<in> set changes" for p ch
  proof -
    have key: "p \<in> set (bt_keys changes)" using mem by force
    have ch: "change_at changes p = ch"
      using mem bt_invar_sorted [OF assms(2)] by (simp add: change_at_def)
    obtain s where s: "map_of (rl_buckets l) p = Some s" using assms(3) [OF key] by blast
    have "\<exists>s'. plan_state p s ch = Inr s'"
      by (rule plan_state_total)
        (use assms(4,5) [OF key s] ch sound_bucket(1) [OF assms(1) s] sound_hard_limit [OF assms(1) s] in simp_all)
    with s show ?thesis by blast
  qed
  then show ?thesis using plan_loop_total [of changes "rl_buckets l"] by (simp add: plan_bucket_changes_def)
qed

lemma check_charge_fits_Inr: "check_charge_fits i reserved charged = Inr () \<longleftrightarrow> (\<forall>a. axis charged a \<le> axis reserved a)"
proof (cases "find (\<lambda>a. axis charged a > axis reserved a) all_charge_axes")
  case (Some b)
  then have "\<not> axis charged b \<le> axis reserved b" by (auto simp: find_Some_iff)
  with Some show ?thesis by (auto simp: check_charge_fits_def)
next
  case None
  moreover from this have "\<forall>a. axis charged a \<le> axis reserved a" by (simp add: find_None_iff not_less)
  ultimately show ?thesis by (simp add: check_charge_fits_def)
qed

text \<open>The plan of a charge against an existing reservation always succeeds.\<close>

lemma charge_plan_total:
  assumes "sound l" "map_of (rl_reservations l) i = Some r" "\<And>a. axis v a \<le> axis (re_vector r) a"
  obtains changes0 changes plan where
    "path_change ReservationComponent [] (re_path r) (re_class r) Subtract (re_vector r) = Inr changes0"
    "path_change CommittedComponent changes0 (re_path r) (re_class r) Add v = Inr changes"
    "plan_bucket_changes (\<lambda>_. True) l changes = Inr plan"
proof -
  have known: "map_of (rl_buckets l) (re_path r) \<noteq> None"
    using sound_reservation [OF assms(1,2)] by (simp add: reservation_ok_def)
  note own = reservation_in_pool [OF assms(1,2)]
  have bound: "axis (re_vector r) a \<le> u64_max" if anc: "p \<in> set (ancestors_inclusive (re_path r))" for p a
  proof -
    obtain s where s: "map_of (rl_buckets l) p = Some s" by (rule sound_ancestors [OF assms(1) known anc])
    from own [OF anc s, of a] pool_bound [OF assms(1) s, of "re_class r" a] show ?thesis by linarith
  qed
  obtain changes0 where c0: "path_change ReservationComponent [] (re_path r) (re_class r) Subtract (re_vector r) = Inr changes0"
    using path_change_total [where changes = "[]" and v = "re_vector r"] bound by fastforce
  have "\<exists>changes. path_change CommittedComponent changes0 (re_path r) (re_class r) Add v = Inr changes"
    by (rule path_change_total) (use bound assms(3) in \<open>auto simp: first_change(3) [OF c0] intro: le_trans\<close>)
  then obtain changes where c1: "path_change CommittedComponent changes0 (re_path r) (re_class r) Add v = Inr changes" by blast
  have keys: "set (bt_keys changes) = set (ancestors_inclusive (re_path r))"
    using path_change_Inr(2) [OF c1 first_change(1) [OF c0]] first_change(2) [OF c0] by simp
  note deltas = path_change_Inr(3) [OF c1 first_change(1) [OF c0]] first_change(3) [OF c0]
  have "\<exists>plan. plan_bucket_changes (\<lambda>_. True) l changes = Inr plan"
  proof (rule plan_total [OF assms(1) path_change_Inr(1) [OF c1 first_change(1) [OF c0]]])
    show "map_of (rl_buckets l) p \<noteq> None" if "p \<in> set (bt_keys changes)" for p
      using that sound_ancestors [OF assms(1) known, of p] keys by force
    show "axis (delta c k Subtract (change_at changes p)) a \<le> axis (pool c k s) a"
      if "p \<in> set (bt_keys changes)" "map_of (rl_buckets l) p = Some s" for p s c k a
      using that own [of p s a] keys by (auto simp: deltas)
    show "(\<Sum>k \<in> {CommittedComponent, ReservationComponent}. axis (pool c k s) a -
        axis (delta c k Subtract (change_at changes p)) a + axis (delta c k Add (change_at changes p)) a) \<le> lane_limit s c a"
      if "p \<in> set (bt_keys changes)" "map_of (rl_buckets l) p = Some s" for p s c a
      using that own [of p s a] keys assms(3) [of a] pool_bound(1) [OF assms(1) that(2), of c a] by (auto simp: deltas)
  qed
  with that c0 c1 show ?thesis by blast
qed

text \<open>
  C14: A reservation guarantees that it can be charged. In every ledger of a run, the owner of a reservation
  that presents it with its current generation, a fresh charge and any nonzero vector up to the
  reserved one succeeds, whatever else has used the capacity in between.
\<close>

theorem reservation_chargeable:
  assumes "ledger_init l0" "ledger_step\<^sup>*\<^sup>* l0 l" "map_of (rl_reservations l) i = Some r"
    and "admit_transition l t = Inr n" "map_of (rl_applied_transitions l) (th_transition_id (lt_header t)) = None"
    and "lt_operation t = Charge i (re_generation r) c v key"
    and "th_owner (lt_header t) = re_owner r" "th_quota_path (lt_header t) = re_path r" "th_resource_class (lt_header t) = re_class r"
    and "c \<notin> rl_used_charge_ids l" "\<not> is_zero_charge v" "charge_fits_within v (re_vector r)"
  shows "\<exists>l' out e. ledger_apply (\<lambda>_. True) l t = (l', Inr out) \<and> map_of (rl_reservations l') i = None \<and>
     map_of (rl_charges l') c = Some e \<and> ce_vector e = v \<and> ce_owner e = re_owner r \<and> ce_path e = re_path r"
proof -
  have s: "sound l" using charge_ledger.reachable_inv [OF assms(1,2)] by (simp add: ledger_inv_def sound_def)
  have fits: "\<And>a. axis v a \<le> axis (re_vector r) a" using assms(12) by (simp add: charge_simps)
  obtain changes0 changes plan where
    "path_change ReservationComponent [] (re_path r) (re_class r) Subtract (re_vector r) = Inr changes0"
    "path_change CommittedComponent changes0 (re_path r) (re_class r) Add v = Inr changes"
    "plan_bucket_changes (\<lambda>_. True) l changes = Inr plan"
    by (rule charge_plan_total [OF s assms(3) fits])
  moreover have "check_charge_fits i (re_vector r) v = Inr ()" using fits by (simp add: check_charge_fits_Inr)
  ultimately show ?thesis
    using assms(3-11)
    by (simp add: ledger_apply_def apply_charge_def commit_plan_def validate_entry_binding_def Let_def path_change_folds
        record_outcome_def bt_lookup_insert)
qed

lemma planned_lane: "planned s ch s' \<Longrightarrow> lane_limit s' = lane_limit s"
  by (auto simp: planned_def lane_limit_def fun_eq_iff split: resource_class.split)

text \<open>
  C15: Admission of a reservation is exact. In a ledger of a run, a reservation is granted if and only if its
  vector is not zero, its identifier was never used, its path has a bucket, and at every level of
  the path the usage of its class, computed from the entries alone, leaves room for it in the lane of
  that class.
\<close>

theorem reserve_exact:
  assumes "ledger_init l0" "ledger_step\<^sup>*\<^sup>* l0 l" "canonical_path (th_quota_path (lt_header t))"
  shows "(\<exists>l'. apply_reserve (\<lambda>_. True) l t i v hold = (l', Inr ())) \<longleftrightarrow>
     \<not> is_zero_charge v \<and> i \<notin> rl_used_reservation_ids l \<and> map_of (rl_buckets l) (th_quota_path (lt_header t)) \<noteq> None \<and>
     (\<forall>p \<in> set (ancestors_inclusive (th_quota_path (lt_header t))). \<forall>s a. map_of (rl_buckets l) p = Some s \<longrightarrow>
        usage l (th_resource_class (lt_header t)) CommittedComponent p a +
        usage l (th_resource_class (lt_header t)) ReservationComponent p a + axis v a
          \<le> lane_limit s (th_resource_class (lt_header t)) a)" (is "_ \<longleftrightarrow> ?spec")
proof -
  let ?p = "th_quota_path (lt_header t)" and ?c = "th_resource_class (lt_header t)"
  have s: "sound l" using charge_ledger.reachable_inv [OF assms(1,2)] by (simp add: ledger_inv_def sound_def)
  have ne: "?p \<noteq> []" using assms(3) by (simp add: canonical_path_def)
  show ?thesis
  proof
    assume "\<exists>l'. apply_reserve (\<lambda>_. True) l t i v hold = (l', Inr ())"
    then obtain changes plan where op: "\<not> is_zero_charge v" "i \<notin> rl_used_reservation_ids l"
      "path_change ReservationComponent [] ?p ?c Add v = Inr changes" "plan_bucket_changes (\<lambda>_. True) l changes = Inr plan"
      by (elim exE apply_reserve_Inr)
    note inst = installed [OF op(4) first_change(1) [OF op(3)] sound_bt(1) [OF s]]
    have "usage l ?c CommittedComponent p a + usage l ?c ReservationComponent p a + axis v a \<le> lane_limit b ?c a"
      if p: "p \<in> set (ancestors_inclusive ?p)" and b: "map_of (rl_buckets l) p = Some b" for p b a
    proof -
      from inst(5) [OF b] obtain b' where b': "planned b (change_at changes p) b'" "bucket_ok b'"
        using sound_bucket(1) [OF s b] by blast
      have "axis (pool ?c CommittedComponent b') a + axis (pool ?c ReservationComponent b') a \<le> lane_limit b' ?c a"
        using b'(2) by (simp add: bucket_ok_lanes)
      moreover have "lane_limit b' ?c a = lane_limit b ?c a"
        using planned_lane [OF b'(1)] by simp
      moreover have "axis (pool ?c k b') a = usage l ?c k p a + (if k = ReservationComponent then axis v a else 0)" for k
        using b'(1) p by (simp add: planned_def first_change(3) [OF op(3)] sound_bucket(2) [OF s b])
      ultimately show ?thesis by simp
    qed
    moreover have "map_of (rl_buckets l) ?p \<noteq> None"
      using inst(3) first_change(2) [OF op(3)] ancestors_self [OF ne] by simp
    ultimately show ?spec using op(1,2) by blast
  next
    assume spec: ?spec
    have room: "usage l ?c CommittedComponent p a + usage l ?c ReservationComponent p a + axis v a \<le> lane_limit b ?c a"
      if "p \<in> set (ancestors_inclusive ?p)" "map_of (rl_buckets l) p = Some b" for p b a
      using spec that by blast
    have "axis v a \<le> u64_max" for a
    proof -
      obtain b where b: "map_of (rl_buckets l) ?p = Some b" using spec by blast
      show ?thesis using room [OF ancestors_self [OF ne] b, of a] pool_bound(2) [OF s b, of ?c a] by linarith
    qed
    then obtain changes where c0: "path_change ReservationComponent [] ?p ?c Add v = Inr changes"
      using path_change_total [where changes = "[]" and v = v] by fastforce
    have "\<exists>plan. plan_bucket_changes (\<lambda>_. True) l changes = Inr plan"
    proof (rule plan_total [OF s first_change(1) [OF c0]])
      show "map_of (rl_buckets l) p \<noteq> None" if "p \<in> set (bt_keys changes)" for p
        using that spec sound_ancestors [OF s, of ?p p] first_change(2) [OF c0] by force
      show "axis (delta c k Subtract (change_at changes p)) a \<le> axis (pool c k b) a"
        if "p \<in> set (bt_keys changes)" "map_of (rl_buckets l) p = Some b" for p b c k a
        by (simp add: first_change(3) [OF c0])
      show "(\<Sum>k \<in> {CommittedComponent, ReservationComponent}. axis (pool c k b) a -
        axis (delta c k Subtract (change_at changes p)) a + axis (delta c k Add (change_at changes p)) a) \<le> lane_limit b c a"
        if "p \<in> set (bt_keys changes)" "map_of (rl_buckets l) p = Some b" for p b c a
        using that room [of p b a] pool_bound(1) [OF s that(2), of c a] sound_bucket(2) [OF s that(2)] first_change(2) [OF c0]
        by (auto simp: first_change(3) [OF c0])
    qed
    with spec c0 show "\<exists>l'. apply_reserve (\<lambda>_. True) l t i v hold = (l', Inr ())"
      by (auto simp: apply_reserve_def commit_plan_def Let_def path_change_folds)
  qed
qed

text \<open>
  C13: The ledger conserves. After any sequence of transitions, on every bucket and axis, each of the four
  pools is exactly the sum of the vectors of the entries on paths below the bucket, ordinary usage
  stays outside the protected reserve, maintenance usage stays inside it, and the total committed
  usage is summed without overflow.
\<close>

theorem ledger_conserves:
  assumes "policy_try_new epoch buckets rules classes = Inr policy" "list_all (\<lambda>(p, b). bucket_policy_ok b) buckets"
    and "ledger_try_new identity policy = Inr l0" "ledger_step\<^sup>*\<^sup>* l0 l" "map_of (rl_buckets l) p = Some s"
  shows "axis (pool c k s) a = usage l c k p a \<and>
     axis (ordinary_committed s) a + axis (ordinary_reserved s) a + axis (protected_maintenance_reserve s) a \<le> axis (hard_limit s) a \<and>
     axis (maintenance_committed s) a + axis (maintenance_reserved s) a \<le> axis (protected_maintenance_reserve s) a \<and>
     bucket_committed s = Some (charge_of (\<lambda>a. usage l Ordinary CommittedComponent p a + usage l RegisteredMaintenance CommittedComponent p a))"
proof -
  have "policy_ok policy" by (rule policy_try_new_ok [OF assms(1)]) (use assms(2) in \<open>auto simp: list_all_iff\<close>)
  then have "ledger_init l0" using assms(3) by (auto simp: ledger_init_def)
  then have l: "sound l" using charge_ledger.reachable_inv [OF _ assms(4)] by (simp add: ledger_inv_def sound_def)
  note ok = sound_bucket [OF l assms(5)]
  have law: "axis (protected_maintenance_reserve s) a \<le> axis (hard_limit s) a"
    "axis (ordinary_committed s) a + axis (ordinary_reserved s) a \<le> axis (hard_limit s) a - axis (protected_maintenance_reserve s) a"
    "axis (maintenance_committed s) a + axis (maintenance_reserved s) a \<le> axis (protected_maintenance_reserve s) a" for a
    using ok(1) unfolding bucket_ok_def by blast+
  have sum: "plain_add (axis (ordinary_committed s) a) (axis (maintenance_committed s) a) =
      Some (usage l Ordinary CommittedComponent p a + usage l RegisteredMaintenance CommittedComponent p a)" for a
    using law [of a] sound_hard_limit [OF l assms(5), of a] ok(2) [of Ordinary CommittedComponent a]
      ok(2) [of RegisteredMaintenance CommittedComponent a]
    by (simp add: plain_add_def)
  have "bucket_committed s = Some (charge_of (\<lambda>a. usage l Ordinary CommittedComponent p a + usage l RegisteredMaintenance CommittedComponent p a))"
    by (simp add: bucket_committed_def all_charge_axes_def sum set_axis_def zero_charge_def charge_of_def del: axis.simps)
  then show ?thesis using ok(2) law [of a] by simp
qed

text \<open>
  C18: A transition that is refused, for whatever reason, leaves the whole ledger as it was; one that is
  accepted as new raises the generation by exactly one and was authored for exactly this ledger at
  exactly its generation.
\<close>

theorem ledger_atomic:
  assumes "ledger_apply grant l t = (l', r)"
  shows "case r of
      Inl e \<Rightarrow> l' = l
    | Inr out \<Rightarrow> (if ao_disposition out = Applied \<and> map_of (rl_applied_transitions l) (th_transition_id (lt_header t)) = None
        then rl_generation l' = rl_generation l + 1 \<and> ao_ledger_generation out = rl_generation l' \<and> rl_generation l' \<le> u64_max \<and>
          th_expected_ledger_identity (lt_header t) = rl_identity l \<and> th_expected_ledger_generation (lt_header t) = rl_generation l \<and>
          policy_allows (rl_policy l) (th_resource_class (lt_header t)) (operation_kind (lt_operation t))
        else l' = l)"
  using assms
proof (cases rule: ledger_apply_cases)
  case (replayed applied)
  then show ?thesis by (cases r) (auto simp: replay_def Let_def)
next
  case (applied l1 kind)
  then show ?thesis
    using admit_transition_Inr [OF applied(2)] by (auto simp: record_outcome_def Let_def)
qed auto

section \<open>Retries\<close>

lemma fold_or_zero:
  "fold (\<lambda>(x, y) d. or d (xor x y)) ps acc = 0 \<longleftrightarrow> acc = 0 \<and> (\<forall>(x, y) \<in> set ps. x = y)"
  for acc :: "'a::len word"
proof (induction ps arbitrary: acc)
  case (Cons q ps)
  obtain x y where q: "q = (x, y)" by fastforce
  have "or acc (xor x y) = 0 \<longleftrightarrow> acc = 0 \<and> x = y"
    by (auto simp: bit_eq_iff bit_or_iff bit_xor_iff)
  then show ?case by (auto simp: q Cons)
qed simp

lemma digest_matches_iff: "length a = length b \<Longrightarrow> digest_matches a b \<longleftrightarrow> a = b"
  unfolding digest_matches_def fold_or_zero
  by (auto simp: list_eq_iff_zip_eq)

lemma ledger_apply_history:
  assumes "ledger_apply grant l t = (l', r)" "ledger_inv l" "transition_wf t" "map_of (rl_applied_transitions l) i = Some at"
  shows "map_of (rl_applied_transitions l') i = Some at"
  using assms(1)
proof (cases rule: ledger_apply_cases)
  case (applied l1 kind)
  have "books_kept l l1"
    using perform_sound [OF applied(3) _ assms(3) admit_transition_Inr(6) [OF applied(2)]] assms(2)
    by (simp add: ledger_inv_def sound_def)
  then show ?thesis
    using applied(1,4) assms(4) by (auto simp: record_outcome_def Let_def books_kept_def bt_lookup_insert)
qed (use assms(4) in auto)

lemma run_history:
  assumes "ledger_step\<^sup>*\<^sup>* l l'" "ledger_inv l" "map_of (rl_applied_transitions l) i = Some at"
  shows "map_of (rl_applied_transitions l') i = Some at"
  using assms(1)
proof (induction rule: rtranclp_induct)
  case (step l1 l2)
  obtain grant t where "transition_wf t" "fst (ledger_apply grant l1 t) = l2" using step.hyps(2) by (auto simp: ledger_step_def)
  moreover have "ledger_inv l1" using charge_ledger.star_inv [OF step.hyps(1) assms(2)] .
  ultimately show ?case using ledger_apply_history [of grant l1 t l2] step.IH by (metis prod.collapse)
qed (rule assms(3))

lemma applied_recorded:
  assumes "ledger_apply grant l t = (l', Inr out)" "ledger_inv l" "transition_wf t"
  obtains at where "map_of (rl_applied_transitions l') (th_transition_id (lt_header t)) = Some at" "at_transition at = t"
    "(at_outcome at)\<lparr>ao_disposition := Replayed\<rparr> = out\<lparr>ao_disposition := Replayed\<rparr>"
  using assms(1)
proof (cases rule: ledger_apply_cases)
  case (replayed applied)
  then have "at_transition applied = t" "out = (at_outcome applied)\<lparr>ao_disposition := Replayed\<rparr>"
    by (auto simp: replay_def Let_def split: if_splits)
  with replayed show ?thesis by (intro that) simp_all
next
  case (applied l1 kind)
  have "books_kept l l1"
    using perform_sound [OF applied(3) _ assms(3) admit_transition_Inr(6) [OF applied(2)]] assms(2)
    by (simp add: ledger_inv_def sound_def)
  with applied(4) show ?thesis
    by (intro that [of "\<lparr>at_transition = t, at_outcome = out\<rparr>"]) (auto simp: record_outcome_def Let_def bt_lookup_insert)
qed auto

text \<open>
  C16: Retries are exact. Once a transition was accepted, submitting it again at any later time returns the
  outcome it had, marked as replayed, and changes nothing; a different transition under the same
  identifier is refused and changes nothing, even if it agrees in the body digest.
\<close>

theorem ledger_replay:
  assumes "ledger_init l0" "ledger_step\<^sup>*\<^sup>* l0 l" "ledger_apply grant l t = (l1, Inr out)" "transition_wf t" "ledger_step\<^sup>*\<^sup>* l1 l2"
  shows "ledger_apply grant' l2 t = (l2, Inr (out\<lparr>ao_disposition := Replayed\<rparr>)) \<and>
     (transition_wf t' \<and> th_transition_id (lt_header t') = th_transition_id (lt_header t) \<and> t' \<noteq> t \<longrightarrow>
       ledger_apply grant' l2 t' = (l2, Inl (if lt_body_digest t' = lt_body_digest t
         then IdempotencySemanticDrift (th_transition_id (lt_header t))
         else IdempotencyBodyDrift (th_transition_id (lt_header t)) (lt_body_digest t) (lt_body_digest t'))))"
proof -
  have inv: "ledger_inv l" using charge_ledger.reachable_inv [OF assms(1,2)] .
  obtain at where at: "map_of (rl_applied_transitions l1) (th_transition_id (lt_header t)) = Some at" "at_transition at = t"
    "(at_outcome at)\<lparr>ao_disposition := Replayed\<rparr> = out\<lparr>ao_disposition := Replayed\<rparr>"
    by (rule applied_recorded [OF assms(3) inv assms(4)])
  have "map_of (rl_applied_transitions l2) (th_transition_id (lt_header t)) = Some at"
    by (rule run_history [OF assms(5) ledger_apply_inv [OF assms(3) inv assms(4)] at(1)])
  then show ?thesis
    using at(2,3) assms(4)
    by (auto simp: ledger_apply_def replay_def Let_def digest_matches_iff transition_wf_def)
qed

section \<open>Binding\<close>

fun names_reservation :: "ledger_operation \<Rightarrow> reservation_id \<Rightarrow> u64 \<Rightarrow> bool" where
  "names_reservation (Charge i g _ _ _) j h = (i = j \<and> g = h)"
| "names_reservation (Release (ReservationSubject i) g _) j h = (i = j \<and> g = h)"
| "names_reservation (Expire i g _ _) j h = (i = j \<and> g = h)"
| "names_reservation (Transfer (ReservationSubject i) g _ _ _) j h = (i = j \<and> g = h)"
| "names_reservation _ _ _ = False"

fun names_charge :: "ledger_operation \<Rightarrow> charge_id \<Rightarrow> u64 \<Rightarrow> bool" where
  "names_charge (Release (ChargeSubject i) g _) j h = (i = j \<and> g = h)"
| "names_charge (Transfer (ChargeSubject i) g _ _ _) j h = (i = j \<and> g = h)"
| "names_charge (Adjust i g _ _ _) j h = (i = j \<and> g = h)"
| "names_charge _ _ _ = False"

definition authored :: "ledger_transition \<Rightarrow> owner_key \<Rightarrow> quota_path \<Rightarrow> resource_class \<Rightarrow> bool" where
  "authored t owner path c \<longleftrightarrow> th_owner (lt_header t) = owner \<and> th_quota_path (lt_header t) = path \<and> th_resource_class (lt_header t) = c"

lemma binding_Inr:
  "validate_entry_binding owner path c generation vector t g exact = Inr () \<Longrightarrow> authored t owner path c \<and> g = generation"
  by (auto simp: validate_entry_binding_def Let_def authored_def split: if_splits)

lemma perform_binds_reservation:
  assumes "perform grant l t operation = ((l', Inr ()), kind)" "map_of (rl_reservations l) i = Some e"
    "i \<in> rl_used_reservation_ids l" "map_of (rl_reservations l') i \<noteq> Some e"
  shows "authored t (re_owner e) (re_path e) (re_class e) \<and> names_reservation operation i (re_generation e) \<and>
     (\<forall>j g v ev. operation = Expire j g v ev \<longrightarrow> re_hold e = NoHold \<and> ev_time_classification ev = TimeExpired \<and> ev_confirms_quiescence ev)"
proof (cases operation)
  case (Reserve j v hold)
  then have op: "apply_reserve grant l t j v hold = (l', Inr ())" using assms(1) by simp
  show ?thesis by (rule apply_reserve_Inr [OF op]) (use assms(2-4) in \<open>auto simp: bt_lookup_insert split: if_splits\<close>)
next
  case (Charge j g c v key)
  then have op: "apply_charge grant l t j g c v key = (l', Inr ())" using assms(1) by simp
  show ?thesis
    by (rule apply_charge_Inr [OF op]) (use assms(2,4) Charge in \<open>auto dest!: binding_Inr split: if_splits\<close>)
next
  case (Release subject g v)
  then show ?thesis
    using assms by (cases subject)
      (auto simp: apply_release_def commit_plan_Inr and_then_eq_Inr validate_binding_def dest!: binding_Inr
        split: if_splits option.splits)
next
  case (Expire j g v ev)
  then have op: "apply_expire grant l t j g v ev = (l', Inr ())" using assms(1) by simp
  show ?thesis
    by (rule apply_expire_Inr [OF op]) (use assms(2,4) Expire in \<open>auto dest!: binding_Inr split: if_splits\<close>)
next
  case (Transfer subject g owner path v)
  then have op: "apply_transfer grant l t subject g owner path v = (l', Inr ())" using assms(1) by simp
  show ?thesis
    by (rule apply_transfer_Inr [OF op])
      (use assms(2,4) Transfer in \<open>cases subject; auto simp: validate_binding_def dest!: binding_Inr split: if_splits option.splits\<close>)
next
  case (Adjust c g v w key)
  then have op: "apply_adjust grant l t c g v w key = (l', Inr ())" using assms(1) by simp
  show ?thesis by (rule apply_adjust_Inr [OF op]) (use assms(2,4) in auto)
qed

lemma perform_binds_charge:
  assumes "perform grant l t operation = ((l', Inr ()), kind)" "map_of (rl_charges l) i = Some e"
    "i \<in> rl_used_charge_ids l" "map_of (rl_charges l') i \<noteq> Some e"
  shows "authored t (ce_owner e) (ce_path e) (ce_class e) \<and> names_charge operation i (ce_generation e)"
proof (cases operation)
  case (Reserve j v hold)
  then have op: "apply_reserve grant l t j v hold = (l', Inr ())" using assms(1) by simp
  show ?thesis by (rule apply_reserve_Inr [OF op]) (use assms(2,4) in auto)
next
  case (Charge j g c v key)
  then have op: "apply_charge grant l t j g c v key = (l', Inr ())" using assms(1) by simp
  show ?thesis
    by (rule apply_charge_Inr [OF op]) (use assms(2-4) in \<open>auto simp: bt_lookup_insert split: if_splits\<close>)
next
  case (Release subject g v)
  then show ?thesis
    using assms by (cases subject)
      (auto simp: apply_release_def commit_plan_Inr and_then_eq_Inr validate_binding_def dest!: binding_Inr
        split: if_splits option.splits)
next
  case (Expire j g v ev)
  then have op: "apply_expire grant l t j g v ev = (l', Inr ())" using assms(1) by simp
  show ?thesis by (rule apply_expire_Inr [OF op]) (use assms(2,4) in auto)
next
  case (Transfer subject g owner path v)
  then have op: "apply_transfer grant l t subject g owner path v = (l', Inr ())" using assms(1) by simp
  show ?thesis
    by (rule apply_transfer_Inr [OF op])
      (use assms(2,4) Transfer in \<open>cases subject; auto simp: validate_binding_def dest!: binding_Inr split: if_splits option.splits\<close>)
next
  case (Adjust c g v w key)
  then have op: "apply_adjust grant l t c g v w key = (l', Inr ())" using assms(1) by simp
  show ?thesis
    by (rule apply_adjust_Inr [OF op]) (use assms(2,4) Adjust in \<open>auto dest!: binding_Inr split: if_splits\<close>)
qed

text \<open>
  C17: Only its owner changes an entry. If a transition changes or removes a reservation or a charge, it was
  authored under exactly the owner, path and class of that entry and names it at its current
  generation; and if it expires a reservation, that reservation carried no hold and the evidence
  classifies the time as expired and confirms quiescence.
\<close>

theorem entries_bound:
  assumes "ledger_init l0" "ledger_step\<^sup>*\<^sup>* l0 l" "ledger_apply grant l t = (l', r)"
  shows "(map_of (rl_reservations l) i = Some e \<and> map_of (rl_reservations l') i \<noteq> Some e \<longrightarrow>
      authored t (re_owner e) (re_path e) (re_class e) \<and> names_reservation (lt_operation t) i (re_generation e) \<and>
      (\<forall>j g v ev. lt_operation t = Expire j g v ev \<longrightarrow>
         re_hold e = NoHold \<and> ev_time_classification ev = TimeExpired \<and> ev_confirms_quiescence ev)) \<and>
    (map_of (rl_charges l) c = Some e' \<and> map_of (rl_charges l') c \<noteq> Some e' \<longrightarrow>
      authored t (ce_owner e') (ce_path e') (ce_class e') \<and> names_charge (lt_operation t) c (ce_generation e'))"
proof -
  have s: "sound l" using charge_ledger.reachable_inv [OF assms(1,2)] by (simp add: ledger_inv_def sound_def)
  show ?thesis
    using assms(3)
  proof (cases rule: ledger_apply_cases)
    case (applied l1 kind)
    have same: "rl_reservations l' = rl_reservations l1" "rl_charges l' = rl_charges l1"
      using applied(4) by (auto simp: record_outcome_def Let_def)
    have used: "i \<in> rl_used_reservation_ids l" if "map_of (rl_reservations l) i = Some e"
      using sound_reservation [OF s that] by (simp add: reservation_ok_def)
    have used': "c \<in> rl_used_charge_ids l" if "map_of (rl_charges l) c = Some e'"
      using sound_charge [OF s that] by (simp add: charge_ok_def)
    show ?thesis
      unfolding same
      using perform_binds_reservation [OF applied(3), of i e] perform_binds_charge [OF applied(3), of c e'] used used'
      by blast
  qed auto
qed

section \<open>A worked ledger\<close>

text \<open>One database with one tenant; the tenant reserves forty bytes and charges thirty of them.\<close>

definition bytes_charge :: "nat \<Rightarrow> charge_vector" where
  "bytes_charge n = zero_charge\<lparr>canonical_durable_bytes := n\<rparr>"

definition example_bucket :: bucket_policy where
  "example_bucket = \<lparr>bp_hard_limit = bytes_charge 100, bp_protected_maintenance_reserve = bytes_charge 20\<rparr>"

definition example_path :: quota_path where
  "example_path = [Database 1, Tenant 2]"

definition all_kinds :: "ledger_operation_kind set" where
  "all_kinds = {KReserve, KCharge, KRelease, KExpire, KTransfer, KAdjust}"

definition example_policy :: limit_policy where
  "example_policy = \<lparr>lp_epoch = 7, lp_buckets = [([Database 1], example_bucket), (example_path, example_bucket)],
     lp_class_rules = [Ordinary \<mapsto> \<lparr>cr_resource_class = Ordinary, cr_allowed_operations = all_kinds\<rparr>,
       RegisteredMaintenance \<mapsto> \<lparr>cr_resource_class = RegisteredMaintenance, cr_allowed_operations = {}\<rparr>],
     lp_registered_maintenance_classes = {}\<rparr>"

definition example_identity :: ledger_identity where
  "example_identity = \<lparr>li_namespace = 1, li_cluster_incarnation = 2, li_role = Local, li_limit_policy_oid = 3, li_limit_policy_epoch = 7\<rparr>"

definition example_header :: "nat \<Rightarrow> u64 \<Rightarrow> transition_header" where
  "example_header i g = \<lparr>th_expected_ledger_identity = example_identity, th_transition_id = i, th_idempotency_key_digest = [],
     th_expected_ledger_generation = g, th_owner = Replay 9, th_resource_class = Ordinary, th_quota_path = example_path\<rparr>"

definition reserve_forty :: ledger_transition where
  "reserve_forty = \<lparr>lt_header = example_header 1 0, lt_operation = Reserve 5 (bytes_charge 40) Backup, lt_body_digest = replicate 32 0\<rparr>"

definition charge_thirty :: ledger_transition where
  "charge_thirty = \<lparr>lt_header = example_header 2 1, lt_operation = Charge 5 0 6 (bytes_charge 30) 8, lt_body_digest = replicate 32 1\<rparr>"

definition ledger0 :: resource_ledger where
  "ledger0 = \<lparr>rl_identity = example_identity, rl_policy = example_policy, rl_generation = 0,
     rl_buckets = [([Database 1], empty_state example_bucket), (example_path, empty_state example_bucket)],
     rl_reservations = [], rl_charges = [], rl_used_reservation_ids = {}, rl_used_charge_ids = {}, rl_applied_transitions = []\<rparr>"

definition forty_reserved :: bucket_state where
  "forty_reserved = (empty_state example_bucket)\<lparr>ordinary_reserved := bytes_charge 40\<rparr>"

definition ledger1 :: resource_ledger where
  "ledger1 = ledger0\<lparr>rl_generation := 1, rl_buckets := [([Database 1], forty_reserved), (example_path, forty_reserved)],
     rl_reservations := [(5, \<lparr>re_id = 5, re_generation = 0, re_owner = Replay 9, re_path = example_path, re_class = Ordinary,
       re_vector = bytes_charge 40, re_hold = Backup\<rparr>)],
     rl_used_reservation_ids := {5},
     rl_applied_transitions := [(1, \<lparr>at_transition = reserve_forty,
       at_outcome = \<lparr>ao_ledger_generation = 1, ao_operation = Reserved, ao_disposition = Applied\<rparr>\<rparr>)]\<rparr>"

lemmas ledger_example = example_bucket_def example_path_def all_kinds_def example_policy_def example_identity_def
  example_header_def reserve_forty_def charge_thirty_def ledger0_def ledger1_def forty_reserved_def bytes_charge_def zero_charge_def
  empty_state_def

lemma example_ancestors: "ancestors_inclusive [Database n, Tenant m] = [[Database n], [Database n, Tenant m]]"
  by (simp add: ancestors_inclusive_def upt_rec)

lemmas ledger_eval = rust_simps u64_max_def is_zero_charge_def add_charge_def sub_charge_def add_axis_def sub_axis_def
  all_charge_axes_def example_ancestors validate_bucket_def Let_def validate_bucket_axis_def usage_sum_def vector_result_def
  bump_reserved_def bump_committed_def add_path_change_def add_committed_path_change_def no_change_def move_pool_def plan_state_def
  plan_bucket_changes_def install_bucket_plan_def commit_plan_def apply_reserve_def admit_transition_def
  ledger_identity_mismatch_def policy_allows_def validate_policy_owner_def record_outcome_def ledger_apply_def
  less_quota_segment_def

lemma example_policy_built:
  "policy_try_new 7 [([Database 1], example_bucket), (example_path, example_bucket)]
     [\<lparr>cr_resource_class = Ordinary, cr_allowed_operations = all_kinds\<rparr>,
      \<lparr>cr_resource_class = RegisteredMaintenance, cr_allowed_operations = {}\<rparr>] [] = Inr example_policy"
  by (simp add: policy_try_new_def example_policy_def example_path_def ancestors_inclusive_def less_quota_segment_def fun_eq_iff)

lemma example_bucket_ok: "bucket_policy_ok example_bucket"
  by (simp add: bucket_policy_ok_def all_axes ledger_example u64_max_def)

lemma ledger0_built: "ledger_try_new example_identity example_policy = Inr ledger0"
  by (simp add: ledger_try_new_def ledger0_def example_identity_def example_policy_def)

lemma ledger0_init: "ledger_init ledger0"
  using policy_try_new_ok [OF example_policy_built] example_bucket_ok ledger0_built by (auto simp: ledger_init_def)

lemma reserve_forty_wf: "transition_wf reserve_forty"
  by (simp add: transition_wf_def canonical_path_def ledger_example numeral_2_eq_2)

lemma reserve_forty_applied:
  "ledger_apply (\<lambda>_. True) ledger0 reserve_forty =
     (ledger1, Inr \<lparr>ao_ledger_generation = 1, ao_operation = Reserved, ao_disposition = Applied\<rparr>)"
  by (simp add: ledger_eval ledger_example)

lemma ledger1_run: "ledger_step\<^sup>*\<^sup>* ledger0 ledger1"
  using reserve_forty_applied reserve_forty_wf by (intro r_into_rtranclp) (metis ledger_step_def fst_conv)

theorem reservation_chargeable_witness:
  "\<exists>l' out e. ledger_apply (\<lambda>_. True) ledger1 charge_thirty = (l', Inr out) \<and> map_of (rl_reservations l') 5 = None \<and>
     map_of (rl_charges l') 6 = Some e \<and> ce_vector e = bytes_charge 30"
proof -
  have admit: "admit_transition ledger1 charge_thirty = Inr 2"
    by (simp add: ledger_eval ledger_example)
  obtain r where r: "map_of (rl_reservations ledger1) 5 = Some r" "r = \<lparr>re_id = 5, re_generation = 0, re_owner = Replay 9,
      re_path = example_path, re_class = Ordinary, re_vector = bytes_charge 40, re_hold = Backup\<rparr>"
    by (simp add: ledger1_def)
  from reservation_chargeable [OF ledger0_init ledger1_run r(1) admit, of 6 "bytes_charge 30" 8] r(2)
  show ?thesis by (simp add: ledger_example is_zero_charge_def charge_fits_within_def all_charge_axes_def) blast
qed

theorem reserve_exact_witness:
  "(\<exists>l'. apply_reserve (\<lambda>_. True) ledger0 reserve_forty 5 (bytes_charge 80) Backup = (l', Inr ())) \<and>
   \<not> (\<exists>l'. apply_reserve (\<lambda>_. True) ledger0 reserve_forty 5 (bytes_charge 81) Backup = (l', Inr ()))"
proof -
  have path: "canonical_path (th_quota_path (lt_header reserve_forty))"
    using reserve_forty_wf by (simp add: transition_wf_def)
  show ?thesis
    unfolding reserve_exact [OF ledger0_init rtranclp.rtrancl_refl path]
    by (simp add: ledger_example example_ancestors is_zero_charge_def usage_def lane_limit_def all_axes)
qed

theorem ledger_conserves_witness:
  "axis (ordinary_reserved forty_reserved) CanonicalDurableBytes = usage ledger1 Ordinary ReservationComponent [Database 1] CanonicalDurableBytes \<and>
   usage ledger1 Ordinary ReservationComponent [Database 1] CanonicalDurableBytes = 40"
proof -
  have b: "map_of (rl_buckets ledger1) [Database 1] = Some forty_reserved"
    by (simp add: ledger1_def)
  have "list_all (\<lambda>(p, b). bucket_policy_ok b) [([Database 1], example_bucket), (example_path, example_bucket)]"
    using example_bucket_ok by simp
  from ledger_conserves [OF example_policy_built this ledger0_built ledger1_run b, of Ordinary ReservationComponent CanonicalDurableBytes]
  show ?thesis by (simp add: forty_reserved_def bytes_charge_def)
qed

theorem ledger_atomic_witness: "rl_generation ledger1 = rl_generation ledger0 + 1 \<and> rl_generation ledger1 \<le> u64_max"
proof -
  have "map_of (rl_applied_transitions ledger0) (th_transition_id (lt_header reserve_forty)) = None"
    by (simp add: ledger0_def)
  then show ?thesis using ledger_atomic [OF reserve_forty_applied] by simp
qed

theorem ledger_replay_witness:
  "ledger_apply (\<lambda>_. True) ledger1 reserve_forty =
     (ledger1, Inr \<lparr>ao_ledger_generation = 1, ao_operation = Reserved, ao_disposition = Replayed\<rparr>)"
  using ledger_replay [OF ledger0_init rtranclp.rtrancl_refl reserve_forty_applied reserve_forty_wf rtranclp.rtrancl_refl,
      of "\<lambda>_. True"]
  by simp

lemma charge_thirty_applied: "\<exists>l' out. ledger_apply (\<lambda>_. True) ledger1 charge_thirty = (l', Inr out) \<and> rl_reservations l' = []"
  by (simp add: ledger_eval ledger_example apply_charge_def validate_entry_binding_def check_charge_fits_def bt_remove_def)

theorem entries_bound_witness: "authored charge_thirty (Replay 9) example_path Ordinary"
proof -
  obtain l' out where l': "ledger_apply (\<lambda>_. True) ledger1 charge_thirty = (l', Inr out)" "rl_reservations l' = []"
    using charge_thirty_applied by blast
  have "map_of (rl_reservations ledger1) 5 = Some \<lparr>re_id = 5, re_generation = 0, re_owner = Replay 9, re_path = example_path,
      re_class = Ordinary, re_vector = bytes_charge 40, re_hold = Backup\<rparr>"
    by (simp add: ledger1_def)
  with entries_bound [OF ledger0_init ledger1_run l'(1), of 5 "\<lparr>re_id = 5, re_generation = 0, re_owner = Replay 9,
      re_path = example_path, re_class = Ordinary, re_vector = bytes_charge 40, re_hold = Backup\<rparr>"] l'(2)
  show ?thesis by simp
qed

end
