(* ===== verification/Limbs.thy ===== *)
theory Limbs
  imports Prelude "HOL-Library.Word"
begin

text \<open>
  Magnitudes of the exact integers of \<open>fgdb-bigint\<close>: little-endian lists of 64-bit limbs, with
  \<open>u128\<close> intermediates. The theory models the allocation gate and the comparison, addition and
  subtraction of magnitudes, and relates each to the natural number \<open>val\<close> the limbs stand for.
\<close>

unbundle bit_operations_syntax

named_theorems limb_simps \<open>the number an operation on machine words computes\<close>

section \<open>Limbs and double limbs\<close>

type_synonym limb = "64 word"
type_synonym u128 = "128 word"

text \<open>\<open>u128::from(limb)\<close>, \<open>wide as u64\<close> and \<open>wide >> 64\<close>.\<close>

definition widen :: "limb \<Rightarrow> u128" where
  "widen x = ucast x"

definition low_limb :: "u128 \<Rightarrow> limb" where
  "low_limb x = ucast x"

definition high_part :: "u128 \<Rightarrow> u128" where
  "high_part x = drop_bit 64 x"

definition overflowing_sub :: "limb \<Rightarrow> limb \<Rightarrow> limb \<times> bool" where
  "overflowing_sub x y = (x - y, x < y)"

definition overflowing_add :: "limb \<Rightarrow> limb \<Rightarrow> limb \<times> bool" where
  "overflowing_add x y = (x + y, x + y < x)"

text \<open>\<open>slice.get(index).copied().unwrap_or(0)\<close>.\<close>

definition limb_at :: "limb list \<Rightarrow> nat \<Rightarrow> limb" where
  "limb_at a i = (case list_get a i of Some x \<Rightarrow> x | None \<Rightarrow> 0)"

section \<open>Errors and the allocation gate\<close>

datatype arithmetic_operation = Clone | Negate | Add | Subtract | Multiply | Divide

datatype arithmetic_error =
    DivisionByZero
  | LimbLimitExceeded arithmetic_operation nat nat
  | CapacityOverflow arithmetic_operation
  | AllocationFailed arithmetic_operation nat

definition ensure :: "nat \<Rightarrow> arithmetic_operation \<Rightarrow> nat \<Rightarrow> arithmetic_error + unit" where
  "ensure limit operation required_limbs =
     (if required_limbs \<le> limit then Inr ()
      else Inl (LimbLimitExceeded operation required_limbs limit))"

text \<open>\<open>isize::MAX as usize / size_of::<u64>()\<close>, the longest vector of limbs Rust can hold.\<close>

definition max_vec_limbs :: nat where
  "max_vec_limbs = (2 ^ 63 - 1) div 8"

text \<open>
  \<open>try_reserve_exact\<close> asks the allocator, which is the parameter \<open>grant\<close>: whether a request for
  so many limbs is served.
\<close>

definition allocate_limbs ::
  "(nat \<Rightarrow> bool) \<Rightarrow> arithmetic_operation \<Rightarrow> nat \<Rightarrow> nat \<Rightarrow> arithmetic_error + limb list" where
  "allocate_limbs grant operation required_limbs limit =
     and_then (ensure limit operation required_limbs) (\<lambda>_.
       if required_limbs > max_vec_limbs then Inl (CapacityOverflow operation)
       else if grant required_limbs then Inr []
       else Inl (AllocationFailed operation required_limbs))"

section \<open>Comparison\<close>

datatype ordering = Less | Equal | Greater

definition compare :: "'a::linorder \<Rightarrow> 'a \<Rightarrow> ordering" where
  "compare x y = (if x < y then Less else if x = y then Equal else Greater)"

fun cmp_zip :: "(limb \<times> limb) list \<Rightarrow> ordering" where
  "cmp_zip [] = Equal"
| "cmp_zip ((x, y) # rest) = (case compare x y of Equal \<Rightarrow> cmp_zip rest | other \<Rightarrow> other)"

definition cmp_magnitude :: "limb list \<Rightarrow> limb list \<Rightarrow> ordering" where
  "cmp_magnitude a b =
     (if length a \<noteq> length b then compare (length a) (length b)
      else cmp_zip (zip (rev a) (rev b)))"

section \<open>Addition\<close>

text \<open>
  The loop runs over the \<open>k\<close> indices from \<open>i\<close> on. In the sizing pass the variable \<open>carry\<close> holds
  the whole last sum, of which the high part is carried.
\<close>

primrec add_carry :: "limb list \<Rightarrow> limb list \<Rightarrow> nat \<Rightarrow> nat \<Rightarrow> u128 \<Rightarrow> u128" where
  "add_carry a b i 0 carry = carry"
| "add_carry a b i (Suc k) carry =
     add_carry a b (Suc i) k (widen (limb_at a i) + widen (limb_at b i) + high_part carry)"

definition add_magnitude_required :: "limb list \<Rightarrow> limb list \<Rightarrow> arithmetic_error + nat" where
  "add_magnitude_required a b =
     (let len = max (length a) (length b); carry = add_carry a b 0 len 0 in
      if high_part carry = 0 then Inr len
      else case checked_add len 1 of
             Some required \<Rightarrow> Inr required
           | None \<Rightarrow> Inl (CapacityOverflow Add))"

primrec add_limbs :: "limb list \<Rightarrow> limb list \<Rightarrow> nat \<Rightarrow> nat \<Rightarrow> u128 \<Rightarrow> limb list \<Rightarrow> limb list" where
  "add_limbs a b i 0 carry out = out"
| "add_limbs a b i (Suc k) carry out =
     (let sum = widen (limb_at a i) + widen (limb_at b i) + carry in
      add_limbs a b (Suc i) k (high_part sum) (out @ [low_limb sum]))"

definition add_magnitude ::
  "(nat \<Rightarrow> bool) \<Rightarrow> limb list \<Rightarrow> limb list \<Rightarrow> arithmetic_operation \<Rightarrow> nat
     \<Rightarrow> arithmetic_error + limb list" where
  "add_magnitude grant a b operation limit =
     (case add_magnitude_required a b of
        Inl _ \<Rightarrow> Inl (CapacityOverflow operation)
      | Inr required \<Rightarrow>
          and_then (allocate_limbs grant operation required limit) (\<lambda>out.
            Inr (add_limbs a b 0 required 0 out)))"

section \<open>Subtraction\<close>

text \<open>One limb of the borrow chain: the difference and the borrow out.\<close>

definition sub_limb :: "limb \<Rightarrow> limb \<Rightarrow> limb \<Rightarrow> limb \<times> limb" where
  "sub_limb x y borrow =
     (let (difference, first_borrow) = overflowing_sub x y;
          (difference, second_borrow) = overflowing_sub difference borrow
      in (difference, of_bool (first_borrow \<or> second_borrow)))"

fun sub_required :: "limb list \<Rightarrow> limb list \<Rightarrow> nat \<Rightarrow> limb \<Rightarrow> nat \<Rightarrow> nat" where
  "sub_required [] b i borrow required = required"
| "sub_required (x # a) b i borrow required =
     (let (difference, borrow) = sub_limb x (limb_at b i) borrow in
      sub_required a b (Suc i) borrow (if difference \<noteq> 0 then Suc i else required))"

definition sub_magnitude_required :: "limb list \<Rightarrow> limb list \<Rightarrow> nat" where
  "sub_magnitude_required a b = sub_required a b 0 0 0"

fun sub_limbs :: "limb list \<Rightarrow> limb list \<Rightarrow> nat \<Rightarrow> limb \<Rightarrow> nat \<Rightarrow> limb list \<Rightarrow> limb list" where
  "sub_limbs [] b i borrow required out = out"
| "sub_limbs (x # a) b i borrow required out =
     (let (difference, borrow) = sub_limb x (limb_at b i) borrow in
      sub_limbs a b (Suc i) borrow required (if i < required then out @ [difference] else out))"

definition sub_magnitude ::
  "(nat \<Rightarrow> bool) \<Rightarrow> limb list \<Rightarrow> limb list \<Rightarrow> arithmetic_operation \<Rightarrow> nat
     \<Rightarrow> arithmetic_error + limb list" where
  "sub_magnitude grant a b operation limit =
     (let required = sub_magnitude_required a b in
      and_then (allocate_limbs grant operation required limit) (\<lambda>out.
        Inr (sub_limbs a b 0 0 required out)))"

section \<open>The number a magnitude stands for\<close>

definition beta :: nat where
  "beta = 2 ^ 64"

primrec val :: "limb list \<Rightarrow> nat" where
  "val [] = 0"
| "val (x # xs) = unat x + beta * val xs"

lemma beta_pos [simp]: "0 < beta" "beta \<noteq> 0" "Suc 0 < beta" "Suc 0 \<le> beta" "2 \<le> beta"
  by (simp_all add: beta_def)

lemma unat_limb [simp]: "unat (x :: limb) < beta"
  using unsigned_less [of x, where ?'a = nat] by (simp add: beta_def)

lemma unat_limb_le: "unat (x :: limb) \<le> beta - 1"
  using unat_limb [of x] by linarith

lemma unat_u128: "unat (x :: u128) < beta * beta"
  using unsigned_less [of x, where ?'a = nat] by (simp add: beta_def flip: power_add)

lemma unat_widen [simp, limb_simps]: "unat (widen x) = unat x"
  by (simp add: widen_def unsigned_ucast_eq take_bit_nat_eq_self_iff less_le_trans [OF unsigned_less])

lemma unat_low_limb [limb_simps]: "unat (low_limb x) = unat x mod beta"
  by (simp add: low_limb_def unsigned_ucast_eq take_bit_eq_mod beta_def)

lemma unat_high_part [limb_simps]: "unat (high_part x) = unat x div beta"
  by (simp add: high_part_def drop_bit_eq_div unat_div beta_def)

lemma unat_add_u128:
  "unat a + unat b < beta * beta \<Longrightarrow> unat (a + b :: u128) = unat a + unat b"
  by (simp add: beta_def unat_word_ariths flip: power_add)

lemma unat_mult_u128:
  "unat a * unat b < beta * beta \<Longrightarrow> unat (a * b :: u128) = unat a * unat b"
  by (simp add: beta_def unat_word_ariths flip: power_add)


lemma val_append [simp]: "val (xs @ ys) = val xs + beta ^ length xs * val ys"
  by (induction xs) (simp_all add: algebra_simps)

lemma val_bound: "val xs < beta ^ length xs"
proof (induction xs)
  case (Cons x xs)
  have "unat x + beta * val xs < beta * (val xs + 1)"
    using unat_limb [of x] by (simp add: algebra_simps)
  also have "\<dots> \<le> beta * beta ^ length xs"
    using Cons by (intro mult_le_mono2) simp
  finally show ?case by simp
qed simp

lemma div_power_Suc: "x div beta ^ Suc i = x div beta ^ i div beta"
  by (simp only: power_Suc2 div_mult2_eq)

lemma val_replicate_0 [simp]: "val (replicate n 0) = 0"
  by (induction n) simp_all

lemma val_drop: "val (drop i xs) = val xs div beta ^ i"
proof (induction xs arbitrary: i)
  case (Cons x xs)
  then show ?case
    by (cases i) (simp_all add: div_mult2_eq)
qed simp

lemma val_take: "val (take i xs) = val xs mod beta ^ i"
proof (induction xs arbitrary: i)
  case (Cons x xs)
  then show ?case
    by (cases i) (simp_all add: mod_mult2_eq)
qed simp

lemma limb_at_drop: "drop i a = (if i < length a then limb_at a i # drop (Suc i) a else [])"
  by (simp add: limb_at_def list_get_def Cons_nth_drop_Suc)

lemma unat_limb_at: "unat (limb_at a i) = val a div beta ^ i mod beta"
proof (cases "i < length a")
  case True
  then have "val (drop i a) = unat (limb_at a i) + beta * val (drop (Suc i) a)"
    by (subst limb_at_drop) simp
  then show ?thesis by (simp add: val_drop)
next
  case False
  then have "val (drop i a) = 0" by simp
  then have "val a div beta ^ i = 0" by (simp only: val_drop)
  with False show ?thesis by (simp add: limb_at_def list_get_def)
qed

lemma nth_val: "i < length a \<Longrightarrow> unat (a ! i) = val a div beta ^ i mod beta"
  using unat_limb_at [of a i] by (simp add: limb_at_def list_get_def)

lemma val_inject:
  assumes "length xs = length ys" "val xs = val ys"
  shows "xs = ys"
proof (rule nth_equalityI)
  show "xs ! i = ys ! i" if "i < length xs" for i
    using that assms by (auto intro: word_unat_eq_iff [THEN iffD2] simp: nth_val)
qed (use assms in simp)

text \<open>A list whose limbs are the digits of \<open>n\<close> stands for \<open>n\<close>, up to its length.\<close>

lemma val_digits:
  assumes "\<And>i. i < length xs \<Longrightarrow> unat (xs ! i) = n div beta ^ i mod beta"
  shows "val xs = n mod beta ^ length xs"
  using assms
proof (induction xs arbitrary: n)
  case (Cons x xs)
  have "unat (xs ! i) = n div beta div beta ^ i mod beta" if "i < length xs" for i
    using Cons.prems [of "Suc i"] that by (simp add: div_mult2_eq)
  then have "val xs = n div beta mod beta ^ length xs" by (rule Cons.IH)
  with Cons.prems [of 0] show ?case by (simp add: mod_mult2_eq)
qed simp

text \<open>The canonical magnitude of a number.\<close>

lemma div_beta_less [termination_simp]: "0 < n \<Longrightarrow> n div beta < n"
  by (rule div_less_dividend) simp_all

fun limbs_of :: "nat \<Rightarrow> limb list" where
  "limbs_of n = (if n = 0 then [] else of_nat (n mod beta) # limbs_of (n div beta))"

declare limbs_of.simps [simp del]

lemma limbs_of_0 [simp]: "limbs_of 0 = []"
  by (simp add: limbs_of.simps)

lemma limbs_of_eq_Nil [simp]: "limbs_of n = [] \<longleftrightarrow> n = 0"
  by (subst limbs_of.simps) simp

lemma unat_of_nat_limb: "n < beta \<Longrightarrow> unat (of_nat n :: limb) = n"
  by (simp add: unat_of_nat beta_def)

lemma val_limbs_of [simp]: "val (limbs_of n) = n"
proof (induction n rule: limbs_of.induct)
  case (1 n)
  then show ?case
    by (subst limbs_of.simps) (simp add: unat_of_nat_limb)
qed

definition no_high_zero :: "limb list \<Rightarrow> bool" where
  "no_high_zero xs \<longleftrightarrow> (xs = [] \<or> last xs \<noteq> 0)"

lemma no_high_zero_limbs_of [simp]: "no_high_zero (limbs_of n)"
proof (induction n rule: limbs_of.induct)
  case (1 n)
  have "of_nat (n mod beta) \<noteq> (0 :: limb)" if "n \<noteq> 0" "n div beta = 0"
    using that unat_of_nat_limb [of "n mod beta"]
    by (metis mod_by_0 mod_div_trivial beta_pos(1) mod_less_divisor mult_div_mod_eq add_0 mult_0_right unsigned_0)
  with 1 show ?case
    by (subst limbs_of.simps) (auto simp: no_high_zero_def)
qed

lemma val_lower:
  assumes "xs \<noteq> []" "no_high_zero xs"
  shows "beta ^ (length xs - 1) \<le> val xs"
proof -
  have last: "1 \<le> unat (last xs)"
    using assms by (simp add: no_high_zero_def unat_gt_0 Suc_le_eq)
  have "val xs = val (butlast xs @ [last xs])" using assms by simp
  also have "\<dots> = val (butlast xs) + beta ^ (length xs - 1) * unat (last xs)"
    by (simp only: val_append length_butlast) simp
  finally show ?thesis using last by (cases "unat (last xs)") simp_all
qed

lemma length_no_high_zero:
  assumes "no_high_zero xs" "no_high_zero ys" "val xs < val ys \<or> val xs = val ys"
  shows "length xs \<le> length ys"
proof (rule ccontr)
  assume less: "\<not> length xs \<le> length ys"
  then have "beta ^ length ys \<le> beta ^ (length xs - 1)"
    by (intro power_increasing) auto
  also have "\<dots> \<le> val xs" using less assms by (intro val_lower) auto
  finally show False using assms(3) val_bound [of ys] by auto
qed

lemma limbs_of_val: "no_high_zero xs \<Longrightarrow> limbs_of (val xs) = xs"
  using length_no_high_zero [of xs "limbs_of (val xs)"] length_no_high_zero [of "limbs_of (val xs)" xs]
  by (intro val_inject) auto

lemma val_eq_0_iff: "no_high_zero xs \<Longrightarrow> val xs = 0 \<longleftrightarrow> xs = []"
  using limbs_of_val [of xs] by auto

text \<open>The number of limbs a number needs.\<close>

definition limb_len :: "nat \<Rightarrow> nat" where
  "limb_len n = length (limbs_of n)"

lemma limb_len_0 [simp]: "limb_len 0 = 0"
  by (simp add: limb_len_def)

lemma limb_len_val: "no_high_zero xs \<Longrightarrow> limb_len (val xs) = length xs"
  by (simp add: limb_len_def limbs_of_val)

lemma less_limb_len: "n < beta ^ limb_len n"
  using val_bound [of "limbs_of n"] by (simp add: limb_len_def)

lemma limb_len_lower: "n \<noteq> 0 \<Longrightarrow> beta ^ (limb_len n - 1) \<le> n"
  using val_lower [of "limbs_of n"] by (simp add: limb_len_def)

lemma limb_len_le_iff: "limb_len n \<le> k \<longleftrightarrow> n < beta ^ k"
proof
  assume "limb_len n \<le> k"
  then have "beta ^ limb_len n \<le> beta ^ k" by (intro power_increasing) auto
  with less_limb_len [of n] show "n < beta ^ k" by linarith
next
  assume less: "n < beta ^ k"
  show "limb_len n \<le> k"
  proof (rule ccontr)
    assume "\<not> limb_len n \<le> k"
    then have "k \<le> limb_len n - 1" "n \<noteq> 0" by (cases "n = 0"; simp)+
    moreover from this have "beta ^ k \<le> beta ^ (limb_len n - 1)" by (intro power_increasing) simp_all
    ultimately show False using limb_len_lower [of n] less by linarith
  qed
qed

lemma limb_len_mono: "m \<le> n \<Longrightarrow> limb_len m \<le> limb_len n"
  using less_limb_len [of n] by (simp add: limb_len_le_iff)

lemma limb_len_eqI:
  assumes "n < beta ^ k" "k = 0 \<or> beta ^ (k - 1) \<le> n"
  shows "limb_len n = k"
  using assms limb_len_le_iff [of n k] limb_len_le_iff [of n "k - 1"] by auto

lemma limbs_ofI: "val xs = n \<Longrightarrow> length xs = limb_len n \<Longrightarrow> xs = limbs_of n"
  by (intro val_inject) (simp_all add: limb_len_def)

section \<open>What the operations compute\<close>

subsection \<open>Comparison\<close>

lemma compare_nat_int: "compare (int m) (int n) = compare m n"
  by (simp add: compare_def)

lemma cmp_zip_append:
  "cmp_zip (xs @ ys) = (case cmp_zip xs of Equal \<Rightarrow> cmp_zip ys | other \<Rightarrow> other)"
  by (induction xs rule: cmp_zip.induct) (auto split: ordering.splits)

lemma cmp_zip_val:
  assumes "length a = length b"
  shows "cmp_zip (zip (rev a) (rev b)) = compare (val a) (val b)"
  using assms
proof (induction a b rule: list_induct2)
  case (Cons x a y b)
  have less: "unat x + beta * val a < unat y + beta * val b" if "val a < val b"
  proof -
    have "unat x + beta * val a < beta * (val a + 1)"
      using unat_limb [of x] by (simp add: algebra_simps)
    also have "\<dots> \<le> beta * val b" using that by (intro mult_le_mono2) simp
    finally show ?thesis by simp
  qed
  have more: "unat y + beta * val b < unat x + beta * val a" if "val b < val a"
  proof -
    have "unat y + beta * val b < beta * (val b + 1)"
      using unat_limb [of y] by (simp add: algebra_simps)
    also have "\<dots> \<le> beta * val a" using that by (intro mult_le_mono2) simp
    finally show ?thesis by simp
  qed
  have "cmp_zip (zip (rev (x # a)) (rev (y # b))) =
      (case compare (val a) (val b) of Equal \<Rightarrow> compare x y | other \<Rightarrow> other)"
    using Cons by (auto simp: cmp_zip_append split: ordering.splits)
  also have "\<dots> = compare (val (x # a)) (val (y # b))"
    using less more
    by (auto simp: compare_def word_less_nat_alt word_unat_eq_iff)
  finally show ?case .
qed (simp add: compare_def)

lemma cmp_magnitude_val:
  assumes "no_high_zero a" "no_high_zero b"
  shows "cmp_magnitude a b = compare (val a) (val b)"
proof (cases "length a = length b")
  case True
  then show ?thesis by (simp add: cmp_magnitude_def cmp_zip_val)
next
  case False
  with length_no_high_zero [OF assms] length_no_high_zero [OF assms(2,1)] show ?thesis
    by (cases "val a" "val b" rule: linorder_cases) (auto simp: cmp_magnitude_def compare_def)
qed

subsection \<open>Addition\<close>

lemma add_limbs_out: "add_limbs a b i k c out = out @ add_limbs a b i k c []"
proof (induction k arbitrary: i c out)
  case (Suc k)
  then show ?case
    by (subst add_limbs.simps, subst add_limbs.simps) (metis append_assoc append_Cons append_Nil)
qed simp

lemma length_add_limbs [simp]: "length (add_limbs a b i k c out) = length out + k"
  by (induction k arbitrary: i c out) (simp_all add: Let_def)

text \<open>One position of the carry chain: two digits and a carry, in numbers.\<close>

lemma unat_carry_sum:
  assumes "unat c \<le> beta"
  shows "unat (widen x + widen y + c) = unat x + unat y + unat c"
proof -
  have "unat x + unat y + unat c \<le> (beta - 1) + (beta - 1) + beta"
    using unat_limb_le [of x] unat_limb_le [of y] assms by (intro add_mono)
  also have "\<dots> < beta * beta" by (simp add: beta_def)
  finally show ?thesis by (simp add: unat_add_u128)
qed

lemma carry_step:
  fixes X Y c :: nat
  shows "(X + Y + c) mod beta ^ Suc k =
           (X mod beta + Y mod beta + c) mod beta +
           beta * ((X div beta + Y div beta + (X mod beta + Y mod beta + c) div beta) mod beta ^ k)"
proof -
  have eq: "X + Y + c = (X mod beta + Y mod beta + c) + beta * (X div beta + Y div beta)"
    by (simp add: algebra_simps)
  have "(X + Y + c) mod beta ^ Suc k = (X + Y + c) mod beta + beta * ((X + Y + c) div beta mod beta ^ k)"
    by (simp add: mod_mult2_eq)
  also have "(X + Y + c) mod beta = (X mod beta + Y mod beta + c) mod beta"
    by (subst eq) simp
  also have "(X + Y + c) div beta = X div beta + Y div beta + (X mod beta + Y mod beta + c) div beta"
    by (subst eq) simp
  finally show ?thesis by (simp add: algebra_simps)
qed

lemma carry_bound: "c \<le> beta \<Longrightarrow> (X mod beta + Y mod beta + c) div beta \<le> beta"
proof -
  assume "c \<le> beta"
  moreover have "X mod beta < beta" "Y mod beta < beta" by simp_all
  ultimately have "X mod beta + Y mod beta + c < 3 * beta" by linarith
  then have "(X mod beta + Y mod beta + c) div beta < 3" by (simp add: div_less_iff_less_mult)
  also have "3 \<le> beta" by (simp add: beta_def)
  finally show ?thesis by simp
qed

lemma val_add_limbs:
  assumes "unat c \<le> beta"
  shows "val (add_limbs a b i k c []) = (val a div beta ^ i + val b div beta ^ i + unat c) mod beta ^ k"
  using assms
proof (induction k arbitrary: i c)
  case (Suc k)
  let ?X = "val a div beta ^ i" and ?Y = "val b div beta ^ i"
  let ?s = "widen (limb_at a i) + widen (limb_at b i) + c"
  have s: "unat ?s = ?X mod beta + ?Y mod beta + unat c"
    using Suc.prems by (simp add: unat_carry_sum unat_limb_at)
  then have "unat (high_part ?s) \<le> beta"
    using Suc.prems by (simp add: unat_high_part carry_bound)
  from Suc.IH [OF this, of "Suc i"] s show ?case
    by (subst add_limbs.simps, subst add_limbs_out)
      (simp add: Let_def carry_step limb_simps div_power_Suc del: power_Suc)
qed simp

lemma add_carry_val:
  assumes "unat c div beta \<le> beta"
  shows "unat (add_carry a b i k c) div beta =
           (val a div beta ^ i mod beta ^ k + val b div beta ^ i mod beta ^ k + unat c div beta)
             div beta ^ k"
  using assms
proof (induction k arbitrary: i c)
  case (Suc k)
  let ?X = "val a div beta ^ i" and ?Y = "val b div beta ^ i"
  let ?s = "widen (limb_at a i) + widen (limb_at b i) + high_part c"
  have s: "unat ?s = ?X mod beta + ?Y mod beta + unat c div beta"
    using Suc.prems by (simp add: unat_carry_sum unat_limb_at unat_high_part)
  then have "unat ?s div beta \<le> beta"
    using Suc.prems by (simp add: carry_bound)
  note IH = Suc.IH [OF this, of "Suc i"]
  have split: "Z mod beta ^ Suc k = Z mod beta + beta * (Z div beta mod beta ^ k)" for Z
    by (simp add: mod_mult2_eq)
  have "(?X mod beta ^ Suc k + ?Y mod beta ^ Suc k + unat c div beta) div beta ^ Suc k =
      (unat ?s + beta * (?X div beta mod beta ^ k + ?Y div beta mod beta ^ k)) div beta div beta ^ k"
    by (simp only: split s) (simp add: div_mult2_eq algebra_simps)
  also have "\<dots> = (?X div beta mod beta ^ k + ?Y div beta mod beta ^ k + unat ?s div beta) div beta ^ k"
    by simp
  finally show ?case using IH by (simp only: add_carry.simps div_power_Suc)
qed simp

lemma add_magnitude_required_val:
  assumes "no_high_zero a" "no_high_zero b" "max (length a) (length b) < u64_max"
  shows "add_magnitude_required a b = Inr (limb_len (val a + val b))"
proof -
  let ?n = "max (length a) (length b)"
  have pow: "beta ^ length a \<le> beta ^ ?n" "beta ^ length b \<le> beta ^ ?n"
    by (intro power_increasing; simp)+
  then have ab: "val a < beta ^ ?n" "val b < beta ^ ?n"
    using val_bound [of a] val_bound [of b] by linarith+
  have carry: "unat (high_part (add_carry a b 0 ?n 0)) = (val a + val b) div beta ^ ?n"
    using add_carry_val [of 0 a b 0 ?n] ab by (simp add: unat_high_part)
  have low: "?n = 0 \<or> beta ^ (?n - 1) \<le> val a + val b"
    using val_lower [OF _ assms(1)] val_lower [OF _ assms(2)]
    by (cases "length b \<le> length a"; cases "a = []"; cases "b = []")
      (simp_all add: max_def trans_le_add1 trans_le_add2)
  show ?thesis
  proof (cases "val a + val b < beta ^ ?n")
    case True
    with low have "limb_len (val a + val b) = ?n" by (intro limb_len_eqI)
    moreover have "high_part (add_carry a b 0 ?n 0) = 0"
      using carry True by (simp add: word_unat_eq_iff)
    ultimately show ?thesis by (simp add: add_magnitude_required_def)
  next
    case False
    moreover have "val a + val b < beta ^ Suc ?n"
    proof -
      have "val a + val b < 2 * beta ^ ?n" using ab by simp
      also have "\<dots> \<le> beta * beta ^ ?n" by (intro mult_le_mono1) simp
      finally show ?thesis by simp
    qed
    ultimately have "limb_len (val a + val b) = Suc ?n" by (intro limb_len_eqI) auto
    moreover have "high_part (add_carry a b 0 ?n 0) \<noteq> 0"
      using carry False by (auto simp: word_unat_eq_iff div_eq_0_iff)
    ultimately show ?thesis
      using assms(3) by (simp add: add_magnitude_required_def checked_add_def Let_def Suc_le_eq)
  qed
qed

lemma add_magnitude_val:
  assumes "no_high_zero a" "no_high_zero b" "max (length a) (length b) < u64_max"
  shows "add_magnitude grant a b operation limit =
           and_then (allocate_limbs grant operation (limb_len (val a + val b)) limit)
             (\<lambda>_. Inr (limbs_of (val a + val b)))"
proof -
  let ?n = "limb_len (val a + val b)"
  have "add_limbs a b 0 ?n 0 [] = limbs_of (val a + val b)"
    by (rule limbs_ofI) (simp_all add: val_add_limbs less_limb_len)
  then show ?thesis
    using add_magnitude_required_val [OF assms]
    by (auto simp: add_magnitude_def allocate_limbs_def and_then_def split: sum.splits)
qed

subsection \<open>Subtraction\<close>

lemma borrow_arith:
  fixes x y br e d b' bt :: nat
  assumes "y < bt" "x < bt" "br \<le> 1" "1 < bt"
    and "e = (if y \<le> x then x - y else x + bt - y)"
    and "d = (if br \<le> e then e - br else e + bt - br)"
    and "b' = of_bool (x < y \<or> e < br)"
  shows "int x - int y - int br = int d - int bt * int b'"
  using assms by (cases "x < y"; cases "e < br") simp_all

lemma sub_limb_val:
  assumes "sub_limb x y borrow = (d, borrow')" "unat borrow \<le> 1"
  shows "int (unat d) = (int (unat x) - int (unat y) - int (unat borrow)) mod int beta"
    and "int (unat x) - int (unat y) - int (unat borrow) = int (unat d) - int beta * int (unat borrow')"
    and "unat borrow' \<le> 1"
proof -
  define e where "e = x - y"
  have d: "d = e - borrow" and b: "borrow' = of_bool (x < y \<or> e < borrow)"
    using assms(1) by (auto simp: sub_limb_def overflowing_sub_def e_def)
  have b': "unat borrow' = of_bool (unat x < unat y \<or> unat e < unat borrow)"
    using b by (simp add: word_less_nat_alt)
  have wrap: "unat (u - w) = (if unat w \<le> unat u then unat u - unat w else unat u + beta - unat w)"
    for u w :: limb
    by (simp add: unat_sub_if' beta_def)
  have less: "unat y < beta" "unat x < beta" "unat borrow \<le> 1" "1 < beta"
    using assms(2) by (simp_all only: unat_limb) (simp add: beta_def)
  have nats: "unat d = (if unat borrow \<le> unat e then unat e - unat borrow else unat e + beta - unat borrow)"
    "unat e = (if unat y \<le> unat x then unat x - unat y else unat x + beta - unat y)"
    unfolding d e_def by (rule wrap)+
  show eq: "int (unat x) - int (unat y) - int (unat borrow) = int (unat d) - int beta * int (unat borrow')"
    by (rule borrow_arith [OF less nats(2,1) b'])
  show "unat borrow' \<le> 1" unfolding b' by (cases "unat x < unat y \<or> unat e < unat borrow") (simp_all only: of_bool_eq)
  show "int (unat d) = (int (unat x) - int (unat y) - int (unat borrow)) mod int beta"
  proof -
    have "int (unat d) < int beta" by (simp only: of_nat_less_iff unat_limb)
    then have "int (unat d) = (int (unat d) + int beta * (- int (unat borrow'))) mod int beta"
      by (simp only: mod_mult_self2) simp
    then show ?thesis unfolding eq by simp
  qed
qed

text \<open>All the differences of the borrow chain; the code computes them once to size the result.\<close>

fun differences :: "limb list \<Rightarrow> limb list \<Rightarrow> nat \<Rightarrow> limb \<Rightarrow> limb list" where
  "differences [] b i borrow = []"
| "differences (x # a) b i borrow =
     (let (difference, borrow) = sub_limb x (limb_at b i) borrow in
      difference # differences a b (Suc i) borrow)"

lemma length_differences [simp]: "length (differences a b i borrow) = length a"
  by (induction a arbitrary: i borrow) (simp_all add: split_def Let_def)

lemma sub_limbs_eq:
  "sub_limbs a b i borrow required out = out @ take (required - i) (differences a b i borrow)"
proof (induction a arbitrary: i borrow out)
  case (Cons x a)
  have "take (required - i) (d # ds) = (if i < required then d # take (required - Suc i) ds else [])"
    for d :: limb and ds
    by (simp add: take_Cons')
  with Cons show ?case by (simp add: split_def Let_def)
qed simp

lemma sub_required_eq:
  "sub_required a b i borrow required =
     (if \<forall>d\<in>set (differences a b i borrow). d = 0 then required
      else i + length (dropWhile (\<lambda>d. d = 0) (rev (differences a b i borrow))))"
proof (induction a arbitrary: i borrow required)
  case (Cons x a)
  obtain d borrow' where sub: "sub_limb x (limb_at b i) borrow = (d, borrow')" by fastforce
  let ?ds = "differences a b (Suc i) borrow'"
  have *: "dropWhile (\<lambda>d. d = 0) (rev ?ds @ [d]) =
      (if \<forall>d\<in>set ?ds. d = 0 then (if d = 0 then [] else [d]) else dropWhile (\<lambda>d. d = 0) (rev ?ds) @ [d])"
    by (auto simp: dropWhile_append)
  show ?case using * by (simp add: sub Cons)
qed simp

lemma val_differences:
  assumes "unat borrow \<le> 1"
  shows "int (val (differences a b i borrow)) =
           (int (val a) - int (val b div beta ^ i) - int (unat borrow)) mod int (beta ^ length a)"
  using assms
proof (induction a arbitrary: i borrow)
  case (Cons x a)
  obtain d borrow' where sub: "sub_limb x (limb_at b i) borrow = (d, borrow')" by fastforce
  note step = sub_limb_val [OF sub Cons.prems]
  let ?Y = "val b div beta ^ i"
  let ?r = "int (val a) - int (?Y div beta) - int (unat borrow')"
  have "int (unat x) + int beta * int (val a) - int ?Y - int (unat borrow) =
      (int (unat x) - int (unat (limb_at b i)) - int (unat borrow)) +
      int beta * (int (val a) - int (?Y div beta))"
    by (simp add: unat_limb_at zmod_int zdiv_int algebra_simps)
  also have "\<dots> = int (unat d) + int beta * ?r"
    using step(2) by (simp add: algebra_simps)
  finally have eq: "int (unat x) + int beta * int (val a) - int ?Y - int (unat borrow) =
    int (unat d) + int beta * ?r" .
  have "int (unat d) < int beta" by (simp only: of_nat_less_iff unat_limb)
  then have "int (unat d) div int beta = 0" "int (unat d) mod int beta = int (unat d)" by simp_all
  then have "(int (unat d) + int beta * ?r) mod int (beta * beta ^ length a) =
      int (unat d) + int beta * (?r mod int (beta ^ length a))"
    by (simp add: zmod_zmult2_eq)
  then show ?case
    using Cons.IH [OF step(3), of "Suc i", unfolded div_power_Suc] eq by (simp add: sub)
qed simp

lemma length_strip_limb_len: "length (dropWhile (\<lambda>d. d = 0) (rev ds)) = limb_len (val ds)"
proof (induction ds rule: rev_induct)
  case (snoc d ds)
  show ?case
  proof (cases "d = 0")
    case True
    with snoc show ?thesis by simp
  next
    case False
    then show ?thesis using limb_len_val [of "ds @ [d]"] by (simp add: no_high_zero_def)
  qed
qed simp

lemma sub_magnitude_val:
  assumes "val b \<le> val a"
  shows "sub_magnitude grant a b operation limit =
           and_then (allocate_limbs grant operation (limb_len (val a - val b)) limit)
             (\<lambda>_. Inr (limbs_of (val a - val b)))"
proof -
  let ?ds = "differences a b 0 0"
  have val: "val ?ds = val a - val b"
    using val_differences [of 0 a b 0] assms val_bound [of a]
    by (simp add: of_nat_diff flip: of_nat_power of_nat_mod)
  have "(\<forall>d\<in>set ?ds. d = 0) \<Longrightarrow> dropWhile (\<lambda>d. d = 0) (rev ?ds) = []" by auto
  then have required: "sub_magnitude_required a b = limb_len (val a - val b)"
    by (auto simp: sub_magnitude_required_def sub_required_eq length_strip_limb_len val [symmetric]
        simp flip: length_strip_limb_len)
  have le: "limb_len (val a - val b) \<le> length ?ds"
    using val_bound [of ?ds] by (simp add: limb_len_le_iff val)
  have "take (limb_len (val a - val b)) ?ds = limbs_of (val a - val b)"
    using le by (intro limbs_ofI) (simp_all add: val_take val less_limb_len)
  then show ?thesis
    by (simp add: sub_magnitude_def required sub_limbs_eq allocate_limbs_def and_then_def
        split: sum.splits)
qed

end
