(* ===== verification/LimbsMul.thy ===== *)
theory LimbsMul
  imports Limbs
begin

text \<open>
  Multiplication of magnitudes: the column-wise schoolbook product of \<open>fgdb-bigint\<close> with its
  three-limb accumulator, run once to size the result and once to write it.
\<close>

section \<open>The code\<close>

type_synonym accumulator = "limb \<times> limb \<times> limb"

definition add_product_to_accumulator ::
  "accumulator \<Rightarrow> limb \<Rightarrow> limb \<Rightarrow> arithmetic_error + accumulator" where
  "add_product_to_accumulator acc left right =
     (case acc of (acc0, acc1, acc2) \<Rightarrow>
      let product = widen left * widen right;
          (low, carry_low) = overflowing_add acc0 (low_limb product);
          (high, carry_high) = overflowing_add acc1 (low_limb (high_part product));
          (high, carry_from_low) = overflowing_add high (of_bool carry_low);
          carry = of_bool (carry_high \<or> carry_from_low);
          (top, overflow) = overflowing_add acc2 carry
      in if overflow then Inl (CapacityOverflow Multiply) else Inr (low, high, top))"

primrec product_column ::
  "limb list \<Rightarrow> limb list \<Rightarrow> nat \<Rightarrow> nat \<Rightarrow> nat \<Rightarrow> accumulator \<Rightarrow> arithmetic_error + accumulator" where
  "product_column a b column i 0 acc = Inr acc"
| "product_column a b column i (Suc k) acc =
     and_then (add_product_to_accumulator acc (a ! i) (b ! (column - i)))
       (product_column a b column (Suc i) k)"

definition accumulate_product_column ::
  "limb list \<Rightarrow> limb list \<Rightarrow> nat \<Rightarrow> accumulator \<Rightarrow> arithmetic_error + accumulator" where
  "accumulate_product_column a b column acc =
     (let first_left = saturating_sub column (length b - 1);
          last_left = min column (length a - 1)
      in if first_left \<le> last_left
         then product_column a b column first_left (last_left + 1 - first_left) acc
         else Inr acc)"

fun shift_product_accumulator :: "accumulator \<Rightarrow> accumulator" where
  "shift_product_accumulator (acc0, acc1, acc2) = (acc1, acc2, 0)"

primrec mul_required_columns ::
  "limb list \<Rightarrow> limb list \<Rightarrow> nat \<Rightarrow> nat \<Rightarrow> accumulator \<Rightarrow> nat \<Rightarrow> arithmetic_error + accumulator \<times> nat" where
  "mul_required_columns a b column 0 acc required = Inr (acc, required)"
| "mul_required_columns a b column (Suc k) acc required =
     and_then (accumulate_product_column a b column acc) (\<lambda>acc.
       mul_required_columns a b (Suc column) k (shift_product_accumulator acc)
         (if fst acc \<noteq> 0 then column + 1 else required))"

definition next_column :: "nat \<Rightarrow> arithmetic_error + nat" where
  "next_column column =
     (case checked_add column 1 of Some n \<Rightarrow> Inr n | None \<Rightarrow> Inl (CapacityOverflow Multiply))"

fun acc_limbs :: "accumulator \<Rightarrow> nat" where
  "acc_limbs (acc0, acc1, acc2) =
     (if acc2 \<noteq> 0 then 3 else if acc1 \<noteq> 0 then 2 else if acc0 \<noteq> 0 then 1 else 0)"

lemma acc_limbs_shift [termination_simp]:
  "acc \<noteq> (0, 0, 0) \<Longrightarrow> acc_limbs (shift_product_accumulator acc) < acc_limbs acc"
  by (cases acc) auto

function (sequential) mul_required_tail ::
  "accumulator \<Rightarrow> nat \<Rightarrow> nat \<Rightarrow> arithmetic_error + nat" where
  "mul_required_tail acc column required =
     (if acc = (0, 0, 0) then Inr required
      else
        and_then (if fst acc \<noteq> 0 then next_column column else Inr required) (\<lambda>required.
          if shift_product_accumulator acc \<noteq> (0, 0, 0)
          then and_then (next_column column) (\<lambda>column.
                 mul_required_tail (shift_product_accumulator acc) column required)
          else mul_required_tail (shift_product_accumulator acc) column required))"
  by pat_completeness auto
termination
  by (relation "measure (\<lambda>(acc, _, _). acc_limbs acc)") 
    (simp_all only: wf_measure in_measure split_conv acc_limbs_shift not_False_eq_True)

declare mul_required_tail.simps [simp del]

definition product_columns :: "limb list \<Rightarrow> limb list \<Rightarrow> arithmetic_error + nat" where
  "product_columns a b =
     (case Option.bind (checked_add (length a) (length b)) (\<lambda>sum. checked_sub sum 1) of
        Some columns \<Rightarrow> Inr columns
      | None \<Rightarrow> Inl (CapacityOverflow Multiply))"

definition mul_magnitude_required :: "limb list \<Rightarrow> limb list \<Rightarrow> arithmetic_error + nat" where
  "mul_magnitude_required a b =
     (if a = [] \<or> b = [] then Inr 0
      else
        and_then (product_columns a b) (\<lambda>columns.
        and_then (mul_required_columns a b 0 columns (0, 0, 0) 0) (\<lambda>(acc, required).
          mul_required_tail acc columns required)))"

primrec mul_limbs ::
  "limb list \<Rightarrow> limb list \<Rightarrow> nat \<Rightarrow> nat \<Rightarrow> nat \<Rightarrow> accumulator \<Rightarrow> limb list \<Rightarrow> arithmetic_error + limb list" where
  "mul_limbs a b source_columns column 0 acc out = Inr out"
| "mul_limbs a b source_columns column (Suc k) acc out =
     and_then (if column < source_columns then accumulate_product_column a b column acc else Inr acc)
       (\<lambda>acc. mul_limbs a b source_columns (Suc column) k (shift_product_accumulator acc)
                (out @ [fst acc]))"

definition mul_magnitude ::
  "(nat \<Rightarrow> bool) \<Rightarrow> limb list \<Rightarrow> limb list \<Rightarrow> nat \<Rightarrow> arithmetic_error + limb list" where
  "mul_magnitude grant a b limit =
     and_then (mul_magnitude_required a b) (\<lambda>required.
     and_then (allocate_limbs grant Multiply required limit) (\<lambda>out.
       if required = 0 then Inr out
       else and_then (product_columns a b) (\<lambda>source_columns.
              mul_limbs a b source_columns 0 required (0, 0, 0) out)))"

section \<open>The accumulator\<close>

fun acc_val :: "accumulator \<Rightarrow> nat" where
  "acc_val (acc0, acc1, acc2) = unat acc0 + beta * (unat acc1 + beta * unat acc2)"

lemma overflowing_add_val:
  assumes "overflowing_add x y = (s, overflow)"
  shows "unat x + unat y = unat s + beta * of_bool overflow"
proof -
  have s: "unat s = (if unat x + unat y < beta then unat x + unat y else unat x + unat y - beta)"
    and overflow: "overflow = (s < x)"
    using assms unat_plus_if' [of x y] by (auto simp: overflowing_add_def beta_def)
  have "overflow \<longleftrightarrow> \<not> unat x + unat y < beta"
    unfolding overflow word_less_nat_alt s
    using unat_limb [of y] by (cases "unat x + unat y < beta") (auto simp del: unat_limb)
  then show ?thesis using s by (cases overflow) auto
qed

lemma unat_widen_mult:
  "unat (widen x * widen y) = unat x * unat y"
proof -
  have "unat x * unat y < beta * beta" by (intro mult_strict_mono) simp_all
  then show ?thesis by (simp add: unat_mult_u128)
qed

lemma acc_carry_arith:
  fixes bt a0 a1 a2 p0 p1 low h1 high top :: nat
  assumes "a0 + p0 = low + bt * of_bool c0" "a1 + p1 = h1 + bt * of_bool c1"
    "h1 + of_bool c0 = high + bt * of_bool c2" "a2 + of_bool (c1 \<or> c2) = top + bt * of_bool over"
    "a1 < bt" "p1 < bt" "h1 < bt"
  shows "(a0 + bt * (a1 + bt * a2)) + (p0 + bt * p1) =
           low + bt * (high + bt * top) + bt * bt * bt * of_bool over"
proof -
  have excl: "of_bool (c1 \<or> c2) = (of_bool c1 + of_bool c2 :: nat)"
    using assms(2,3,5-7) by (cases c0; cases c1; cases c2) auto
  have "(a0 + bt * (a1 + bt * a2)) + (p0 + bt * p1) = (a0 + p0) + bt * ((a1 + p1) + bt * a2)"
    by (simp add: algebra_simps)
  also have "\<dots> = low + bt * ((h1 + of_bool c0) + bt * (a2 + of_bool c1))"
    unfolding assms(1,2) by (simp add: algebra_simps)
  also have "\<dots> = low + bt * (high + bt * (a2 + (of_bool c1 + of_bool c2)))"
    unfolding assms(3) by (simp add: algebra_simps)
  also have "\<dots> = low + bt * (high + bt * (top + bt * of_bool over))"
    unfolding assms(4) [symmetric] excl ..
  finally show ?thesis by (simp add: algebra_simps)
qed

lemma add_product_val:
  assumes "acc_val acc + unat left * unat right < beta ^ 3"
  obtains acc' where "add_product_to_accumulator acc left right = Inr acc'"
    "acc_val acc' = acc_val acc + unat left * unat right"
proof -
  obtain a0 a1 a2 where acc: "acc = (a0, a1, a2)" by (cases acc)
  let ?p = "widen left * widen right"
  obtain low c0 where low: "overflowing_add a0 (low_limb ?p) = (low, c0)" by fastforce
  obtain h1 c1 where h1: "overflowing_add a1 (low_limb (high_part ?p)) = (h1, c1)" by fastforce
  obtain high c2 where high: "overflowing_add h1 (of_bool c0) = (high, c2)" by fastforce
  obtain top over where top: "overflowing_add a2 (of_bool (c1 \<or> c2)) = (top, over)" by fastforce
  have ph: "unat (low_limb (high_part ?p)) = unat ?p div beta"
    using unat_u128 [of ?p] by (simp add: limb_simps less_mult_imp_div_less)
  have unat_bool: "unat (of_bool c :: limb) = of_bool c" for c by simp
  have "acc_val acc + unat left * unat right =
      (unat a0 + beta * (unat a1 + beta * unat a2)) +
      (unat (low_limb ?p) + beta * unat (low_limb (high_part ?p)))"
    unfolding acc acc_val.simps ph by (simp only: unat_low_limb unat_widen_mult mod_mult_div_eq)
  also have "\<dots> = unat low + beta * (unat high + beta * unat top) + beta * beta * beta * of_bool over"
    by (rule acc_carry_arith [OF overflowing_add_val [OF low] overflowing_add_val [OF h1]
          overflowing_add_val [OF high, unfolded unat_bool]
          overflowing_add_val [OF top, unfolded unat_bool] unat_limb unat_limb unat_limb])
  finally have eq: "acc_val acc + unat left * unat right =
    acc_val (low, high, top) + beta * beta * beta * of_bool over" by simp
  have "\<not> over" using assms unfolding eq by (cases over) (simp_all add: power3_eq_cube)
  then show ?thesis
    using eq by (intro that [of "(low, high, top)"])
      (simp_all add: add_product_to_accumulator_def acc low h1 high top Let_def)
qed

lemma acc_val_shift: "acc_val (shift_product_accumulator acc) = acc_val acc div beta"
  by (cases acc) simp

lemma acc_val_low: "unat (fst acc) = acc_val acc mod beta"
  by (cases acc) simp

lemma acc_val_eq_0: "acc_val acc = 0 \<longleftrightarrow> acc = (0, 0, 0)"
  by (cases acc) (simp add: unat_eq_zero)

section \<open>Columns\<close>

definition colsum :: "limb list \<Rightarrow> limb list \<Rightarrow> nat \<Rightarrow> nat" where
  "colsum a b c = (\<Sum>i\<le>c. unat (limb_at a i) * unat (limb_at b (c - i)))"

lemma limb_at_outside [simp]: "length a \<le> i \<Longrightarrow> limb_at a i = 0"
  by (simp add: limb_at_def list_get_def)

lemma limb_at_nth: "i < length a \<Longrightarrow> limb_at a i = a ! i"
  by (simp add: limb_at_def list_get_def)

lemma limb_at_pos [dest]: "0 < unat (limb_at a i) \<Longrightarrow> i < length a"
  by (rule ccontr) simp

lemma colsum_le: "colsum a b c \<le> length a * ((beta - 1) * (beta - 1))"
proof -
  have "colsum a b c = (\<Sum>i\<in>{..c} \<inter> {..<length a}. unat (limb_at a i) * unat (limb_at b (c - i)))"
    unfolding colsum_def by (rule sum.mono_neutral_right) auto
  also have "\<dots> \<le> (\<Sum>i\<in>{..c} \<inter> {..<length a}. (beta - 1) * (beta - 1))"
    by (intro sum_mono mult_le_mono unat_limb_le)
  also have "\<dots> = card ({..c} \<inter> {..<length a}) * ((beta - 1) * (beta - 1))" by simp
  also have "\<dots> \<le> length a * ((beta - 1) * (beta - 1))"
    using card_mono [of "{..<length a}" "{..c} \<inter> {..<length a}"] by (intro mult_le_mono1) simp
  finally show ?thesis .
qed

lemma product_column_val:
  assumes "acc_val acc + (\<Sum>j=i..<i+k. unat (a ! j) * unat (b ! (column - j))) < beta ^ 3"
  obtains acc' where "product_column a b column i k acc = Inr acc'"
    "acc_val acc' = acc_val acc + (\<Sum>j=i..<i+k. unat (a ! j) * unat (b ! (column - j)))"
  using assms
proof (induction k arbitrary: i acc thesis)
  case (Suc k)
  let ?f = "\<lambda>j. unat (a ! j) * unat (b ! (column - j))"
  have sum: "(\<Sum>j=i..<i + Suc k. ?f j) = ?f i + (\<Sum>j=Suc i..<Suc i + k. ?f j)"
    by (subst sum.atLeast_Suc_lessThan) simp_all
  have "acc_val acc + ?f i < beta ^ 3" using Suc.prems(2) unfolding sum by linarith
  then obtain acc1 where acc1: "add_product_to_accumulator acc (a ! i) (b ! (column - i)) = Inr acc1"
    "acc_val acc1 = acc_val acc + ?f i"
    by (rule add_product_val)
  have "acc_val acc1 + (\<Sum>j=Suc i..<Suc i + k. ?f j) < beta ^ 3"
    using Suc.prems(2) unfolding sum acc1 by linarith
  then obtain acc2 where acc2: "product_column a b column (Suc i) k acc1 = Inr acc2"
    "acc_val acc2 = acc_val acc1 + (\<Sum>j=Suc i..<Suc i + k. ?f j)"
    by (rule Suc.IH [rotated])
  show ?case
    using acc1 acc2 by (intro Suc.prems(1) [of acc2]) (simp_all only: product_column.simps and_then_simps sum add.assoc)
qed simp

lemma accumulate_val:
  assumes "acc_val acc + colsum a b column < beta ^ 3" "a \<noteq> []" "b \<noteq> []"
  obtains acc' where "accumulate_product_column a b column acc = Inr acc'"
    "acc_val acc' = acc_val acc + colsum a b column"
proof -
  let ?first = "column - (length b - 1)" and ?last = "min column (length a - 1)"
  let ?f = "\<lambda>j. unat (a ! j) * unat (b ! (column - j))"
  have len: "0 < length a" "0 < length b" using assms by simp_all
  have "colsum a b column =
      (\<Sum>i\<in>{?first..?last}. unat (limb_at a i) * unat (limb_at b (column - i)))"
    unfolding colsum_def using len by (intro sum.mono_neutral_right) (auto simp: not_le)
  also have "\<dots> = (\<Sum>i\<in>{?first..?last}. ?f i)"
  proof (intro sum.cong refl)
    fix i assume "i \<in> {?first..?last}"
    then have "?first \<le> i" "i \<le> ?last" by simp_all
    with len have "i < length a" "column - i < length b" by linarith+
    then show "unat (limb_at a i) * unat (limb_at b (column - i)) = ?f i" by (simp add: limb_at_nth)
  qed
  finally have colsum: "colsum a b column = (\<Sum>i\<in>{?first..?last}. ?f i)" .
  show ?thesis
  proof (cases "?first \<le> ?last")
    case True
    then have "{?first..?last} = {?first..<?first + (?last + 1 - ?first)}" by auto
    with colsum have sum: "colsum a b column = (\<Sum>j=?first..<?first + (?last + 1 - ?first). ?f j)"
      by simp
    obtain acc' where "product_column a b column ?first (?last + 1 - ?first) acc = Inr acc'"
      "acc_val acc' = acc_val acc + colsum a b column"
      using product_column_val [where acc = acc and i = ?first and k = "?last + 1 - ?first" and a = a and b = b
          and column = column] assms(1)
      unfolding sum by blast
    with True show ?thesis
      by (intro that [of acc']) (simp_all add: accumulate_product_column_def saturating_sub_def)
  next
    case False
    with colsum show ?thesis
      by (intro that [of acc]) (simp_all add: accumulate_product_column_def saturating_sub_def)
  qed
qed

text \<open>The columns below \<open>k\<close> sum to the product once \<open>k\<close> reaches past the last column.\<close>

definition partial_product :: "limb list \<Rightarrow> limb list \<Rightarrow> nat \<Rightarrow> nat" where
  "partial_product a b k = (\<Sum>j<k. beta ^ j * colsum a b j)"

lemma limb_at_Cons: "limb_at (x # a) i = (case i of 0 \<Rightarrow> x | Suc j \<Rightarrow> limb_at a j)"
  by (auto simp: limb_at_def list_get_def split: nat.splits)

lemma colsum_Cons:
  "colsum (x # a) b c =
     unat x * unat (limb_at b c) + (case c of 0 \<Rightarrow> 0 | Suc d \<Rightarrow> colsum a b d)"
  by (cases c) (simp_all add: colsum_def limb_at_Cons sum.atMost_Suc_shift del: sum.atMost_Suc)

lemma val_digit_sum: "length b \<le> k \<Longrightarrow> (\<Sum>j<k. beta ^ j * unat (limb_at b j)) = val b"
proof (induction b arbitrary: k)
  case (Cons y b)
  then obtain m where k: "k = Suc m" by (cases k) auto
  have "(\<Sum>j<k. beta ^ j * unat (limb_at (y # b) j)) =
      unat y + beta * (\<Sum>j<m. beta ^ j * unat (limb_at b j))"
    unfolding k by (simp only: sum.lessThan_Suc_shift)
      (simp add: limb_at_Cons sum_distrib_left mult.assoc)
  with Cons k show ?case by simp
qed simp

lemma partial_product_val:
  assumes "length a + length b \<le> Suc k"
  shows "partial_product a b k = val a * val b"
  using assms
proof (induction a arbitrary: k)
  case Nil
  then show ?case by (simp add: partial_product_def colsum_def)
next
  case (Cons x a)
  show ?case
  proof (cases k)
    case 0
    with Cons.prems have "a = []" "b = []" by auto
    with 0 show ?thesis by (simp add: partial_product_def)
  next
    case (Suc m)
    have "partial_product (x # a) b k =
        unat x * (\<Sum>j<Suc m. beta ^ j * unat (limb_at b j)) + beta * partial_product a b m"
      unfolding partial_product_def Suc sum.lessThan_Suc_shift
      by (simp add: colsum_Cons sum_distrib_left sum.distrib algebra_simps)
    then show ?thesis
      using Cons Suc val_digit_sum [of b "Suc m"] by (simp add: algebra_simps del: sum.lessThan_Suc)
  qed
qed

lemma partial_product_Suc: "partial_product a b (Suc k) = partial_product a b k + beta ^ k * colsum a b k"
  by (simp add: partial_product_def)

lemma partial_product_split:
  assumes "k \<le> n"
  obtains r where "partial_product a b n = partial_product a b k + beta ^ k * r"
proof -
  have "\<exists>r. partial_product a b n = partial_product a b k + beta ^ k * r"
    using assms
  proof (induction n rule: dec_induct)
    case (step n)
    then obtain r where "partial_product a b n = partial_product a b k + beta ^ k * r" by blast
    moreover have "beta ^ n = beta ^ k * beta ^ (n - k)"
      using step(1) by (simp flip: power_add)
    ultimately have "partial_product a b (Suc n) =
        partial_product a b k + beta ^ k * (r + beta ^ (n - k) * colsum a b n)"
      by (simp add: partial_product_Suc algebra_simps)
    then show ?case by blast
  qed (auto intro: exI [of _ 0])
  then show ?thesis using that by blast
qed

section \<open>The loops\<close>

lemma limb_len_mod_Suc:
  "limb_len (n mod beta ^ Suc k) =
     (if n div beta ^ k mod beta \<noteq> 0 then Suc k else limb_len (n mod beta ^ k))"
proof -
  have digits: "n mod beta ^ Suc k = n mod beta ^ k + beta ^ k * (n div beta ^ k mod beta)"
    by (simp only: power_Suc2 mod_mult2_eq)
  show ?thesis
  proof (cases "n div beta ^ k mod beta = 0")
    case False
    then have "beta ^ k * 1 \<le> beta ^ k * (n div beta ^ k mod beta)" by (intro mult_le_mono2) simp
    also have "\<dots> \<le> n mod beta ^ Suc k" unfolding digits by simp
    finally have "limb_len (n mod beta ^ Suc k) = Suc k" by (intro limb_len_eqI) simp_all
    with False show ?thesis by simp
  qed (simp add: digits del: power_Suc)
qed

text \<open>
  One column: the accumulator holds what the columns below carry up, stays within its three limbs,
  and its low limb is the next digit of the product.
\<close>

lemma column_step:
  assumes acc: "acc_val acc = partial_product a b k div beta ^ k" "acc_val acc \<le> length a * beta"
    and ne: "a \<noteq> []" "b \<noteq> []" and k: "Suc k \<le> n" "length a + length b \<le> Suc n"
    and len: "length a < beta"
  obtains acc' where "accumulate_product_column a b k acc = Inr acc'"
    "unat (fst acc') = val a * val b div beta ^ k mod beta"
    "acc_val (shift_product_accumulator acc') = partial_product a b (Suc k) div beta ^ Suc k"
    "acc_val (shift_product_accumulator acc') \<le> length a * beta"
proof -
  have "beta + (beta - 1) * (beta - 1) \<le> beta * beta" by (simp add: beta_def)
  then have "length a * beta + length a * ((beta - 1) * (beta - 1)) \<le> length a * (beta * beta)"
    by (simp only: distrib_left [symmetric] mult_le_mono2)
  then have le: "acc_val acc + colsum a b k \<le> length a * (beta * beta)"
    using acc(2) colsum_le [of a b k] by linarith
  also have "\<dots> < beta * (beta * beta)" using len by (intro mult_strict_right_mono) simp_all
  finally have "acc_val acc + colsum a b k < beta ^ 3" by (simp add: power3_eq_cube mult.assoc)
  then obtain acc' where acc': "accumulate_product_column a b k acc = Inr acc'"
    "acc_val acc' = acc_val acc + colsum a b k"
    using ne by (rule accumulate_val)
  have val: "acc_val acc' = partial_product a b (Suc k) div beta ^ k"
    unfolding acc'(2) acc(1) by (simp add: partial_product_Suc)
  obtain r where "val a * val b = partial_product a b (Suc k) + beta ^ Suc k * r"
    using partial_product_split [OF k(1)] partial_product_val [OF k(2)] by metis
  then have "val a * val b = beta * r * beta ^ k + partial_product a b (Suc k)"
    by (simp add: algebra_simps)
  then have "val a * val b div beta ^ k = beta * r + partial_product a b (Suc k) div beta ^ k"
    by (simp only: div_mult_self3 power_not_zero beta_pos not_False_eq_True)
  then have low: "val a * val b div beta ^ k mod beta = unat (fst acc')"
    by (simp add: acc_val_low val)
  have "acc_val acc' div beta \<le> length a * beta * beta div beta"
    using le acc'(2) by (intro div_le_mono) (simp add: mult.assoc)
  then show ?thesis
    using acc' low by (intro that [of acc']) (simp_all add: acc_val_shift val div_power_Suc del: power_Suc)
qed

lemma mul_required_columns_val:
  assumes "acc_val acc = partial_product a b column div beta ^ column" "acc_val acc \<le> length a * beta"
    and "required = limb_len (val a * val b mod beta ^ column)"
    and "a \<noteq> []" "b \<noteq> []" "length a + length b \<le> Suc (column + k)" "length a < beta"
  obtains acc' where "mul_required_columns a b column k acc required =
      Inr (acc', limb_len (val a * val b mod beta ^ (column + k)))"
    "acc_val acc' = partial_product a b (column + k) div beta ^ (column + k)"
  using assms
proof (induction k arbitrary: column acc required thesis)
  case (Suc k)
  obtain acc1 where acc1: "accumulate_product_column a b column acc = Inr acc1"
    "unat (fst acc1) = val a * val b div beta ^ column mod beta"
    "acc_val (shift_product_accumulator acc1) = partial_product a b (Suc column) div beta ^ Suc column"
    "acc_val (shift_product_accumulator acc1) \<le> length a * beta"
    using Suc.prems(2,3,5-8) by (rule_tac column_step [of acc a b column "column + Suc k"]) auto
  have digit: "fst acc1 \<noteq> 0 \<longleftrightarrow> val a * val b div beta ^ column mod beta \<noteq> 0"
    by (simp add: word_unat_eq_iff flip: acc1(2))
  have "(if fst acc1 \<noteq> 0 then column + 1 else required) =
      limb_len (val a * val b mod beta ^ Suc column)"
    by (simp only: limb_len_mod_Suc digit Suc.prems(4)) simp
  from Suc.IH [OF _ acc1(3,4) this Suc.prems(5,6) _ Suc.prems(8)]
  obtain acc' where "mul_required_columns a b (Suc column) k (shift_product_accumulator acc1)
      (if fst acc1 \<noteq> 0 then column + 1 else required) =
      Inr (acc', limb_len (val a * val b mod beta ^ (Suc column + k)))"
    "acc_val acc' = partial_product a b (Suc column + k) div beta ^ (Suc column + k)"
    using Suc.prems(7) by auto
  then show ?case using acc1(1) by (intro Suc.prems(1)) simp_all
qed simp

lemma mul_required_tail_val:
  assumes "acc_val acc = n div beta ^ column" "required = limb_len (n mod beta ^ column)"
    and "n < beta ^ m" "m \<le> u64_max"
  shows "mul_required_tail acc column required = Inr (limb_len n)"
  using assms
proof (induction acc column required rule: mul_required_tail.induct)
  case (1 acc column required)
  show ?case
  proof (cases "acc = (0, 0, 0)")
    case True
    with 1(3) have "n div beta ^ column = 0" by simp
    then have "n < beta ^ column" by (simp add: div_eq_0_iff)
    with True 1(4) show ?thesis by (simp add: mul_required_tail.simps)
  next
    case False
    then have "n div beta ^ column \<noteq> 0" unfolding 1(3) [symmetric] acc_val_eq_0 .
    then have "\<not> n < beta ^ column" by auto
    then have "\<not> m \<le> column" using 1(5) power_increasing [of m column beta] by fastforce
    then have nextc: "next_column column = Inr (Suc column)"
      using 1(6) by (simp add: next_column_def checked_add_def)
    have shift: "acc_val (shift_product_accumulator acc) = n div beta ^ Suc column"
      by (simp only: acc_val_shift 1(3) div_power_Suc)
    have digit: "fst acc \<noteq> 0 \<longleftrightarrow> n div beta ^ column mod beta \<noteq> 0"
      using acc_val_low [of acc] 1(3) by (metis unat_eq_zero)
    have "(if fst acc \<noteq> 0 then next_column column else Inr required) =
        Inr (limb_len (n mod beta ^ Suc column))"
      by (simp only: limb_len_mod_Suc digit 1(4) nextc) simp
    then have unfold: "mul_required_tail acc column required =
        (if shift_product_accumulator acc \<noteq> (0, 0, 0)
         then mul_required_tail (shift_product_accumulator acc) (Suc column) (limb_len (n mod beta ^ Suc column))
         else mul_required_tail (shift_product_accumulator acc) column (limb_len (n mod beta ^ Suc column)))"
      using False by (subst mul_required_tail.simps) (simp only: nextc and_then_simps if_False)
    show ?thesis
    proof (cases "shift_product_accumulator acc = (0, 0, 0)")
      case True
      with shift have "n div beta ^ Suc column = 0" by simp
      then have "n < beta ^ Suc column" by (simp only: div_eq_0_iff) auto
      then have "n mod beta ^ Suc column = n" by (rule mod_less)
      with True unfold show ?thesis by (simp add: mul_required_tail.simps)
    next
      case nonzero: False
      have "mul_required_tail (shift_product_accumulator acc) (Suc column)
          (limb_len (n mod beta ^ Suc column)) = Inr (limb_len n)"
        using 1(1) False nonzero shift 1(5,6) by blast
      with unfold nonzero show ?thesis by simp
    qed
  qed
qed


lemma product_columns_val:
  assumes "a \<noteq> []" "length a + length b \<le> u64_max"
  shows "product_columns a b = Inr (length a + length b - 1)"
  using assms by (cases a) (simp_all add: product_columns_def checked_add_def checked_sub_def)

lemma mul_magnitude_required_val:
  assumes "length a + length b \<le> u64_max"
  shows "mul_magnitude_required a b = Inr (limb_len (val a * val b))"
proof (cases "a = [] \<or> b = []")
  case True
  then show ?thesis by (auto simp: mul_magnitude_required_def)
next
  case False
  then have ne: "a \<noteq> []" "b \<noteq> []" by auto
  let ?c = "length a + length b - 1"
  have c: "length a + length b \<le> Suc ?c" by simp
  have "length a < beta" using assms by (simp add: beta_def u64_max_def)
  then obtain acc where acc: "mul_required_columns a b 0 ?c (0, 0, 0) 0 =
      Inr (acc, limb_len (val a * val b mod beta ^ ?c))"
    "acc_val acc = partial_product a b ?c div beta ^ ?c"
    using ne c mul_required_columns_val [of "(0, 0, 0)" a b 0 0 ?c]
    by (auto simp: partial_product_def)
  have "val a * val b < beta ^ length a * beta ^ length b"
    by (intro mult_strict_mono val_bound) simp_all
  then have "val a * val b < beta ^ (length a + length b)" by (simp add: power_add)
  then have "mul_required_tail acc ?c (limb_len (val a * val b mod beta ^ ?c)) = Inr (limb_len (val a * val b))"
    using acc(2) assms by (intro mul_required_tail_val) (simp_all add: partial_product_val)
  then show ?thesis
    using ne acc(1) assms by (simp add: mul_magnitude_required_def product_columns_val)
qed

lemma mul_limbs_val:
  assumes "acc_val acc = partial_product a b column div beta ^ column" "acc_val acc \<le> length a * beta"
    and "length out = column" "\<And>i. i < column \<Longrightarrow> unat (out ! i) = val a * val b div beta ^ i mod beta"
    and "a \<noteq> []" "b \<noteq> []" "cols = length a + length b - 1" "length a < beta"
  obtains out' where "mul_limbs a b cols column k acc out = Inr out'"
    "length out' = column + k" "\<And>i. i < column + k \<Longrightarrow> unat (out' ! i) = val a * val b div beta ^ i mod beta"
  using assms
proof (induction k arbitrary: column acc out thesis)
  case (Suc k)
  obtain acc1 where acc1:
    "(if column < cols then accumulate_product_column a b column acc else Inr acc) = Inr acc1"
    "unat (fst acc1) = val a * val b div beta ^ column mod beta"
    "acc_val (shift_product_accumulator acc1) = partial_product a b (Suc column) div beta ^ Suc column"
    "acc_val (shift_product_accumulator acc1) \<le> length a * beta"
  proof (cases "column < cols")
    case True
    with Suc.prems(2,3,6-9) that show ?thesis
      by (rule_tac column_step [of acc a b column cols]) auto
  next
    case False
    then have "partial_product a b column = val a * val b" "partial_product a b (Suc column) = val a * val b"
      using Suc.prems(8) by (intro partial_product_val; simp)+
    moreover have "acc_val acc div beta \<le> length a * beta"
      using Suc.prems(3) div_le_dividend [of "acc_val acc" beta] by linarith
    ultimately show ?thesis
      using False Suc.prems(2) by (intro that [of acc]) (simp_all add: acc_val_low acc_val_shift div_power_Suc del: power_Suc)
  qed
  have "length (out @ [fst acc1]) = Suc column" using Suc.prems(4) by simp
  moreover have "unat ((out @ [fst acc1]) ! i) = val a * val b div beta ^ i mod beta" if "i < Suc column" for i
    using that Suc.prems(4,5) acc1(2) by (cases "i = column") (simp_all add: nth_append)
  ultimately obtain out' where "mul_limbs a b cols (Suc column) k (shift_product_accumulator acc1) (out @ [fst acc1]) = Inr out'"
    "length out' = Suc column + k"
    "\<And>i. i < Suc column + k \<Longrightarrow> unat (out' ! i) = val a * val b div beta ^ i mod beta"
    using Suc.IH [OF _ acc1(3,4) _ _ Suc.prems(6-9)] by blast
  then show ?case using acc1(1) by (intro Suc.prems(1)) simp_all
qed simp

lemma mul_magnitude_val:
  assumes "length a + length b \<le> u64_max"
  shows "mul_magnitude grant a b limit =
           and_then (allocate_limbs grant Multiply (limb_len (val a * val b)) limit)
             (\<lambda>_. Inr (limbs_of (val a * val b)))"
proof (cases "val a * val b = 0")
  case True
  then show ?thesis
    using assms
    by (auto simp: mul_magnitude_def mul_magnitude_required_val allocate_limbs_def and_then_def split: sum.splits)
next
  case False
  let ?n = "limb_len (val a * val b)"
  have n: "?n \<noteq> 0" using False less_limb_len [of "val a * val b"] by (cases ?n) auto
  have ne: "a \<noteq> []" "b \<noteq> []" using False by auto
  have "length a < beta" using assms by (simp add: beta_def u64_max_def)
  then obtain out where out: "mul_limbs a b (length a + length b - 1) 0 ?n (0, 0, 0) [] = Inr out"
    "length out = ?n" "\<And>i. i < ?n \<Longrightarrow> unat (out ! i) = val a * val b div beta ^ i mod beta"
    using ne mul_limbs_val [of "(0, 0, 0)" a b 0 "[]" "length a + length b - 1" ?n]
    by (auto simp: partial_product_def)
  have "val out = val a * val b mod beta ^ length out"
    by (rule val_digits) (simp add: out)
  then have "out = limbs_of (val a * val b)"
    by (intro limbs_ofI) (simp_all add: out(2) less_limb_len)
  then show ?thesis
    using out(1) n assms ne
    by (auto simp: mul_magnitude_def mul_magnitude_required_val product_columns_val allocate_limbs_def
        and_then_def split: sum.splits)
qed

end
