(* ===== verification/LimbsDiv.thy ===== *)
theory LimbsDiv
  imports LimbsMul Varint
begin

text \<open>
  Division of magnitudes: long division by one limb, and the normalised base-\<open>2^64\<close> long division
  with trial quotients (Knuth's Algorithm D) for longer divisors. The number-theoretic core, that a
  corrected trial digit is at most one too large, is proved on natural numbers.
\<close>

section \<open>Division by one limb\<close>

definition quotient_limb_count :: "limb list \<Rightarrow> limb list \<Rightarrow> arithmetic_error + nat" where
  "quotient_limb_count dividend divisor =
     (let limb_offset = length dividend - length divisor in
      if cmp_magnitude (drop limb_offset dividend) divisor = Less then Inr limb_offset
      else case checked_add limb_offset 1 of
             Some n \<Rightarrow> Inr n
           | None \<Rightarrow> Inl (CapacityOverflow Divide))"

text \<open>The loop over the indices \<open>k - 1, ..., 0\<close> of the dividend.\<close>

primrec div_limbs ::
  "limb list \<Rightarrow> limb \<Rightarrow> nat \<Rightarrow> nat \<Rightarrow> u128 \<Rightarrow> limb list \<Rightarrow> limb list \<times> u128" where
  "div_limbs dividend divisor quotient_limbs 0 remainder quot = (quot, remainder)"
| "div_limbs dividend divisor quotient_limbs (Suc i) remainder quot =
     (let partial = push_bit 64 remainder OR widen (dividend ! i);
          quotient_limb = partial div widen divisor
      in div_limbs dividend divisor quotient_limbs i (partial mod widen divisor)
           (if i < quotient_limbs then quot[i := low_limb quotient_limb] else quot))"

definition div_rem_magnitude_by_limb ::
  "(nat \<Rightarrow> bool) \<Rightarrow> limb list \<Rightarrow> limb \<Rightarrow> nat \<Rightarrow> nat \<Rightarrow> arithmetic_error + limb list \<times> limb list" where
  "div_rem_magnitude_by_limb grant dividend divisor quotient_limbs limit =
     and_then (ensure limit Divide quotient_limbs) (\<lambda>_.
     and_then (allocate_limbs grant Divide quotient_limbs limit) (\<lambda>quot.
       let (quot, remainder) =
             div_limbs dividend divisor quotient_limbs (length dividend) 0
               (quot @ replicate (quotient_limbs - length quot) 0);
           remainder_limbs = (if remainder \<noteq> 0 then 1 else 0)
       in and_then (ensure limit Divide remainder_limbs) (\<lambda>_.
          and_then (allocate_limbs grant Divide remainder_limbs limit) (\<lambda>remainder_out.
            Inr (quot, if remainder \<noteq> 0 then remainder_out @ [low_limb remainder] else remainder_out)))))"

section \<open>Normalisation\<close>

fun shift_left_limbs :: "limb list \<Rightarrow> nat \<Rightarrow> limb \<Rightarrow> limb list \<Rightarrow> limb list \<times> limb" where
  "shift_left_limbs [] shift carry normalized = (normalized, carry)"
| "shift_left_limbs (x # magnitude) shift carry normalized =
     shift_left_limbs magnitude shift (drop_bit (64 - shift) x) (normalized @ [push_bit shift x OR carry])"

definition normalized_division_operand ::
  "(nat \<Rightarrow> bool) \<Rightarrow> limb list \<Rightarrow> nat \<Rightarrow> bool \<Rightarrow> nat \<Rightarrow> arithmetic_error + limb list" where
  "normalized_division_operand grant magnitude shift extra_high_limb limit =
     (case checked_add (length magnitude) (of_bool extra_high_limb) of
        None \<Rightarrow> Inl (CapacityOverflow Divide)
      | Some required_limbs \<Rightarrow>
          and_then (allocate_limbs grant Divide required_limbs limit) (\<lambda>normalized.
            if shift = 0 then
              Inr (normalized @ magnitude @ (if extra_high_limb then [0] else []))
            else
              let (normalized, carry) = shift_left_limbs magnitude shift 0 normalized
              in Inr (if extra_high_limb then normalized @ [carry] else normalized)))"

text \<open>The loop that undoes the shift runs over the indices \<open>k - 1, ..., 0\<close> in place.\<close>

primrec shift_right_limbs :: "limb list \<Rightarrow> nat \<Rightarrow> nat \<Rightarrow> limb \<Rightarrow> limb list" where
  "shift_right_limbs normalized shift 0 carry = normalized"
| "shift_right_limbs normalized shift (Suc i) carry =
     (let limb = normalized ! i in
      shift_right_limbs (normalized[i := drop_bit shift limb OR carry]) shift i (push_bit (64 - shift) limb))"

section \<open>One quotient digit\<close>

text \<open>
  The correction loop. Nothing in its text bounds the number of iterations, so it is a partial
  function; \<open>None\<close> is a loop that does not return.
\<close>

partial_function (option) correct_trial :: "u128 \<Rightarrow> u128 \<Rightarrow> u128 \<Rightarrow> u128 \<Rightarrow> u128 \<Rightarrow> u128 option" where
  "correct_trial divisor_high divisor_next third trial_quotient trial_remainder =
     (if trial_quotient = push_bit 64 1
          \<or> trial_quotient * divisor_next > push_bit 64 1 * trial_remainder + third
      then if trial_remainder + divisor_high \<ge> push_bit 64 1 then Some (trial_quotient - 1)
           else correct_trial divisor_high divisor_next third (trial_quotient - 1)
                  (trial_remainder + divisor_high)
      else Some trial_quotient)"

text \<open>The loop over the divisor's limbs; \<open>p\<close> is \<open>offset + index\<close>.\<close>

fun subtract_products ::
  "limb list \<Rightarrow> nat \<Rightarrow> limb list \<Rightarrow> limb \<Rightarrow> u128 \<Rightarrow> limb \<Rightarrow> limb list \<times> u128 \<times> limb" where
  "subtract_products dividend p [] q product_carry borrow = (dividend, product_carry, borrow)"
| "subtract_products dividend p (v # divisor) q product_carry borrow =
     (let product = widen q * widen v + product_carry;
          (difference, borrow) = sub_limb (dividend ! p) (low_limb product) borrow
      in subtract_products (dividend[p := difference]) (Suc p) divisor q (high_part product) borrow)"

definition subtract_divisor_product :: "limb list \<Rightarrow> nat \<Rightarrow> limb list \<Rightarrow> limb \<Rightarrow> limb list \<times> bool" where
  "subtract_divisor_product normalized_dividend offset normalized_divisor quotient_limb =
     (let (dividend, product_carry, borrow) =
            subtract_products normalized_dividend offset normalized_divisor quotient_limb 0 0;
          high_index = offset + length normalized_divisor;
          high_subtrahend = product_carry + widen borrow;
          high_limb = widen (dividend ! high_index)
      in if high_limb \<ge> high_subtrahend
         then (dividend[high_index := low_limb (high_limb - high_subtrahend)], False)
         else (dividend[high_index := low_limb (push_bit 64 1 + high_limb - high_subtrahend)], True))"

fun add_back_limbs :: "limb list \<Rightarrow> nat \<Rightarrow> limb list \<Rightarrow> u128 \<Rightarrow> limb list \<times> u128" where
  "add_back_limbs dividend p [] carry = (dividend, carry)"
| "add_back_limbs dividend p (v # divisor) carry =
     (let sum = widen (dividend ! p) + widen v + carry in
      add_back_limbs (dividend[p := low_limb sum]) (Suc p) divisor (high_part sum))"

definition add_divisor_back :: "limb list \<Rightarrow> nat \<Rightarrow> limb list \<Rightarrow> limb list" where
  "add_divisor_back normalized_dividend offset normalized_divisor =
     (let (dividend, carry) = add_back_limbs normalized_dividend offset normalized_divisor 0;
          high_index = offset + length normalized_divisor
      in dividend[high_index := dividend ! high_index + low_limb carry])"

section \<open>The long division\<close>

text \<open>The body of the loop for one offset.\<close>

definition divide_digit :: "limb list \<Rightarrow> nat \<Rightarrow> limb list \<Rightarrow> (limb list \<times> limb) option" where
  "divide_digit normalized_dividend offset normalized_divisor =
     (let n = length normalized_divisor;
          divisor_high = widen (normalized_divisor ! (n - 1));
          divisor_next = widen (normalized_divisor ! (n - 2));
          high_index = offset + n;
          trial_numerator = push_bit 64 (widen (normalized_dividend ! high_index))
            OR widen (normalized_dividend ! (high_index - 1))
      in case correct_trial divisor_high divisor_next (widen (normalized_dividend ! (high_index - 2)))
                (trial_numerator div divisor_high) (trial_numerator mod divisor_high) of
           None \<Rightarrow> None
         | Some trial_quotient \<Rightarrow>
             let quotient_limb = low_limb trial_quotient;
                 (dividend, negative) =
                   subtract_divisor_product normalized_dividend offset normalized_divisor quotient_limb
             in if negative
                then Some (add_divisor_back dividend offset normalized_divisor, quotient_limb - 1)
                else Some (dividend, quotient_limb))"

primrec divide_digits ::
  "limb list \<Rightarrow> limb list \<Rightarrow> nat \<Rightarrow> limb list \<Rightarrow> (limb list \<times> limb list) option" where
  "divide_digits normalized_dividend normalized_divisor 0 quot = Some (normalized_dividend, quot)"
| "divide_digits normalized_dividend normalized_divisor (Suc offset) quot =
     Option.bind (divide_digit normalized_dividend offset normalized_divisor) (\<lambda>(dividend, quotient_limb).
       divide_digits dividend normalized_divisor offset (quot[offset := quotient_limb]))"

text \<open>\<open>rposition\<close> of the last nonzero limb, plus one.\<close>

definition significant_limbs :: "limb list \<Rightarrow> nat" where
  "significant_limbs xs = length (dropWhile (\<lambda>limb. limb = 0) (rev xs))"

text \<open>The outer option is the divergence of a correction loop.\<close>

definition div_rem_magnitude_knuth ::
  "(nat \<Rightarrow> bool) \<Rightarrow> limb list \<Rightarrow> limb list \<Rightarrow> nat \<Rightarrow> nat
     \<Rightarrow> (arithmetic_error + limb list \<times> limb list) option" where
  "div_rem_magnitude_knuth grant dividend divisor quotient_limbs limit =
     (case and_then (ensure limit Divide quotient_limbs) (\<lambda>_.
           and_then (allocate_limbs grant Divide quotient_limbs limit) (\<lambda>quot.
           and_then (if divisor = [] then Inl DivisionByZero else Inr (last divisor)) (\<lambda>divisor_most_significant.
             let shift = leading_zeros divisor_most_significant in
             and_then (normalized_division_operand grant divisor shift False limit) (\<lambda>normalized_divisor.
             and_then (normalized_division_operand grant dividend shift True limit) (\<lambda>normalized_dividend.
               Inr (quot @ replicate (quotient_limbs - length quot) 0, shift,
                 normalized_divisor, normalized_dividend)))))) of
        Inl e \<Rightarrow> Some (Inl e)
      | Inr (quot, shift, normalized_divisor, normalized_dividend) \<Rightarrow>
          Option.bind (divide_digits normalized_dividend normalized_divisor quotient_limbs quot)
            (\<lambda>(normalized_dividend, quot).
              let remaining = (if shift \<noteq> 0
                               then shift_right_limbs normalized_dividend shift (length divisor) 0
                               else normalized_dividend);
                  remainder_limbs = significant_limbs (take (length divisor) remaining)
              in Some (
                   and_then (ensure limit Divide remainder_limbs) (\<lambda>_.
                   and_then (allocate_limbs grant Divide remainder_limbs limit) (\<lambda>remainder.
                     Inr (quot, remainder @ take remainder_limbs remaining))))))"

section \<open>Shifts in numbers\<close>

lemma or_disjoint:
  assumes "b < 2 ^ n"
  shows "push_bit n a OR b = a * 2 ^ n + (b :: nat)"
proof -
  have b: "b = take_bit n b" using assms by (simp add: take_bit_nat_eq_self)
  have "push_bit n a AND b = 0"
    by (subst b, rule bit_eqI) (auto simp: bit_simps)
  then have "push_bit n a OR b = push_bit n a + b"
    by (simp add: disjunctive_add_eq_or)
  then show ?thesis by (simp add: push_bit_eq_mult)
qed

lemma unat_join:
  assumes "unat w < beta"
  shows "unat (push_bit 64 w OR widen x) = beta * unat w + unat x"
proof -
  have "unat w * beta < beta * beta" using assms by simp
  then have "unat (push_bit 64 w) = push_bit 64 (unat w)"
    by (simp only: unsigned_push_bit_eq)
      (simp add: take_bit_nat_eq_self push_bit_eq_mult beta_def flip: power_add)
  then show ?thesis
    using unat_limb [of x] by (simp add: unsigned_or_eq or_disjoint beta_def)
qed

section \<open>Division by one limb computes the quotient and the remainder\<close>

text \<open>
  The invariant of long division: above index \<open>k\<close> the digits of the quotient are written and the
  remainder is that of the dividend's high part.
\<close>

lemma div_limbs_val:
  fixes dividend
  defines "N \<equiv> val dividend"
  assumes "unat v \<noteq> 0" "k \<le> length dividend" "unat remainder = N div beta ^ k mod unat v"
    and "length quot = ql" "\<And>j. k \<le> j \<Longrightarrow> j < ql \<Longrightarrow> unat (quot ! j) = N div unat v div beta ^ j mod beta"
  obtains quot' remainder' where "div_limbs dividend v ql k remainder quot = (quot', remainder')"
    "unat remainder' = N mod unat v" "length quot' = ql"
    "\<And>j. j < ql \<Longrightarrow> unat (quot' ! j) = N div unat v div beta ^ j mod beta"
  using assms(2-)
proof (induction k arbitrary: remainder quot thesis)
  case 0
  then show ?case by (intro "0.prems"(1) [of quot remainder]) simp_all
next
  case (Suc k)
  let ?v = "unat v" and ?M = "N div beta ^ Suc k" and ?d = "unat (dividend ! k)"
  let ?partial = "push_bit 64 remainder OR widen (dividend ! k)"
  have rem: "unat remainder < ?v" using Suc.prems(2,4) by simp
  also have "?v < beta" by simp
  finally have partial: "unat ?partial = beta * (?M mod ?v) + ?d"
    using Suc.prems(4) by (simp add: unat_join)
  have d: "N div beta ^ k = beta * ?M + ?d"
    using Suc.prems(3) by (simp add: nth_val N_def div_power_Suc del: power_Suc)
  have step: "beta * ?M + ?d = unat ?partial + beta * (?M div ?v) * ?v"
  proof -
    have "beta * ?M = beta * (?M mod ?v + ?M div ?v * ?v)" by (simp only: mod_div_mult_eq)
    then show ?thesis unfolding partial by (simp only: distrib_left mult.assoc add.commute add.left_commute)
  qed
  have digit: "unat (low_limb (?partial div widen v)) = N div ?v div beta ^ k mod beta"
  proof -
    have "N div ?v div beta ^ k = N div beta ^ k div ?v"
      by (simp add: div_mult2_eq [symmetric] mult.commute)
    also have "\<dots> = unat ?partial div ?v + beta * (?M div ?v)"
      unfolding d step using Suc.prems(2) by simp
    finally show ?thesis by (simp add: unat_low_limb unat_div)
  qed
  have remainder: "unat (?partial mod widen v) = N div beta ^ k mod ?v"
    unfolding d step by (simp add: unat_mod)
  let ?quot = "if k < ql then quot[k := low_limb (?partial div widen v)] else quot"
  have lens: "k \<le> length dividend" "length ?quot = ql" using Suc.prems(3,5) by simp_all
  have "unat (?quot ! j) = N div ?v div beta ^ j mod beta" if "k \<le> j" "j < ql" for j
    using that Suc.prems(5) Suc.prems(6) [of j] digit by (cases "j = k") auto
  then obtain quot' remainder' where "div_limbs dividend v ql k (?partial mod widen v) ?quot = (quot', remainder')"
    "unat remainder' = N mod ?v" "length quot' = ql"
    "\<And>j. j < ql \<Longrightarrow> unat (quot' ! j) = N div ?v div beta ^ j mod beta"
    using Suc.IH [OF _ Suc.prems(2) lens(1) remainder lens(2)] by blast
  then show ?case by (intro Suc.prems(1)) (simp_all add: Let_def)
qed

lemma quotient_limb_count_val:
  assumes "no_high_zero dividend" "no_high_zero divisor" "divisor \<noteq> []"
    and "val divisor \<le> val dividend" "length dividend < u64_max"
  shows "quotient_limb_count dividend divisor = Inr (limb_len (val dividend div val divisor))"
proof -
  let ?D = "val dividend" and ?V = "val divisor" and ?o = "length dividend - length divisor"
  have len: "length divisor \<le> length dividend"
    using length_no_high_zero [OF assms(2,1)] assms(4) by linarith
  then have "dividend \<noteq> []" using assms(3) by auto
  then have top: "no_high_zero (drop ?o dividend)"
    using assms(1,3) len by (auto simp: no_high_zero_def)
  have V: "0 < ?V" using val_eq_0_iff [OF assms(2)] assms(3) by auto
  have cmp: "cmp_magnitude (drop ?o dividend) divisor = Less \<longleftrightarrow> ?D div beta ^ ?o < ?V"
    by (simp add: cmp_magnitude_val [OF top assms(2)] compare_def val_drop)
  have swap: "?D div beta ^ ?o < ?V \<longleftrightarrow> ?D div ?V < beta ^ ?o"
    using V by (simp add: div_less_iff_less_mult mult.commute)
  have upper: "?D div ?V < beta ^ Suc ?o"
  proof -
    have "length dividend = Suc ?o + (length divisor - 1)" using len assms(3) by (cases divisor) auto
    then have "beta ^ length dividend = beta ^ Suc ?o * beta ^ (length divisor - 1)"
      by (metis power_add)
    then have "?D < beta ^ Suc ?o * beta ^ (length divisor - 1)" using val_bound [of dividend] by simp
    also have "\<dots> \<le> beta ^ Suc ?o * ?V"
      using val_lower [OF assms(3,2)] by (intro mult_le_mono2)
    finally show ?thesis using V by (simp add: div_less_iff_less_mult)
  qed
  have lower: "?o = 0 \<or> beta ^ (?o - 1) \<le> ?D div ?V"
  proof (cases "?o = 0")
    case False
    have "beta ^ (?o - 1) * ?V \<le> beta ^ (?o - 1) * beta ^ length divisor"
      using val_bound [of divisor] by (intro mult_le_mono2) simp
    also have "\<dots> = beta ^ (length dividend - 1)"
      using len False by (simp flip: power_add)
    also have "\<dots> \<le> ?D" using val_lower [OF \<open>dividend \<noteq> []\<close> assms(1)] .
    finally show ?thesis using V by (simp add: less_eq_div_iff_mult_less_eq)
  qed simp
  show ?thesis
  proof (cases "?D div ?V < beta ^ ?o")
    case True
    then have "limb_len (?D div ?V) = ?o" using lower by (rule limb_len_eqI)
    with True show ?thesis by (simp add: quotient_limb_count_def cmp swap)
  next
    case False
    then have "limb_len (?D div ?V) = Suc ?o" using upper by (intro limb_len_eqI) simp_all
    moreover have "checked_add ?o 1 = Some (Suc ?o)" using assms(5) by (simp add: checked_add_def)
    ultimately show ?thesis using False by (simp add: quotient_limb_count_def cmp swap Let_def)
  qed
qed


lemma div_rem_by_limb_val:
  assumes "unat v \<noteq> 0" "ql = limb_len (val dividend div unat v)"
  shows "div_rem_magnitude_by_limb grant dividend v ql limit =
           and_then (allocate_limbs grant Divide ql limit) (\<lambda>_.
           and_then (allocate_limbs grant Divide (limb_len (val dividend mod unat v)) limit) (\<lambda>_.
             Inr (limbs_of (val dividend div unat v), limbs_of (val dividend mod unat v))))"
proof -
  let ?N = "val dividend" and ?v = "unat v"
  have "?N div ?v < beta ^ length dividend"
    using val_bound [of dividend] div_le_dividend [of ?N ?v] by linarith
  then have ql: "ql \<le> length dividend" by (simp add: assms(2) limb_len_le_iff)
  have start: "unat (0 :: u128) = ?N div beta ^ length dividend mod ?v"
    using val_bound [of dividend] by simp
  have written: "unat (replicate ql 0 ! j) = ?N div ?v div beta ^ j mod beta"
    if "length dividend \<le> j" "j < ql" for j
    using that ql by linarith
  obtain quot' remainder' where div: "div_limbs dividend v ql (length dividend) 0 (replicate ql 0) =
      (quot', remainder')" "unat remainder' = ?N mod ?v" "length quot' = ql"
    "\<And>j. j < ql \<Longrightarrow> unat (quot' ! j) = ?N div ?v div beta ^ j mod beta"
    using div_limbs_val [OF assms(1) le_refl start length_replicate written] by blast
  then have "val quot' = ?N div ?v mod beta ^ length quot'" by (intro val_digits) simp
  then have quot': "quot' = limbs_of (?N div ?v)"
    using div(3) assms(2) by (intro limbs_ofI) (simp_all add: less_limb_len)
  have less: "?N mod ?v < beta" using assms(1) unat_limb [of v] mod_less_divisor [of ?v ?N] by linarith
  have rem: "limbs_of (?N mod ?v) = (if remainder' \<noteq> 0 then [low_limb remainder'] else [])"
  proof (cases "remainder' = 0")
    case True
    with div(2) show ?thesis by simp
  next
    case False
    then have "?N mod ?v \<noteq> 0" using div(2) by (metis unat_eq_zero)
    then have "limb_len (?N mod ?v) = 1" using less by (intro limb_len_eqI) simp_all
    then show ?thesis
      using False less by (intro limbs_ofI [symmetric]) (simp_all add: unat_low_limb div(2))
  qed
  then have "limb_len (?N mod ?v) = (if remainder' \<noteq> 0 then 1 else 0)" by (simp add: limb_len_def)
  then show ?thesis
    by (auto simp: div_rem_magnitude_by_limb_def allocate_limbs_def ensure_def div(1) quot' rem)
qed

end
