(* ===== verification/LimbsKnuth.thy ===== *)
theory LimbsKnuth
  imports LimbsDiv
begin

text \<open>
  Correctness of the multi-limb division of \<open>fgdb-bigint\<close>: the correction loop returns a trial digit
  that is exact or one too large, the subtraction and the add-back repair it, and the loop over the
  offsets computes the digits of the quotient and leaves the remainder.
\<close>

section \<open>Trial quotients\<close>

lemma trial_too_large:
  fixes W V q vtop top P :: nat
  assumes "top < q * vtop" "W < (top + 1) * P" "vtop * P \<le> V" "0 < V"
  shows "W div V < q"
proof -
  have "W < (top + 1) * P" by fact
  also have "\<dots> \<le> q * vtop * P" using assms(1) by (intro mult_le_mono1) simp
  also have "\<dots> \<le> q * V" using assms(3) by (simp add: mult.assoc)
  finally show ?thesis using assms(4) by (simp add: div_less_iff_less_mult)
qed

lemma trial_almost_exact:
  fixes W V q vtop top P B :: nat
  assumes "q * vtop \<le> top" "top * P \<le> W" "V \<le> (vtop + 1) * P" "B * P \<le> V" "q \<le> B" "0 < V"
  shows "q \<le> W div V + 1"
proof -
  have "q * V \<le> q * ((vtop + 1) * P)" using assms(3) by (rule mult_le_mono2)
  also have "\<dots> = q * vtop * P + q * P" by (simp add: algebra_simps)
  also have "\<dots> \<le> W + V"
    using mult_le_mono1 [OF assms(1), of P] mult_le_mono1 [OF assms(5), of P] assms(2,4) by linarith
  finally have "q * V div V \<le> (W + V) div V" by (rule div_le_mono)
  then show ?thesis using assms(6) by (simp add: div_add_self2)
qed

text \<open>
  The correction loop on numbers: \<open>U\<close> is the two-limb numerator, \<open>d\<close> the true digit. The
  invariant \<open>q * v1 + r = U\<close> and \<open>d \<le> q\<close> survives an iteration, and either exit leaves a digit
  below the base whose two-limb product does not exceed the three-limb numerator.
\<close>

lemma trial_small:
  fixes q r U v1 v0 u0 B :: nat
  assumes "q * v1 + r = U" "U \<le> v1 * B + v0" "q \<noteq> B" "q * v0 \<le> B * r + u0" "u0 < B" "0 < v1"
  shows "q < B"
proof (rule ccontr)
  assume "\<not> q < B"
  with assms(3) have q: "B + 1 \<le> q" by simp
  have "(B + 1) * v1 + r \<le> v1 * B + v0"
    using mult_le_mono1 [OF q, of v1] assms(1,2) by linarith
  then have "v1 + r \<le> v0" by (simp add: algebra_simps)
  then have "B * (r + 1) \<le> B * v0" using assms(6) by (intro mult_le_mono2) simp
  also have "\<dots> \<le> q * v0" using q by (intro mult_le_mono1) simp
  finally show False using assms(4,5) by simp
qed

lemma trial_break_small:
  fixes q r U v1 v0 B :: nat
  assumes "q * v1 + r = U" "U \<le> v1 * B + v0" "B \<le> r" "v0 < B"
  shows "q < B"
proof -
  have "q * v1 < B * v1" using assms by (simp only: mult.commute [of v1])
  then show ?thesis by simp
qed

lemma trial_initial:
  fixes q U u0 v1 v0 B :: nat
  assumes "U < (q + 1) * v1" "u0 < B"
  shows "U * B + u0 < (q + 1) * (v1 * B + v0)"
proof -
  have "U * B + u0 < (U + 1) * B" using assms(2) by simp
  also have "\<dots> \<le> (q + 1) * v1 * B" using assms(1) by (intro mult_le_mono1) simp
  also have "\<dots> \<le> (q + 1) * (v1 * B + v0)" by (simp only: distrib_left mult.assoc le_add1)
  finally show ?thesis .
qed

lemma unat_base: "unat (push_bit 64 1 :: u128) = beta"
  by (simp add: beta_def)

lemma correct_trial_returns:
  fixes dh dn third q r :: u128
  defines "v1 \<equiv> unat dh" and "v0 \<equiv> unat dn" and "u0 \<equiv> unat third"
  assumes inv: "unat q * v1 + unat r = U" "unat r < beta" "unat q \<le> beta + 1" "d \<le> unat q"
    and U: "U \<le> v1 * beta + v0" and d: "d < beta"
    and bounds: "v0 < beta" "u0 < beta" "v1 < beta" "0 < v1"
    and low: "\<forall>q r. q * v1 + r = U \<longrightarrow> beta * r + u0 < q * v0 \<longrightarrow> d < q"
  obtains q' where "correct_trial dh dn third q r = Some q'" "d \<le> unat q'" "unat q' < beta"
    "unat q' * (v1 * beta + v0) \<le> U * beta + u0"
  using inv
proof (induction "beta - unat r" arbitrary: q r thesis rule: less_induct)
  case less
  note inv = less.prems(2-5)
  have "unat q * v0 \<le> (beta + 1) * (beta - 1)"
    using inv(3) bounds(1) by (intro mult_le_mono) simp_all
  also have "\<dots> < beta * beta" by (simp add: beta_def)
  finally have left: "unat (q * dn) = unat q * v0" by (simp add: unat_mult_u128 v0_def)
  have "beta * unat r + u0 < beta * (unat r + 1)" using bounds(2) by simp
  also have "\<dots> \<le> beta * beta" using inv(2) by (intro mult_le_mono2) simp
  finally have less: "beta * unat r + u0 < beta * beta" .
  then have "unat (push_bit 64 1 :: u128) * unat r < beta * beta"
    unfolding unat_base by linarith
  from unat_mult_u128 [OF this] have "unat (push_bit 64 1 * r) = beta * unat r"
    unfolding unat_base .
  with less have right: "unat (push_bit 64 1 * r + third) = beta * unat r + u0"
    by (simp only: unat_add_u128 u0_def)
  have cond: "(q = push_bit 64 1 \<or> push_bit 64 1 * r + third < q * dn) \<longleftrightarrow>
      unat q = beta \<or> beta * unat r + u0 < unat q * v0"
    by (simp only: word_less_nat_alt left right word_unat_eq_iff unat_base)
  show ?case
  proof (cases "unat q = beta \<or> beta * unat r + u0 < unat q * v0")
    case False
    then have "unat q < beta"
      using inv U bounds by (intro trial_small [of "unat q" v1 "unat r" U beta v0 u0]) auto
    moreover have "unat q * (v1 * beta + v0) \<le> U * beta + u0"
      using False inv(1) by (simp add: algebra_simps flip: inv(1))
    moreover have "correct_trial dh dn third q r = Some q"
      unfolding correct_trial.simps [of dh dn third q r] cond using False by (simp only: if_False)
    ultimately show ?thesis using inv(4) by (intro less.prems(1) [of q])
  next
    case True
    then have pos: "1 \<le> unat q" and dq: "d \<le> unat q - 1"
      using d low [rule_format, OF inv(1)] by (auto intro: Suc_leI gr_zeroI)
    have q1: "unat (q - 1) = unat q - 1" using pos by (simp add: unat_sub word_le_nat_alt)
    have r1: "unat (r + dh) = unat r + v1"
    proof -
      have "unat r + v1 < beta + beta" using inv(2) bounds(3) by simp
      also have "\<dots> \<le> beta * beta" by (simp add: beta_def)
      finally show ?thesis by (simp add: unat_add_u128 v1_def)
    qed
    have inv1: "unat (q - 1) * v1 + unat (r + dh) = U"
      using inv(1) pos by (simp add: q1 r1 diff_mult_distrib)
    have break: "push_bit 64 1 \<le> r + dh \<longleftrightarrow> beta \<le> unat (r + dh)"
      by (simp only: word_le_nat_alt unat_base)
    show ?thesis
    proof (cases "beta \<le> unat (r + dh)")
      case exit: True
      have small: "unat (q - 1) < beta"
        by (rule trial_break_small [OF inv1 U exit bounds(1)])
      have "unat (q - 1) * v0 \<le> beta * beta"
        using small bounds(1) by (intro mult_le_mono) simp_all
      also have "\<dots> \<le> unat (r + dh) * beta" using exit by (rule mult_le_mono1)
      finally have "unat (q - 1) * (v1 * beta + v0) \<le> U * beta + u0"
        by (simp add: algebra_simps flip: inv1)
      moreover have "correct_trial dh dn third q r = Some (q - 1)"
        unfolding correct_trial.simps [of dh dn third q r] cond break
        using True exit by (simp only: if_True)
      ultimately show ?thesis using dq q1 small by (intro less.prems(1) [of "q - 1"]) simp_all
    next
      case again: False
      have less': "beta - unat (r + dh) < beta - unat r" using r1 bounds(4) inv(2) by linarith
      have inv': "unat (r + dh) < beta" "unat (q - 1) \<le> beta + 1" "d \<le> unat (q - 1)"
        using again q1 inv(3) dq by linarith+
      obtain q' where "correct_trial dh dn third (q - 1) (r + dh) = Some q'" "d \<le> unat q'"
        "unat q' < beta" "unat q' * (v1 * beta + v0) \<le> U * beta + u0"
        using less.hyps [OF less' _ inv1 inv'] by blast
      moreover have "correct_trial dh dn third q r = correct_trial dh dn third (q - 1) (r + dh)"
        unfolding correct_trial.simps [of dh dn third q r] cond break
        using True again by (simp only: if_True if_False)
      ultimately show ?thesis by (intro less.prems(1) [of q']) simp_all
    qed
  qed
qed

section \<open>Subtracting a multiple of the divisor in place\<close>

lemma val_take_Suc_drop:
  assumes "p < length U"
  shows "val (take (Suc k) (drop p U)) = unat (U ! p) + beta * val (take k (drop (Suc p) U))"
  using assms by (simp add: Cons_nth_drop_Suc [symmetric])

lemma val_take_snoc:
  assumes "p + k < length U"
  shows "val (take (Suc k) (drop p U)) = val (take k (drop p U)) + beta ^ k * unat (U ! (p + k))"
  using assms by (simp add: take_Suc_conv_app_nth)

lemma val_take_update:
  assumes "p + k < length U"
  shows "val (take (Suc k) (drop p (U[p + k := h]))) = val (take k (drop p U)) + beta ^ k * unat h"
proof -
  have "take k (drop p (U[p + k := h])) = take k (drop p U)" by (simp add: drop_update_swap)
  with val_take_snoc [of p k "U[p + k := h]"] assms show ?thesis by simp
qed

lemma product_step:
  assumes "unat pc < beta"
  shows "unat (widen q * widen v + pc) = unat q * unat v + unat pc"
    and "unat q * unat v + unat pc < beta * beta"
proof -
  have "unat q * unat v \<le> (beta - 1) * (beta - 1)"
    by (intro mult_le_mono unat_limb_le)
  then have "unat q * unat v + unat pc < (beta - 1) * (beta - 1) + beta" using assms by linarith
  also have "\<dots> \<le> beta * beta" by (simp add: beta_def)
  finally show less: "unat q * unat v + unat pc < beta * beta" .
  then show "unat (widen q * widen v + pc) = unat q * unat v + unat pc"
    by (simp add: unat_add_u128 unat_widen_mult)
qed

lemma subtract_products_val:
  assumes "p + length vs \<le> length U" "unat pc < beta" "unat br \<le> 1"
  obtains U' pc' br' where "subtract_products U p vs q pc br = (U', pc', br')"
    "length U' = length U" "take p U' = take p U" "drop (p + length vs) U' = drop (p + length vs) U"
    "int (val (take (length vs) (drop p U'))) =
       int (val (take (length vs) (drop p U))) - int (unat q * val vs) - int (unat pc) - int (unat br)
       + int (beta ^ length vs) * (int (unat pc') + int (unat br'))"
    "unat pc' < beta" "unat br' \<le> 1"
  using assms
proof (induction vs arbitrary: U p pc br thesis)
  case Nil
  then show ?case by (intro Nil.prems(1) [of U pc br]) simp_all
next
  case (Cons v vs)
  let ?product = "widen q * widen v + pc"
  obtain d br1 where sub: "sub_limb (U ! p) (low_limb ?product) br = (d, br1)" by fastforce
  note step = sub_limb_val [OF sub Cons.prems(4)]
  note product = product_step [OF Cons.prems(3), of q v]
  have pc1: "unat (high_part ?product) < beta"
    using product by (simp add: unat_high_part less_mult_imp_div_less)
  have len: "Suc p + length vs \<le> length (U[p := d])" using Cons.prems(2) by simp
  obtain U' pc' br' where IH: "subtract_products (U[p := d]) (Suc p) vs q (high_part ?product) br1 = (U', pc', br')"
    "length U' = length (U[p := d])" "take (Suc p) U' = take (Suc p) (U[p := d])"
    "drop (Suc p + length vs) U' = drop (Suc p + length vs) (U[p := d])"
    "int (val (take (length vs) (drop (Suc p) U'))) =
       int (val (take (length vs) (drop (Suc p) (U[p := d])))) - int (unat q * val vs)
       - int (unat (high_part ?product)) - int (unat br1)
       + int (beta ^ length vs) * (int (unat pc') + int (unat br'))"
    "unat pc' < beta" "unat br' \<le> 1"
    using Cons.IH [OF _ len pc1 step(3)] by blast
  have p: "p < length U" using Cons.prems(2) by simp
  have nth: "U' ! p = d"
    using arg_cong [OF IH(3), of "\<lambda>xs. xs ! p"] p by simp
  have before: "take p U' = take p U"
    using arg_cong [OF IH(3), of "take p"] by simp
  have split: "int (unat (low_limb ?product)) + int beta * int (unat (high_part ?product)) =
      int (unat q) * int (unat v) + int (unat pc)"
    unfolding unat_low_limb unat_high_part product(1)
    by (simp only: of_nat_mult [symmetric] of_nat_add [symmetric] mod_mult_div_eq)
  have "int (val (take (length (v # vs)) (drop p U'))) =
      int (unat d) + int beta * int (val (take (length vs) (drop (Suc p) U')))"
    using p IH(2) nth by (simp add: val_take_Suc_drop del: take_Suc of_nat_unat)
  also have "\<dots> = int (val (take (length (v # vs)) (drop p U))) - int (unat q * val (v # vs))
      - int (unat pc) - int (unat br) + int (beta ^ length (v # vs)) * (int (unat pc') + int (unat br'))"
    using step(2) split p unfolding IH(5)
    by (simp add: val_take_Suc_drop algebra_simps del: of_nat_unat)
  finally show ?case
    using IH before sub by (intro Cons.prems(1) [of U' pc' br']) (simp_all add: Let_def)
qed

lemma subtract_divisor_product_val:
  assumes "offset + length vs < length U"
  defines "n \<equiv> length vs"
  defines "W \<equiv> val (take (Suc n) (drop offset U))"
  obtains U' where
    "subtract_divisor_product U offset vs q = (U', W < unat q * val vs)"
    "length U' = length U" "take offset U' = take offset U"
    "int (val (take (Suc n) (drop offset U'))) =
       int W - int (unat q * val vs) + (if W < unat q * val vs then int (beta ^ Suc n) else 0)"
proof -
  have len: "offset + length vs \<le> length U" using assms(1) by simp
  obtain D pc br where sub: "subtract_products U offset vs q 0 0 = (D, pc, br)"
    "length D = length U" "take offset D = take offset U" "drop (offset + n) D = drop (offset + n) U"
    "int (val (take n (drop offset D))) =
       int (val (take n (drop offset U))) - int (unat q * val vs)
       + int (beta ^ n) * (int (unat pc) + int (unat br))"
    "unat pc < beta" "unat br \<le> 1"
    using subtract_products_val [OF len, of 0 0 q] by (auto simp: n_def)
  let ?high = "D ! (offset + n)" and ?s = "unat pc + unat br"
  have high: "?high = U ! (offset + n)"
    using arg_cong [OF sub(4), of hd] assms(1) sub(2) by (simp add: hd_drop_conv_nth n_def)
  have s: "unat (pc + widen br) = ?s"
  proof -
    have "?s < beta + 2" using sub(6,7) by linarith
    also have "\<dots> \<le> beta * beta" by (simp add: beta_def)
    finally show ?thesis by (simp add: unat_add_u128)
  qed
  have W: "int W = int (val (take n (drop offset U))) + int (beta ^ n) * int (unat ?high)"
    using assms(1) by (simp add: W_def n_def val_take_snoc high [unfolded n_def] del: take_Suc of_nat_unat)
  have low: "val (take n (drop offset D)) < beta ^ n"
    using val_bound [of "take n (drop offset D)"] sub(2) assms(1) by (simp add: n_def)
  have total: "int W - int (unat q * val vs) =
      int (val (take n (drop offset D))) + int (beta ^ n) * (int (unat ?high) - int ?s)"
    using W sub(5) by (simp add: algebra_simps del: of_nat_unat)
  have result: "int (val (take (Suc n) (drop offset (D[offset + n := h])))) =
      int (val (take n (drop offset D))) + int (beta ^ n) * int (unat h)" for h
    using val_take_update [of offset n D h] assms(1) sub(2) by (simp add: n_def del: take_Suc of_nat_unat)
  show ?thesis
  proof (cases "?s \<le> unat ?high")
    case True
    then have "0 \<le> int (unat ?high) - int ?s" by linarith
    then have "0 \<le> int (beta ^ n) * (int (unat ?high) - int ?s)" by (intro mult_nonneg_nonneg) linarith
    then have nonneg: "\<not> W < unat q * val vs" using total by linarith
    have "unat (low_limb (widen ?high - (pc + widen br))) = unat ?high - ?s"
    proof -
      have "unat (widen ?high - (pc + widen br)) = unat ?high - ?s"
        using True by (simp add: unat_sub word_le_nat_alt s)
      moreover have "unat ?high - ?s < beta" using unat_limb [of ?high] by linarith
      ultimately show ?thesis by (simp add: unat_low_limb)
    qed
    then show ?thesis
      using True nonneg sub(1-3) total
      by (intro that [of "D[offset + n := low_limb (widen ?high - (pc + widen br))]"])
        (simp_all add: subtract_divisor_product_def result word_le_nat_alt s n_def [symmetric] of_nat_diff Let_def del: take_Suc of_nat_unat)
  next
    case False
    then have "int (unat ?high) - int ?s \<le> - 1" by linarith
    then have "int (beta ^ n) * (int (unat ?high) - int ?s) \<le> int (beta ^ n) * (- 1)"
      by (intro mult_left_mono) linarith+
    then have neg: "W < unat q * val vs" using total low by linarith
    define h where "h = low_limb (push_bit 64 1 + widen ?high - (pc + widen br))"
    have s_le: "?s \<le> beta + unat ?high" using sub(6,7) by linarith
    have "unat h = beta + unat ?high - ?s"
    proof -
      have "beta + unat ?high < beta + beta" by simp
      also have "\<dots> \<le> beta * beta" by (simp add: beta_def)
      finally have "unat (push_bit 64 1 + widen ?high) = beta + unat ?high"
        by (simp add: unat_add_u128 unat_base del: push_bit_of_1)
      with s_le have "unat (push_bit 64 1 + widen ?high - (pc + widen br)) = beta + unat ?high - ?s"
        by (simp add: unat_sub word_le_nat_alt s)
      moreover have "beta + unat ?high - ?s < beta" using False beta_pos(1) by linarith
      ultimately show ?thesis by (simp add: unat_low_limb h_def)
    qed
    with s_le have h: "int (unat h) = int beta + (int (unat ?high) - int ?s)" by linarith
    have "int (val (take (Suc n) (drop offset (D[offset + n := h])))) =
        int (val (take n (drop offset D))) + int (beta ^ n) * (int (unat ?high) - int ?s)
        + int (beta ^ n) * int beta"
      unfolding result h by (simp only: distrib_left add.assoc add.commute)
    also have "\<dots> = int W - int (unat q * val vs) + int (beta ^ Suc n)"
      unfolding total by simp
    finally have "int (val (take (Suc n) (drop offset (D[offset + n := h])))) =
        int W - int (unat q * val vs) + int (beta ^ Suc n)" .
    moreover have "subtract_divisor_product U offset vs q = (D[offset + n := h], True)"
      using False sub(1)
      by (simp add: subtract_divisor_product_def h_def word_le_nat_alt s Let_def n_def [symmetric])
    ultimately show ?thesis
      using neg sub(2,3) by (intro that [of "D[offset + n := h]"]) simp_all
  qed
qed

section \<open>Adding the divisor back\<close>

lemma add_back_limbs_val:
  assumes "p + length vs \<le> length U" "unat c \<le> beta"
  obtains U' c' where "add_back_limbs U p vs c = (U', c')"
    "length U' = length U" "take p U' = take p U" "drop (p + length vs) U' = drop (p + length vs) U"
    "val (take (length vs) (drop p U')) + beta ^ length vs * unat c' =
       val (take (length vs) (drop p U)) + val vs + unat c"
    "unat c' \<le> beta"
  using assms
proof (induction vs arbitrary: U p c thesis)
  case Nil
  then show ?case by (intro Nil.prems(1) [of U c]) simp_all
next
  case (Cons v vs)
  let ?sum = "widen (U ! p) + widen v + c"
  let ?U = "U[p := low_limb ?sum]"
  have sum: "unat ?sum = unat (U ! p) + unat v + unat c" by (rule unat_carry_sum [OF Cons.prems(3)])
  have c1: "unat (high_part ?sum) \<le> beta"
    using carry_bound [OF Cons.prems(3), of "unat (U ! p)" "unat v"] by (simp add: unat_high_part sum)
  have len: "Suc p + length vs \<le> length ?U" using Cons.prems(2) by simp
  obtain U' c' where IH: "add_back_limbs ?U (Suc p) vs (high_part ?sum) = (U', c')"
    "length U' = length ?U" "take (Suc p) U' = take (Suc p) ?U"
    "drop (Suc p + length vs) U' = drop (Suc p + length vs) ?U"
    "val (take (length vs) (drop (Suc p) U')) + beta ^ length vs * unat c' =
       val (take (length vs) (drop (Suc p) ?U)) + val vs + unat (high_part ?sum)"
    "unat c' \<le> beta"
    using Cons.IH [OF _ len c1] by blast
  have p: "p < length U" using Cons.prems(2) by simp
  have nth: "U' ! p = low_limb ?sum"
    using arg_cong [OF IH(3), of "\<lambda>xs. xs ! p"] p by simp
  have before: "take p U' = take p U"
    using arg_cong [OF IH(3), of "take p"] by simp
  have "val (take (length (v # vs)) (drop p U')) + beta ^ length (v # vs) * unat c' =
      unat (low_limb ?sum) + beta * (val (take (length vs) (drop (Suc p) U')) + beta ^ length vs * unat c')"
    using p IH(2) nth by (simp add: val_take_Suc_drop algebra_simps del: take_Suc)
  also have "\<dots> = (unat ?sum mod beta + beta * (unat ?sum div beta)) +
      beta * (val (take (length vs) (drop (Suc p) U)) + val vs)"
    unfolding IH(5) by (simp add: unat_low_limb unat_high_part algebra_simps)
  also have "\<dots> = val (take (length (v # vs)) (drop p U)) + val (v # vs) + unat c"
    using p unfolding mod_mult_div_eq sum by (simp add: val_take_Suc_drop algebra_simps)
  finally show ?case
    using IH before by (intro Cons.prems(1) [of U' c']) (simp_all add: Let_def)
qed

lemma add_divisor_back_val:
  assumes "offset + length vs < length U"
  defines "n \<equiv> length vs"
  shows "length (add_divisor_back U offset vs) = length U"
    and "take offset (add_divisor_back U offset vs) = take offset U"
    and "val (take (Suc n) (drop offset (add_divisor_back U offset vs))) =
           (val (take (Suc n) (drop offset U)) + val vs) mod beta ^ Suc n"
proof -
  have len: "offset + length vs \<le> length U" using assms(1) by simp
  obtain D c where add: "add_back_limbs U offset vs 0 = (D, c)"
    "length D = length U" "take offset D = take offset U" "drop (offset + n) D = drop (offset + n) U"
    "val (take n (drop offset D)) + beta ^ n * unat c = val (take n (drop offset U)) + val vs"
    "unat c \<le> beta"
    using add_back_limbs_val [OF len, of 0] by (auto simp: n_def)
  have eq: "add_divisor_back U offset vs = D[offset + n := D ! (offset + n) + low_limb c]"
    by (simp add: add_divisor_back_def add(1) n_def Let_def)
  show "length (add_divisor_back U offset vs) = length U"
    and "take offset (add_divisor_back U offset vs) = take offset U"
    using add by (simp_all add: eq)
  have high: "D ! (offset + n) = U ! (offset + n)"
    using arg_cong [OF add(4), of hd] assms(1) add(2) by (simp add: hd_drop_conv_nth n_def)
  let ?lo = "val (take n (drop offset D))"
  have lo: "?lo < beta ^ n"
    using val_bound [of "take n (drop offset D)"] add(2) assms(1) by (simp add: n_def)
  have "unat (D ! (offset + n) + low_limb c) = (unat (U ! (offset + n)) + unat c) mod beta"
    by (simp add: high unat_word_ariths unat_low_limb beta_def mod_add_right_eq)
  then have "val (take (Suc n) (drop offset (add_divisor_back U offset vs))) =
      ?lo + beta ^ n * ((unat (U ! (offset + n)) + unat c) mod beta)"
    using val_take_update [of offset n D] assms(1) add(2) by (simp add: eq n_def)
  also have "\<dots> = (?lo + beta ^ n * (unat (U ! (offset + n)) + unat c)) mod beta ^ Suc n"
    using lo by (simp only: power_Suc2 mod_mult2_eq) simp
  also have "?lo + beta ^ n * (unat (U ! (offset + n)) + unat c) =
      val (take (Suc n) (drop offset U)) + val vs"
    using add(5) val_take_snoc [of offset n U] assms(1) by (simp add: algebra_simps n_def del: take_Suc)
  finally show "val (take (Suc n) (drop offset (add_divisor_back U offset vs))) =
      (val (take (Suc n) (drop offset U)) + val vs) mod beta ^ Suc n" .
qed

section \<open>One digit\<close>

text \<open>The two leading limbs of the divisor and the three leading limbs of the window.\<close>

lemma val_top2:
  assumes "2 \<le> length vs"
  shows "val vs = val (take (length vs - 2) vs) + beta ^ (length vs - 2) *
           (unat (vs ! (length vs - 1)) * beta + unat (vs ! (length vs - 2)))"
proof -
  obtain m where m: "length vs = Suc (Suc m)" using assms by (metis add_2_eq_Suc le_Suc_ex)
  have "vs = take (Suc (Suc m)) vs" by (simp add: m)
  also have "\<dots> = take m vs @ [vs ! m, vs ! Suc m]" by (simp only: take_Suc_conv_app_nth m lessI less_SucI) simp
  finally have "vs = take (length vs - 2) vs @ [vs ! (length vs - 2), vs ! (length vs - 1)]"
    by (simp only: m) simp
  then have "val vs = val (take (length vs - 2) vs @ [vs ! (length vs - 2), vs ! (length vs - 1)])"
    by (rule arg_cong)
  then show ?thesis by (simp add: algebra_simps)
qed

lemma val_top3:
  assumes "offset + n < length U" "2 \<le> n"
  defines "W \<equiv> val (take (Suc n) (drop offset U))"
  shows "W = val (take (n - 2) (drop offset U)) + beta ^ (n - 2) *
           ((unat (U ! (offset + n)) * beta + unat (U ! (offset + n - 1))) * beta
             + unat (U ! (offset + n - 2)))"
proof -
  obtain m where n: "n = Suc (Suc m)" using assms(2) by (metis add_2_eq_Suc le_Suc_ex)
  have "W = val (take m (drop offset U)) + beta ^ m * unat (U ! (offset + m)) +
      beta ^ Suc m * unat (U ! (offset + Suc m)) + beta ^ Suc (Suc m) * unat (U ! (offset + n))"
    using assms(1) unfolding W_def n by (simp only: val_take_snoc)
  then show ?thesis by (simp add: n algebra_simps)
qed

lemma divide_digit_val:
  assumes len: "offset + length vs < length U" "2 \<le> length vs"
    and norm: "beta \<le> 2 * unat (vs ! (length vs - 1))"
  defines "W \<equiv> val (take (Suc (length vs)) (drop offset U))" and "V \<equiv> val vs"
  assumes W: "W < beta * V"
  obtains U' digit where "divide_digit U offset vs = Some (U', digit)"
    "unat digit = W div V" "val (take (Suc (length vs)) (drop offset U')) = W mod V"
    "length U' = length U" "take offset U' = take offset U"
proof -
  let ?n = "length vs"
  let ?P = "beta ^ (?n - 2)" and ?v1 = "unat (vs ! (?n - 1))" and ?v0 = "unat (vs ! (?n - 2))"
  let ?u2 = "U ! (offset + ?n)" and ?u1 = "U ! (offset + ?n - 1)" and ?u0 = "U ! (offset + ?n - 2)"
  let ?num = "push_bit 64 (widen ?u2) OR widen ?u1"
  let ?dh = "widen (vs ! (?n - 1))" and ?dn = "widen (vs ! (?n - 2))"
  let ?U = "unat ?u2 * beta + unat ?u1"
  define vtop where "vtop = ?v1 * beta + ?v0"
  define top where "top = ?U * beta + unat ?u0"
  have v1: "0 < ?v1" using norm by (cases ?v1) auto
  have num: "unat ?num = ?U" by (simp add: unat_join)
  have V: "V = val (take (?n - 2) vs) + ?P * vtop" "val (take (?n - 2) vs) < ?P"
    using val_top2 [OF len(2)] val_bound [of "take (?n - 2) vs"] by (simp_all add: V_def vtop_def)
  have Wtop: "W = val (take (?n - 2) (drop offset U)) + ?P * top"
    "val (take (?n - 2) (drop offset U)) < ?P"
    using val_top3 [OF len] val_bound [of "take (?n - 2) (drop offset U)"] len
    by (simp_all add: W_def top_def)
  have Vpos: "0 < V" using W by (cases V) auto
  have bounds: "vtop * ?P \<le> V" "V \<le> (vtop + 1) * ?P" "top * ?P \<le> W" "W < (top + 1) * ?P"
    using V Wtop by (simp_all add: algebra_simps)
  have "top * ?P < (vtop + 1) * beta * ?P"
    using bounds(3) W mult_le_mono2 [OF bounds(2), of beta] by (simp add: algebra_simps)
  then have "?U * beta < (vtop + 1) * beta" by (simp add: top_def)
  then have "?U < vtop + 1" by (rule mult_less_cancel2 [THEN iffD1, THEN conjunct2])
  then have U: "?U \<le> ?v1 * beta + ?v0" by (simp add: vtop_def)
  have "W div V < q" if "q * ?v1 + r = ?U" "beta * r + unat ?u0 < q * ?v0" for q r
  proof (rule trial_too_large [OF _ bounds(4,1) Vpos])
    have "top = q * ?v1 * beta + (beta * r + unat ?u0)"
      unfolding top_def that(1) [symmetric] by (simp add: algebra_simps)
    also have "\<dots> < q * ?v1 * beta + q * ?v0" using that(2) by simp
    finally show "top < q * vtop" by (simp add: vtop_def algebra_simps)
  qed
  then have digit: "\<forall>q r. q * ?v1 + r = ?U \<longrightarrow> beta * r + unat ?u0 < q * ?v0 \<longrightarrow> W div V < q"
    by blast
  have small: "W div V < beta" using W Vpos by (simp add: div_less_iff_less_mult)
  have start: "unat (?num div ?dh) * ?v1 + unat (?num mod ?dh) = ?U"
    unfolding unat_div unat_mod unat_widen num by (rule div_mult_mod_eq)
  have rem: "unat (?num mod ?dh) < ?v1" using v1 by (simp add: unat_mod)
  then have rem_less: "unat (?num mod ?dh) < beta" using unat_limb [of "vs ! (?n - 1)"] by linarith
  have at_most: "unat (?num div ?dh) \<le> beta + 1"
  proof -
    have "?v0 < 2 * ?v1" using norm unat_limb [of "vs ! (?n - 2)"] by linarith
    then have "?U < ?v1 * beta + ?v1 * 2" using U by linarith
    then have "?U < ?v1 * (beta + 2)" by (simp only: distrib_left)
    then have "?U div ?v1 < beta + 2" using v1 by (simp add: div_less_iff_less_mult mult.commute)
    then show ?thesis unfolding unat_div unat_widen num by simp
  qed
  have initial: "W div V \<le> unat (?num div ?dh)"
  proof -
    have "?U < (unat (?num div ?dh) + 1) * ?v1" using start rem by simp
    from trial_initial [OF this unat_limb] have "top < (unat (?num div ?dh) + 1) * vtop"
      unfolding top_def vtop_def .
    from trial_too_large [OF this bounds(4,1) Vpos] show ?thesis by simp
  qed
  obtain q where q: "correct_trial ?dh ?dn (widen ?u0) (?num div ?dh) (?num mod ?dh) = Some q"
    "W div V \<le> unat q" "unat q < beta" "unat q * vtop \<le> top"
    using correct_trial_returns [where dh = ?dh and dn = ?dn and third = "widen ?u0", unfolded unat_widen,
        OF start rem_less at_most initial U small unat_limb unat_limb unat_limb v1 digit,
        folded vtop_def top_def]
    by blast
  have "beta * ?P \<le> vtop * ?P" using v1 by (intro mult_le_mono1) (simp add: vtop_def trans_le_add1)
  then have q_le: "unat q \<le> W div V + 1"
    using trial_almost_exact [OF q(4) bounds(3,2) _ _ Vpos] bounds(1) q(3) by simp
  let ?q = "low_limb q"
  have ql: "unat ?q = unat q" using q(3) by (simp add: unat_low_limb)
  obtain U1 where U1: "subtract_divisor_product U offset vs ?q = (U1, W < unat q * V)"
    "length U1 = length U" "take offset U1 = take offset U"
    "int (val (take (Suc ?n) (drop offset U1))) =
       int W - int (unat q * V) + (if W < unat q * V then int (beta ^ Suc ?n) else 0)"
    using subtract_divisor_product_val [OF len(1), of ?q] by (auto simp: ql W_def V_def)
  show ?thesis
  proof (cases "unat q = W div V")
    case True
    then have nonneg: "\<not> W < unat q * V"
      using div_times_less_eq_dividend [of W V] by (simp only: not_less)
    then have "val (take (Suc ?n) (drop offset U1)) = W mod V"
      using U1(4) True by (simp add: minus_div_mult_eq_mod flip: of_nat_diff of_nat_mult)
    with nonneg True show ?thesis
      using q(1) U1 ql by (intro that [of U1 ?q]) (simp_all add: divide_digit_def Let_def)
  next
    case False
    then have q1: "unat q = W div V + 1" using q(2) q_le by simp
    have lt: "W < unat q * V"
      using Vpos dividend_less_div_times [of V W] by (simp add: q1)
    have val1: "val (take (Suc ?n) (drop offset U1)) + V = W mod V + beta ^ Suc ?n"
    proof -
      have "int (val (take (Suc ?n) (drop offset U1))) + int V = int W - int (W div V * V) + int (beta ^ Suc ?n)"
        using U1(4) lt by (simp add: q1 algebra_simps)
      also have "\<dots> = int (W mod V + beta ^ Suc ?n)"
        by (simp only: of_nat_add of_nat_diff [symmetric] div_times_less_eq_dividend minus_div_mult_eq_mod)
      finally show ?thesis by linarith
    qed
    have len1: "offset + length vs < length U1" using len(1) U1(2) by simp
    have "W mod V < beta ^ Suc ?n"
    proof -
      have "W mod V < V" using Vpos by simp
      also have "V < beta ^ ?n" unfolding V_def by (rule val_bound)
      also have "\<dots> \<le> beta ^ Suc ?n" by simp
      finally show ?thesis .
    qed
    then have "val (take (Suc ?n) (drop offset (add_divisor_back U1 offset vs))) = W mod V"
      using add_divisor_back_val(3) [OF len1] val1 by (simp add: V_def del: power_Suc)
    moreover have "unat (?q - 1) = W div V"
      using q1 ql by (simp add: unat_sub word_le_nat_alt)
    ultimately show ?thesis
      using q(1) U1 lt add_divisor_back_val(1,2) [OF len1]
      by (intro that [of "add_divisor_back U1 offset vs" "?q - 1"]) (simp_all add: divide_digit_def Let_def)
  qed
qed

section \<open>All digits\<close>

text \<open>
  Long division: with the remainder of the high part in the window at \<open>k\<close>, the loop over the offsets
  below \<open>k\<close> writes the digits of the quotient there and leaves the remainder in the low limbs.
\<close>

lemma long_division_step:
  fixes N V k :: nat
  assumes "0 < V"
  defines "W \<equiv> N div beta ^ k mod beta + beta * (N div beta ^ Suc k mod V)"
  shows "W < beta * V" "W mod V = N div beta ^ k mod V" "W div V = N div V div beta ^ k mod beta"
proof -
  let ?M = "N div beta ^ Suc k"
  have "?M mod V + 1 \<le> V" using assms(1) by (simp add: Suc_le_eq)
  then have "beta * (?M mod V + 1) \<le> beta * V" by (rule mult_le_mono2)
  moreover have "W < beta * (?M mod V + 1)" by (simp add: W_def)
  ultimately show less: "W < beta * V" by linarith
  have "beta * ?M = beta * (?M mod V + ?M div V * V)" by (simp only: mod_div_mult_eq)
  moreover have "N div beta ^ k = N div beta ^ k mod beta + beta * ?M"
    by (simp only: div_power_Suc mod_mult_div_eq)
  ultimately have eq: "N div beta ^ k = W + beta * (?M div V) * V"
    by (simp only: W_def distrib_left mult.assoc add.assoc)
  then show "W mod V = N div beta ^ k mod V" by simp
  have "N div V div beta ^ k = N div beta ^ k div V"
    by (simp add: div_mult2_eq [symmetric] mult.commute)
  also have "\<dots> = W div V + beta * (?M div V)" unfolding eq using assms(1) by simp
  finally show "W div V = N div V div beta ^ k mod beta"
    using less by (simp add: less_mult_imp_div_less)
qed

lemma divide_digits_val:
  fixes U0 vs :: "limb list"
  defines "n \<equiv> length vs" and "V \<equiv> val vs" and "N \<equiv> val U0"
  assumes norm: "2 \<le> n" "beta \<le> 2 * unat (vs ! (n - 1))" "0 < V"
    and "length U = length U0" "take k U = take k U0" "k + n \<le> length U"
    and "val (take n (drop k U)) = N div beta ^ k mod V"
    and "length quot = ql" "k \<le> ql"
    and "\<And>j. k \<le> j \<Longrightarrow> j < ql \<Longrightarrow> unat (quot ! j) = N div V div beta ^ j mod beta"
  obtains U' quot' where "divide_digits U vs k quot = Some (U', quot')"
    "length U' = length U0" "val (take n U') = N mod V" "length quot' = ql"
    "\<And>j. j < ql \<Longrightarrow> unat (quot' ! j) = N div V div beta ^ j mod beta"
  using assms(7-)
proof (induction k arbitrary: U quot thesis)
  case 0
  then show ?case by (intro "0.prems"(1) [of U quot]) simp_all
next
  case (Suc k)
  let ?W = "val (take (Suc n) (drop k U))"
  have k: "k < length U" "k + length vs < length U" using Suc.prems(4) norm(1) by (simp_all add: n_def)
  have "U ! k = U0 ! k" using arg_cong [OF Suc.prems(3), of "\<lambda>xs. xs ! k"] by simp
  then have W: "?W = N div beta ^ k mod beta + beta * (N div beta ^ Suc k mod V)"
    using k Suc.prems(2,5) by (simp only: val_take_Suc_drop) (simp add: nth_val N_def)
  note step = long_division_step [OF norm(3), where N = N and k = k, folded W]
  obtain U1 digit where digit: "divide_digit U k vs = Some (U1, digit)"
    "unat digit = ?W div V" "val (take (Suc n) (drop k U1)) = ?W mod V"
    "length U1 = length U" "take k U1 = take k U"
    using divide_digit_val [OF k(2), folded n_def V_def, OF norm(1,2) step(1)] by blast
  have "?W mod V < beta ^ n"
    using norm(3) mod_less_divisor [of V ?W] val_bound [of vs] by (simp add: n_def V_def del: mod_less_divisor)
  then have rem: "val (take n (drop k U1)) = N div beta ^ k mod V"
    using arg_cong [OF digit(3), of "\<lambda>x. x mod beta ^ n"] step(2)
    by (simp add: val_take [symmetric] min_def)
  have same: "take k U1 = take k U0"
    using digit(5) arg_cong [OF Suc.prems(3), of "take k"] by simp
  let ?quot = "quot[k := digit]"
  have lens: "length U1 = length U0" "k + n \<le> length U1" "length ?quot = ql" "k \<le> ql"
    using digit(4) Suc.prems(2,4,6,7) by simp_all
  have "unat (?quot ! j) = N div V div beta ^ j mod beta" if "k \<le> j" "j < ql" for j
    using that Suc.prems(6) Suc.prems(8) [of j] digit(2) step(3) by (cases "j = k") auto
  then obtain U' quot' where "divide_digits U1 vs k ?quot = Some (U', quot')"
    "length U' = length U0" "val (take n U') = N mod V" "length quot' = ql"
    "\<And>j. j < ql \<Longrightarrow> unat (quot' ! j) = N div V div beta ^ j mod beta"
    using Suc.IH [OF _ lens(1) same lens(2) rem lens(3,4)] by blast
  then show ?case using digit(1) by (intro Suc.prems(1) [of U' quot']) simp_all
qed

section \<open>Shifts of whole magnitudes\<close>

lemma split_beta: "s \<le> 64 \<Longrightarrow> 2 ^ s * 2 ^ (64 - s) = beta"
  by (simp add: beta_def flip: power_add)

lemma unat_push_or:
  assumes "s \<le> 64" "unat c < 2 ^ s"
  shows "unat (push_bit s x OR c :: limb) = (unat x * 2 ^ s) mod beta + unat c"
proof -
  have "unat (push_bit s x) = (unat x * 2 ^ s) mod beta"
    by (simp only: unsigned_push_bit_eq) (simp add: push_bit_eq_mult take_bit_eq_mod beta_def)
  also have "\<dots> = unat x mod 2 ^ (64 - s) * 2 ^ s"
    by (simp only: split_beta [OF assms(1), symmetric] mult.commute [of "unat x"] mod_mult_mult1 mult.commute [of "2 ^ s" "unat x mod _"])
  finally have eq: "unat (push_bit s x) = unat x mod 2 ^ (64 - s) * 2 ^ s" .
  have "unat (push_bit s x OR c) = push_bit s (unat x mod 2 ^ (64 - s)) OR unat c"
    unfolding unsigned_or_eq eq by (simp only: push_bit_eq_mult)
  also have "\<dots> = unat x mod 2 ^ (64 - s) * 2 ^ s + unat c" by (rule or_disjoint [OF assms(2)])
  finally show ?thesis
    using \<open>(unat x * 2 ^ s) mod beta = unat x mod 2 ^ (64 - s) * 2 ^ s\<close> by simp
qed

lemma unat_drop: "unat (drop_bit s x :: limb) = unat x div 2 ^ s"
  using unat_limb [of x]
  by (simp only: unsigned_drop_bit_eq) (simp add: drop_bit_eq_div take_bit_nat_eq_self beta_def)

lemma shift_left_out: "shift_left_limbs xs s c out = (out @ fst (shift_left_limbs xs s c []), snd (shift_left_limbs xs s c []))"
proof (induction xs arbitrary: c out)
  case (Cons x xs)
  show ?case by (subst (1 2 3) shift_left_limbs.simps, subst (1 2 3) Cons) simp
qed simp

lemma shift_left_val:
  assumes "0 < s" "s < 64" "unat c < 2 ^ s"
  obtains out c' where "shift_left_limbs xs s c [] = (out, c')" "length out = length xs"
    "val out + beta ^ length xs * unat c' = val xs * 2 ^ s + unat c" "unat c' < 2 ^ s"
  using assms(3)
proof (induction xs arbitrary: c thesis)
  case Nil
  then show ?case by (intro Nil.prems(1) [of "[]" c]) simp_all
next
  case (Cons x xs)
  have "unat x < 2 ^ s * 2 ^ (64 - s)" using split_beta [of s] assms(2) by simp
  then have carry: "unat (drop_bit (64 - s) x) < 2 ^ s"
    by (simp add: unat_drop less_mult_imp_div_less)
  have digit: "unat (push_bit s x OR c) + beta * unat (drop_bit (64 - s) x) = unat x * 2 ^ s + unat c"
  proof -
    have "unat x * 2 ^ s div beta = unat x div 2 ^ (64 - s)"
      using assms(2) by (simp add: split_beta [of s, symmetric] mult.commute)
    then have "beta * unat (drop_bit (64 - s) x) = beta * (unat x * 2 ^ s div beta)"
      by (simp only: unat_drop)
    moreover have "unat (push_bit s x OR c) = (unat x * 2 ^ s) mod beta + unat c"
      using assms(2) Cons.prems(2) by (intro unat_push_or) simp_all
    ultimately show ?thesis using mod_mult_div_eq [of "unat x * 2 ^ s" beta] by linarith
  qed
  obtain out c' where IH: "shift_left_limbs xs s (drop_bit (64 - s) x) [] = (out, c')" "length out = length xs"
    "val out + beta ^ length xs * unat c' = val xs * 2 ^ s + unat (drop_bit (64 - s) x)" "unat c' < 2 ^ s"
    using Cons.IH [OF _ carry] by blast
  have "val ((push_bit s x OR c) # out) + beta ^ length (x # xs) * unat c' =
      unat (push_bit s x OR c) + beta * (val out + beta ^ length xs * unat c')"
    by (simp add: algebra_simps)
  also have "\<dots> = val (x # xs) * 2 ^ s + unat c"
    unfolding IH(3) using digit by (simp add: algebra_simps)
  finally show ?case
    using IH shift_left_out [of xs s "drop_bit (64 - s) x" "[push_bit s x OR c]"]
    by (intro Cons.prems(1) [of "(push_bit s x OR c) # out" c']) simp_all
qed

lemma shift_arith:
  fixes a c c' p q s w :: nat
  shows "a + p * c' + s * (p * (q + c * w)) = a + p * (s * q + c' + s * w * c)"
  by (simp add: algebra_simps)

lemma shift_right_val:
  assumes "0 < s" "s < 64" "k \<le> length xs" "unat carry = c * 2 ^ (64 - s)" "c < 2 ^ s"
  shows "length (shift_right_limbs xs s k carry) = length xs \<and>
    val (take k (shift_right_limbs xs s k carry)) = (val (take k xs) + beta ^ k * c) div 2 ^ s \<and>
    drop k (shift_right_limbs xs s k carry) = drop k xs"
  using assms(3-)
proof (induction k arbitrary: xs carry c)
  case (Suc k)
  let ?x = "xs ! k"
  let ?limb = "drop_bit s ?x OR carry"
  let ?xs = "xs[k := ?limb]" and ?c = "unat ?x mod 2 ^ s"
  have carry': "unat (push_bit (64 - s) ?x) = ?c * 2 ^ (64 - s)"
  proof -
    have "unat (push_bit (64 - s) ?x) = (unat ?x * 2 ^ (64 - s)) mod (2 ^ s * 2 ^ (64 - s))"
      using split_beta [of s] assms(2)
      by (simp only: unsigned_push_bit_eq) (simp add: push_bit_eq_mult take_bit_eq_mod beta_def)
    then show ?thesis by (simp only: mod_mult_mult2)
  qed
  have limb: "unat ?limb = unat ?x div 2 ^ s + c * 2 ^ (64 - s)"
  proof -
    have "unat ?x < 2 ^ s * 2 ^ (64 - s)" using split_beta [of s] assms(2) by simp
    then have "unat ?x div 2 ^ s < 2 ^ (64 - s)" by (simp add: less_mult_imp_div_less mult.commute)
    from or_disjoint [OF this, of c] Suc.prems(2) show ?thesis
      by (simp add: unsigned_or_eq unat_drop push_bit_eq_mult or.commute)
  qed
  have k: "k \<le> length ?xs" "?c < 2 ^ s" using Suc.prems(1) by simp_all
  note IH = Suc.IH [OF k(1) carry' k(2), THEN conjunct1] Suc.IH [OF k(1) carry' k(2), THEN conjunct2, THEN conjunct1]
    Suc.IH [OF k(1) carry' k(2), THEN conjunct2, THEN conjunct2]
  have unfold: "shift_right_limbs xs s (Suc k) carry = shift_right_limbs ?xs s k (push_bit (64 - s) ?x)"
    by (simp add: Let_def)
  have after: "drop (Suc k) (shift_right_limbs xs s (Suc k) carry) = drop (Suc k) xs"
    using arg_cong [OF IH(3), of "drop 1"] by (simp add: unfold del: shift_right_limbs.simps)
  have nth: "shift_right_limbs ?xs s k (push_bit (64 - s) ?x) ! k = ?limb"
    using arg_cong [OF IH(3), of hd] Suc.prems(1) IH(1) by (simp add: hd_drop_conv_nth)
  have "val (take (Suc k) (shift_right_limbs xs s (Suc k) carry)) =
      (val (take k xs) + beta ^ k * ?c) div 2 ^ s + beta ^ k * unat ?limb"
    using val_take_snoc [of 0 k "shift_right_limbs ?xs s k (push_bit (64 - s) ?x)"] Suc.prems(1) IH(1,2)
    by (simp add: unfold nth del: shift_right_limbs.simps)
  also have "\<dots> = (val (take k xs) + beta ^ k * ?c + 2 ^ s * (beta ^ k * unat ?limb)) div 2 ^ s"
    by simp
  also have "val (take k xs) + beta ^ k * ?c + 2 ^ s * (beta ^ k * unat ?limb) =
      val (take k xs) + beta ^ k * (2 ^ s * (unat ?x div 2 ^ s) + ?c + (2 ^ s * 2 ^ (64 - s)) * c)"
    unfolding limb by (rule shift_arith)
  also have "\<dots> = val (take k xs) + beta ^ k * (unat ?x + beta * c)"
    using split_beta [of s] assms(2) by (simp only: mult_div_mod_eq)
  also have "\<dots> = val (take (Suc k) xs) + beta ^ Suc k * c"
    using val_take_snoc [of 0 k xs] Suc.prems(1) by (simp add: algebra_simps)
  finally show ?case using after by (simp add: unfold IH(1) del: shift_right_limbs.simps)
qed simp

section \<open>The whole division\<close>

lemma leading_zeros_bounds:
  assumes "x \<noteq> (0 :: limb)"
  shows "leading_zeros x < 64" "beta \<le> 2 * (unat x * 2 ^ leading_zeros x)"
    "unat x * 2 ^ leading_zeros x < beta"
proof -
  let ?b = "significant_bits (unat x)"
  have "unat x < 2 ^ 64" using unat_limb [of x] by (simp add: beta_def)
  then have b: "?b \<le> 64" by (simp only: significant_bits_le)
  have "0 < unat x" using assms by (simp add: unat_gt_0)
  then have pos: "?b \<noteq> 0" using significant_bits_le [of "unat x" 0] by auto
  then show "leading_zeros x < 64" by (simp add: leading_zeros_def)
  have upper: "unat x < 2 ^ ?b" using significant_bits_le [of "unat x" ?b] by simp
  have lower: "2 ^ (?b - 1) \<le> unat x"
    using significant_bits_le [of "unat x" "?b - 1"] pos by (simp add: not_less [symmetric])
  have "2 * (2 ^ (?b - 1) * 2 ^ (64 - ?b)) = beta"
    using pos b by (simp add: beta_def flip: power_add power_Suc)
  then show "beta \<le> 2 * (unat x * 2 ^ leading_zeros x)"
    using mult_le_mono1 [OF lower, of "2 ^ (64 - ?b)"] unfolding leading_zeros_def by linarith
  have "unat x * 2 ^ (64 - ?b) < 2 ^ ?b * 2 ^ (64 - ?b)" using upper by simp
  also have "\<dots> = beta" using b by (simp add: beta_def flip: power_add)
  finally show "unat x * 2 ^ leading_zeros x < beta" by (simp add: leading_zeros_def)
qed

lemma normalized_operand_val:
  assumes "s < 64" "length xs < u64_max"
    and "extra \<or> val xs * 2 ^ s < beta ^ length xs"
  obtains out where "normalized_division_operand grant xs s extra limit =
      and_then (allocate_limbs grant Divide (length xs + of_bool extra) limit) (\<lambda>_. Inr out)"
    "length out = length xs + of_bool extra" "val out = val xs * 2 ^ s"
proof -
  have add: "checked_add (length xs) (of_bool extra) = Some (length xs + of_bool extra)"
    using assms(2) by (cases extra) (simp_all add: checked_add_def)
  show ?thesis
  proof (cases "s = 0")
    case True
    then show ?thesis
      by (intro that [of "xs @ (if extra then [0] else [])"])
        (auto simp: normalized_division_operand_def add allocate_limbs_def and_then_def split: sum.splits)
  next
    case False
    then obtain out c where shift: "shift_left_limbs xs s 0 [] = (out, c)" "length out = length xs"
      "val out + beta ^ length xs * unat c = val xs * 2 ^ s"
      using shift_left_val [of s 0 xs thesis for thesis] assms(1) by (metis add_0_right gr0I unsigned_0 zero_less_numeral zero_less_power)
    have c: "c = 0" if "\<not> extra"
    proof -
      have "val xs * 2 ^ s < beta ^ length xs" using assms(3) that by simp
      then have "beta ^ length xs * unat c < beta ^ length xs" using shift(3) by linarith
      then have "unat c = 0" by (cases "unat c") auto
      then show ?thesis by (simp only: unat_eq_zero)
    qed
    show ?thesis
      using False shift c
      by (intro that [of "if extra then out @ [c] else out"])
        (auto simp: normalized_division_operand_def add allocate_limbs_def and_then_def Let_def split: sum.splits)
  qed
qed

lemma quotient_length:
  assumes "no_high_zero divisor" "divisor \<noteq> []" "length divisor \<le> length dividend"
  shows "limb_len (val dividend div val divisor) + length divisor \<le> length dividend + 1"
proof -
  let ?k = "length dividend + 1 - length divisor"
  have "length dividend = ?k + (length divisor - 1)" using assms(2,3) by (cases divisor) auto
  then have "beta ^ length dividend = beta ^ ?k * beta ^ (length divisor - 1)" by (metis power_add)
  then have "val dividend < beta ^ ?k * beta ^ (length divisor - 1)" using val_bound [of dividend] by simp
  also have "\<dots> \<le> beta ^ ?k * val divisor"
    using val_lower [OF assms(2,1)] by (intro mult_le_mono2)
  finally have "val dividend div val divisor < beta ^ ?k" by (simp add: less_mult_imp_div_less)
  then have "limb_len (val dividend div val divisor) \<le> ?k" by (simp only: limb_len_le_iff)
  then show ?thesis using assms(3) by linarith
qed

text \<open>The normalised divisor keeps its length, and its leading limb has its top bit set.\<close>

lemma normalized_divisor:
  assumes "no_high_zero divisor" "divisor \<noteq> []"
  defines "s \<equiv> leading_zeros (last divisor)" and "n \<equiv> length divisor"
  shows "val divisor * 2 ^ s < beta ^ n"
    and "length vs = n \<Longrightarrow> val vs = val divisor * 2 ^ s \<Longrightarrow> beta \<le> 2 * unat (vs ! (n - 1))"
proof -
  let ?l = "unat (last divisor)" and ?lo = "val (butlast divisor)"
  have nz: "last divisor \<noteq> 0" using assms(1,2) by (simp add: no_high_zero_def)
  note lz = leading_zeros_bounds [OF nz, folded s_def]
  have V: "val divisor = ?lo + beta ^ (n - 1) * ?l"
  proof -
    have "val divisor = val (butlast divisor @ [last divisor])" using assms(2) by simp
    also have "\<dots> = ?lo + beta ^ (n - 1) * ?l" unfolding val_append length_butlast n_def by simp
    finally show ?thesis .
  qed
  have lo: "?lo < beta ^ (n - 1)" using val_bound [of "butlast divisor"] by (simp add: n_def)
  have n: "beta ^ n = beta ^ (n - 1) * beta"
    using assms(2) by (cases divisor) (simp_all add: n_def)
  have "2 ^ s * ?l < 2 ^ s * 2 ^ (64 - s)"
    using lz(1,3) split_beta [of s] by (simp only: mult.commute [of ?l] less_imp_le)
  then have "?l < 2 ^ (64 - s)" by simp
  then have "(?l + 1) * 2 ^ s \<le> beta"
    using mult_le_mono1 [of "?l + 1" "2 ^ (64 - s)" "2 ^ s"] split_beta [of s] lz(1)
    by (simp add: mult.commute)
  then have "beta ^ (n - 1) * ((?l + 1) * 2 ^ s) \<le> beta ^ n" unfolding n by (rule mult_le_mono2)
  moreover have "val divisor * 2 ^ s < beta ^ (n - 1) * (?l + 1) * 2 ^ s"
    using lo unfolding V by (intro mult_strict_right_mono) simp_all
  ultimately show less: "val divisor * 2 ^ s < beta ^ n" by (simp only: mult.assoc)
  assume vs: "length vs = n" "val vs = val divisor * 2 ^ s"
  have "unat (vs ! (n - 1)) = val divisor * 2 ^ s div beta ^ (n - 1) mod beta"
    using vs assms(2) by (simp add: nth_val n_def)
  also have "\<dots> = val divisor * 2 ^ s div beta ^ (n - 1)"
    using less unfolding n by (intro mod_less) (simp add: less_mult_imp_div_less mult.commute)
  finally have top: "unat (vs ! (n - 1)) = val divisor * 2 ^ s div beta ^ (n - 1)" .
  have "beta ^ (n - 1) * (?l * 2 ^ s) \<le> val divisor * 2 ^ s" unfolding V by (simp add: algebra_simps)
  then have "?l * 2 ^ s \<le> unat (vs ! (n - 1))"
    unfolding top by (simp add: less_eq_div_iff_mult_less_eq mult.commute)
  then show "beta \<le> 2 * unat (vs ! (n - 1))" using lz(2) by linarith
qed

lemma divide_normalized:
  assumes len: "2 \<le> length vs" "length U0 = m + 1" and norm: "beta \<le> 2 * unat (vs ! (length vs - 1))"
    and ql: "ql = limb_len (val U0 div val vs)" "ql + length vs \<le> m + 1"
  obtains U' where "divide_digits U0 vs ql (replicate ql 0) = Some (U', limbs_of (val U0 div val vs))"
    "length U' = m + 1" "val (take (length vs) U') = val U0 mod val vs"
proof -
  let ?n = "length vs" and ?N = "val U0" and ?V = "val vs"
  have V: "0 < ?V"
  proof -
    have "vs ! (?n - 1) \<noteq> 0" using norm by auto
    then have "last vs \<noteq> 0" using len(1) by (subst last_conv_nth) auto
    then have "no_high_zero vs" by (simp add: no_high_zero_def)
    then show ?thesis using val_eq_0_iff [of vs] len(1) by auto
  qed
  have "?N div ?V < beta ^ ql" unfolding ql(1) by (rule less_limb_len)
  then have less: "?N div beta ^ ql < ?V"
    using V by (simp add: div_less_iff_less_mult mult.commute)
  then have "val (take ?n (drop ql U0)) = ?N div beta ^ ql"
    using val_bound [of vs] by (simp add: val_take val_drop)
  then have start: "val (take ?n (drop ql U0)) = ?N div beta ^ ql mod ?V" using less by simp
  have room: "ql + ?n \<le> length U0" using ql(2) len(2) by simp
  have written: "unat (replicate ql 0 ! j) = ?N div ?V div beta ^ j mod beta" if "ql \<le> j" "j < ql" for j
    using that by simp
  obtain U' quot' where div: "divide_digits U0 vs ql (replicate ql 0) = Some (U', quot')"
    "length U' = length U0" "val (take ?n U') = ?N mod ?V" "length quot' = ql"
    "\<And>j. j < ql \<Longrightarrow> unat (quot' ! j) = ?N div ?V div beta ^ j mod beta"
    using divide_digits_val [OF len(1) norm V refl refl room start length_replicate le_refl written]
    by blast
  have "val quot' = ?N div ?V mod beta ^ length quot'" by (rule val_digits) (simp add: div)
  then have "quot' = limbs_of (?N div ?V)"
    using div(4) ql(1) by (intro limbs_ofI) (simp_all add: less_limb_len)
  with div len(2) that show ?thesis by simp
qed

lemma div_rem_knuth_val:
  assumes nz: "no_high_zero divisor" and len: "2 \<le> length divisor" "length divisor \<le> length dividend"
    and u64: "length dividend < u64_max"
  defines "D \<equiv> val dividend" and "V \<equiv> val divisor"
  shows "div_rem_magnitude_knuth grant dividend divisor (limb_len (D div V)) limit =
    Some (and_then (allocate_limbs grant Divide (limb_len (D div V)) limit) (\<lambda>_.
      and_then (allocate_limbs grant Divide (length divisor) limit) (\<lambda>_.
      and_then (allocate_limbs grant Divide (length dividend + 1) limit) (\<lambda>_.
      and_then (allocate_limbs grant Divide (limb_len (D mod V)) limit) (\<lambda>_.
        Inr (limbs_of (D div V), limbs_of (D mod V)))))))"
proof -
  let ?s = "leading_zeros (last divisor)" and ?ql = "limb_len (D div V)" and ?n = "length divisor"
  have ne: "divisor \<noteq> []" using len(1) by auto
  then have s: "?s < 64" using nz leading_zeros_bounds(1) by (simp add: no_high_zero_def)
  note norm = normalized_divisor [OF nz ne]
  have u64': "length divisor < u64_max" using len(2) u64 by simp
  obtain vs where vs: "normalized_division_operand grant divisor ?s False limit =
      and_then (allocate_limbs grant Divide ?n limit) (\<lambda>_. Inr vs)"
    "length vs = ?n" "val vs = V * 2 ^ ?s"
    using normalized_operand_val [OF s u64', of False grant limit] norm(1) by (auto simp: V_def)
  obtain U0 where U0: "normalized_division_operand grant dividend ?s True limit =
      and_then (allocate_limbs grant Divide (length dividend + 1) limit) (\<lambda>_. Inr U0)"
    "length U0 = length dividend + 1" "val U0 = D * 2 ^ ?s"
    using normalized_operand_val [OF s u64, of True grant limit] by (auto simp: D_def)
  have scale: "val U0 div val vs = D div V" "val U0 mod val vs = D mod V * 2 ^ ?s"
    by (simp_all add: vs(3) U0(3))
  have "beta \<le> 2 * unat (vs ! (length vs - 1))"
    using norm(2) [of vs] vs(2,3) by (simp add: V_def)
  moreover have "?ql + length vs \<le> length dividend + 1"
    using quotient_length [OF nz ne len(2)] vs(2) by (simp add: D_def V_def)
  ultimately obtain U' where U': "divide_digits U0 vs ?ql (replicate ?ql 0) = Some (U', limbs_of (D div V))"
    "length U' = length dividend + 1" "val (take ?n U') = D mod V * 2 ^ ?s"
    using divide_normalized [of vs U0 "length dividend" ?ql] len(1) vs(2) U0(2) scale by auto
  let ?R = "if ?s \<noteq> 0 then shift_right_limbs U' ?s ?n 0 else U'"
  have R: "val (take ?n ?R) = D mod V" "length ?R = length dividend + 1"
    using shift_right_val [of ?s ?n U' 0 0] s len(2) U'(2,3) by auto
  have sig: "significant_limbs (take ?n ?R) = limb_len (D mod V)"
    by (simp only: significant_limbs_def length_strip_limb_len R(1))
  have "limb_len (D mod V) \<le> ?n"
    using val_bound [of "take ?n ?R"] R len(2) by (simp add: limb_len_le_iff)
  then have "take (limb_len (D mod V)) ?R = take (limb_len (D mod V)) (take ?n ?R)" by (simp add: min_def)
  also have "\<dots> = limbs_of (D mod V)"
    using R len(2) \<open>limb_len (D mod V) \<le> ?n\<close> less_limb_len [of "D mod V"]
    by (intro limbs_ofI) (simp_all add: val_take [of "limb_len _"] del: take_take)
  finally have remainder: "take (limb_len (D mod V)) ?R = limbs_of (D mod V)" .
  show ?thesis
    using U'(1) sig remainder ne vs(1) U0(1)
    by (simp add: div_rem_magnitude_knuth_def allocate_limbs_def ensure_def and_then_def Let_def)
qed

end
