(* ===== verification/ExactRing.thy ===== *)
theory ExactRing
  imports Prelude
begin

text \<open>
  The contract of checked exact arithmetic that the layers of the delta kernel hand each other: an
  operation may refuse, but a value it returns stands for exactly the integer it should, and equal
  integers have equal representations. \<open>fgdb-bigint\<close> and the weights of \<open>fgdb-delta-types\<close> provide it;
  the algebra of their results is proved here once.
\<close>

locale exact_ring =
  fixes inv :: "'w \<Rightarrow> bool"
    and denote :: "'w \<Rightarrow> int"
    and add sub mul :: "'w \<Rightarrow> 'w \<Rightarrow> 'e + 'w"
    and neg :: "'w \<Rightarrow> 'e + 'w"
  assumes denote_inject: "inv a \<Longrightarrow> inv b \<Longrightarrow> denote a = denote b \<Longrightarrow> a = b"
    and add_exact: "inv a \<Longrightarrow> inv b \<Longrightarrow> add a b = Inr c \<Longrightarrow> inv c \<and> denote c = denote a + denote b"
    and sub_exact: "inv a \<Longrightarrow> inv b \<Longrightarrow> sub a b = Inr c \<Longrightarrow> inv c \<and> denote c = denote a - denote b"
    and mul_exact: "inv a \<Longrightarrow> inv b \<Longrightarrow> mul a b = Inr c \<Longrightarrow> inv c \<and> denote c = denote a * denote b"
    and neg_exact: "inv a \<Longrightarrow> neg a = Inr c \<Longrightarrow> inv c \<and> denote c = - denote a"
begin

lemma add_commute: "inv a \<Longrightarrow> inv b \<Longrightarrow> add a b = Inr c \<Longrightarrow> add b a = Inr d \<Longrightarrow> c = d"
  by (metis add_exact add.commute denote_inject)

lemma add_assoc:
  assumes "inv a" "inv b" "inv c" "add a b = Inr ab" "add ab c = Inr l" "add b c = Inr bc" "add a bc = Inr r"
  shows "l = r"
proof (rule denote_inject)
  have ab: "inv ab" "denote ab = denote a + denote b" using assms add_exact by blast+
  have bc: "inv bc" "denote bc = denote b + denote c" using assms add_exact by blast+
  show "inv l" "inv r" using assms ab bc add_exact by blast+
  show "denote l = denote r"
    using add_exact [OF ab(1) assms(3,5)] add_exact [OF assms(1) bc(1) assms(7)] ab bc by simp
qed

lemma sub_add_cancel: "inv a \<Longrightarrow> inv b \<Longrightarrow> sub a b = Inr c \<Longrightarrow> add c b = Inr d \<Longrightarrow> d = a"
  by (metis add_exact sub_exact diff_add_cancel denote_inject)

lemma neg_neg: "inv a \<Longrightarrow> neg a = Inr b \<Longrightarrow> neg b = Inr c \<Longrightarrow> c = a"
  by (metis neg_exact minus_minus denote_inject)

lemma mul_distrib:
  assumes "inv a" "inv b" "inv c" "add b c = Inr bc" "mul a bc = Inr l"
    "mul a b = Inr ab" "mul a c = Inr ac" "add ab ac = Inr r"
  shows "l = r"
proof (rule denote_inject)
  have bc: "inv bc" "denote bc = denote b + denote c" using assms add_exact by blast+
  have ab: "inv ab" "denote ab = denote a * denote b" using assms mul_exact by blast+
  have ac: "inv ac" "denote ac = denote a * denote c" using assms mul_exact by blast+
  show "inv l" "inv r" using assms ab ac bc add_exact mul_exact by blast+
  show "denote l = denote r"
    using mul_exact [OF assms(1) bc(1) assms(5)] add_exact [OF ab(1) ac(1) assms(8)] ab ac bc
    by (simp add: distrib_left)
qed

end

end
