(* ===== verification/BigInt.thy ===== *)
theory BigInt
  imports LimbsKnuth ExactRing "HOL-Library.Signed_Division"
begin

text \<open>
  The signed integers of \<open>fgdb-bigint\<close>: sign and magnitude, the checked operations under a limb limit,
  the conversions from and to \<open>i128\<close> and the canonical byte encoding. Every operation is related to the
  arithmetic of \<open>int\<close> through \<open>to_int\<close>.
\<close>

section \<open>The code\<close>

record big_int =
  bi_negative :: bool
  bi_limbs :: "limb list"

datatype sign = Negative | Zero | Positive

datatype construction_error =
    ConstructionLimbLimitExceeded nat nat
  | ZeroWithMagnitude nat
  | NonzeroSignWithoutMagnitude sign
  | HighZeroLimb sign nat

definition big_zero :: big_int where
  "big_zero = \<lparr>bi_negative = False, bi_limbs = []\<rparr>"

definition is_zero_big :: "big_int \<Rightarrow> bool" where
  "is_zero_big x \<longleftrightarrow> bi_limbs x = []"

definition is_canonical :: "big_int \<Rightarrow> bool" where
  "is_canonical x = (if bi_limbs x = [] then \<not> bi_negative x else last (bi_limbs x) \<noteq> 0)"

definition sign_of :: "big_int \<Rightarrow> sign" where
  "sign_of x = (if bi_limbs x = [] then Zero else if bi_negative x then Negative else Positive)"

definition from_canonical_limbs :: "sign \<Rightarrow> limb list \<Rightarrow> nat \<Rightarrow> construction_error + big_int" where
  "from_canonical_limbs sign limbs_le limit =
     (let limb_count = length limbs_le in
      if limb_count > limit then Inl (ConstructionLimbLimitExceeded limb_count limit)
      else if sign = Zero then
        if limb_count = 0 then Inr big_zero else Inl (ZeroWithMagnitude limb_count)
      else if limb_count = 0 then Inl (NonzeroSignWithoutMagnitude sign)
      else if last limbs_le = 0 then Inl (HighZeroLimb sign limb_count)
      else Inr \<lparr>bi_negative = (sign = Negative), bi_limbs = limbs_le\<rparr>)"

fun pop_zeros :: "limb list \<Rightarrow> limb list" where
  "pop_zeros limbs = (if limbs \<noteq> [] \<and> last limbs = 0 then pop_zeros (butlast limbs) else limbs)"

declare pop_zeros.simps [simp del]

definition from_sign_magnitude :: "bool \<Rightarrow> limb list \<Rightarrow> big_int" where
  "from_sign_magnitude negative limbs =
     (let limbs = pop_zeros limbs in \<lparr>bi_negative = negative \<and> limbs \<noteq> [], bi_limbs = limbs\<rparr>)"

definition from_u64 :: "limb \<Rightarrow> big_int" where
  "from_u64 v = (if v = 0 then big_zero else \<lparr>bi_negative = False, bi_limbs = [v]\<rparr>)"

definition from_u128 :: "u128 \<Rightarrow> big_int" where
  "from_u128 v =
     (let lo = low_limb (v AND widen (- 1)); hi = low_limb (drop_bit 64 v) in
      if hi \<noteq> 0 then \<lparr>bi_negative = False, bi_limbs = [lo, hi]\<rparr> else from_u64 lo)"

text \<open>An \<open>i128\<close> is its 128-bit word, read with \<open>sint\<close>; \<open>unsigned_abs\<close> is exact at the minimum.\<close>

definition unsigned_abs :: "u128 \<Rightarrow> u128" where
  "unsigned_abs v = (if v <s 0 then - v else v)"

definition from_i128 :: "u128 \<Rightarrow> big_int" where
  "from_i128 v =
     (let negative = v <s 0;
          mag = unsigned_abs v;
          lo = low_limb (mag AND widen (- 1));
          hi = low_limb (drop_bit 64 mag)
      in if hi \<noteq> 0 then \<lparr>bi_negative = negative, bi_limbs = [lo, hi]\<rparr>
         else if lo \<noteq> 0 then \<lparr>bi_negative = negative, bi_limbs = [lo]\<rparr>
         else big_zero)"

definition to_i128 :: "big_int \<Rightarrow> u128 option" where
  "to_i128 x =
     (if length (bi_limbs x) > 2 then None
      else
        let lo = widen (limb_at (bi_limbs x) 0);
            hi = widen (limb_at (bi_limbs x) 1);
            mag = push_bit 64 hi OR lo
        in if bi_negative x then
             if mag > push_bit 127 1 then None
             else if mag = push_bit 127 1 then Some (push_bit 127 1)
             else Some (- mag)
           else if mag > push_bit 127 1 - 1 then None
           else Some mag)"

definition big_checked_clone :: "(nat \<Rightarrow> bool) \<Rightarrow> big_int \<Rightarrow> nat \<Rightarrow> arithmetic_error + big_int" where
  "big_checked_clone grant x limit =
     and_then (allocate_limbs grant Clone (length (bi_limbs x)) limit) (\<lambda>limbs.
       Inr \<lparr>bi_negative = bi_negative x, bi_limbs = limbs @ bi_limbs x\<rparr>)"

definition big_checked_neg :: "(nat \<Rightarrow> bool) \<Rightarrow> big_int \<Rightarrow> nat \<Rightarrow> arithmetic_error + big_int" where
  "big_checked_neg grant x limit =
     and_then (allocate_limbs grant Negate (length (bi_limbs x)) limit) (\<lambda>limbs.
       let limbs = limbs @ bi_limbs x in
       Inr \<lparr>bi_negative = \<not> bi_negative x \<and> limbs \<noteq> [], bi_limbs = limbs\<rparr>)"

definition big_checked_add ::
  "(nat \<Rightarrow> bool) \<Rightarrow> big_int \<Rightarrow> big_int \<Rightarrow> nat \<Rightarrow> arithmetic_error + big_int" where
  "big_checked_add grant x y limit =
     (if bi_negative x = bi_negative y then
        and_then (add_magnitude grant (bi_limbs x) (bi_limbs y) Add limit) (\<lambda>limbs.
          Inr (from_sign_magnitude (bi_negative x) limbs))
      else
        (case cmp_magnitude (bi_limbs x) (bi_limbs y) of
           Equal \<Rightarrow> Inr big_zero
         | Greater \<Rightarrow>
             and_then (sub_magnitude grant (bi_limbs x) (bi_limbs y) Add limit) (\<lambda>limbs.
               Inr (from_sign_magnitude (bi_negative x) limbs))
         | Less \<Rightarrow>
             and_then (sub_magnitude grant (bi_limbs y) (bi_limbs x) Add limit) (\<lambda>limbs.
               Inr (from_sign_magnitude (bi_negative y) limbs))))"

definition big_checked_sub ::
  "(nat \<Rightarrow> bool) \<Rightarrow> big_int \<Rightarrow> big_int \<Rightarrow> nat \<Rightarrow> arithmetic_error + big_int" where
  "big_checked_sub grant x y limit =
     (if bi_negative x \<noteq> bi_negative y then
        and_then (add_magnitude grant (bi_limbs x) (bi_limbs y) Subtract limit) (\<lambda>limbs.
          Inr (from_sign_magnitude (bi_negative x) limbs))
      else
        (case cmp_magnitude (bi_limbs x) (bi_limbs y) of
           Equal \<Rightarrow> Inr big_zero
         | Greater \<Rightarrow>
             and_then (sub_magnitude grant (bi_limbs x) (bi_limbs y) Subtract limit) (\<lambda>limbs.
               Inr (from_sign_magnitude (bi_negative x) limbs))
         | Less \<Rightarrow>
             and_then (sub_magnitude grant (bi_limbs y) (bi_limbs x) Subtract limit) (\<lambda>limbs.
               Inr (from_sign_magnitude (\<not> bi_negative x) limbs))))"

definition big_checked_mul ::
  "(nat \<Rightarrow> bool) \<Rightarrow> big_int \<Rightarrow> big_int \<Rightarrow> nat \<Rightarrow> arithmetic_error + big_int" where
  "big_checked_mul grant x y limit =
     and_then (mul_magnitude grant (bi_limbs x) (bi_limbs y) limit) (\<lambda>limbs.
       Inr (from_sign_magnitude (bi_negative x \<noteq> bi_negative y) limbs))"

text \<open>The outer option is the divergence of a digit's correction loop.\<close>

definition checked_div_rem ::
  "(nat \<Rightarrow> bool) \<Rightarrow> big_int \<Rightarrow> big_int \<Rightarrow> nat \<Rightarrow> (arithmetic_error + big_int \<times> big_int) option" where
  "checked_div_rem grant x divisor limit =
     (if is_zero_big divisor then Some (Inl DivisionByZero)
      else if is_zero_big x then Some (Inr (big_zero, big_zero))
      else
        (case cmp_magnitude (bi_limbs x) (bi_limbs divisor) of
           Less \<Rightarrow> Some (
             and_then (ensure limit Divide (length (bi_limbs x))) (\<lambda>_.
             and_then (allocate_limbs grant Divide (length (bi_limbs x)) limit) (\<lambda>remainder.
               Inr (big_zero, from_sign_magnitude (bi_negative x) (remainder @ bi_limbs x)))))
         | Equal \<Rightarrow> Some (
             and_then (ensure limit Divide 1) (\<lambda>_.
             and_then (allocate_limbs grant Divide 1 limit) (\<lambda>quot.
               Inr (from_sign_magnitude (bi_negative x \<noteq> bi_negative divisor) (quot @ [1]), big_zero))))
         | Greater \<Rightarrow>
             (case quotient_limb_count (bi_limbs x) (bi_limbs divisor) of
                Inl e \<Rightarrow> Some (Inl e)
              | Inr quotient_limbs \<Rightarrow>
                  map_option (\<lambda>r. and_then r (\<lambda>(quot, remainder).
                    Inr (from_sign_magnitude (bi_negative x \<noteq> bi_negative divisor) quot,
                         from_sign_magnitude (bi_negative x) remainder)))
                    (if length (bi_limbs divisor) = 1
                     then Some (div_rem_magnitude_by_limb grant (bi_limbs x) (bi_limbs divisor ! 0)
                                  quotient_limbs limit)
                     else div_rem_magnitude_knuth grant (bi_limbs x) (bi_limbs divisor)
                            quotient_limbs limit))))"

definition cmp_big :: "big_int \<Rightarrow> big_int \<Rightarrow> ordering" where
  "cmp_big x y =
     (case (bi_negative x, bi_negative y) of
        (True, False) \<Rightarrow> Less
      | (False, True) \<Rightarrow> Greater
      | (False, False) \<Rightarrow> cmp_magnitude (bi_limbs x) (bi_limbs y)
      | (True, True) \<Rightarrow> cmp_magnitude (bi_limbs y) (bi_limbs x))"

subsection \<open>The byte encoding\<close>

definition to_le_bytes :: "64 word \<Rightarrow> byte list" where
  "to_le_bytes v = map (\<lambda>i. ucast (drop_bit (8 * i) v)) [0..<8]"

fun from_le_bytes :: "byte list \<Rightarrow> 64 word" where
  "from_le_bytes [] = 0"
| "from_le_bytes (b # bytes) = push_bit 8 (from_le_bytes bytes) OR ucast b"

definition ZERO :: byte where "ZERO = 0"
definition POSITIVE :: byte where "POSITIVE = 1"
definition NEGATIVE :: byte where "NEGATIVE = 2"

datatype decode_error =
    EmptyInput
  | UnknownSignTag byte
  | TruncatedLimbCount nat
  | DeclaredLimbsExceedLimit nat nat
  | MagnitudeLengthMismatch nat nat
  | TrailingBytes nat nat
  | DecodeAllocationFailed nat
  | NotCanonical construction_error

definition encode_canonical_bytes :: "big_int \<Rightarrow> byte list" where
  "encode_canonical_bytes x =
     (if is_zero_big x then [ZERO]
      else (if bi_negative x then NEGATIVE else POSITIVE)
             # to_le_bytes (of_nat (length (bi_limbs x)))
             @ concat (map to_le_bytes (bi_limbs x)))"

text \<open>\<open>as_chunks::<8>\<close>, without the remainder.\<close>

fun chunks8 :: "byte list \<Rightarrow> byte list list" where
  "chunks8 bytes = (if length bytes < 8 then [] else take 8 bytes # chunks8 (drop 8 bytes))"

declare chunks8.simps [simp del]

definition decode_canonical_bytes :: "(nat \<Rightarrow> bool) \<Rightarrow> byte list \<Rightarrow> nat \<Rightarrow> decode_error + big_int" where
  "decode_canonical_bytes grant bytes limit =
     (case bytes of
        [] \<Rightarrow> Inl EmptyInput
      | tag # rest \<Rightarrow>
          if tag = ZERO then
            if rest \<noteq> [] then Inl (TrailingBytes 1 (length bytes)) else Inr big_zero
          else if tag \<noteq> POSITIVE \<and> tag \<noteq> NEGATIVE then Inl (UnknownSignTag tag)
          else if length rest < 8 then Inl (TruncatedLimbCount (length rest))
          else
            let sign = (if tag = POSITIVE then Positive else Negative);
                magnitude = drop 8 rest;
                declared = unat (from_le_bytes (take 8 rest))
            in if declared > limit then Inl (DeclaredLimbsExceedLimit declared limit)
               else if length magnitude \<noteq> declared * 8 then
                 Inl (MagnitudeLengthMismatch declared (length magnitude))
               else if \<not> grant declared then Inl (DecodeAllocationFailed declared)
               else case from_canonical_limbs sign (map from_le_bytes (chunks8 magnitude)) limit of
                      Inl e \<Rightarrow> Inl (NotCanonical e)
                    | Inr x \<Rightarrow> Inr x)"

section \<open>The integer a value stands for\<close>

definition to_int :: "big_int \<Rightarrow> int" where
  "to_int x = (if bi_negative x then - int (val (bi_limbs x)) else int (val (bi_limbs x)))"

definition big_of :: "int \<Rightarrow> big_int" where
  "big_of v = \<lparr>bi_negative = (v < 0), bi_limbs = limbs_of (nat \<bar>v\<bar>)\<rparr>"

text \<open>The representation invariant: canonical, and no longer than a Rust vector can be.\<close>

definition big_inv :: "big_int \<Rightarrow> bool" where
  "big_inv x \<longleftrightarrow> is_canonical x \<and> length (bi_limbs x) \<le> max_vec_limbs"

lemma is_canonical_iff: "is_canonical x \<longleftrightarrow> no_high_zero (bi_limbs x) \<and> (bi_limbs x = [] \<longrightarrow> \<not> bi_negative x)"
  by (auto simp: is_canonical_def no_high_zero_def)

lemma canonical_no_high_zero [simp]: "is_canonical x \<Longrightarrow> no_high_zero (bi_limbs x)"
  by (simp add: is_canonical_iff)

lemma to_int_big_of [simp]: "to_int (big_of v) = v"
  by (simp add: to_int_def big_of_def)

lemma is_canonical_big_of [simp]: "is_canonical (big_of v)"
  by (simp add: is_canonical_iff big_of_def)

lemma big_of_0: "big_of 0 = big_zero"
  by (simp add: big_of_def big_zero_def)

lemma to_int_zero [simp]: "to_int big_zero = 0"
  by (simp add: to_int_def big_zero_def)

lemma big_of_to_int:
  assumes "is_canonical x"
  shows "big_of (to_int x) = x"
proof -
  have limbs: "limbs_of (val (bi_limbs x)) = bi_limbs x" using assms by (intro limbs_of_val) simp
  have "bi_negative x \<Longrightarrow> val (bi_limbs x) \<noteq> 0"
    using assms val_eq_0_iff [of "bi_limbs x"] by (auto simp: is_canonical_iff)
  then show ?thesis
    using limbs by (cases x) (auto simp: big_of_def to_int_def)
qed

lemma canonical_inject: "is_canonical x \<Longrightarrow> is_canonical y \<Longrightarrow> to_int x = to_int y \<Longrightarrow> x = y"
  by (metis big_of_to_int)

lemma abs_to_int: "nat \<bar>to_int x\<bar> = val (bi_limbs x)"
  by (simp add: to_int_def)

lemma length_limbs: "is_canonical x \<Longrightarrow> length (bi_limbs x) = limb_len (nat \<bar>to_int x\<bar>)"
  by (simp add: abs_to_int limb_len_val)

lemma is_zero_big_iff: "is_canonical x \<Longrightarrow> is_zero_big x \<longleftrightarrow> to_int x = 0"
  using val_eq_0_iff [of "bi_limbs x"] by (auto simp: is_zero_big_def to_int_def)

lemma pop_zeros_val: "pop_zeros xs = limbs_of (val xs)"
proof (induction xs rule: pop_zeros.induct)
  case (1 xs)
  show ?case
  proof (cases "xs \<noteq> [] \<and> last xs = 0")
    case True
    then have "val xs = val (butlast xs @ [0])" by (metis append_butlast_last_id)
    then have "val xs = val (butlast xs)" by simp
    with 1 [OF True] True show ?thesis by (subst pop_zeros.simps) simp
  next
    case False
    then have "no_high_zero xs" by (auto simp: no_high_zero_def)
    with False show ?thesis by (subst pop_zeros.simps) (simp only: limbs_of_val if_False)
  qed
qed

text \<open>A sign and a magnitude as an integer.\<close>

definition signed_int :: "bool \<Rightarrow> nat \<Rightarrow> int" where
  "signed_int negative n = (if negative then - int n else int n)"

lemma abs_signed_int [simp]: "nat \<bar>signed_int negative n\<bar> = n"
  by (simp add: signed_int_def)

lemma to_int_signed: "to_int x = signed_int (bi_negative x) (val (bi_limbs x))"
  by (simp add: to_int_def signed_int_def)

lemma from_sign_magnitude_of: "from_sign_magnitude negative xs = big_of (signed_int negative (val xs))"
  by (auto simp: from_sign_magnitude_def pop_zeros_val big_of_def signed_int_def)

section \<open>Arithmetic\<close>

text \<open>
  What an operation on exact integers may do: return its exact result, if the limb limit, Rust's vector
  bound and the allocator admit the limbs the result has, and the matching error otherwise.
\<close>

definition bounded ::
  "(nat \<Rightarrow> bool) \<Rightarrow> arithmetic_operation \<Rightarrow> nat \<Rightarrow> int \<Rightarrow> arithmetic_error + big_int" where
  "bounded grant operation limit v =
     and_then (allocate_limbs grant operation (limb_len (nat \<bar>v\<bar>)) limit) (\<lambda>_. Inr (big_of v))"

lemma max_vec_limbs_less: "2 * max_vec_limbs < u64_max" "max_vec_limbs < u64_max"
  by (simp_all add: max_vec_limbs_def u64_max_def)

lemma allocate_out: "and_then (allocate_limbs grant operation n limit) (\<lambda>out. f (out @ xs)) =
    and_then (allocate_limbs grant operation n limit) (\<lambda>_. f xs)"
  by (simp add: allocate_limbs_def and_then_def split: sum.splits)

lemma and_then_assoc_Inr: "and_then (and_then r (\<lambda>_. Inr a)) f = and_then r (\<lambda>_. f a)"
  by (cases r) simp_all

lemma bounded_zero: "grant 0 \<Longrightarrow> bounded grant operation limit 0 = Inr big_zero"
  by (simp add: bounded_def allocate_limbs_def ensure_def big_of_0)

lemma big_checked_clone_exact:
  assumes "is_canonical x"
  shows "big_checked_clone grant x limit = bounded grant Clone limit (to_int x)"
proof -
  have "\<lparr>bi_negative = bi_negative x, bi_limbs = bi_limbs x\<rparr> = big_of (to_int x)"
    using big_of_to_int [OF assms] by simp
  then show ?thesis
    using allocate_out [of grant Clone "length (bi_limbs x)" limit
        "\<lambda>limbs. Inr \<lparr>bi_negative = bi_negative x, bi_limbs = limbs\<rparr>" "bi_limbs x"]
    by (simp add: big_checked_clone_def bounded_def length_limbs [OF assms])
qed

lemma big_checked_neg_exact:
  assumes "is_canonical x"
  shows "big_checked_neg grant x limit = bounded grant Negate limit (- to_int x)"
proof -
  have "\<lparr>bi_negative = \<not> bi_negative x \<and> bi_limbs x \<noteq> [], bi_limbs = bi_limbs x\<rparr> = big_of (- to_int x)"
    using assms limbs_of_val [of "bi_limbs x"] val_eq_0_iff [of "bi_limbs x"]
    by (auto simp: big_of_def to_int_def)
  then show ?thesis
    using allocate_out [of grant Negate "length (bi_limbs x)" limit
        "\<lambda>limbs. Inr \<lparr>bi_negative = \<not> bi_negative x \<and> limbs \<noteq> [], bi_limbs = limbs\<rparr>" "bi_limbs x"]
    by (simp add: big_checked_neg_def bounded_def length_limbs [OF assms] Let_def)
qed

lemma add_magnitude_signed:
  assumes "big_inv x" "big_inv y"
  shows "and_then (add_magnitude grant (bi_limbs x) (bi_limbs y) operation limit)
           (\<lambda>limbs. Inr (from_sign_magnitude negative limbs)) =
         bounded grant operation limit (signed_int negative (val (bi_limbs x) + val (bi_limbs y)))"
proof -
  have "max (length (bi_limbs x)) (length (bi_limbs y)) < u64_max"
    using assms max_vec_limbs_less(2) by (auto simp: big_inv_def)
  then show ?thesis
    using assms by (simp only: add_magnitude_val big_inv_def canonical_no_high_zero)
      (simp add: bounded_def and_then_assoc_Inr from_sign_magnitude_of)
qed

lemma sub_magnitude_signed:
  assumes "val (bi_limbs y) \<le> val (bi_limbs x)"
  shows "and_then (sub_magnitude grant (bi_limbs x) (bi_limbs y) operation limit)
           (\<lambda>limbs. Inr (from_sign_magnitude negative limbs)) =
         bounded grant operation limit (signed_int negative (val (bi_limbs x) - val (bi_limbs y)))"
  by (simp only: sub_magnitude_val [OF assms])
    (simp add: bounded_def and_then_assoc_Inr from_sign_magnitude_of)

text \<open>
  Addition and subtraction share their shape: equal signs of \<open>x\<close> and the effective sign \<open>n\<close> of \<open>y\<close>
  add the magnitudes, different ones subtract the smaller from the larger.
\<close>

lemma signed_sum:
  assumes "big_inv x" "big_inv y"
  shows "(if bi_negative x = n then
        and_then (add_magnitude grant (bi_limbs x) (bi_limbs y) operation limit) (\<lambda>limbs.
          Inr (from_sign_magnitude (bi_negative x) limbs))
      else
        (case cmp_magnitude (bi_limbs x) (bi_limbs y) of
           Equal \<Rightarrow> Inr big_zero
         | Greater \<Rightarrow>
             and_then (sub_magnitude grant (bi_limbs x) (bi_limbs y) operation limit) (\<lambda>limbs.
               Inr (from_sign_magnitude (bi_negative x) limbs))
         | Less \<Rightarrow>
             and_then (sub_magnitude grant (bi_limbs y) (bi_limbs x) operation limit) (\<lambda>limbs.
               Inr (from_sign_magnitude n limbs)))) =
    (let sum = signed_int (bi_negative x) (val (bi_limbs x)) + signed_int n (val (bi_limbs y)) in
     if bi_negative x \<noteq> n \<and> val (bi_limbs x) = val (bi_limbs y) then Inr (big_of sum)
     else bounded grant operation limit sum)"
    (is "?lhs = (let sum = ?sum in _)")
proof -
  let ?a = "val (bi_limbs x)" and ?b = "val (bi_limbs y)"
  show ?thesis
  proof (cases "bi_negative x = n")
    case True
    then have "?sum = signed_int n (?a + ?b)" by (simp add: signed_int_def)
    with True show ?thesis by (simp add: add_magnitude_signed [OF assms] Let_def)
  next
    case False
    have cmp: "cmp_magnitude (bi_limbs x) (bi_limbs y) = compare ?a ?b"
      using assms by (simp add: cmp_magnitude_val big_inv_def)
    show ?thesis
    proof (cases ?a ?b rule: linorder_cases)
      case less
      then have "?sum = signed_int n (?b - ?a)" using False by (auto simp: signed_int_def)
      with False less show ?thesis by (simp add: cmp compare_def sub_magnitude_signed Let_def)
    next
      case equal
      then have "?sum = 0" using False by (auto simp: signed_int_def)
      with False equal show ?thesis by (simp add: cmp compare_def big_of_0 Let_def)
    next
      case greater
      then have "?sum = signed_int (bi_negative x) (?a - ?b)" using False by (auto simp: signed_int_def)
      with False greater show ?thesis by (simp add: cmp compare_def sub_magnitude_signed Let_def)
    qed
  qed
qed

lemma big_checked_add_cases:
  assumes "big_inv x" "big_inv y"
  shows "big_checked_add grant x y limit =
     (if bi_negative x \<noteq> bi_negative y \<and> val (bi_limbs x) = val (bi_limbs y)
      then Inr (big_of (to_int x + to_int y)) else bounded grant Add limit (to_int x + to_int y))"
  unfolding big_checked_add_def to_int_signed
  using signed_sum [OF assms, of "bi_negative y" grant Add limit] by (simp add: Let_def)

lemma big_checked_sub_cases:
  assumes "big_inv x" "big_inv y"
  shows "big_checked_sub grant x y limit =
     (if bi_negative x = bi_negative y \<and> val (bi_limbs x) = val (bi_limbs y)
      then Inr (big_of (to_int x - to_int y)) else bounded grant Subtract limit (to_int x - to_int y))"
proof -
  let ?n = "\<not> bi_negative y"
  have diff: "signed_int (bi_negative x) (val (bi_limbs x)) + signed_int ?n (val (bi_limbs y)) =
      to_int x - to_int y"
    by (simp add: to_int_signed signed_int_def)
  have flip: "bi_negative x \<noteq> ?n \<longleftrightarrow> bi_negative x = bi_negative y" by auto
  have "big_checked_sub grant x y limit =
     (if bi_negative x = ?n then
        and_then (add_magnitude grant (bi_limbs x) (bi_limbs y) Subtract limit) (\<lambda>limbs.
          Inr (from_sign_magnitude (bi_negative x) limbs))
      else
        (case cmp_magnitude (bi_limbs x) (bi_limbs y) of
           Equal \<Rightarrow> Inr big_zero
         | Greater \<Rightarrow>
             and_then (sub_magnitude grant (bi_limbs x) (bi_limbs y) Subtract limit) (\<lambda>limbs.
               Inr (from_sign_magnitude (bi_negative x) limbs))
         | Less \<Rightarrow>
             and_then (sub_magnitude grant (bi_limbs y) (bi_limbs x) Subtract limit) (\<lambda>limbs.
               Inr (from_sign_magnitude ?n limbs))))"
    by (cases "bi_negative x"; cases "bi_negative y")
      (simp_all add: big_checked_sub_def split: ordering.split)
  then show ?thesis unfolding signed_sum [OF assms] Let_def diff flip .
qed

lemma cancel_sum:
  "bi_negative x \<noteq> bi_negative y \<Longrightarrow> val (bi_limbs x) = val (bi_limbs y) \<Longrightarrow> to_int x + to_int y = 0"
  "bi_negative x = bi_negative y \<Longrightarrow> val (bi_limbs x) = val (bi_limbs y) \<Longrightarrow> to_int x - to_int y = 0"
  by (auto simp: to_int_def)

lemma big_checked_add_exact:
  "big_inv x \<Longrightarrow> big_inv y \<Longrightarrow> grant 0 \<Longrightarrow>
     big_checked_add grant x y limit = bounded grant Add limit (to_int x + to_int y)"
  using cancel_sum(1) [of x y] by (simp add: big_checked_add_cases bounded_zero big_of_0)

lemma big_checked_sub_exact:
  "big_inv x \<Longrightarrow> big_inv y \<Longrightarrow> grant 0 \<Longrightarrow>
     big_checked_sub grant x y limit = bounded grant Subtract limit (to_int x - to_int y)"
  using cancel_sum(2) [of x y] by (simp add: big_checked_sub_cases bounded_zero big_of_0)

lemma big_checked_mul_exact:
  assumes "big_inv x" "big_inv y"
  shows "big_checked_mul grant x y limit = bounded grant Multiply limit (to_int x * to_int y)"
proof -
  have "length (bi_limbs x) + length (bi_limbs y) \<le> u64_max"
    using assms max_vec_limbs_less(1) by (simp add: big_inv_def)
  moreover have "to_int x * to_int y =
      signed_int (bi_negative x \<noteq> bi_negative y) (val (bi_limbs x) * val (bi_limbs y))"
    by (auto simp: to_int_def signed_int_def)
  ultimately show ?thesis
    by (simp add: big_checked_mul_def mul_magnitude_val bounded_def and_then_assoc_Inr
        from_sign_magnitude_of)
qed

subsection \<open>Division\<close>

text \<open>The allocations a division makes, in order: each is refused or served before the next.\<close>

primrec served :: "(nat \<Rightarrow> bool) \<Rightarrow> nat \<Rightarrow> nat list \<Rightarrow> arithmetic_error + unit" where
  "served grant limit [] = Inr ()"
| "served grant limit (n # ns) =
     and_then (allocate_limbs grant Divide n limit) (\<lambda>_. served grant limit ns)"

definition division_requests :: "nat \<Rightarrow> nat \<Rightarrow> nat list" where
  "division_requests a b =
     (if a = 0 then []
      else if a < b then [limb_len a]
      else if a = b then [1]
      else if limb_len b = 1 then [limb_len (a div b), limb_len (a mod b)]
      else [limb_len (a div b), limb_len b, limb_len a + 1, limb_len (a mod b)])"

lemma signed_quotient:
  assumes "to_int x \<noteq> 0" "to_int y \<noteq> 0"
  shows "signed_int (bi_negative x \<noteq> bi_negative y) (val (bi_limbs x) div val (bi_limbs y)) =
           to_int x sdiv to_int y"
    and "signed_int (bi_negative x) (val (bi_limbs x) mod val (bi_limbs y)) = to_int x smod to_int y"
  using assms
  by (auto simp: to_int_def signed_int_def signed_divide_int_def signed_modulo_int_def sgn_if
      zdiv_int zmod_int split: if_splits)

lemma checked_div_rem_by_zero:
  "is_canonical y \<Longrightarrow> to_int y = 0 \<Longrightarrow> checked_div_rem grant x y limit = Some (Inl DivisionByZero)"
  by (simp add: checked_div_rem_def is_zero_big_iff)

text \<open>The magnitude division behind one- and many-limb divisors.\<close>

lemma magnitude_division:
  assumes "big_inv x" "big_inv y" "val (bi_limbs y) < val (bi_limbs x)" "to_int y \<noteq> 0"
  defines "a \<equiv> val (bi_limbs x)" and "b \<equiv> val (bi_limbs y)"
  shows "quotient_limb_count (bi_limbs x) (bi_limbs y) = Inr (limb_len (a div b))"
    and "(if length (bi_limbs y) = 1
          then Some (div_rem_magnitude_by_limb grant (bi_limbs x) (bi_limbs y ! 0) (limb_len (a div b)) limit)
          else div_rem_magnitude_knuth grant (bi_limbs x) (bi_limbs y) (limb_len (a div b)) limit) =
         Some (and_then (served grant limit (division_requests a b)) (\<lambda>_.
           Inr (limbs_of (a div b), limbs_of (a mod b))))"
proof -
  have nz: "no_high_zero (bi_limbs x)" "no_high_zero (bi_limbs y)"
    using assms(1,2) by (simp_all add: big_inv_def)
  have ne: "bi_limbs y \<noteq> []" using assms(4) by (auto simp: to_int_def split: if_splits)
  have b: "b \<noteq> 0" using ne nz by (simp add: b_def val_eq_0_iff)
  have len: "length (bi_limbs y) \<le> length (bi_limbs x)"
    using length_no_high_zero [OF nz(2,1)] assms(3) by simp
  have u64: "length (bi_limbs x) < u64_max"
    using assms(1) max_vec_limbs_less(2) by (simp add: big_inv_def)
  show "quotient_limb_count (bi_limbs x) (bi_limbs y) = Inr (limb_len (a div b))"
    unfolding a_def b_def using quotient_limb_count_val [OF nz ne _ u64] assms(3) by simp
  have lens: "limb_len a = length (bi_limbs x)" "limb_len b = length (bi_limbs y)"
    using nz by (simp_all add: a_def b_def limb_len_val)
  show "(if length (bi_limbs y) = 1
          then Some (div_rem_magnitude_by_limb grant (bi_limbs x) (bi_limbs y ! 0) (limb_len (a div b)) limit)
          else div_rem_magnitude_knuth grant (bi_limbs x) (bi_limbs y) (limb_len (a div b)) limit) =
         Some (and_then (served grant limit (division_requests a b)) (\<lambda>_.
           Inr (limbs_of (a div b), limbs_of (a mod b))))"
  proof (cases "length (bi_limbs y) = 1")
    case True
    then obtain v where v: "bi_limbs y = [v]" by (auto simp: length_Suc_conv)
    then have "unat v = b" by (simp add: b_def)
    with True v b lens assms(3) show ?thesis
      using div_rem_by_limb_val [of v "limb_len (a div b)" "bi_limbs x" grant limit]
      by (simp add: division_requests_def a_def [symmetric] b_def [symmetric] and_then_def split: sum.splits)
  next
    case False
    then have two: "2 \<le> length (bi_limbs y)" using ne by (cases "bi_limbs y") (auto simp: Suc_le_eq)
    have "\<not> a < b" "a \<noteq> b" "a \<noteq> 0" using assms(3) by (auto simp: a_def b_def)
    with False lens show ?thesis
      using div_rem_knuth_val [OF nz(2) two len u64, of grant limit]
      by (simp add: division_requests_def a_def [symmetric] b_def [symmetric] and_then_def split: sum.splits)
  qed
qed

lemma checked_div_rem_exact:
  assumes "big_inv x" "big_inv y" "to_int y \<noteq> 0"
  shows "checked_div_rem grant x y limit =
    Some (and_then (served grant limit (division_requests (nat \<bar>to_int x\<bar>) (nat \<bar>to_int y\<bar>))) (\<lambda>_.
      Inr (big_of (to_int x sdiv to_int y), big_of (to_int x smod to_int y))))"
proof -
  let ?a = "val (bi_limbs x)" and ?b = "val (bi_limbs y)"
  have can: "is_canonical x" "is_canonical y" using assms by (simp_all add: big_inv_def)
  have cmp: "cmp_magnitude (bi_limbs x) (bi_limbs y) = compare ?a ?b"
    using can by (simp add: cmp_magnitude_val)
  have y: "\<not> is_zero_big y" using can assms(3) by (simp add: is_zero_big_iff)
  show ?thesis
  proof (cases "to_int x = 0")
    case True
    then have "?a = 0" by (simp add: to_int_def split: if_splits)
    with True y can show ?thesis
      by (simp add: checked_div_rem_def is_zero_big_iff division_requests_def big_of_0 abs_to_int
          signed_divide_int_def signed_modulo_int_def)
  next
    case False
    note signed = signed_quotient [OF False assms(3)]
    have a: "?a \<noteq> 0" using False by (auto simp: to_int_def split: if_splits)
    show ?thesis
    proof (cases ?a ?b rule: linorder_cases)
      case less
      then have "to_int x sdiv to_int y = 0" "to_int x smod to_int y = signed_int (bi_negative x) ?a"
        by (simp_all add: signed [symmetric] signed_int_def)
      with less y a False can show ?thesis
        by (simp add: checked_div_rem_def is_zero_big_iff cmp compare_def division_requests_def
            abs_to_int allocate_limbs_def ensure_def limb_len_val from_sign_magnitude_of big_of_0)
    next
      case equal
      then have "to_int x sdiv to_int y = signed_int (bi_negative x \<noteq> bi_negative y) 1"
        "to_int x smod to_int y = 0"
        using a by (simp_all add: signed [symmetric] signed_int_def)
      with equal y a False can show ?thesis
        by (simp add: checked_div_rem_def is_zero_big_iff cmp compare_def division_requests_def
            abs_to_int allocate_limbs_def ensure_def from_sign_magnitude_of big_of_0)
    next
      case greater
      have order: "compare ?a ?b = Greater" using greater by (simp add: compare_def)
      have x: "\<not> is_zero_big x" using can False by (simp add: is_zero_big_iff)
      note division = magnitude_division(1) [OF assms(1,2) greater assms(3)]
        magnitude_division(2) [OF assms(1,2) greater assms(3), of grant limit]
      have "checked_div_rem grant x y limit =
          map_option (\<lambda>r. and_then r (\<lambda>(quot, remainder).
            Inr (from_sign_magnitude (bi_negative x \<noteq> bi_negative y) quot,
                 from_sign_magnitude (bi_negative x) remainder)))
            (Some (and_then (served grant limit (division_requests ?a ?b)) (\<lambda>_.
              Inr (limbs_of (?a div ?b), limbs_of (?a mod ?b)))))"
        by (simp only: checked_div_rem_def y x cmp order division if_False ordering.case sum.case)
      then show ?thesis
        by (simp add: abs_to_int from_sign_magnitude_of signed [symmetric] and_then_assoc_Inr)
    qed
  qed
qed

section \<open>Order\<close>

lemma cmp_big_exact:
  assumes "is_canonical x" "is_canonical y"
  shows "cmp_big x y = compare (to_int x) (to_int y)"
  using assms cmp_magnitude_val [of "bi_limbs x" "bi_limbs y"] cmp_magnitude_val [of "bi_limbs y" "bi_limbs x"]
    val_eq_0_iff [of "bi_limbs x"] val_eq_0_iff [of "bi_limbs y"]
  by (cases "bi_negative x"; cases "bi_negative y")
    (auto simp: cmp_big_def to_int_def compare_def is_canonical_iff)

section \<open>Conversions\<close>

lemma low_limb_mask: "low_limb (x AND widen (- 1)) = low_limb x"
  by (rule bit_word_eqI) (simp add: low_limb_def widen_def bit_simps)

lemma big_of_two_limbs:
  assumes "unat m = n"
  shows "big_of (signed_int negative n) =
     (if low_limb (drop_bit 64 m) \<noteq> 0
      then \<lparr>bi_negative = negative, bi_limbs = [low_limb m, low_limb (drop_bit 64 m)]\<rparr>
      else if low_limb m \<noteq> 0 then \<lparr>bi_negative = negative, bi_limbs = [low_limb m]\<rparr>
      else big_zero)"
proof -
  let ?lo = "low_limb m" and ?hi = "low_limb (drop_bit 64 m)"
  have "unat ?hi = n div beta"
    using unat_u128 [of m] unfolding high_part_def [symmetric] unat_low_limb unat_high_part assms
    by (simp add: less_mult_imp_div_less)
  then have val: "val [?lo, ?hi] = n" using assms by (simp add: unat_low_limb)
  show ?thesis
  proof (cases "?hi = 0")
    case False
    then have "limbs_of n = [?lo, ?hi]"
      using limbs_of_val [of "[?lo, ?hi]"] val by (simp add: no_high_zero_def)
    moreover from this have "n \<noteq> 0" by (metis limbs_of_0 list.distinct(1))
    ultimately show ?thesis using False by (auto simp: big_of_def signed_int_def)
  next
    case True
    then have lo: "val [?lo] = n" using val by simp
    show ?thesis
    proof (cases "?lo = 0")
      case False
      then have "limbs_of n = [?lo]"
        using limbs_of_val [of "[?lo]"] lo by (simp add: no_high_zero_def)
      moreover from this have "n \<noteq> 0" by (metis limbs_of_0 list.distinct(1))
      ultimately show ?thesis using False True by (auto simp: big_of_def signed_int_def)
    next
      case zero: True
      then have "n = 0" using lo by simp
      with True zero show ?thesis by (simp add: big_of_def big_zero_def signed_int_def)
    qed
  qed
qed

lemma sint_range: "- (2 ^ 127) \<le> sint v" "sint v < 2 ^ 127" for v :: u128
  using sint_ge [of v] sint_lt [of v] by simp_all

lemma sint_unsigned_abs: "sint v = signed_int (v <s 0) (unat (unsigned_abs v))" for v :: u128
proof (cases "v <s 0")
  case True
  then have "sint v < 0" by (simp add: word_sless_alt)
  moreover have "- v = word_of_int (- sint v)" by simp
  then have "uint (- v) = - sint v mod 2 ^ 128" by (simp only: uint_word_of_int) simp
  ultimately have "uint (- v) = - sint v" using sint_range [of v] by simp
  then show ?thesis using True by (simp add: unsigned_abs_def signed_int_def)
next
  case False
  then have "0 \<le> sint v" by (simp add: word_sless_alt)
  moreover have "uint v = uint (word_of_int (sint v) :: u128)" by simp
  then have "uint v = sint v mod 2 ^ 128" by (simp only: uint_word_of_int) simp
  ultimately have "uint v = sint v" using sint_range [of v] by simp
  then show ?thesis using False by (simp add: unsigned_abs_def signed_int_def)
qed

lemma from_i128_exact: "from_i128 v = big_of (sint v)"
  using big_of_two_limbs [OF refl, of "v <s 0" "unsigned_abs v"]
  by (simp add: from_i128_def low_limb_mask sint_unsigned_abs Let_def)

lemma two_limbs_val:
  "length xs \<le> 2 \<Longrightarrow> beta * unat (limb_at xs 1) + unat (limb_at xs 0) = val xs"
  by (cases xs rule: remdups_adj.cases) (auto simp: limb_at_def list_get_def)

lemma range_cases:
  "(q \<Longrightarrow> m = a) \<Longrightarrow> (if p then None else if q then Some a else Some m) = (if \<not> p then Some m else None)"
  "(if p then None else Some m) = (if \<not> p then Some m else None)"
  by auto

lemma to_i128_exact:
  assumes "is_canonical x"
  shows "to_i128 x =
     (if - (2 ^ 127) \<le> to_int x \<and> to_int x < 2 ^ 127 then Some (word_of_int (to_int x)) else None)"
proof (cases "length (bi_limbs x) > 2")
  case True
  then have "\<not> limb_len (val (bi_limbs x)) \<le> 2" using assms by (simp add: limb_len_val)
  then have "beta ^ 2 \<le> val (bi_limbs x)" by (simp only: limb_len_le_iff not_less)
  then have "2 ^ 128 \<le> val (bi_limbs x)" by (simp add: beta_def)
  then have "2 ^ 128 \<le> \<bar>to_int x\<bar>" by (simp add: to_int_def)
  with True show ?thesis by (auto simp: to_i128_def)
next
  case False
  let ?mag = "push_bit 64 (widen (limb_at (bi_limbs x) 1)) OR widen (limb_at (bi_limbs x) 0)"
  have "unat ?mag = beta * unat (limb_at (bi_limbs x) 1) + unat (limb_at (bi_limbs x) 0)"
    by (simp add: unat_join)
  also have "\<dots> = val (bi_limbs x)"
    using False two_limbs_val [of "bi_limbs x"] by simp
  finally have mag: "unat ?mag = val (bi_limbs x)" .
  have word: "word_of_int (int (val (bi_limbs x))) = ?mag"
    unfolding mag [symmetric] by simp
  have half: "unat (push_bit 127 1 :: u128) = 2 ^ 127" "unat (push_bit 127 1 - 1 :: u128) = 2 ^ 127 - 1"
    by simp_all
  have gt: "?mag > push_bit 127 1 \<longleftrightarrow> 2 ^ 127 < val (bi_limbs x)"
    "?mag > push_bit 127 1 - 1 \<longleftrightarrow> 2 ^ 127 - 1 < val (bi_limbs x)"
    "?mag = push_bit 127 1 \<longleftrightarrow> val (bi_limbs x) = 2 ^ 127"
    unfolding word_less_nat_alt word_unat_eq_iff half mag by auto
  let ?n = "val (bi_limbs x)"
  show ?thesis
  proof (cases "bi_negative x")
    case True
    have code: "to_i128 x =
        (if 2 ^ 127 < ?n then None else if ?n = 2 ^ 127 then Some (push_bit 127 1) else Some (- ?mag))"
      using False True unfolding to_i128_def Let_def gt by (simp only: if_True if_False)
    have fits: "(- (2 ^ 127) \<le> - int ?n \<and> - int ?n < 2 ^ 127) \<longleftrightarrow> \<not> 2 ^ 127 < ?n" by auto
    have neg: "word_of_int (- int ?n) = - ?mag" using word by simp
    have int: "to_int x = - int ?n" using True by (simp add: to_int_def)
    have least: "- ?mag = push_bit 127 1" if "?n = 2 ^ 127"
      using gt(3) that by simp
    show ?thesis unfolding code int fits neg by (rule range_cases(1) [OF least])
  next
    case pos: False
    have code: "to_i128 x = (if 2 ^ 127 - 1 < ?n then None else Some ?mag)"
      using False pos unfolding to_i128_def Let_def gt by (simp only: if_False)
    have fits: "(- (2 ^ 127) \<le> int ?n \<and> int ?n < 2 ^ 127) \<longleftrightarrow> \<not> 2 ^ 127 - 1 < ?n" by auto
    have int: "to_int x = int ?n" using pos by (simp add: to_int_def)
    show ?thesis unfolding code int fits word by (rule range_cases(2))
  qed
qed

section \<open>The byte encoding\<close>

primrec le_val :: "byte list \<Rightarrow> nat" where
  "le_val [] = 0"
| "le_val (b # bytes) = unat b + 256 * le_val bytes"

lemma unat_byte: "unat (b :: byte) < 256"
  using unsigned_less [of b, where ?'a = nat] by simp

lemma le_val_bound: "le_val bytes < 256 ^ length bytes"
proof (induction bytes)
  case (Cons b bytes)
  have "le_val (b # bytes) < 256 * (le_val bytes + 1)" using unat_byte [of b] by simp
  also have "\<dots> \<le> 256 * 256 ^ length bytes" using Cons by (intro mult_le_mono2) simp
  finally show ?case by (simp only: length_Cons power_Suc)
qed simp

lemma le_val_digits:
  assumes "\<And>i. i < length bytes \<Longrightarrow> unat (bytes ! i) = n div 256 ^ i mod 256"
  shows "le_val bytes = n mod 256 ^ length bytes"
  using assms
proof (induction bytes arbitrary: n)
  case (Cons b bytes)
  have "unat (bytes ! i) = n div 256 div 256 ^ i mod 256" if "i < length bytes" for i
    using Cons.prems [of "Suc i"] that by (simp add: div_mult2_eq)
  then have "le_val bytes = n div 256 mod 256 ^ length bytes" by (rule Cons.IH)
  with Cons.prems [of 0] show ?case by (simp add: mod_mult2_eq)
qed simp

lemma le_val_inject: "length xs = length ys \<Longrightarrow> le_val xs = le_val ys \<Longrightarrow> xs = ys"
proof (induction xs ys rule: list_induct2)
  case (Cons x xs y ys)
  have eq: "unat x + 256 * le_val xs = unat y + 256 * le_val ys" using Cons.prems by simp
  then have "(unat x + 256 * le_val xs) mod 256 = (unat y + 256 * le_val ys) mod 256"
    "(unat x + 256 * le_val xs) div 256 = (unat y + 256 * le_val ys) div 256" by simp_all
  then have "unat x = unat y" "le_val xs = le_val ys"
    using unat_byte [of x] unat_byte [of y] by simp_all
  with Cons.IH show ?case by (simp add: word_unat_eq_iff)
qed simp

lemma length_to_le_bytes [simp]: "length (to_le_bytes v) = 8"
  by (simp add: to_le_bytes_def)

lemma le_val_to_le_bytes: "le_val (to_le_bytes v) = unat v"
proof -
  have "unat (to_le_bytes v ! i) = unat v div 256 ^ i mod 256" if "i < 8" for i
  proof -
    have "unat (ucast (drop_bit (8 * i) v) :: byte) = unat (drop_bit (8 * i) v) mod 256"
      by (simp add: unsigned_ucast_eq take_bit_eq_mod)
    then show ?thesis using that by (simp add: to_le_bytes_def unat_drop power_mult)
  qed
  then have "le_val (to_le_bytes v) = unat v mod 256 ^ 8"
    using le_val_digits [of "to_le_bytes v" "unat v"] by simp
  then show ?thesis using unat_limb [of v] by (simp add: beta_def)
qed

lemma unat_from_le_bytes: "length bytes \<le> 8 \<Longrightarrow> unat (from_le_bytes bytes) = le_val bytes"
proof (induction bytes)
  case (Cons b bytes)
  have IH: "unat (from_le_bytes bytes) = le_val bytes" using Cons by simp
  have "le_val bytes < 256 ^ length bytes" by (rule le_val_bound)
  also have "\<dots> \<le> 256 ^ 7" using Cons.prems by (intro power_increasing) simp_all
  finally have "le_val bytes * 2 ^ 8 < beta" by (simp add: beta_def)
  moreover have byte: "unat (ucast b :: limb) = unat b"
    using unat_byte [of b] by (simp add: unsigned_ucast_eq take_bit_nat_eq_self)
  moreover have "unat (ucast b :: limb) < 2 ^ 8" unfolding byte using unat_byte [of b] by simp
  ultimately show ?case
    using unat_push_or [of 8 "ucast b" "from_le_bytes bytes"] IH by simp
qed simp

lemma from_to_le_bytes [simp]: "from_le_bytes (to_le_bytes v) = v"
  by (simp add: word_unat_eq_iff unat_from_le_bytes le_val_to_le_bytes)

lemma to_from_le_bytes: "length bytes = 8 \<Longrightarrow> to_le_bytes (from_le_bytes bytes) = bytes"
  by (intro le_val_inject) (simp_all add: le_val_to_le_bytes unat_from_le_bytes)

lemma chunks8_concat: "(\<And>b. b \<in> set bs \<Longrightarrow> length b = 8) \<Longrightarrow> chunks8 (concat bs) = bs"
proof (induction bs)
  case Nil
  then show ?case by (simp add: chunks8.simps)
next
  case (Cons b bs)
  then have "length b = 8" by simp
  then show ?case using Cons by (subst chunks8.simps) simp
qed

lemma concat_chunks8:
  "length bytes = 8 * k \<Longrightarrow>
     concat (chunks8 bytes) = bytes \<and> length (chunks8 bytes) = k \<and> (\<forall>b\<in>set (chunks8 bytes). length b = 8)"
proof (induction k arbitrary: bytes)
  case 0
  then show ?case by (simp add: chunks8.simps)
next
  case (Suc k)
  have chunks: "chunks8 bytes = take 8 bytes # chunks8 (drop 8 bytes)"
    using Suc.prems by (subst chunks8.simps) simp
  have "length (drop 8 bytes) = 8 * k" using Suc.prems by simp
  from Suc.IH [OF this] Suc.prems show ?case by (simp add: chunks)
qed

lemma from_canonical_limbs_Inr:
  assumes "sign \<noteq> Zero"
  shows "from_canonical_limbs sign xs limit = Inr x \<longleftrightarrow>
    length xs \<le> limit \<and> xs \<noteq> [] \<and> last xs \<noteq> 0 \<and> x = \<lparr>bi_negative = (sign = Negative), bi_limbs = xs\<rparr>"
  using assms by (auto simp: from_canonical_limbs_def Let_def)

lemma decode_encode:
  assumes "is_canonical x" "length (bi_limbs x) \<le> limit" "length (bi_limbs x) \<le> u64_max"
    and "is_zero_big x \<or> grant (length (bi_limbs x))"
  shows "decode_canonical_bytes grant (encode_canonical_bytes x) limit = Inr x"
proof (cases "is_zero_big x")
  case True
  then have "x = big_zero" using assms(1) by (cases x) (auto simp: is_zero_big_def is_canonical_def big_zero_def)
  with True show ?thesis by (simp add: encode_canonical_bytes_def decode_canonical_bytes_def)
next
  case False
  let ?xs = "bi_limbs x"
  have count: "unat (of_nat (length ?xs) :: limb) = length ?xs"
    using assms(3) by (intro unat_of_nat_limb) (simp add: beta_def u64_max_def)
  have len: "length (concat (map to_le_bytes ?xs)) = length ?xs * 8"
    by (simp add: length_concat comp_def sum_list_triv)
  have chunks: "map from_le_bytes (chunks8 (concat (map to_le_bytes ?xs))) = ?xs"
    by (subst chunks8_concat) (auto simp: comp_def)
  have tags: "POSITIVE \<noteq> ZERO" "NEGATIVE \<noteq> ZERO" "NEGATIVE \<noteq> POSITIVE"
    by (simp_all add: POSITIVE_def NEGATIVE_def ZERO_def)
  have canonical: "from_canonical_limbs (if bi_negative x then Negative else Positive) ?xs limit = Inr x"
    using assms(1,2) False by (subst from_canonical_limbs_Inr) (auto simp: is_canonical_def is_zero_big_def)
  show ?thesis
    using False assms(2,4) count len chunks tags tags(1,2) [symmetric] tags(3) [symmetric] canonical
    by (cases "bi_negative x") (simp_all add: encode_canonical_bytes_def decode_canonical_bytes_def Let_def)
qed

lemma decode_exact:
  assumes "decode_canonical_bytes grant bytes limit = Inr x"
  shows "is_canonical x \<and> bytes = encode_canonical_bytes x \<and> length (bi_limbs x) \<le> limit \<and>
    length (bi_limbs x) \<le> u64_max \<and> (is_zero_big x \<or> grant (length (bi_limbs x)))"
proof -
  obtain tag rest where bytes: "bytes = tag # rest"
    using assms by (cases bytes) (simp_all add: decode_canonical_bytes_def)
  show ?thesis
  proof (cases "tag = ZERO")
    case True
    with assms bytes have "rest = []" "x = big_zero"
      by (auto simp: decode_canonical_bytes_def split: if_splits)
    with True bytes show ?thesis
      by (simp add: is_canonical_def big_zero_def encode_canonical_bytes_def is_zero_big_def)
  next
    case False
    let ?count = "unat (from_le_bytes (take 8 rest))" and ?m = "drop 8 rest"
    let ?sign = "if tag = POSITIVE then Positive else Negative"
    let ?xs = "map from_le_bytes (chunks8 ?m)"
    have tag: "tag = POSITIVE \<or> tag = NEGATIVE" and len: "\<not> length rest < 8" "length ?m = ?count * 8"
      and limit: "?count \<le> limit" "grant ?count"
      and canonical: "from_canonical_limbs ?sign ?xs limit = Inr x"
      using assms bytes False
      by (auto simp: decode_canonical_bytes_def Let_def split: if_splits sum.splits)
    have x: "x = \<lparr>bi_negative = (?sign = Negative), bi_limbs = ?xs\<rparr>" "?xs \<noteq> []" "last ?xs \<noteq> 0"
      using canonical from_canonical_limbs_Inr [of ?sign ?xs limit x] by simp_all
    have "length ?m = 8 * ?count" using len(2) by (simp only: mult.commute)
    from concat_chunks8 [OF this] have m: "concat (chunks8 ?m) = ?m" "length (chunks8 ?m) = ?count"
      "\<forall>b\<in>set (chunks8 ?m). length b = 8"
      by blast+
    have "map to_le_bytes ?xs = chunks8 ?m" using m(3) by (simp add: map_idI to_from_le_bytes comp_def)
    then have magnitude: "concat (map to_le_bytes ?xs) = ?m" using m(1) by simp
    have "of_nat ?count = from_le_bytes (take 8 rest)" by simp
    then have count: "to_le_bytes (of_nat (length ?xs)) = take 8 rest"
      using len(1) m(2) by (simp only: length_map) (simp add: to_from_le_bytes)
    have "(if bi_negative x then NEGATIVE else POSITIVE) = tag"
      using tag x(1) by (auto simp: POSITIVE_def NEGATIVE_def)
    then have "encode_canonical_bytes x = bytes"
      using x magnitude count bytes by (simp add: encode_canonical_bytes_def is_zero_big_def del: map_map)
    moreover have "?count \<le> u64_max" using unat_limb [of "from_le_bytes (take 8 rest)"] by (simp add: beta_def u64_max_def)
    ultimately show ?thesis using x limit m(2) by (auto simp: is_canonical_def)
  qed
qed

section \<open>Exact integers as an exact ring\<close>

lemma allocate_limbs_Inr: "allocate_limbs grant operation n limit = Inr out \<Longrightarrow> n \<le> limit \<and> n \<le> max_vec_limbs"
  by (simp add: allocate_limbs_def ensure_def split: if_splits)

lemma bounded_Inr:
  "bounded grant operation limit v = Inr z \<Longrightarrow> big_inv z \<and> to_int z = v \<and> length (bi_limbs z) \<le> limit"
  by (auto simp: bounded_def big_inv_def big_of_def to_int_def limb_len_def is_canonical_iff and_then_eq_Inr
      dest: allocate_limbs_Inr)

lemma big_inv_zero: "big_inv big_zero"
  by (simp add: big_inv_def is_canonical_def big_zero_def)

interpretation bigint: exact_ring big_inv to_int
  "\<lambda>x y. big_checked_add grant x y limit" "\<lambda>x y. big_checked_sub grant x y limit"
  "\<lambda>x y. big_checked_mul grant x y limit" "\<lambda>x. big_checked_neg grant x limit"
  for grant limit
proof
  fix x y z :: big_int
  show "big_inv x \<Longrightarrow> big_inv y \<Longrightarrow> to_int x = to_int y \<Longrightarrow> x = y"
    by (simp add: big_inv_def canonical_inject)
  show "big_inv x \<Longrightarrow> big_inv y \<Longrightarrow> big_checked_add grant x y limit = Inr z \<Longrightarrow>
      big_inv z \<and> to_int z = to_int x + to_int y"
    using cancel_sum(1) [of x y] bounded_Inr [of grant Add limit "to_int x + to_int y" z]
    by (auto simp: big_checked_add_cases big_of_0 big_inv_zero split: if_splits)
  show "big_inv x \<Longrightarrow> big_inv y \<Longrightarrow> big_checked_sub grant x y limit = Inr z \<Longrightarrow>
      big_inv z \<and> to_int z = to_int x - to_int y"
    using cancel_sum(2) [of x y] bounded_Inr [of grant Subtract limit "to_int x - to_int y" z]
    by (auto simp: big_checked_sub_cases big_of_0 big_inv_zero split: if_splits)
  show "big_inv x \<Longrightarrow> big_inv y \<Longrightarrow> big_checked_mul grant x y limit = Inr z \<Longrightarrow>
      big_inv z \<and> to_int z = to_int x * to_int y"
    by (auto simp: big_checked_mul_exact dest: bounded_Inr)
  show "big_inv x \<Longrightarrow> big_checked_neg grant x limit = Inr z \<Longrightarrow> big_inv z \<and> to_int z = - to_int x"
    by (auto simp: big_checked_neg_exact big_inv_def dest: bounded_Inr)
qed

section \<open>Properties\<close>

text \<open>
  C24: Checked addition, subtraction, multiplication, negation and copying of exact integers refine the
  arithmetic of the integers. On canonical values each returns the canonical representation of the exact
  result when the limb limit, the bound on a vector's length and the allocator admit the limbs that
  result has, and otherwise the error that names the operation and the limbs it needed; no other limbs
  are ever asked for. The allocator is assumed to serve a request for no limbs, as \<open>try_reserve_exact(0)\<close> does.
\<close>

theorem bigint_arithmetic_refines:
  assumes "big_inv x" "big_inv y" "grant 0"
  shows "big_checked_add grant x y limit = bounded grant Add limit (to_int x + to_int y) \<and>
    big_checked_sub grant x y limit = bounded grant Subtract limit (to_int x - to_int y) \<and>
    big_checked_mul grant x y limit = bounded grant Multiply limit (to_int x * to_int y) \<and>
    big_checked_neg grant x limit = bounded grant Negate limit (- to_int x) \<and>
    big_checked_clone grant x limit = bounded grant Clone limit (to_int x)"
  using assms
  by (simp add: big_checked_add_exact big_checked_sub_exact big_checked_mul_exact big_checked_neg_exact
      big_checked_clone_exact big_inv_def)

lemma big_inv_short: "is_canonical x \<Longrightarrow> length (bi_limbs x) \<le> 3 \<Longrightarrow> big_inv x"
  by (simp add: big_inv_def max_vec_limbs_def)

lemmas big_eval = to_int_def is_canonical_def beta_def

theorem bigint_arithmetic_refines_witness:
  "big_inv \<lparr>bi_negative = False, bi_limbs = [18446744073709551615]\<rparr> \<and> big_inv \<lparr>bi_negative = False, bi_limbs = [1]\<rparr> \<and>
   big_checked_add (\<lambda>_. True) \<lparr>bi_negative = False, bi_limbs = [18446744073709551615]\<rparr> \<lparr>bi_negative = False, bi_limbs = [1]\<rparr> 2 =
     bounded (\<lambda>_. True) Add 2 (2 ^ 64)"
proof -
  let ?x = "\<lparr>bi_negative = False, bi_limbs = [18446744073709551615]\<rparr>" and ?y = "\<lparr>bi_negative = False, bi_limbs = [1]\<rparr>"
  have inv: "big_inv ?x" "big_inv ?y" by (rule big_inv_short; simp add: is_canonical_def)+
  have "to_int ?x + to_int ?y = 2 ^ 64" by (simp add: big_eval)
  with bigint_arithmetic_refines [OF inv, of "\<lambda>_. True" 2] inv show ?thesis by (simp only: simp_thms)
qed

text \<open>
  C25: Division of exact integers is total and exact. A zero divisor is rejected before anything is
  allocated; otherwise the division returns (every correction loop of the long division ends), and its
  result is the quotient truncated toward zero and the remainder with the dividend's sign, unless one of
  the allocations it makes, in the order the code makes them, is refused.
\<close>

theorem bigint_division:
  assumes "big_inv x" "big_inv y"
  shows "checked_div_rem grant x y limit =
    (if to_int y = 0 then Some (Inl DivisionByZero)
     else Some (and_then (served grant limit (division_requests (nat \<bar>to_int x\<bar>) (nat \<bar>to_int y\<bar>))) (\<lambda>_.
       Inr (big_of (to_int x sdiv to_int y), big_of (to_int x smod to_int y)))))"
  using assms checked_div_rem_by_zero [of y] checked_div_rem_exact [of x y] by (simp add: big_inv_def)

theorem bigint_division_witness:
  "big_inv \<lparr>bi_negative = True, bi_limbs = [0, 0, 1]\<rparr> \<and> big_inv \<lparr>bi_negative = False, bi_limbs = [1, 1]\<rparr> \<and>
   checked_div_rem (\<lambda>_. True) \<lparr>bi_negative = True, bi_limbs = [0, 0, 1]\<rparr>
     \<lparr>bi_negative = False, bi_limbs = [1, 1]\<rparr> 4 =
   Some (and_then (served (\<lambda>_. True) 4 (division_requests (2 ^ 128) (2 ^ 64 + 1))) (\<lambda>_.
     Inr (big_of (- (2 ^ 64 - 1)), big_of (- 1))))"
proof -
  let ?x = "\<lparr>bi_negative = True, bi_limbs = [0, 0, 1]\<rparr>" and ?y = "\<lparr>bi_negative = False, bi_limbs = [1, 1]\<rparr>"
  have inv: "big_inv ?x" "big_inv ?y" by (rule big_inv_short; simp add: is_canonical_def)+
  have ints: "to_int ?x = - (2 ^ 128)" "to_int ?y = 2 ^ 64 + 1" by (simp_all add: big_eval)
  have results: "- (2 ^ 128) sdiv (2 ^ 64 + 1 :: int) = - (2 ^ 64 - 1)"
    "- (2 ^ 128) smod (2 ^ 64 + 1 :: int) = - 1"
    by (simp_all add: signed_divide_int_def signed_modulo_int_def)
  have nats: "nat \<bar>- (2 ^ 128) :: int\<bar> = 2 ^ 128" "nat \<bar>2 ^ 64 + 1 :: int\<bar> = 2 ^ 64 + 1"
    "(2 ^ 64 + 1 :: int) \<noteq> 0" by simp_all
  show ?thesis
    using bigint_division [OF inv, of "\<lambda>_. True" 4, unfolded ints results nats] inv nats(3)
    by (simp only: simp_thms if_False)
qed

text \<open>
  C26: The quotient-digit loop of the long division ends with the exact digit. For a normalised divisor of
  at least two limbs and a window smaller than the base times the divisor, the correction loop returns,
  the digit written is the quotient of the window by the divisor, the window is left holding the
  remainder, and nothing below the window is touched.
\<close>

theorem quotient_digit_terminates:
  assumes "offset + length divisor < length dividend" "2 \<le> length divisor"
    and "beta \<le> 2 * unat (divisor ! (length divisor - 1))"
    and "val (take (Suc (length divisor)) (drop offset dividend)) < beta * val divisor"
  shows "\<exists>dividend' digit. divide_digit dividend offset divisor = Some (dividend', digit) \<and>
    unat digit = val (take (Suc (length divisor)) (drop offset dividend)) div val divisor \<and>
    val (take (Suc (length divisor)) (drop offset dividend')) =
      val (take (Suc (length divisor)) (drop offset dividend)) mod val divisor \<and>
    length dividend' = length dividend \<and> take offset dividend' = take offset dividend"
  using divide_digit_val [OF assms(1-4)] by metis

theorem quotient_digit_terminates_witness:
  "\<exists>dividend' digit. divide_digit [5, 0, 3] 0 [0, 2 ^ 63] = Some (dividend', digit) \<and>
     unat digit = val [5, 0, 3] div val [0, 2 ^ 63]"
  using quotient_digit_terminates [of 0 "[0, 2 ^ 63]" "[5, 0, 3]"]
  by (fastforce simp: beta_def)

text \<open>
  C37: The canonical byte encoding is a bijection onto what the decoder accepts. Decoding returns a value
  exactly when the input is the encoding of that canonical value, its limb count is within the limit and
  in \<open>u64\<close>, and the allocator serves it; so no two byte strings decode to the same value and every
  malformed input is refused.
\<close>

theorem bigint_bytes_exact:
  "decode_canonical_bytes grant bytes limit = Inr x \<longleftrightarrow>
     is_canonical x \<and> bytes = encode_canonical_bytes x \<and> length (bi_limbs x) \<le> limit \<and>
     length (bi_limbs x) \<le> u64_max \<and> (is_zero_big x \<or> grant (length (bi_limbs x)))"
  using decode_exact decode_encode by blast

end
