(* ===== verification/ZWeight.thy ===== *)
theory ZWeight
  imports BigInt
begin

text \<open>
  The exact weights of \<open>fgdb-delta-types\<close> (\<open>zweight.rs\<close>): an \<open>i128\<close> where the value fits, a promoted
  exact integer where it does not, with promotion before overflow and demotion after every operation.
\<close>

section \<open>The code\<close>

text \<open>\<open>Repr\<close>; an \<open>i128\<close> is its 128-bit word, read with \<open>sint\<close>.\<close>

datatype zweight = Fast u128 | Promoted big_int

text \<open>\<open>i128::checked_add\<close> and its relatives: the wrapped word, unless the signed result leaves the range.\<close>

definition i128_fits :: "int \<Rightarrow> bool" where
  "i128_fits v \<longleftrightarrow> - (2 ^ 127) \<le> v \<and> v < 2 ^ 127"

definition i128_checked_add :: "u128 \<Rightarrow> u128 \<Rightarrow> u128 option" where
  "i128_checked_add a b = (if i128_fits (sint a + sint b) then Some (a + b) else None)"

definition i128_checked_sub :: "u128 \<Rightarrow> u128 \<Rightarrow> u128 option" where
  "i128_checked_sub a b = (if i128_fits (sint a - sint b) then Some (a - b) else None)"

definition i128_checked_mul :: "u128 \<Rightarrow> u128 \<Rightarrow> u128 option" where
  "i128_checked_mul a b = (if i128_fits (sint a * sint b) then Some (a * b) else None)"

definition i128_checked_neg :: "u128 \<Rightarrow> u128 option" where
  "i128_checked_neg a = (if i128_fits (- sint a) then Some (- a) else None)"

definition zw_ZERO :: zweight where "zw_ZERO = Fast 0"
definition zw_ONE :: zweight where "zw_ONE = Fast 1"

definition from_bigint :: "big_int \<Rightarrow> zweight" where
  "from_bigint value =
     (case to_i128 value of Some inline \<Rightarrow> Fast inline | None \<Rightarrow> Promoted value)"

definition zw_to_i128 :: "zweight \<Rightarrow> u128 option" where
  "zw_to_i128 w = (case w of Fast value \<Rightarrow> Some value | Promoted value \<Rightarrow> to_i128 value)"

fun is_promoted :: "zweight \<Rightarrow> bool" where
  "is_promoted (Fast _) = False"
| "is_promoted (Promoted _) = True"

fun magnitude_limb_count :: "zweight \<Rightarrow> nat" where
  "magnitude_limb_count (Fast value) =
     (let magnitude = unsigned_abs value in
      if magnitude = 0 then 0 else if drop_bit 64 magnitude = 0 then 1 else 2)"
| "magnitude_limb_count (Promoted value) = length (bi_limbs value)"

fun zw_is_canonical :: "zweight \<Rightarrow> bool" where
  "zw_is_canonical (Fast _) = True"
| "zw_is_canonical (Promoted value) = (is_canonical value \<and> to_i128 value = None)"

definition demote :: "arithmetic_error + big_int \<Rightarrow> arithmetic_error + zweight" where
  "demote r = (case r of Inl e \<Rightarrow> Inl e | Inr value \<Rightarrow> Inr (from_bigint value))"

fun zw_checked_clone :: "(nat \<Rightarrow> bool) \<Rightarrow> zweight \<Rightarrow> nat \<Rightarrow> arithmetic_error + zweight" where
  "zw_checked_clone grant (Fast value) limit = Inr (Fast value)"
| "zw_checked_clone grant (Promoted value) limit = demote (big_checked_clone grant value limit)"

fun zw_checked_add :: "(nat \<Rightarrow> bool) \<Rightarrow> zweight \<Rightarrow> zweight \<Rightarrow> nat \<Rightarrow> arithmetic_error + zweight" where
  "zw_checked_add grant (Fast left) (Fast right) limit =
     (case i128_checked_add left right of
        Some result \<Rightarrow> Inr (Fast result)
      | None \<Rightarrow> demote (big_checked_add grant (from_i128 left) (from_i128 right) limit))"
| "zw_checked_add grant (Fast left) (Promoted right) limit =
     demote (big_checked_add grant (from_i128 left) right limit)"
| "zw_checked_add grant (Promoted left) (Fast right) limit =
     demote (big_checked_add grant left (from_i128 right) limit)"
| "zw_checked_add grant (Promoted left) (Promoted right) limit =
     demote (big_checked_add grant left right limit)"

fun zw_checked_sub :: "(nat \<Rightarrow> bool) \<Rightarrow> zweight \<Rightarrow> zweight \<Rightarrow> nat \<Rightarrow> arithmetic_error + zweight" where
  "zw_checked_sub grant (Fast left) (Fast right) limit =
     (case i128_checked_sub left right of
        Some result \<Rightarrow> Inr (Fast result)
      | None \<Rightarrow> demote (big_checked_sub grant (from_i128 left) (from_i128 right) limit))"
| "zw_checked_sub grant (Fast left) (Promoted right) limit =
     demote (big_checked_sub grant (from_i128 left) right limit)"
| "zw_checked_sub grant (Promoted left) (Fast right) limit =
     demote (big_checked_sub grant left (from_i128 right) limit)"
| "zw_checked_sub grant (Promoted left) (Promoted right) limit =
     demote (big_checked_sub grant left right limit)"

fun zw_checked_neg :: "(nat \<Rightarrow> bool) \<Rightarrow> zweight \<Rightarrow> nat \<Rightarrow> arithmetic_error + zweight" where
  "zw_checked_neg grant (Fast value) limit =
     (case i128_checked_neg value of
        Some result \<Rightarrow> Inr (Fast result)
      | None \<Rightarrow> demote (big_checked_neg grant (from_i128 value) limit))"
| "zw_checked_neg grant (Promoted value) limit = demote (big_checked_neg grant value limit)"

fun zw_checked_mul :: "(nat \<Rightarrow> bool) \<Rightarrow> zweight \<Rightarrow> zweight \<Rightarrow> nat \<Rightarrow> arithmetic_error + zweight" where
  "zw_checked_mul grant (Fast left) (Fast right) limit =
     (case i128_checked_mul left right of
        Some result \<Rightarrow> Inr (Fast result)
      | None \<Rightarrow> demote (big_checked_mul grant (from_i128 left) (from_i128 right) limit))"
| "zw_checked_mul grant (Fast left) (Promoted right) limit =
     demote (big_checked_mul grant (from_i128 left) right limit)"
| "zw_checked_mul grant (Promoted left) (Fast right) limit =
     demote (big_checked_mul grant left (from_i128 right) limit)"
| "zw_checked_mul grant (Promoted left) (Promoted right) limit =
     demote (big_checked_mul grant left right limit)"

definition checked_mul_i128 :: "(nat \<Rightarrow> bool) \<Rightarrow> zweight \<Rightarrow> u128 \<Rightarrow> nat \<Rightarrow> arithmetic_error + zweight" where
  "checked_mul_i128 grant w factor limit = zw_checked_mul grant w (Fast factor) limit"

fun signum :: "zweight \<Rightarrow> int" where
  "signum (Fast value) = (if value <s 0 then - 1 else if value = 0 then 0 else 1)"
| "signum (Promoted value) =
     (if is_zero_big value then 0 else if bi_negative value then - 1 else 1)"

definition zw_is_zero :: "zweight \<Rightarrow> bool" where
  "zw_is_zero w \<longleftrightarrow> signum w = 0"

fun magnitude_limb :: "zweight \<Rightarrow> nat \<Rightarrow> limb" where
  "magnitude_limb (Fast value) index =
     (let magnitude = unsigned_abs value in
      if index = 0 then low_limb magnitude
      else if index = 1 then low_limb (drop_bit 64 magnitude)
      else 0)"
| "magnitude_limb (Promoted value) index = limb_at (bi_limbs value) index"

text \<open>The loop over the indices \<open>k - 1, ..., 0\<close>.\<close>

primrec cmp_limbs_down :: "zweight \<Rightarrow> zweight \<Rightarrow> nat \<Rightarrow> ordering" where
  "cmp_limbs_down a b 0 = Equal"
| "cmp_limbs_down a b (Suc i) =
     (case compare (magnitude_limb a i) (magnitude_limb b i) of
        Equal \<Rightarrow> cmp_limbs_down a b i
      | different \<Rightarrow> different)"

definition zw_cmp_magnitude :: "zweight \<Rightarrow> zweight \<Rightarrow> ordering" where
  "zw_cmp_magnitude a b =
     (case compare (magnitude_limb_count a) (magnitude_limb_count b) of
        Equal \<Rightarrow> cmp_limbs_down a b (magnitude_limb_count a)
      | different \<Rightarrow> different)"

definition zw_cmp :: "zweight \<Rightarrow> zweight \<Rightarrow> ordering" where
  "zw_cmp a b =
     (case compare (signum a) (signum b) of
        Equal \<Rightarrow> if signum a < 0 then zw_cmp_magnitude b a else zw_cmp_magnitude a b
      | different \<Rightarrow> different)"

definition zw_eq :: "zweight \<Rightarrow> zweight \<Rightarrow> bool" where
  "zw_eq a b \<longleftrightarrow> zw_cmp a b = Equal"

text \<open>What \<open>Hash\<close> feeds the hasher: the sign, the number of limbs, and the limbs upward.\<close>

definition hash_input :: "zweight \<Rightarrow> int \<times> nat \<times> limb list" where
  "hash_input w =
     (signum w, magnitude_limb_count w, map (magnitude_limb w) [0..<magnitude_limb_count w])"

section \<open>The integer a weight stands for\<close>

fun zint :: "zweight \<Rightarrow> int" where
  "zint (Fast value) = sint value"
| "zint (Promoted value) = to_int value"

fun zw_inv :: "zweight \<Rightarrow> bool" where
  "zw_inv (Fast value) = True"
| "zw_inv (Promoted value) = (big_inv value \<and> to_i128 value = None)"

text \<open>The weight of an integer.\<close>

definition zw_of :: "int \<Rightarrow> zweight" where
  "zw_of v = (if i128_fits v then Fast (word_of_int v) else Promoted (big_of v))"

lemma zw_inv_canonical: "zw_inv w \<Longrightarrow> zw_is_canonical w"
  by (cases w) (simp_all add: big_inv_def)

lemma sint_word_of_int: "i128_fits v \<Longrightarrow> sint (word_of_int v :: u128) = v"
  by (simp add: i128_fits_def sint_sbintrunc' signed_take_bit_int_eq_self)

lemma i128_fits_sint [simp]: "i128_fits (sint (v :: u128))"
  using sint_range [of v] by (simp add: i128_fits_def)

lemma zint_zw_of [simp]: "zint (zw_of v) = v"
  by (simp add: zw_of_def sint_word_of_int)

lemma to_i128_fits: "is_canonical x \<Longrightarrow> to_i128 x = (if i128_fits (to_int x) then Some (word_of_int (to_int x)) else None)"
  by (simp add: to_i128_exact i128_fits_def)

lemma zw_of_zint: "zw_inv w \<Longrightarrow> zw_of (zint w) = w"
  by (cases w) (auto simp: zw_of_def big_inv_def to_i128_fits big_of_to_int split: if_splits)

lemma zint_inject: "zw_inv a \<Longrightarrow> zw_inv b \<Longrightarrow> zint a = zint b \<Longrightarrow> a = b"
  by (metis zw_of_zint)

lemma from_bigint_of: "is_canonical x \<Longrightarrow> from_bigint x = zw_of (to_int x)"
  by (simp add: from_bigint_def zw_of_def to_i128_fits big_of_to_int)

lemma big_inv_from_i128 [simp]: "big_inv (from_i128 v)"
proof -
  have "length (bi_limbs (from_i128 v)) \<le> 2"
    by (simp add: from_i128_def Let_def big_zero_def)
  then show ?thesis by (simp add: big_inv_def from_i128_exact max_vec_limbs_def)
qed

lemma to_int_from_i128 [simp]: "to_int (from_i128 v) = sint v"
  by (simp add: from_i128_exact)

section \<open>Arithmetic\<close>

text \<open>
  What an operation on weights may do with its exact result: an inline operation whose result fits
  returns it and asks for nothing; every other one has the limbs of the result admitted first.
\<close>

definition zbounded ::
  "(nat \<Rightarrow> bool) \<Rightarrow> arithmetic_operation \<Rightarrow> nat \<Rightarrow> bool \<Rightarrow> int \<Rightarrow> arithmetic_error + zweight" where
  "zbounded grant operation limit inline v =
     (if inline \<and> i128_fits v then Inr (zw_of v)
      else and_then (allocate_limbs grant operation (limb_len (nat \<bar>v\<bar>)) limit) (\<lambda>_. Inr (zw_of v)))"

fun as_big :: "zweight \<Rightarrow> big_int" where
  "as_big (Fast value) = from_i128 value"
| "as_big (Promoted value) = value"

lemma as_big_exact: "zw_inv w \<Longrightarrow> big_inv (as_big w)" "to_int (as_big w) = zint w"
  by (cases w; simp)+

lemma demote_bounded: "demote (bounded grant operation limit v) = zbounded grant operation limit False v"
  by (cases "allocate_limbs grant operation (limb_len (nat \<bar>v\<bar>)) limit")
    (simp_all add: demote_def bounded_def zbounded_def from_bigint_of)

lemma i128_arith:
  "i128_checked_add a b = (if i128_fits (sint a + sint b) then Some (word_of_int (sint a + sint b)) else None)"
  "i128_checked_sub a b = (if i128_fits (sint a - sint b) then Some (word_of_int (sint a - sint b)) else None)"
  "i128_checked_mul a b = (if i128_fits (sint a * sint b) then Some (word_of_int (sint a * sint b)) else None)"
  "i128_checked_neg a = (if i128_fits (- sint a) then Some (word_of_int (- sint a)) else None)"
  by (simp_all add: i128_checked_add_def i128_checked_sub_def i128_checked_mul_def i128_checked_neg_def)

text \<open>The four arms of each binary operation: inline, or the exact integers on the widened operands.\<close>

lemma zw_checked_add_widened:
  "zw_checked_add grant a b limit =
     (if \<not> is_promoted a \<and> \<not> is_promoted b \<and> i128_fits (zint a + zint b) then Inr (zw_of (zint a + zint b))
      else demote (big_checked_add grant (as_big a) (as_big b) limit))"
  by (cases a; cases b) (simp_all add: i128_arith zw_of_def)

lemma zw_checked_sub_widened:
  "zw_checked_sub grant a b limit =
     (if \<not> is_promoted a \<and> \<not> is_promoted b \<and> i128_fits (zint a - zint b) then Inr (zw_of (zint a - zint b))
      else demote (big_checked_sub grant (as_big a) (as_big b) limit))"
  by (cases a; cases b) (simp_all add: i128_arith zw_of_def)

lemma zw_checked_mul_widened:
  "zw_checked_mul grant a b limit =
     (if \<not> is_promoted a \<and> \<not> is_promoted b \<and> i128_fits (zint a * zint b) then Inr (zw_of (zint a * zint b))
      else demote (big_checked_mul grant (as_big a) (as_big b) limit))"
  by (cases a; cases b) (simp_all add: i128_arith zw_of_def)

lemma zw_checked_neg_widened:
  "zw_checked_neg grant a limit =
     (if \<not> is_promoted a \<and> i128_fits (- zint a) then Inr (zw_of (- zint a))
      else demote (big_checked_neg grant (as_big a) limit))"
  by (cases a) (simp_all add: i128_arith zw_of_def)

lemma zw_checked_clone_widened:
  "zw_checked_clone grant a limit =
     (if is_promoted a then demote (big_checked_clone grant (as_big a) limit) else Inr a)"
  by (cases a) simp_all

lemmas zw_widened = zw_checked_add_widened zw_checked_sub_widened zw_checked_mul_widened
  zw_checked_neg_widened zw_checked_clone_widened

lemma demote_zbounded:
  "r = bounded grant operation limit v \<Longrightarrow>
     (if p \<and> i128_fits v then Inr (zw_of v) else demote r) = zbounded grant operation limit p v"
  by (simp add: demote_bounded zbounded_def)

lemma zw_checked_clone_exact:
  "zw_inv a \<Longrightarrow> zw_checked_clone grant a limit = zbounded grant Clone limit (\<not> is_promoted a) (zint a)"
  by (cases a)
    (simp_all add: zw_checked_clone_widened big_checked_clone_exact demote_bounded zbounded_def zw_of_def big_inv_def)

lemma zw_arithmetic_exact:
  assumes "zw_inv a" "zw_inv b" "grant 0"
  shows "zw_checked_add grant a b limit =
      zbounded grant Add limit (\<not> is_promoted a \<and> \<not> is_promoted b) (zint a + zint b)"
    "zw_checked_sub grant a b limit =
      zbounded grant Subtract limit (\<not> is_promoted a \<and> \<not> is_promoted b) (zint a - zint b)"
    "zw_checked_mul grant a b limit =
      zbounded grant Multiply limit (\<not> is_promoted a \<and> \<not> is_promoted b) (zint a * zint b)"
    "zw_checked_neg grant a limit = zbounded grant Negate limit (\<not> is_promoted a) (- zint a)"
  using assms as_big_exact [of a] as_big_exact [of b]
  by (simp_all add: zw_widened big_checked_add_exact big_checked_sub_exact big_checked_mul_exact
      big_checked_neg_exact demote_bounded zbounded_def big_inv_def)

lemma zw_inv_of: "i128_fits v \<or> limb_len (nat \<bar>v\<bar>) \<le> max_vec_limbs \<Longrightarrow> zw_inv (zw_of v)"
  using length_limbs [of "big_of v"] by (auto simp: zw_of_def to_i128_fits big_inv_def)

lemma demote_Inr:
  assumes "demote r = Inr w" "\<And>x. r = Inr x \<Longrightarrow> big_inv x \<and> to_int x = v"
  shows "zw_inv w \<and> zint w = v"
  using assms by (cases r) (auto simp: demote_def from_bigint_def to_i128_fits sint_word_of_int big_inv_def
      split: option.splits if_splits)

lemma zbounded_Inr: "zbounded grant operation limit p v = Inr w \<Longrightarrow> zw_inv w \<and> zint w = v"
  by (auto simp: zbounded_def and_then_eq_Inr intro: zw_inv_of dest: allocate_limbs_Inr split: if_splits)

interpretation zw: exact_ring zw_inv zint
  "\<lambda>x y. zw_checked_add grant x y limit" "\<lambda>x y. zw_checked_sub grant x y limit"
  "\<lambda>x y. zw_checked_mul grant x y limit" "\<lambda>x. zw_checked_neg grant x limit"
  for grant limit
proof
  fix a b c :: zweight
  let ?a = "as_big a" and ?b = "as_big b"
  show "zw_inv a \<Longrightarrow> zw_inv b \<Longrightarrow> zint a = zint b \<Longrightarrow> a = b" by (rule zint_inject)
  show "zw_inv a \<Longrightarrow> zw_inv b \<Longrightarrow> zw_checked_add grant a b limit = Inr c \<Longrightarrow>
      zw_inv c \<and> zint c = zint a + zint b"
    using demote_Inr [OF _ bigint.add_exact [of ?a ?b grant limit]]
    by (auto simp: zw_widened as_big_exact intro: zw_inv_of split: if_splits)
  show "zw_inv a \<Longrightarrow> zw_inv b \<Longrightarrow> zw_checked_sub grant a b limit = Inr c \<Longrightarrow>
      zw_inv c \<and> zint c = zint a - zint b"
    using demote_Inr [OF _ bigint.sub_exact [of ?a ?b grant limit]]
    by (auto simp: zw_widened as_big_exact intro: zw_inv_of split: if_splits)
  show "zw_inv a \<Longrightarrow> zw_inv b \<Longrightarrow> zw_checked_mul grant a b limit = Inr c \<Longrightarrow>
      zw_inv c \<and> zint c = zint a * zint b"
    using demote_Inr [OF _ bigint.mul_exact [of ?a ?b grant limit]]
    by (auto simp: zw_widened as_big_exact intro: zw_inv_of split: if_splits)
  show "zw_inv a \<Longrightarrow> zw_checked_neg grant a limit = Inr c \<Longrightarrow> zw_inv c \<and> zint c = - zint a"
    using demote_Inr [OF _ bigint.neg_exact [of ?a grant limit]]
    by (auto simp: zw_widened as_big_exact intro: zw_inv_of split: if_splits)
qed

section \<open>Order, equality and hashing\<close>

lemma signum_exact: "zw_inv w \<Longrightarrow> signum w = sgn (zint w)"
proof (cases w)
  case (Fast v)
  have "v = 0" if "sint v = 0" using that zint_inject [of "Fast v" "Fast 0"] by simp
  with Fast show ?thesis by (auto simp: word_sless_alt sgn_if)
next
  case (Promoted x)
  moreover assume "zw_inv w"
  ultimately have "is_canonical x" by (simp add: big_inv_def)
  then show ?thesis
    using Promoted is_zero_big_iff [of x] by (auto simp: to_int_def sgn_if)
qed

lemma zw_is_zero_exact: "zw_inv w \<Longrightarrow> zw_is_zero w \<longleftrightarrow> zint w = 0"
  by (simp add: zw_is_zero_def signum_exact sgn_0_0)

lemma from_i128_limbs:
  "bi_limbs (from_i128 v) =
     (let m = unsigned_abs v in
      if low_limb (drop_bit 64 m) \<noteq> 0 then [low_limb m, low_limb (drop_bit 64 m)]
      else if low_limb m \<noteq> 0 then [low_limb m] else [])"
  by (simp add: from_i128_def Let_def low_limb_mask big_zero_def)

lemma high_half_zero: "low_limb (drop_bit 64 m) = 0 \<longleftrightarrow> drop_bit 64 m = 0"
proof -
  have "unat (drop_bit 64 m) < beta"
    using unat_u128 [of m] unfolding high_part_def [symmetric] unat_high_part
    by (simp add: less_mult_imp_div_less)
  then have "unat (low_limb (drop_bit 64 m)) = unat (drop_bit 64 m)" by (simp add: unat_low_limb)
  then show ?thesis by (simp add: word_unat_eq_iff)
qed

lemma halves_zero: "drop_bit 64 m = 0 \<Longrightarrow> low_limb m = 0 \<longleftrightarrow> m = 0"
proof -
  assume "drop_bit 64 m = 0"
  then have "unat m div beta = 0" by (metis high_part_def unat_0 unat_high_part)
  then have "unat (low_limb m) = unat m" by (simp add: unat_low_limb div_eq_0_iff)
  then show ?thesis by (simp add: word_unat_eq_iff)
qed

text \<open>Both representations show the limbs of the widened value.\<close>

lemma magnitude_limb_count_big: "magnitude_limb_count w = length (bi_limbs (as_big w))"
  by (cases w) (auto simp: from_i128_limbs Let_def high_half_zero halves_zero)

lemma magnitude_limb_big: "magnitude_limb w i = limb_at (bi_limbs (as_big w)) i"
  by (cases w) (auto simp: from_i128_limbs Let_def limb_at_def list_get_def nth_Cons split: nat.splits)

lemma cmp_limbs_down_zip:
  assumes "x = bi_limbs (as_big a)" "y = bi_limbs (as_big b)" "k \<le> length x" "k \<le> length y"
  shows "cmp_limbs_down a b k = cmp_zip (zip (rev (take k x)) (rev (take k y)))"
  using assms(3,4)
proof (induction k)
  case (Suc k)
  then show ?case
    using assms(1,2)
    by (simp add: take_Suc_conv_app_nth magnitude_limb_big limb_at_def list_get_def split: ordering.split)
qed simp

lemma zint_limbs: "\<bar>zint w\<bar> = int (val (bi_limbs (as_big w)))"
  using abs_to_int [of "as_big w"] by (simp add: as_big_exact(2))

lemma zw_cmp_magnitude_exact:
  assumes "zw_inv a" "zw_inv b"
  shows "zw_cmp_magnitude a b = compare \<bar>zint a\<bar> \<bar>zint b\<bar>"
proof -
  let ?x = "bi_limbs (as_big a)" and ?y = "bi_limbs (as_big b)"
  have "zw_cmp_magnitude a b = cmp_magnitude ?x ?y"
    using cmp_limbs_down_zip [OF refl refl, of "length ?x" a b]
    by (auto simp: zw_cmp_magnitude_def cmp_magnitude_def magnitude_limb_count_big compare_def)
  also have "\<dots> = compare (val ?x) (val ?y)"
    using assms as_big_exact(1) by (intro cmp_magnitude_val) (simp_all add: big_inv_def)
  also have "\<dots> = compare \<bar>zint a\<bar> \<bar>zint b\<bar>"
    using zint_limbs [of a] zint_limbs [of b] by (simp add: compare_nat_int)
  finally show ?thesis .
qed

lemma zw_cmp_exact: "zw_inv a \<Longrightarrow> zw_inv b \<Longrightarrow> zw_cmp a b = compare (zint a) (zint b)"
  by (auto simp: zw_cmp_def zw_cmp_magnitude_exact signum_exact compare_def sgn_if)

lemma zw_eq_exact: "zw_inv a \<Longrightarrow> zw_inv b \<Longrightarrow> zw_eq a b \<longleftrightarrow> zint a = zint b"
  by (auto simp: zw_eq_def zw_cmp_exact compare_def)

lemma is_promoted_exact: "zw_inv a \<Longrightarrow> is_promoted a \<longleftrightarrow> \<not> i128_fits (zint a)"
  by (cases a) (auto simp: big_inv_def to_i128_fits split: if_splits)

lemma hash_input_exact:
  assumes "zw_inv a" "zw_inv b"
  shows "hash_input a = hash_input b \<longleftrightarrow> zw_eq a b"
proof
  assume eq: "hash_input a = hash_input b"
  let ?x = "bi_limbs (as_big a)" and ?y = "bi_limbs (as_big b)"
  have limbs: "map (magnitude_limb w) [0..<magnitude_limb_count w] = bi_limbs (as_big w)" for w
    by (rule nth_equalityI) (simp_all add: magnitude_limb_count_big magnitude_limb_big limb_at_def list_get_def)
  have "?x = ?y" "sgn (zint a) = sgn (zint b)"
    using eq assms by (simp_all add: hash_input_def limbs signum_exact)
  then have "zint a = zint b" by (metis sgn_mult_abs zint_limbs)
  with assms show "zw_eq a b" by (simp add: zw_eq_exact)
next
  assume "zw_eq a b"
  with assms have "a = b" by (simp add: zw_eq_exact zint_inject)
  then show "hash_input a = hash_input b" by simp
qed

section \<open>Properties\<close>

text \<open>
  C19: Weight arithmetic refines the arithmetic of the integers and never shows an \<open>i128\<close> overflow. On
  canonical weights each operation returns the canonical weight of the exact result: an inline operation
  whose result fits asks for no limbs, and any other has the limbs of that result admitted first and
  returns the error naming them if they are refused. Comparison is the order of the integers, and two
  weights are equal exactly when they feed a hasher the same input.
\<close>

theorem zweight_refines:
  assumes "zw_inv a" "zw_inv b" "grant 0"
  shows "zw_checked_add grant a b limit =
      zbounded grant Add limit (\<not> is_promoted a \<and> \<not> is_promoted b) (zint a + zint b) \<and>
    zw_checked_sub grant a b limit =
      zbounded grant Subtract limit (\<not> is_promoted a \<and> \<not> is_promoted b) (zint a - zint b) \<and>
    zw_checked_mul grant a b limit =
      zbounded grant Multiply limit (\<not> is_promoted a \<and> \<not> is_promoted b) (zint a * zint b) \<and>
    zw_checked_neg grant a limit = zbounded grant Negate limit (\<not> is_promoted a) (- zint a) \<and>
    zw_checked_clone grant a limit = zbounded grant Clone limit (\<not> is_promoted a) (zint a) \<and>
    (is_promoted a \<longleftrightarrow> \<not> i128_fits (zint a)) \<and>
    zw_cmp a b = compare (zint a) (zint b) \<and>
    (hash_input a = hash_input b \<longleftrightarrow> zw_eq a b)"
  using zw_arithmetic_exact [of a b grant, OF assms] zw_checked_clone_exact [OF assms(1)] zw_cmp_exact [OF assms(1,2)]
    is_promoted_exact [OF assms(1)] hash_input_exact [OF assms(1,2)]
  by (simp only: simp_thms)

theorem zweight_refines_witness:
  "zw_inv (Fast (2 ^ 127 - 1)) \<and> zw_inv (Fast 1) \<and>
   zw_checked_add (\<lambda>_. True) (Fast (2 ^ 127 - 1)) (Fast 1) 2 = zbounded (\<lambda>_. True) Add 2 True (2 ^ 127)"
proof -
  have "zint (Fast (2 ^ 127 - 1)) + zint (Fast 1) = 2 ^ 127" by simp
  then show ?thesis using zweight_refines [of "Fast (2 ^ 127 - 1)" "Fast 1" "\<lambda>_. True" 2] by simp
qed

end
