(* ===== verification/Controlled.thy ===== *)
theory Controlled
  imports Prelude
begin

text \<open>
  Code that runs on a state, mutates it and may fail. The state is what the code has borrowed mutably,
  the environment of the caller's callbacks included, and survives a failure as the failure left it. The
  theory has the sequencing the delta kernel is written in and the rules that take its runs apart.
\<close>

named_theorems run_simps \<open>what a run of composed code amounts to\<close>

section \<open>Sequencing\<close>

type_synonym ('s, 'x, 'a) controlled = "'s \<Rightarrow> ('x + 'a) \<times> 's"

definition ret :: "'a \<Rightarrow> ('s, 'x, 'a) controlled" where
  "ret a s = (Inr a, s)"

definition fails :: "'x \<Rightarrow> ('s, 'x, 'a) controlled" where
  "fails x s = (Inl x, s)"

text \<open>The \<open>?\<close> operator.\<close>

definition bindc :: "('s, 'x, 'a) controlled \<Rightarrow> ('a \<Rightarrow> ('s, 'x, 'b) controlled) \<Rightarrow> ('s, 'x, 'b) controlled" where
  "bindc m f s = (case m s of (Inl x, t) \<Rightarrow> (Inl x, t) | (Inr a, t) \<Rightarrow> f a t)"

text \<open>A result computed without effect, and \<open>map_err\<close>.\<close>

definition pure_result :: "'x + 'a \<Rightarrow> ('s, 'x, 'a) controlled" where
  "pure_result r s = (r, s)"

definition map_err :: "('x \<Rightarrow> 'y) \<Rightarrow> ('s, 'x, 'a) controlled \<Rightarrow> ('s, 'y, 'a) controlled" where
  "map_err f m s = (case m s of (Inl x, t) \<Rightarrow> (Inl (f x), t) | (Inr a, t) \<Rightarrow> (Inr a, t))"

text \<open>A value \<open>z\<close> under mutation beside the environment: reading it, assigning it, and code that leaves it alone.\<close>

definition get_self :: "('z \<times> 's, 'x, 'z) controlled" where
  "get_self = (\<lambda>(z, s). (Inr z, (z, s)))"

definition put_self :: "'z \<Rightarrow> ('z \<times> 's, 'x, unit) controlled" where
  "put_self z' = (\<lambda>(z, s). (Inr (), (z', s)))"

definition aside :: "('s, 'x, 'a) controlled \<Rightarrow> ('z \<times> 's, 'x, 'a) controlled" where
  "aside m = (\<lambda>(z, s). case m s of (r, t) \<Rightarrow> (r, (z, t)))"

text \<open>A local variable: \<open>let mut z = z0; body; Ok(z)\<close>.\<close>

definition with_local :: "'z \<Rightarrow> ('z \<times> 's, 'x, unit) controlled \<Rightarrow> ('s, 'x, 'z) controlled" where
  "with_local z0 body s =
     (case body (z0, s) of (Inl x, (z, t)) \<Rightarrow> (Inl x, t) | (Inr _, (z, t)) \<Rightarrow> (Inr z, t))"

primrec for_each :: "'i list \<Rightarrow> ('i \<Rightarrow> ('s, 'x, unit) controlled) \<Rightarrow> ('s, 'x, unit) controlled" where
  "for_each [] body = ret ()"
| "for_each (i # is) body = bindc (body i) (\<lambda>_. for_each is body)"

section \<open>Runs\<close>

lemma bindc_Inr [run_simps]:
  "bindc m f s = (Inr b, t) \<longleftrightarrow> (\<exists>a u. m s = (Inr a, u) \<and> f a u = (Inr b, t))"
  by (auto simp: bindc_def split: prod.split sum.split)

lemma bindc_Inl [run_simps]:
  "bindc m f s = (Inl x, t) \<longleftrightarrow> m s = (Inl x, t) \<or> (\<exists>a u. m s = (Inr a, u) \<and> f a u = (Inl x, t))"
  by (auto simp: bindc_def split: prod.split sum.split)

lemma ret_run [run_simps]: "ret a s = (r, t) \<longleftrightarrow> r = Inr a \<and> t = s"
  by (auto simp: ret_def)

lemma fails_run [run_simps]: "fails x s = (r, t) \<longleftrightarrow> r = Inl x \<and> t = s"
  by (auto simp: fails_def)

lemma pure_result_run [run_simps]: "pure_result r s = (q, t) \<longleftrightarrow> r = q \<and> t = s"
  by (auto simp: pure_result_def)

lemma map_err_Inr [run_simps]: "map_err f m s = (Inr a, t) \<longleftrightarrow> m s = (Inr a, t)"
  by (auto simp: map_err_def split: prod.split sum.split)

lemma get_self_run [run_simps]: "get_self p = (r, q) \<longleftrightarrow> r = Inr (fst p) \<and> q = p"
  by (cases p) (auto simp: get_self_def)

lemma put_self_run [run_simps]: "put_self z p = (r, q) \<longleftrightarrow> r = Inr () \<and> q = (z, snd p)"
  by (cases p) (auto simp: put_self_def)

lemma aside_run [run_simps]: "aside m p = (r, q) \<longleftrightarrow> m (snd p) = (r, snd q) \<and> fst q = fst p"
  by (cases p; cases q) (auto simp: aside_def split: prod.split)

lemma with_local_Inr [run_simps]: "with_local z0 body s = (Inr z, t) \<longleftrightarrow> body (z0, s) = (Inr (), (z, t))"
  by (auto simp: with_local_def split: prod.split sum.split)

lemma for_each_append: "for_each (is @ js) body s = bindc (for_each is body) (\<lambda>_. for_each js body) s"
  by (induction "is" arbitrary: s) (auto simp: bindc_def ret_def split: prod.split sum.split)

lemma for_each_succeeds:
  assumes "\<And>i p. i \<in> set is \<Longrightarrow> \<exists>q. body i p = (Inr (), q)"
  shows "\<exists>q. for_each is body p = (Inr (), q)"
  using assms
proof (induction "is" arbitrary: p)
  case (Cons i "is")
  obtain q where "body i p = (Inr (), q)" using Cons.prems [of i p] by auto
  moreover obtain q' where "for_each is body q = (Inr (), q')" using Cons.IH [of q] Cons.prems by auto
  ultimately show ?case by (auto simp: bindc_def)
qed (simp add: ret_def)

text \<open>A loop that inserts one entry per key of a map without repetition.\<close>

lemma for_each_inserts:
  assumes "\<And>k v m s m' s'. (k, v) \<in> set es \<Longrightarrow> body k v (m, s) = (Inr (), (m', s')) \<Longrightarrow>
      \<exists>w. m' = bt_insert k w m \<and> P k v w"
    and "for_each es (\<lambda>(k, v). body k v) (m0, s) = (Inr (), (m, t))" "bt_invar m0" "distinct (map fst es)"
  shows "bt_invar m \<and> (\<forall>k. case map_of es k of
      None \<Rightarrow> map_of m k = map_of m0 k
    | Some v \<Rightarrow> (\<exists>w. map_of m k = Some w \<and> P k v w))"
  using assms
proof (induction es arbitrary: m0 s)
  case Nil
  then show ?case by (simp add: run_simps)
next
  case (Cons e es)
  obtain key v where e: "e = (key, v)" by fastforce
  obtain m1 s1 where one: "body key v (m0, s) = (Inr (), (m1, s1))"
    and rest: "for_each es (\<lambda>(k, v). body k v) (m1, s1) = (Inr (), (m, t))"
    using Cons.prems(2) e by (auto simp: run_simps)
  obtain w where w: "m1 = bt_insert key w m0" "P key v w"
    using Cons.prems(1) [OF _ one] e by auto
  have "key \<notin> fst ` set es" using Cons.prems(4) e by simp
  then have fresh: "map_of es key = None" by (simp add: map_of_eq_None_iff)
  have "bt_invar m \<and> (\<forall>k. case map_of es k of
      None \<Rightarrow> map_of m k = map_of m1 k
    | Some v \<Rightarrow> (\<exists>w. map_of m k = Some w \<and> P k v w))"
    using Cons.prems(1,3,4) e w by (intro Cons.IH [OF _ rest]) (auto simp: bt_insert_invar)
  then show ?case
    unfolding e using w fresh by (auto simp: bt_lookup_insert split: option.splits if_splits)
qed

text \<open>A callback all of whose answers are the values of one function, whatever state it is called in.\<close>

definition computes :: "('i \<Rightarrow> ('s, 'x, 'a) controlled) \<Rightarrow> ('i \<Rightarrow> 'a) \<Rightarrow> bool" where
  "computes callback f \<longleftrightarrow> (\<forall>i s a t. callback i s = (Inr a, t) \<longrightarrow> a = f i)"

lemma computesD: "computes callback f \<Longrightarrow> callback i s = (Inr a, t) \<Longrightarrow> a = f i"
  unfolding computes_def by blast

section \<open>Code that mutates last\<close>

text \<open>Code that fails only before it has touched the value it mutates.\<close>

definition atomic :: "('z \<times> 's, 'x, 'a) controlled \<Rightarrow> bool" where
  "atomic m \<longleftrightarrow> (\<forall>z s x z' s'. m (z, s) = (Inl x, (z', s')) \<longrightarrow> z' = z)"

lemma atomicD: "atomic m \<Longrightarrow> m (z, s) = (Inl x, (z', s')) \<Longrightarrow> z' = z"
  unfolding atomic_def by blast

lemma atomic_ret [intro!]: "atomic (ret a)"
  by (simp add: atomic_def run_simps)

lemma atomic_put_self [intro!]: "atomic (put_self z)"
  by (simp add: atomic_def run_simps)

lemma atomic_bind_aside [intro!]: "(\<And>a. atomic (f a)) \<Longrightarrow> atomic (bindc (aside m) f)"
  by (fastforce simp: atomic_def run_simps)

lemma atomic_bind_get_self [intro!]: "(\<And>z. atomic (f z)) \<Longrightarrow> atomic (bindc get_self f)"
  by (auto simp: atomic_def run_simps)

lemma atomic_if [intro!]: "(p \<Longrightarrow> atomic m) \<Longrightarrow> (\<not> p \<Longrightarrow> atomic n) \<Longrightarrow> atomic (if p then m else n)"
  by simp

end
