(* ===== verification/ZSet.thy ===== *)
theory ZSet
  imports ZWeight Controlled "HOL-Library.Product_Lexorder"
begin

text \<open>
  Weighted relations of \<open>fgdb-delta-types\<close> (\<open>zset.rs\<close> and \<open>zset/seek.rs\<close>): an ordered map from keys to
  nonzero exact weights. Every operation runs under a caller's control, a stateful callback that may
  refuse any piece of work; the callbacks are parameters and their state is threaded through. A Z-set
  stands for a finitely supported function from keys to integers, and the operations are proved to be
  the pointwise ones.
\<close>

section \<open>The code\<close>

datatype zset_event = Work | ScratchEntry

datatype 'e zset_error =
    Arithmetic arithmetic_error
  | WeightAdmission nat nat
  | Control 'e
  | Callback 'e

type_synonym 't zset = "('t, zweight) btree"

type_synonym ('s, 'e) control = "zset_event \<Rightarrow> ('s, 'e, unit) controlled"

definition control_event :: "('s, 'e) control \<Rightarrow> zset_event \<Rightarrow> ('s, 'e zset_error, unit) controlled" where
  "control_event control v = map_err Control (control v)"

definition admit_weight :: "zweight \<Rightarrow> nat \<Rightarrow> ('s, 'e zset_error, unit) controlled" where
  "admit_weight weight limbs =
     (if is_promoted weight \<and> magnitude_limb_count weight > limbs
      then fails (WeightAdmission (magnitude_limb_count weight) limbs)
      else ret ())"

definition arithmetic :: "arithmetic_error + 'a \<Rightarrow> ('s, 'e zset_error, 'a) controlled" where
  "arithmetic r = map_err Arithmetic (pure_result r)"

definition zset_new :: "'t zset" where
  "zset_new = []"

definition zset_len :: "'t zset \<Rightarrow> nat" where
  "zset_len z = length z"

definition zset_is_empty :: "'t zset \<Rightarrow> bool" where
  "zset_is_empty z \<longleftrightarrow> z = []"

definition zset_weight :: "'t zset \<Rightarrow> 't \<Rightarrow> zweight option" where
  "zset_weight z key = map_of z key"

definition accumulate ::
  "(nat \<Rightarrow> bool) \<Rightarrow> ('s, 'e) control \<Rightarrow> 't::linorder \<Rightarrow> zweight \<Rightarrow> nat \<Rightarrow>
    ('t zset \<times> 's, 'e zset_error, unit) controlled" where
  "accumulate grant control key weight limbs =
     bindc (aside (control_event control Work)) (\<lambda>_.
     bindc (aside (admit_weight weight limbs)) (\<lambda>_.
     if zw_is_zero weight then ret ()
     else
       bindc get_self (\<lambda>entries.
       case map_of entries key of
         None \<Rightarrow>
           bindc (aside (control_event control ScratchEntry)) (\<lambda>_.
           put_self (bt_insert key weight entries))
       | Some present \<Rightarrow>
           bindc (aside (control_event control Work)) (\<lambda>_.
           bindc (aside (arithmetic (zw_checked_add grant present weight limbs))) (\<lambda>next_weight.
           if zw_is_zero next_weight then put_self (bt_remove key entries)
           else put_self (bt_insert key next_weight entries))))))"

definition from_updates ::
  "(nat \<Rightarrow> bool) \<Rightarrow> ('s, 'e) control \<Rightarrow> ('t::linorder \<times> zweight) list \<Rightarrow> nat \<Rightarrow>
    ('s, 'e zset_error, 't zset) controlled" where
  "from_updates grant control updates limbs =
     with_local zset_new (for_each updates (\<lambda>(key, weight). accumulate grant control key weight limbs))"

text \<open>The body of the loop of \<open>total_weight\<close>.\<close>

definition add_total ::
  "(nat \<Rightarrow> bool) \<Rightarrow> ('s, 'e) control \<Rightarrow> nat \<Rightarrow> zweight \<Rightarrow> (zweight \<times> 's, 'e zset_error, unit) controlled" where
  "add_total grant control limbs weight =
     bindc (aside (control_event control Work)) (\<lambda>_.
     bindc (aside (admit_weight weight limbs)) (\<lambda>_.
     bindc get_self (\<lambda>result.
     bindc (aside (arithmetic (zw_checked_add grant result weight limbs))) (\<lambda>result.
     put_self result))))"

definition total_weight ::
  "(nat \<Rightarrow> bool) \<Rightarrow> ('s, 'e) control \<Rightarrow> 't zset \<Rightarrow> nat \<Rightarrow> ('s, 'e zset_error, zweight) controlled" where
  "total_weight grant control z limbs =
     with_local zw_ZERO (for_each (map snd z) (add_total grant control limbs))"

definition zset_map ::
  "(nat \<Rightarrow> bool) \<Rightarrow> ('s, 'e) control \<Rightarrow> ('t \<Rightarrow> ('s, 'e, 'u) controlled) \<Rightarrow> 't zset \<Rightarrow> nat \<Rightarrow>
    ('s, 'e zset_error, 'u::linorder zset) controlled" where
  "zset_map grant control project z limbs =
     with_local zset_new (for_each z (\<lambda>(key, weight).
       bindc (aside (control_event control Work)) (\<lambda>_.
       bindc (aside (map_err Callback (project key))) (\<lambda>projected.
       bindc (aside (arithmetic (zw_checked_clone grant weight limbs))) (\<lambda>weight.
       accumulate grant control projected weight limbs)))))"

definition zset_checked_clone ::
  "(nat \<Rightarrow> bool) \<Rightarrow> ('s, 'e) control \<Rightarrow> 't::linorder zset \<Rightarrow> nat \<Rightarrow> ('s, 'e zset_error, 't zset) controlled" where
  "zset_checked_clone grant control z limbs = zset_map grant control ret z limbs"

definition zset_filter ::
  "(nat \<Rightarrow> bool) \<Rightarrow> ('s, 'e) control \<Rightarrow> ('t \<Rightarrow> ('s, 'e, bool) controlled) \<Rightarrow> 't::linorder zset \<Rightarrow> nat \<Rightarrow>
    ('s, 'e zset_error, 't zset) controlled" where
  "zset_filter grant control predicate z limbs =
     with_local zset_new (for_each z (\<lambda>(key, weight).
       bindc (aside (control_event control Work)) (\<lambda>_.
       bindc (aside (map_err Callback (predicate key))) (\<lambda>selected.
       if selected then
         bindc (aside (arithmetic (zw_checked_clone grant weight limbs))) (\<lambda>weight.
         accumulate grant control key weight limbs)
       else ret ()))))"

definition negated ::
  "(nat \<Rightarrow> bool) \<Rightarrow> ('s, 'e) control \<Rightarrow> 't::linorder zset \<Rightarrow> nat \<Rightarrow> ('s, 'e zset_error, 't zset) controlled" where
  "negated grant control z limbs =
     with_local zset_new (for_each z (\<lambda>(key, weight).
       bindc (aside (control_event control Work)) (\<lambda>_.
       bindc (aside (arithmetic (zw_checked_neg grant weight limbs))) (\<lambda>inverse.
       accumulate grant control key inverse limbs))))"

text \<open>The body of the loop of \<open>prepare_integration\<close>.\<close>

definition stage_replacement ::
  "(nat \<Rightarrow> bool) \<Rightarrow> ('s, 'e) control \<Rightarrow> 't::linorder zset \<Rightarrow> nat \<Rightarrow> 't \<Rightarrow> zweight \<Rightarrow>
    (('t, zweight) btree \<times> 's, 'e zset_error, unit) controlled" where
  "stage_replacement grant control self limbs key change =
     bindc (aside (control_event control Work)) (\<lambda>_.
     bindc (aside (admit_weight change limbs)) (\<lambda>_.
     bindc (aside (arithmetic
       (case map_of self key of
          Some old \<Rightarrow> zw_checked_add grant old change limbs
        | None \<Rightarrow> zw_checked_clone grant change limbs))) (\<lambda>next_weight.
     bindc (aside (control_event control ScratchEntry)) (\<lambda>_.
     bindc get_self (\<lambda>replacements.
     put_self (bt_insert key next_weight replacements))))))"

definition prepare_integration ::
  "(nat \<Rightarrow> bool) \<Rightarrow> ('s, 'e) control \<Rightarrow> 't::linorder zset \<Rightarrow> 't zset \<Rightarrow> nat \<Rightarrow>
    ('s, 'e zset_error, ('t, zweight) btree) controlled" where
  "prepare_integration grant control self delta limbs =
     with_local [] (for_each delta (\<lambda>(key, change). stage_replacement grant control self limbs key change))"

primrec publish :: "'t::linorder zset \<Rightarrow> ('t, zweight) btree \<Rightarrow> 't zset" where
  "publish z [] = z"
| "publish z (r # replacements) =
     publish (if zw_is_zero (snd r) then bt_remove (fst r) z else bt_insert (fst r) (snd r) z) replacements"

text \<open>\<open>ZSetUpdate\<close>: the exclusive borrow pins the owner's value.\<close>

record 't zset_update =
  upd_owner :: "'t zset"
  upd_replacements :: "('t, zweight) btree"

definition update_weight :: "'t zset_update \<Rightarrow> 't \<Rightarrow> zweight option" where
  "update_weight u key =
     (case map_of (upd_replacements u) key of
        Some weight \<Rightarrow> if zw_is_zero weight then None else Some weight
      | None \<Rightarrow> zset_weight (upd_owner u) key)"

definition update_commit :: "'t::linorder zset_update \<Rightarrow> 't zset" where
  "update_commit u = publish (upd_owner u) (upd_replacements u)"

definition prepare_update ::
  "(nat \<Rightarrow> bool) \<Rightarrow> ('s, 'e) control \<Rightarrow> 't::linorder zset \<Rightarrow> nat \<Rightarrow>
    ('t zset \<times> 's, 'e zset_error, 't zset_update) controlled" where
  "prepare_update grant control delta limbs =
     bindc get_self (\<lambda>self.
     bindc (aside (prepare_integration grant control self delta limbs)) (\<lambda>replacements.
     bindc (aside (control_event control Work)) (\<lambda>_.
     ret \<lparr>upd_owner = self, upd_replacements = replacements\<rparr>)))"

definition integrate ::
  "(nat \<Rightarrow> bool) \<Rightarrow> ('s, 'e) control \<Rightarrow> 't::linorder zset \<Rightarrow> nat \<Rightarrow>
    ('t zset \<times> 's, 'e zset_error, unit) controlled" where
  "integrate grant control delta limbs =
     bindc (prepare_update grant control delta limbs) (\<lambda>u. put_self (update_commit u))"

definition zset_plus ::
  "(nat \<Rightarrow> bool) \<Rightarrow> ('s, 'e) control \<Rightarrow> 't::linorder zset \<Rightarrow> 't zset \<Rightarrow> nat \<Rightarrow>
    ('s, 'e zset_error, 't zset) controlled" where
  "zset_plus grant control self other limbs =
     bindc (zset_checked_clone grant control self limbs) (\<lambda>result.
     with_local result (integrate grant control other limbs))"

definition zset_minus ::
  "(nat \<Rightarrow> bool) \<Rightarrow> ('s, 'e) control \<Rightarrow> 't::linorder zset \<Rightarrow> 't zset \<Rightarrow> nat \<Rightarrow>
    ('s, 'e zset_error, 't zset) controlled" where
  "zset_minus grant control self other limbs =
     bindc (negated grant control other limbs) (\<lambda>inverse.
     zset_plus grant control self inverse limbs)"

definition zset_product ::
  "(nat \<Rightarrow> bool) \<Rightarrow> ('s, 'e) control \<Rightarrow> 't::linorder zset \<Rightarrow> 'u::linorder zset \<Rightarrow> nat \<Rightarrow>
    ('s, 'e zset_error, ('t \<times> 'u) zset) controlled" where
  "zset_product grant control self other limbs =
     with_local zset_new (for_each self (\<lambda>(left, left_weight).
       bindc (aside (control_event control Work)) (\<lambda>_.
       for_each other (\<lambda>(right, right_weight).
         bindc (aside (control_event control Work)) (\<lambda>_.
         bindc (aside (arithmetic (zw_checked_mul grant left_weight right_weight limbs))) (\<lambda>weight.
         accumulate grant control (left, right) weight limbs))))))"

text \<open>\<open>first_after\<close> seeks the first entry of the range above a bound that need not be present.\<close>

definition first_after :: "'t::linorder zset \<Rightarrow> 't option \<Rightarrow> ('t \<times> zweight) option" where
  "first_after z after =
     (case after of
        None \<Rightarrow> list_get z 0
      | Some key \<Rightarrow> list_get (dropWhile (\<lambda>(k, _). k \<le> key) z) 0)"

lemma arithmetic_Inr [run_simps]: "arithmetic r s = (Inr a, t) \<longleftrightarrow> r = Inr a \<and> t = s"
  by (auto simp: arithmetic_def run_simps)

lemma zw_units [simp]: "zw_inv zw_ZERO" "zint zw_ZERO = 0" "zw_inv zw_ONE" "zint zw_ONE = 1"
  by (simp_all add: zw_ZERO_def zw_ONE_def)

section \<open>The relation a Z-set stands for\<close>

definition zden :: "'t zset \<Rightarrow> 't \<Rightarrow> int" where
  "zden z k = (case map_of z k of Some w \<Rightarrow> zint w | None \<Rightarrow> 0)"

definition zs_inv :: "'t::linorder zset \<Rightarrow> bool" where
  "zs_inv z \<longleftrightarrow> bt_invar z \<and> (\<forall>(k, w) \<in> set z. zw_inv w \<and> zint w \<noteq> 0)"

lemma zs_inv_new [simp]: "zs_inv zset_new" "zden zset_new k = 0"
  by (simp_all add: zs_inv_def zset_new_def zden_def)

lemma zs_inv_lookup: "zs_inv z \<Longrightarrow> map_of z k = Some w \<Longrightarrow> zw_inv w \<and> zint w \<noteq> 0"
  by (auto simp: zs_inv_def dest: map_of_SomeD)

lemma zs_inv_entry: "zs_inv z \<Longrightarrow> (k, w) \<in> set z \<Longrightarrow> zw_inv w \<and> zint w \<noteq> 0 \<and> zden z k = zint w"
  by (auto simp: zs_inv_def zden_def strict_sorted_iff)

lemma zs_inv_invar: "zs_inv z \<Longrightarrow> bt_invar z"
  by (simp add: zs_inv_def)

lemma zs_inv_insert: "zs_inv z \<Longrightarrow> zw_inv w \<Longrightarrow> zint w \<noteq> 0 \<Longrightarrow> zs_inv (bt_insert k w z)"
  by (auto simp: zs_inv_def bt_insert_invar dest: bt_insert_set)

lemma zs_inv_remove: "zs_inv z \<Longrightarrow> zs_inv (bt_remove k z)"
  by (auto simp: zs_inv_def bt_remove_invar) (auto simp: bt_remove_def)

lemma zden_insert: "zden (bt_insert k w z) l = (if l = k then zint w else zden z l)"
  by (simp add: zden_def bt_lookup_insert)

lemma zden_remove: "zden (bt_remove k z) l = (if l = k then 0 else zden z l)"
  by (simp add: zden_def)

lemma zset_lookup: "zs_inv z \<Longrightarrow> map_of z k = (if zden z k = 0 then None else Some (zw_of (zden z k)))"
  using zs_inv_lookup [of z k] by (auto simp: zden_def zw_of_zint split: option.splits)

text \<open>Equal relations have equal representations.\<close>

lemma zden_inject: "zs_inv a \<Longrightarrow> zs_inv b \<Longrightarrow> zden a = zden b \<Longrightarrow> a = b"
  by (rule bt_eqI) (simp_all add: zs_inv_invar zset_lookup fun_eq_iff)

section \<open>What code adds to a relation\<close>

text \<open>A piece of code on a Z-set that, when it succeeds, adds \<open>c k\<close> to the weight of every key \<open>k\<close>.\<close>

definition adds :: "('t::linorder \<Rightarrow> int) \<Rightarrow> ('t zset \<times> 's, 'x, unit) controlled \<Rightarrow> bool" where
  "adds c m \<longleftrightarrow> (\<forall>z s z' s'. zs_inv z \<longrightarrow> m (z, s) = (Inr (), (z', s')) \<longrightarrow>
     zs_inv z' \<and> (\<forall>k. zden z' k = zden z k + c k))"

lemma addsD:
  "adds c m \<Longrightarrow> zs_inv z \<Longrightarrow> m (z, s) = (Inr (), (z', s')) \<Longrightarrow> zs_inv z' \<and> (\<forall>k. zden z' k = zden z k + c k)"
  unfolding adds_def by blast

lemma adds_ret: "adds (\<lambda>k. 0) (ret ())"
  by (simp add: adds_def run_simps)

lemma adds_aside: "(\<And>a s t. m s = (Inr a, t) \<Longrightarrow> adds c (f a)) \<Longrightarrow> adds c (bindc (aside m) f)"
  unfolding adds_def by (fastforce simp: run_simps)

lemma adds_event: "(\<And>a. adds c (f a)) \<Longrightarrow> adds c (bindc (aside (control_event control v)) f)"
  by (rule adds_aside)

lemma adds_callback:
  "(\<And>a s t. m s = (Inr a, t) \<Longrightarrow> adds c (f a)) \<Longrightarrow> adds c (bindc (aside (map_err Callback m)) f)"
  by (rule adds_aside) (simp add: run_simps)

lemma adds_arithmetic:
  "(\<And>w. r = Inr w \<Longrightarrow> adds c (f w)) \<Longrightarrow> adds c (bindc (aside (arithmetic r)) f)"
  by (rule adds_aside) (simp add: run_simps)

lemma adds_for_each:
  "(\<And>i. i \<in> set is \<Longrightarrow> adds (c i) (body i)) \<Longrightarrow> adds (\<lambda>k. \<Sum>i\<leftarrow>is. c i k) (for_each is body)"
proof (induction "is")
  case Nil
  then show ?case by (simp add: adds_ret)
next
  case (Cons i "is")
  have rest: "adds (\<lambda>k. \<Sum>i\<leftarrow>is. c i k) (for_each is body)" and first: "adds (c i) (body i)"
    using Cons by simp_all
  show ?case
    unfolding adds_def
  proof (intro allI impI)
    fix z s z'' s''
    assume inv: "zs_inv z" and run: "for_each (i # is) body (z, s) = (Inr (), z'', s'')"
    obtain z' s' where one: "body i (z, s) = (Inr (), (z', s'))"
      and two: "for_each is body (z', s') = (Inr (), (z'', s''))"
      using run by (auto simp: run_simps)
    show "zs_inv z'' \<and> (\<forall>k. zden z'' k = zden z k + (\<Sum>i\<leftarrow>i # is. c i k))"
      using addsD [OF first inv one] addsD [OF rest _ two] by simp
  qed
qed

lemma adds_map_err: "adds c m \<Longrightarrow> adds c (map_err f m)"
  by (simp add: adds_def run_simps)

lemma adds_bind:
  assumes "adds c m" "\<And>a. adds d (f a)"
  shows "adds (\<lambda>k. c k + d k) (bindc m f)"
  unfolding adds_def
proof (intro allI impI)
  fix z s z'' s''
  assume inv: "zs_inv z" and "bindc m f (z, s) = (Inr (), z'', s'')"
  then obtain z' s' where "m (z, s) = (Inr (), (z', s'))" "f () (z', s') = (Inr (), (z'', s''))"
    by (auto simp: run_simps)
  from addsD [OF assms(1) inv this(1)] addsD [OF assms(2) _ this(2)]
  show "zs_inv z'' \<and> (\<forall>k. zden z'' k = zden z k + (c k + d k))" by simp
qed

lemma adds_if: "(p \<Longrightarrow> adds c m) \<Longrightarrow> (\<not> p \<Longrightarrow> adds c n) \<Longrightarrow> adds c (if p then m else n)"
  by simp

lemma adds_nothing: "adds (\<lambda>k. 0) (aside m)"
  by (simp add: adds_def run_simps)

lemma adds_cong: "adds c m \<Longrightarrow> (\<And>k. c k = d k) \<Longrightarrow> adds d m"
  by (simp add: adds_def)

lemma accumulate_adds:
  assumes "zw_inv w"
  shows "adds (\<lambda>k. if k = key then zint w else 0) (accumulate grant control key w limbs)"
  unfolding adds_def
proof (intro allI impI)
  fix z s z' s'
  assume inv: "zs_inv z" and run: "accumulate grant control key w limbs (z, s) = (Inr (), z', s')"
  have zero: "zw_is_zero w \<longleftrightarrow> zint w = 0" using assms by (rule zw_is_zero_exact)
  show "zs_inv z' \<and> (\<forall>k. zden z' k = zden z k + (if k = key then zint w else 0))"
  proof (cases "map_of z key")
    case None
    then have "zden z key = 0" by (simp add: zden_def)
    moreover have "z' = (if zint w = 0 then z else bt_insert key w z)"
      using run None by (auto simp: accumulate_def run_simps zero split: if_splits)
    ultimately show ?thesis using inv assms by (auto simp: zs_inv_insert zden_insert)
  next
    case (Some old)
    then have old: "zw_inv old" "zden z key = zint old" using zs_inv_lookup [OF inv] by (auto simp: zden_def)
    have cases: "zint w = 0 \<and> z' = z \<or> (\<exists>n. zw_checked_add grant old w limbs = Inr n \<and>
        z' = (if zw_is_zero n then bt_remove key z else bt_insert key n z))"
      using run Some by (auto simp: accumulate_def run_simps zero arithmetic_def split: if_splits)
    moreover have "zw_inv n \<and> zint n = zint old + zint w" if "zw_checked_add grant old w limbs = Inr n" for n
      using zw.add_exact [OF old(1) assms that] .
    ultimately show ?thesis
      using inv old by (auto simp: zw_is_zero_exact zs_inv_insert zden_insert zs_inv_remove zden_remove)
  qed
qed

lemma accumulate_atomic: "atomic (accumulate grant control key w limbs)"
  unfolding accumulate_def by (auto split: option.split)

lemma with_local_adds:
  "adds c body \<Longrightarrow> zs_inv z0 \<Longrightarrow> with_local z0 body s = (Inr z, t) \<Longrightarrow>
     zs_inv z \<and> (\<forall>k. zden z k = zden z0 k + c k)"
  by (auto simp: run_simps dest: addsD)

section \<open>The operations\<close>

text \<open>Sums over the entries of a Z-set, which are its support.\<close>

definition support :: "'t zset \<Rightarrow> 't set" where
  "support z = {k. zden z k \<noteq> 0}"

lemma support_entries: "zs_inv z \<Longrightarrow> support z = fst ` set z"
  by (force simp: support_def zden_def dest: zs_inv_entry map_of_SomeD split: option.splits)

lemma finite_support [simp]: "zs_inv z \<Longrightarrow> finite (support z)"
  by (simp add: support_entries)

lemma sum_entries:
  assumes "zs_inv z"
  shows "(\<Sum>(k, w)\<leftarrow>z. f k (zint w)) = (\<Sum>k\<in>support z. f k (zden z k))"
proof -
  have "(\<Sum>(k, w)\<leftarrow>z. f k (zint w)) = (\<Sum>k\<leftarrow>map fst z. f k (zden z k))"
    using zs_inv_entry [OF assms] by (auto simp: o_def intro!: arg_cong [where f = sum_list] map_cong)
  also have "\<dots> = (\<Sum>k\<in>set (map fst z). f k (zden z k))"
    using zs_inv_invar [OF assms] by (intro sum_list_distinct_conv_sum_set) (simp add: strict_sorted_iff)
  finally show ?thesis by (simp add: support_entries [OF assms])
qed

lemma sum_entries_at:
  assumes "zs_inv z" "f 0 = 0"
  shows "(\<Sum>(l, w)\<leftarrow>z. if k = l then f (zint w) else 0) = (f (zden z k) :: int)"
proof -
  have "(\<Sum>(l, w)\<leftarrow>z. if k = l then f (zint w) else 0) = (\<Sum>l\<in>support z. if k = l then f (zden z l) else 0)"
    using sum_entries [OF assms(1), of "\<lambda>l v. if k = l then f v else 0"] .
  also have "\<dots> = f (zden z k)"
    using assms(2) sum.delta' [OF finite_support [OF assms(1)], of k "\<lambda>l. f (zden z l)"]
    by (auto simp: support_def)
  finally show ?thesis .
qed

lemma zbounded_clone: "zw_inv w \<Longrightarrow> zw_checked_clone grant w limbs = Inr v \<Longrightarrow> v = w"
  using zbounded_Inr [of grant Clone limbs "\<not> is_promoted w" "zint w" v] zw_checked_clone_exact [of w grant limbs]
    zint_inject [of v w] by simp

lemma adds_for_each_entry:
  assumes "\<And>k w. (k, w) \<in> set es \<Longrightarrow> adds (c k w) (body k w)"
  shows "adds (\<lambda>u. \<Sum>(k, w)\<leftarrow>es. c k w u) (for_each es (\<lambda>(k, w). body k w))"
  using adds_for_each [of es "\<lambda>(k, w). c k w" "\<lambda>(k, w). body k w"] assms
  by (auto simp: case_prod_unfold)

lemma accumulate_weight:
  "zw_inv w \<Longrightarrow> zint w = v \<Longrightarrow>
     adds (\<lambda>k. if k = key then v else 0) (accumulate grant control key w limbs)"
  using accumulate_adds [of w key grant control limbs] by (simp cong: if_cong)

lemma accumulate_clone:
  assumes "zw_inv w"
  shows "adds (\<lambda>k. if k = key then zint w else 0)
    (bindc (aside (arithmetic (zw_checked_clone grant w limbs))) (\<lambda>weight. accumulate grant control key weight limbs))"
  using assms by (auto intro!: adds_arithmetic accumulate_weight dest: zbounded_clone)

text \<open>A relation built by a loop over the entries of another.\<close>

lemma built_from_entries:
  assumes "zs_inv z" "\<And>k w. (k, w) \<in> set z \<Longrightarrow> zw_inv w \<Longrightarrow> adds (c k (zint w)) (body k w)"
    and "with_local zset_new (for_each z (\<lambda>(k, w). body k w)) s = (Inr y, t)"
  shows "zs_inv y \<and> (\<forall>u. zden y u = (\<Sum>k\<in>support z. c k (zden z k) u))"
proof -
  have "adds (\<lambda>u. \<Sum>(k, w)\<leftarrow>z. c k (zint w) u) (for_each z (\<lambda>(k, w). body k w))"
    using assms(2) zs_inv_entry [OF assms(1)] by (intro adds_for_each_entry) blast
  from with_local_adds [OF this _ assms(3)] show ?thesis
    using sum_entries [OF assms(1), of "\<lambda>k v. c k v _"] by simp
qed

lemma sum_support_at:
  assumes "zs_inv z" "f k 0 = 0"
  shows "(\<Sum>l\<in>support z. if k = l then f l (zden z l) else 0) = (f k (zden z k) :: int)"
  using assms(2) sum.delta' [OF finite_support [OF assms(1)], of k "\<lambda>l. f l (zden z l)"]
  by (auto simp: support_def)

lemma from_updates_sums:
  assumes "\<And>k w. (k, w) \<in> set updates \<Longrightarrow> zw_inv w"
    and "from_updates grant control updates limbs s = (Inr z, t)"
  shows "zs_inv z \<and> (\<forall>k. zden z k = (\<Sum>(l, w)\<leftarrow>updates. if k = l then zint w else 0))"
proof -
  have "adds (\<lambda>k. \<Sum>(l, w)\<leftarrow>updates. if k = l then zint w else 0)
      (for_each updates (\<lambda>(key, weight). accumulate grant control key weight limbs))"
    by (intro adds_for_each_entry accumulate_adds assms(1))
  from with_local_adds [OF this _ assms(2) [unfolded from_updates_def]] show ?thesis by simp
qed

lemma zset_map_sums:
  assumes "zs_inv z" "computes project f"
    and "zset_map grant control project z limbs s = (Inr y, t)"
  shows "zs_inv y \<and> (\<forall>u. zden y u = (\<Sum>k\<in>{k \<in> support z. f k = u}. zden z k))"
proof -
  have "zs_inv y \<and> (\<forall>u. zden y u = (\<Sum>k\<in>support z. if u = f k then zden z k else 0))"
    using assms(3) unfolding zset_map_def
    by (rule built_from_entries [OF assms(1), rotated])
      (auto intro!: adds_event adds_callback accumulate_clone simp: run_simps dest!: computesD [OF assms(2)])
  then show ?thesis
    by (simp add: sum.If_cases [OF finite_support [OF assms(1)]] Int_def eq_commute conj_commute)
qed

lemma zset_clone_exact:
  assumes "zs_inv z" "zset_checked_clone grant control z limbs s = (Inr y, t)"
  shows "y = z"
proof (rule zden_inject)
  have y: "zs_inv y \<and> (\<forall>u. zden y u = (\<Sum>k\<in>support z. if u = k then zden z k else 0))"
    using assms(2) unfolding zset_checked_clone_def zset_map_def
    by (rule built_from_entries [OF assms(1), rotated])
      (auto intro!: adds_event adds_callback accumulate_clone simp: run_simps)
  then show "zs_inv y" by simp
  show "zden y = zden z" using y sum_support_at [OF assms(1), of "\<lambda>k v. v"] by auto
qed (use assms in simp)

lemma zset_filter_exact:
  assumes "zs_inv z" "computes predicate p"
    and "zset_filter grant control predicate z limbs s = (Inr y, t)"
  shows "zs_inv y \<and> (\<forall>k. zden y k = (if p k then zden z k else 0))"
proof -
  have "zs_inv y \<and> (\<forall>u. zden y u = (\<Sum>k\<in>support z. if u = k then if p k then zden z k else 0 else 0))"
    using assms(3) unfolding zset_filter_def
    by (rule built_from_entries [OF assms(1), rotated])
      (auto intro!: adds_event adds_callback accumulate_clone adds_ret simp: run_simps dest!: computesD [OF assms(2)])
  then show ?thesis using sum_support_at [OF assms(1), of "\<lambda>k v. if p k then v else 0"] by simp
qed

lemma negated_exact:
  assumes "zs_inv z" "negated grant control z limbs s = (Inr y, t)"
  shows "zs_inv y \<and> (\<forall>k. zden y k = - zden z k)"
proof -
  have "zs_inv y \<and> (\<forall>u. zden y u = (\<Sum>k\<in>support z. if u = k then - zden z k else 0))"
    using assms(2) unfolding negated_def
    by (rule built_from_entries [OF assms(1), rotated])
      (auto intro!: adds_event adds_arithmetic accumulate_weight dest: zw.neg_exact)
  then show ?thesis using sum_support_at [OF assms(1), of "\<lambda>k v. - v"] by simp
qed

lemma zset_product_exact:
  assumes "zs_inv x" "zs_inv y" "zset_product grant control x y limbs s = (Inr z, t)"
  shows "zs_inv z \<and> (\<forall>k l. zden z (k, l) = zden x k * zden y l)"
proof -
  let ?row = "\<lambda>k v u. \<Sum>(l, w)\<leftarrow>y. if u = (k, l) then v * zint w else 0"
  have row: "?row k v u = (if fst u = k then v * zden y (snd u) else 0)" for k v u
    using sum_entries [OF assms(2), of "\<lambda>l w. if u = (k, l) then v * w else 0"]
      sum_support_at [OF assms(2), of "\<lambda>l w. v * w" "snd u"]
    by (cases u) (auto cong: if_cong)
  have "zs_inv z \<and> (\<forall>u. zden z u = (\<Sum>k\<in>support x. ?row k (zden x k) u))"
    using assms(3) unfolding zset_product_def
    by (rule built_from_entries [OF assms(1), rotated])
      (auto intro!: adds_event adds_for_each_entry adds_arithmetic accumulate_weight
        dest: zw.mul_exact zs_inv_entry [OF assms(2)])
  then show ?thesis
    using sum_support_at [OF assms(1), of "\<lambda>k v. v * zden y _"] by (simp add: row cong: if_cong)
qed

subsection \<open>Integration\<close>

text \<open>The replacements of an integration: one per key of the delta, holding the sum at that key.\<close>

definition replaces :: "'t::linorder zset \<Rightarrow> 't zset \<Rightarrow> ('t, zweight) btree \<Rightarrow> bool" where
  "replaces self delta r \<longleftrightarrow> bt_invar r \<and>
     (\<forall>k. if map_of delta k = None then map_of r k = None
          else \<exists>w. map_of r k = Some w \<and> zw_inv w \<and> zint w = zden self k + zden delta k)"

lemma replacesE:
  assumes "replaces self delta r"
  obtains "map_of r k = None" "zden delta k = 0" "map_of delta k = None"
  | w where "map_of r k = Some w" "zw_inv w" "zint w = zden self k + zden delta k" "map_of delta k \<noteq> None"
  using assms unfolding replaces_def zden_def by (metis option.simps(4))

lemma replacesI:
  assumes "bt_invar r \<and> (\<forall>k. case map_of delta k of
      None \<Rightarrow> map_of r k = map_of [] k
    | Some change \<Rightarrow> (\<exists>w. map_of r k = Some w \<and> zw_inv w \<and> zint w = zden self k + zint change))"
  shows "replaces self delta r"
  unfolding replaces_def
proof (intro conjI allI)
  fix k
  show "if map_of delta k = None then map_of r k = None
        else \<exists>w. map_of r k = Some w \<and> zw_inv w \<and> zint w = zden self k + zden delta k"
    using assms by (cases "map_of delta k") (auto simp: zden_def [of delta] dest!: spec [of _ k])
qed (use assms in simp)

lemma next_weight:
  assumes "zs_inv self" "zw_inv change"
    and "(case map_of self key of
            Some old \<Rightarrow> zw_checked_add grant old change limbs
          | None \<Rightarrow> zw_checked_clone grant change limbs) = Inr w"
  shows "zw_inv w \<and> zint w = zden self key + zint change"
proof (cases "map_of self key")
  case None
  with assms show ?thesis by (auto simp: zden_def dest: zbounded_clone)
next
  case (Some old)
  with assms zw.add_exact [of old change grant limbs w] zs_inv_lookup [OF assms(1) Some] show ?thesis
    by (simp add: zden_def)
qed

lemma prepare_integration_exact:
  assumes "zs_inv self" "zs_inv delta" "prepare_integration grant control self delta limbs s = (Inr r, t)"
  shows "replaces self delta r"
proof -
  have "bt_invar r \<and> (\<forall>k. case map_of delta k of
      None \<Rightarrow> map_of r k = map_of [] k
    | Some change \<Rightarrow> (\<exists>w. map_of r k = Some w \<and> zw_inv w \<and> zint w = zden self k + zint change))"
  proof (rule for_each_inserts)
    show "for_each delta (\<lambda>(k, v). stage_replacement grant control self limbs k v) ([], s) = (Inr (), (r, t))"
      using assms(3) by (simp add: prepare_integration_def run_simps)
    show "distinct (map fst delta)" using zs_inv_invar [OF assms(2)] by (simp add: strict_sorted_iff)
    show "\<exists>w. m' = bt_insert k w m \<and> zw_inv w \<and> zint w = zden self k + zint v"
      if "(k, v) \<in> set delta" "stage_replacement grant control self limbs k v (m, s) = (Inr (), (m', s'))"
      for k v m s m' s'
      using that next_weight [OF assms(1), where change = v and key = k and grant = grant and limbs = limbs] zs_inv_entry [OF assms(2)]
      by (auto simp: stage_replacement_def run_simps arithmetic_def)
  qed simp
  then show ?thesis by (rule replacesI)
qed

lemma publish_exact:
  assumes "zs_inv z" "bt_invar r" "\<And>k w. map_of r k = Some w \<Longrightarrow> zw_inv w"
  shows "zs_inv (publish z r) \<and>
    (\<forall>k. zden (publish z r) k = (case map_of r k of Some w \<Rightarrow> zint w | None \<Rightarrow> zden z k))"
  using assms
proof (induction r arbitrary: z)
  case Nil
  then show ?case by simp
next
  case (Cons e r)
  obtain key w where e: "e = (key, w)" by fastforce
  let ?z = "if zw_is_zero w then bt_remove key z else bt_insert key w z"
  have w: "zw_inv w" using Cons.prems(3) [of key w] e by simp
  have fresh: "map_of r key = None" using Cons.prems(2) e by (auto simp: map_of_eq_None_iff)
  have inv: "zs_inv ?z" and den: "zden ?z k = (if k = key then zint w else zden z k)" for k
    using Cons.prems(1) w by (auto simp: zw_is_zero_exact zs_inv_insert zs_inv_remove zden_insert zden_remove)
  have "zw_inv v" if "map_of r k = Some v" for k v
    using Cons.prems(3) [of k v] that fresh e by (cases "k = key") auto
  then have "zs_inv (publish ?z r) \<and>
    (\<forall>k. zden (publish ?z r) k = (case map_of r k of Some w \<Rightarrow> zint w | None \<Rightarrow> zden ?z k))"
    using Cons.prems(2) e by (intro Cons.IH [OF inv]) auto
  then show ?case using e fresh den by (auto split: option.split)
qed

lemma publish_replaces:
  assumes "zs_inv self" "zs_inv delta" "replaces self delta r"
  shows "zs_inv (publish self r) \<and> (\<forall>k. zden (publish self r) k = zden self k + zden delta k)"
proof -
  have "zw_inv w" if "map_of r k = Some w" for k w
    using replacesE [OF assms(3), of k] that by fastforce
  then have "zs_inv (publish self r) \<and>
    (\<forall>k. zden (publish self r) k = (case map_of r k of Some w \<Rightarrow> zint w | None \<Rightarrow> zden self k))"
    using assms by (intro publish_exact) (simp_all add: replaces_def)
  moreover have "(case map_of r k of Some w \<Rightarrow> zint w | None \<Rightarrow> zden self k) = zden self k + zden delta k" for k
    by (rule replacesE [OF assms(3), of k]) simp_all
  ultimately show ?thesis by simp
qed

lemma unchanged_keys: "replaces z d r \<Longrightarrow> k \<notin> set (map fst r) \<Longrightarrow> zden d k = 0"
  by (erule replacesE [of _ _ _ k]) (auto simp: map_of_eq_None_iff dest: map_of_SomeD intro: rev_image_eqI)

lemma prepare_update_exact:
  assumes "zs_inv self" "zs_inv delta" "prepare_update grant control delta limbs (self, s) = (Inr u, (z, t))"
  shows "z = self \<and> zs_inv (update_commit u) \<and> (\<forall>k. zden (update_commit u) k = zden self k + zden delta k) \<and>
    (\<forall>k. update_weight u k = zset_weight (update_commit u) k)"
proof -
  obtain r s' where r: "prepare_integration grant control self delta limbs s = (Inr r, s')"
    and u: "u = \<lparr>upd_owner = self, upd_replacements = r\<rparr>" "z = self"
    using assms(3) by (auto simp: prepare_update_def run_simps)
  have rep: "replaces self delta r" by (rule prepare_integration_exact [OF assms(1,2) r])
  note exact = publish_replaces [OF assms(1,2) rep]
  have "update_weight u k = zset_weight (update_commit u) k" for k
  proof (cases "map_of r k")
    case None
    then have "zden delta k = 0" using replacesE [OF rep, of k] by fastforce
    then show ?thesis
      using None exact zset_lookup [OF assms(1), of k] zset_lookup [of "publish self r" k] u
      by (simp add: update_weight_def update_commit_def zset_weight_def)
  next
    case (Some w)
    then have w: "zw_inv w" "zint w = zden self k + zden delta k"
      using replacesE [OF rep, of k] by fastforce+
    then have "zden (publish self r) k = zint w" using exact by simp
    with Some exact w(1) zset_lookup [of "publish self r" k] u show ?thesis
      by (simp add: update_weight_def update_commit_def zset_weight_def zw_is_zero_exact zw_of_zint)
  qed
  then show ?thesis using exact u by (simp add: update_commit_def)
qed

lemma integrate_exact:
  assumes "zs_inv self" "zs_inv delta" "integrate grant control delta limbs (self, s) = (Inr (), (z, t))"
  shows "zs_inv z \<and> (\<forall>k. zden z k = zden self k + zden delta k)"
  using assms(3) by (auto simp: integrate_def run_simps dest!: prepare_update_exact [OF assms(1,2)])

lemma integrate_atomic: "atomic (integrate grant control delta limbs)"
  unfolding atomic_def integrate_def prepare_update_def by (auto simp: run_simps)

lemma zset_plus_exact:
  assumes "zs_inv x" "zs_inv y" "zset_plus grant control x y limbs s = (Inr z, t)"
  shows "zs_inv z \<and> (\<forall>k. zden z k = zden x k + zden y k)"
  using assms(3)
  by (auto simp: zset_plus_def run_simps dest!: zset_clone_exact [OF assms(1)] dest: integrate_exact [OF assms(1,2)])

lemma zset_minus_exact:
  assumes "zs_inv x" "zs_inv y" "zset_minus grant control x y limbs s = (Inr z, t)"
  shows "zs_inv z \<and> (\<forall>k. zden z k = zden x k - zden y k)"
  using assms(3) zset_plus_exact [OF assms(1)] negated_exact [OF assms(2)]
  by (fastforce simp: zset_minus_def run_simps)

subsection \<open>Totals and seeks\<close>

lemma add_total_run:
  "add_total grant control limbs w (acc, s) = (Inr (), (acc', s')) \<Longrightarrow> zw_checked_add grant acc w limbs = Inr acc'"
  by (auto simp: add_total_def arithmetic_def run_simps)

lemma total_weight_run:
  assumes "\<And>w. w \<in> set ws \<Longrightarrow> zw_inv w" "zw_inv acc"
    and "for_each ws (add_total grant control limbs) (acc, s) = (Inr (), (sum_w, t))"
  shows "zw_inv sum_w \<and> zint sum_w = zint acc + (\<Sum>w\<leftarrow>ws. zint w)"
  using assms
proof (induction ws arbitrary: acc s)
  case (Cons w ws)
  obtain acc' s' where add: "add_total grant control limbs w (acc, s) = (Inr (), (acc', s'))"
    and rest: "for_each ws (add_total grant control limbs) (acc', s') = (Inr (), (sum_w, t))"
    using Cons.prems(3) by (auto simp: run_simps)
  have "zw_inv w" using Cons.prems(1) by simp
  from zw.add_exact [OF Cons.prems(2) this add_total_run [OF add]] Cons.IH [OF _ _ rest] Cons.prems(1)
  show ?case by simp
qed (simp add: run_simps)

lemma total_weight_exact:
  assumes "zs_inv z" "total_weight grant control z limbs s = (Inr sum_w, t)"
  shows "zw_inv sum_w \<and> zint sum_w = (\<Sum>k\<in>support z. zden z k)"
proof -
  have "zw_inv w" if "w \<in> set (map snd z)" for w using that zs_inv_entry [OF assms(1)] by auto
  from total_weight_run [OF this _ assms(2) [unfolded total_weight_def with_local_Inr]]
  show ?thesis
    using sum_entries [OF assms(1), of "\<lambda>k v. v"] by (simp add: zw_ZERO_def o_def case_prod_unfold)
qed

lemma first_entry:
  assumes "zs_inv z"
  shows "list_get z 0 = (if support z = {} then None else Some (Min (support z), zw_of (zden z (Min (support z)))))"
proof (cases z)
  case (Cons e es)
  have "Min (support z) = fst e"
    unfolding support_entries [OF assms] using zs_inv_invar [OF assms] Cons
    by (intro Min_eqI) (auto intro: less_imp_le)
  moreover have "zden z (fst e) = zint (snd e)" "zw_inv (snd e)"
    using zs_inv_entry [OF assms, of "fst e" "snd e"] Cons by simp_all
  ultimately show ?thesis
    using Cons support_entries [OF assms] by (simp add: list_get_def zw_of_zint)
qed (simp add: list_get_def support_def zden_def)

lemma dropWhile_above:
  assumes "zs_inv z"
  shows "zs_inv (dropWhile (\<lambda>(k, _). k \<le> key) z) \<and>
    zden (dropWhile (\<lambda>(k, _). k \<le> key) z) l = (if key < l then zden z l else 0)"
proof -
  have "dropWhile (\<lambda>(k, _). k \<le> key) z = filter (\<lambda>(k, _). key < k) z"
    using zs_inv_invar [OF assms]
  proof (induction z)
    case (Cons e z)
    show ?case
    proof (cases "fst e \<le> key")
      case False
      then have "\<forall>x \<in> set z. key < fst x" using Cons.prems by force
      then have "filter (\<lambda>(k, _). key < k) z = z" by (intro filter_True) auto
      with False show ?thesis by (cases e) simp
    qed (use Cons in \<open>cases e, auto\<close>)
  qed simp
  moreover have "map_of (filter (\<lambda>(k, _). key < k) z) l = (if key < l then map_of z l else None)"
    by (induction z) auto
  moreover have "bt_invar (filter (\<lambda>(k, _). key < k) z)"
    using zs_inv_invar [OF assms] by (induction z) auto
  ultimately show ?thesis using assms by (auto simp: zs_inv_def zden_def)
qed

text \<open>A seek finds the least supported key above the bound.\<close>

lemma first_after_exact:
  assumes "zs_inv z"
  shows "first_after z after =
    (let above = {k \<in> support z. case after of None \<Rightarrow> True | Some key \<Rightarrow> key < k} in
     if above = {} then None else Some (Min above, zw_of (zden z (Min above))))"
proof (cases after)
  case None
  then show ?thesis using first_entry [OF assms] by (simp add: first_after_def Let_def)
next
  case (Some key)
  let ?y = "dropWhile (\<lambda>(k, _). k \<le> key) z" and ?S = "{k \<in> support z. key < k}"
  have y: "zs_inv ?y" "\<And>l. zden ?y l = (if key < l then zden z l else 0)"
    using dropWhile_above [OF assms, of key] by auto
  have S: "support ?y = ?S" using y(2) by (auto simp: support_def split: if_splits)
  have "zden ?y (Min ?S) = zden z (Min ?S)" if "?S \<noteq> {}"
  proof -
    have "Min ?S \<in> ?S" using that finite_support [OF assms] by (intro Min_in) auto
    then show ?thesis by (simp add: y(2))
  qed
  then show ?thesis
    using first_entry [OF y(1)] Some unfolding S by (auto simp: first_after_def Let_def)
qed

subsection \<open>When an integration succeeds\<close>

text \<open>A control that never refuses.\<close>

definition obliging :: "('s, 'e) control \<Rightarrow> bool" where
  "obliging control \<longleftrightarrow> (\<forall>v s. \<exists>t. control v s = (Inr (), t))"

lemma event_obliging: "obliging control \<Longrightarrow> \<exists>t. control_event control v s = (Inr (), t)"
  unfolding obliging_def control_event_def by (metis map_err_Inr)

lemma stage_inline:
  assumes "obliging control" "zs_inv self" "zw_inv change"
    and fits: "i128_fits (zden self key)" "i128_fits (zint change)" "i128_fits (zden self key + zint change)"
  shows "\<exists>m' s'. stage_replacement grant control self limbs key change (m, s) = (Inr (), (m', s'))"
proof -
  have small: "\<not> is_promoted change" using is_promoted_exact assms(3) fits(2) by blast
  have "\<exists>w. (case map_of self key of
          Some old \<Rightarrow> zw_checked_add grant old change limbs
        | None \<Rightarrow> zw_checked_clone grant change limbs) = Inr w"
  proof (cases "map_of self key")
    case None
    then show ?thesis using small by (simp add: zw_checked_clone_widened)
  next
    case (Some old)
    then have old: "zw_inv old" "zden self key = zint old"
      using zs_inv_lookup [OF assms(2)] by (auto simp: zden_def)
    then have "\<not> is_promoted old" using is_promoted_exact fits(1) by simp
    then show ?thesis using Some small fits(3) old(2) by (simp add: zw_checked_add_widened)
  qed
  then obtain w where "(case map_of self key of
          Some old \<Rightarrow> zw_checked_add grant old change limbs
        | None \<Rightarrow> zw_checked_clone grant change limbs) = Inr w" ..
  moreover obtain s1 where "control_event control Work s = (Inr (), s1)" using event_obliging [OF assms(1)] by blast
  moreover obtain s2 where "control_event control ScratchEntry s1 = (Inr (), s2)" using event_obliging [OF assms(1)] by blast
  ultimately have "stage_replacement grant control self limbs key change (m, s) = (Inr (), (bt_insert key w m, s2))"
    using small by (auto simp: stage_replacement_def admit_weight_def arithmetic_def run_simps)
  then show ?thesis by blast
qed

lemma integrate_inline:
  assumes "obliging control" "zs_inv self" "zs_inv delta"
    and "\<And>k. k \<in> support delta \<Longrightarrow>
      i128_fits (zden self k) \<and> i128_fits (zden delta k) \<and> i128_fits (zden self k + zden delta k)"
  shows "\<exists>z t. integrate grant control delta limbs (self, s) = (Inr (), (z, t))"
proof -
  have "\<exists>q. for_each delta (\<lambda>(key, change). stage_replacement grant control self limbs key change) ([], s) = (Inr (), q)"
  proof (rule for_each_succeeds)
    fix e p
    assume "e \<in> set delta"
    moreover obtain k w where e: "e = (k, w)" by fastforce
    ultimately have "zw_inv w" "zden delta k = zint w" "k \<in> support delta"
      using zs_inv_entry [OF assms(3)] by (auto simp: support_def)
    moreover from this have "i128_fits (zden self k)" "i128_fits (zint w)" "i128_fits (zden self k + zint w)"
      using assms(4) [of k] by simp_all
    ultimately show "\<exists>q. (case e of (key, change) \<Rightarrow> stage_replacement grant control self limbs key change) p = (Inr (), q)"
      using stage_inline [OF assms(1,2), of w k grant limbs "fst p" "snd p"] e by auto
  qed
  then obtain r u where "prepare_integration grant control self delta limbs s = (Inr r, u)"
    by (auto simp: prepare_integration_def run_simps)
  moreover obtain t where "control_event control Work u = (Inr (), t)" using event_obliging [OF assms(1)] by blast
  ultimately have "integrate grant control delta limbs (self, s) = (Inr (), (publish self r, t))"
    by (auto simp: integrate_def prepare_update_def update_commit_def run_simps)
  then show ?thesis by blast
qed

section \<open>Properties\<close>

text \<open>
  C20: The operations on weighted relations refine the pointwise ones on finitely supported functions to
  the integers. Whatever the caller's control does, a result that is returned has ordered keys, canonical
  nonzero weights and exactly the right relation: sum, difference, negation, selection by a deterministic
  predicate, projection by a deterministic function with the weights of colliding keys added, and
  product; a total is the sum over the support, and a seek finds the least supported key above its bound.
\<close>

theorem zset_refines:
  assumes "zs_inv x" "zs_inv y" "zs_inv w"
    and "computes project f"
    and "computes predicate p"
  shows "(zset_plus grant control x y limbs s = (Inr a, t) \<longrightarrow>
      zs_inv a \<and> zden a = (\<lambda>k. zden x k + zden y k)) \<and>
    (zset_minus grant control x y limbs s = (Inr a, t) \<longrightarrow>
      zs_inv a \<and> zden a = (\<lambda>k. zden x k - zden y k)) \<and>
    (negated grant control x limbs s = (Inr a, t) \<longrightarrow> zs_inv a \<and> zden a = (\<lambda>k. - zden x k)) \<and>
    (zset_filter grant control predicate x limbs s = (Inr a, t) \<longrightarrow>
      zs_inv a \<and> zden a = (\<lambda>k. if p k then zden x k else 0)) \<and>
    (zset_map grant control project x limbs s = (Inr b, t) \<longrightarrow>
      zs_inv b \<and> zden b = (\<lambda>u. \<Sum>k\<in>{k \<in> support x. f k = u}. zden x k)) \<and>
    (zset_product grant control x w limbs s = (Inr c, t) \<longrightarrow>
      zs_inv c \<and> zden c = (\<lambda>(k, l). zden x k * zden w l)) \<and>
    (total_weight grant control x limbs s = (Inr v, t) \<longrightarrow>
      zw_inv v \<and> zint v = (\<Sum>k\<in>support x. zden x k)) \<and>
    first_after x after =
      (let above = {k \<in> support x. case after of None \<Rightarrow> True | Some key \<Rightarrow> key < k} in
       if above = {} then None else Some (Min above, zw_of (zden x (Min above))))"
  using zset_plus_exact [OF assms(1,2), of grant control limbs s a t]
    zset_minus_exact [OF assms(1,2), of grant control limbs s a t]
    negated_exact [OF assms(1), of grant control limbs s a t]
    zset_filter_exact [OF assms(1,5), of grant control limbs s a t]
    zset_map_sums [OF assms(1,4), of grant control limbs s b t]
    zset_product_exact [OF assms(1,3), of grant control limbs s c t]
    total_weight_exact [OF assms(1), of grant control limbs s v t] first_after_exact [OF assms(1), of after]
  by (simp add: fun_eq_iff)

lemma zs_inv_fast: "k < l \<Longrightarrow> sint v \<noteq> 0 \<Longrightarrow> sint w \<noteq> 0 \<Longrightarrow> zs_inv [(k, Fast v), (l, Fast w)]"
  by (simp add: zs_inv_def)

theorem zset_refines_witness:
  "zs_inv [(1 :: nat, Fast 2), (2, Fast 3)] \<and>
   negated (\<lambda>_. True) (\<lambda>_. ret ()) [(1 :: nat, Fast 2), (2, Fast 3)] 0 () =
     (Inr [(1, Fast (- 2)), (2, Fast (- 3))] :: unit zset_error + nat zset, ()) \<and>
   zden [(1, Fast (- 2)), (2, Fast (- 3))] = (\<lambda>k. - zden [(1 :: nat, Fast 2), (2, Fast 3)] k)"
proof -
  let ?x = "[(1 :: nat, Fast 2), (2, Fast 3)]"
  have inv: "zs_inv ?x" by (rule zs_inv_fast) simp_all
  have run: "negated (\<lambda>_. True) (\<lambda>_. ret ()) ?x 0 () =
      (Inr [(1, Fast (- 2)), (2, Fast (- 3))] :: unit zset_error + nat zset, ())"
    by code_simp
  show ?thesis
    using zset_refines [of ?x ?x ?x "ret :: nat \<Rightarrow> (unit, unit, nat) controlled" "\<lambda>k. k" "\<lambda>_. ret True" "\<lambda>_. True"
        "\<lambda>_. True" "\<lambda>_. ret ()" 0 "()" "[(1, Fast (- 2)), (2, Fast (- 3))]" "()"] inv run
    by (simp add: ret_def computes_def)
qed

text \<open>
  C21: Differentiation and integration are inverse, and integration is atomic. Integrating the difference
  of two relations into the old one yields exactly the new one; an integration that is refused, by
  arithmetic or by control at any point, leaves the relation as it was; what a prepared update shows for a
  key is what its commit publishes; and a control that never refuses sees every integration of inline
  weights with inline sums through, under any limb limit and allocator.
\<close>

theorem zset_differentiate_integrate:
  assumes "zs_inv old" "zs_inv new" "zset_minus grant control new old limbs s = (Inr delta, t)"
  shows "(integrate grant' control' delta limbs' (old, s') = (Inr (), (z, t')) \<longrightarrow> z = new) \<and>
    (integrate grant' control' delta limbs' (old, s') = (Inl e, (z, t')) \<longrightarrow> z = old) \<and>
    (prepare_update grant' control' delta limbs' (old, s') = (Inr u, (z, t')) \<longrightarrow>
      z = old \<and> update_commit u = new \<and> (\<forall>k. update_weight u k = zset_weight new k)) \<and>
    (obliging control' \<and>
      (\<forall>k \<in> support delta. i128_fits (zden old k) \<and> i128_fits (zden new k) \<and> i128_fits (zden delta k)) \<longrightarrow>
      fst (integrate grant' control' delta limbs' (old, s')) = Inr ())"
proof (intro conjI impI; (elim conjE)?)
  have delta: "zs_inv delta" "\<And>k. zden old k + zden delta k = zden new k"
    using zset_minus_exact [OF assms(2,1,3)] by auto
  show "z = new" if "integrate grant' control' delta limbs' (old, s') = (Inr (), (z, t'))"
    using integrate_exact [OF assms(1) delta(1) that] delta(2) assms(2) by (intro zden_inject) auto
  show "z = old" if "integrate grant' control' delta limbs' (old, s') = (Inl e, (z, t'))"
    by (rule atomicD [OF integrate_atomic that])
  show "z = old" "update_commit u = new" "\<forall>k. update_weight u k = zset_weight new k"
    if "prepare_update grant' control' delta limbs' (old, s') = (Inr u, (z, t'))"
  proof -
    note u = prepare_update_exact [OF assms(1) delta(1) that]
    then show "z = old" by simp
    show commit: "update_commit u = new" using u delta(2) assms(2) by (intro zden_inject) auto
    then show "\<forall>k. update_weight u k = zset_weight new k" using u by simp
  qed
  show "fst (integrate grant' control' delta limbs' (old, s')) = Inr ()"
    if "obliging control'"
      "\<forall>k \<in> support delta. i128_fits (zden old k) \<and> i128_fits (zden new k) \<and> i128_fits (zden delta k)"
    using integrate_inline [OF that(1) assms(1) delta(1), of grant' limbs' s'] that(2) delta(2) by fastforce
qed

theorem zset_differentiate_integrate_witness:
  "zset_minus (\<lambda>_. True) (\<lambda>_. ret ()) [(1 :: nat, Fast 2), (3, Fast 5)] [(1, Fast 2), (2, Fast 3)] 0 () =
     (Inr [(2, Fast (- 3)), (3, Fast 5)] :: unit zset_error + nat zset, ()) \<and>
   (\<exists>t. integrate (\<lambda>_. True) (\<lambda>_. ret ()) [(2, Fast (- 3)), (3, Fast 5)] 0 ([(1, Fast 2), (2, Fast 3)], ()) =
     (Inr () :: unit zset_error + unit, ([(1 :: nat, Fast 2), (3, Fast 5)], t)))"
proof -
  let ?old = "[(1 :: nat, Fast 2), (2, Fast 3)]" and ?new = "[(1 :: nat, Fast 2), (3, Fast 5)]"
    and ?delta = "[(2 :: nat, Fast (- 3)), (3, Fast 5)]"
  have inv: "zs_inv ?old" "zs_inv ?new" by (rule zs_inv_fast; simp)+
  have minus: "zset_minus (\<lambda>_. True) (\<lambda>_. ret ()) ?new ?old 0 () =
      (Inr ?delta :: unit zset_error + nat zset, ())"
    by code_simp
  obtain r z t where run: "integrate (\<lambda>_. True) (\<lambda>_. ret ()) ?delta 0 (?old, ()) =
      (r :: unit zset_error + unit, (z, t))"
    by (rule prod_cases3)
  have "fst (integrate (\<lambda>_. True) (\<lambda>_. ret ()) ?delta 0 (?old, ())) = (Inr () :: unit zset_error + unit)"
    by code_simp
  then have r: "r = Inr ()" unfolding run by (simp only: fst_conv)
  have "z = ?new"
    by (rule zset_differentiate_integrate [OF inv minus, THEN conjunct1, THEN mp, OF run [unfolded r]])
  then show ?thesis using minus run r by (intro conjI exI [of _ t]) simp_all
qed

end
