(* ===== verification/IncrementalView.thy ===== *)
theory IncrementalView
  imports ZSet
begin

text \<open>
  The contract of the stateful operators of \<open>fgdb-delta-types\<close>: an operator retains its input relations,
  absorbs one delta per tick and returns the exact change of its output, or refuses the tick and keeps
  its inputs. What follows for a consumer over any sequence of ticks is proved here once.
\<close>

text \<open>
  A consumer that feeds ticks to an operator, passes over the refused ones and keeps the outputs and the
  deltas of the others.
\<close>

primrec drive ::
  "('d \<Rightarrow> ('v \<times> 's, 'x, 'k zset) controlled) \<Rightarrow> 'd list \<Rightarrow> 'v \<times> 's \<Rightarrow> ('d \<times> 'k zset) list \<times> ('v \<times> 's)" where
  "drive tick [] p = ([], p)"
| "drive tick (d # ds) p =
     (case tick d p of
        (Inl _, q) \<Rightarrow> drive tick ds q
      | (Inr change, q) \<Rightarrow> (case drive tick ds q of (done_ticks, r) \<Rightarrow> ((d, change) # done_ticks, r)))"

text \<open>A tick of an operator with two inputs: the pair of their deltas.\<close>

fun pair_den :: "'t zset \<times> 'u zset \<Rightarrow> 't + 'u \<Rightarrow> int" where
  "pair_den d (Inl k) = zden (fst d) k"
| "pair_den d (Inr k) = zden (snd d) k"

abbreviation pair_inv :: "'t::linorder zset \<times> 'u::linorder zset \<Rightarrow> bool" where
  "pair_inv d \<equiv> zs_inv (fst d) \<and> zs_inv (snd d)"

locale incremental_view =
  fixes inv :: "'v \<Rightarrow> bool"
    and delta_inv :: "'d \<Rightarrow> bool"
    and inputs :: "'v \<Rightarrow> 'j \<Rightarrow> int"
    and delta_den :: "'d \<Rightarrow> 'j \<Rightarrow> int"
    and law :: "('j \<Rightarrow> int) \<Rightarrow> 'k::linorder \<Rightarrow> int"
    and tick :: "'d \<Rightarrow> ('v \<times> 's, 'x, 'k zset) controlled"
  assumes tick_exact: "inv v \<Longrightarrow> delta_inv d \<Longrightarrow> tick d (v, s) = (Inr change, (v', s')) \<Longrightarrow>
      inv v' \<and> zs_inv change \<and> (\<forall>j. inputs v' j = inputs v j + delta_den d j) \<and>
      (\<forall>k. zden change k = law (inputs v') k - law (inputs v) k)"
    and tick_atomic: "tick d (v, s) = (Inl x, (v', s')) \<Longrightarrow> v' = v"
begin

lemma drive_exact:
  assumes "inv v" "\<And>d. d \<in> set ds \<Longrightarrow> delta_inv d" "drive tick ds (v, s) = (ticks, (v', s'))"
  shows "inv v' \<and> (\<forall>(d, change) \<in> set ticks. d \<in> set ds \<and> zs_inv change) \<and>
    (\<forall>j. inputs v' j = inputs v j + (\<Sum>(d, change)\<leftarrow>ticks. delta_den d j)) \<and>
    (\<forall>k. (\<Sum>(d, change)\<leftarrow>ticks. zden change k) = law (inputs v') k - law (inputs v) k)"
  using assms
proof (induction ds arbitrary: v s ticks)
  case (Cons d ds)
  obtain r w u where tick: "tick d (v, s) = (r, (w, u))" by (rule prod_cases3)
  show ?case
  proof (cases r)
    case (Inl x)
    then have "w = v" using tick_atomic tick by blast
    then have "drive tick ds (v, u) = (ticks, (v', s'))" using Cons.prems(3) tick Inl by simp
    from Cons.IH [OF Cons.prems(1) _ this] Cons.prems(2) show ?thesis by fastforce
  next
    case (Inr change)
    obtain rest p where rest: "drive tick ds (w, u) = (rest, p)" by (cases "drive tick ds (w, u)")
    have ticks: "ticks = (d, change) # rest" "p = (v', s')" using Cons.prems(3) tick Inr rest by simp_all
    have one: "inv w" "zs_inv change" "\<And>j. inputs w j = inputs v j + delta_den d j"
      "\<And>k. zden change k = law (inputs w) k - law (inputs v) k"
      using tick_exact [of v d s change w u] tick Inr Cons.prems(1,2) by auto
    have IH: "inv v'" "\<forall>(d, change) \<in> set rest. d \<in> set ds \<and> zs_inv change"
      "\<And>j. inputs v' j = inputs w j + (\<Sum>(d, change)\<leftarrow>rest. delta_den d j)"
      "\<And>k. (\<Sum>(d, change)\<leftarrow>rest. zden change k) = law (inputs v') k - law (inputs w) k"
      using Cons.IH [OF one(1) _ rest [unfolded ticks(2)]] Cons.prems(2) by simp_all
    have "(\<Sum>(d, change)\<leftarrow>ticks. zden change k) = law (inputs v') k - law (inputs v) k" for k
      using IH(4) one(4) by (simp add: ticks(1))
    moreover have "inputs v' j = inputs v j + (\<Sum>(d, change)\<leftarrow>ticks. delta_den d j)" for j
      using IH(3) [of j] one(3) [of j] by (simp add: ticks(1))
    moreover have "\<forall>(c, change) \<in> set ticks. c \<in> set (d # ds) \<and> zs_inv change"
      using IH(2) one(2) by (auto simp: ticks(1))
    ultimately show ?thesis using IH(1) by blast
  qed
qed simp

text \<open>An operator started on empty inputs: the outputs add up to the law of the absorbed deltas.\<close>

lemma drive_from_empty:
  assumes "inv v" "\<And>d. d \<in> set ds \<Longrightarrow> delta_inv d" "drive tick ds (v, s) = (ticks, (v', s'))"
    and "\<And>j. inputs v j = 0" "\<And>k. law (\<lambda>j. 0) k = 0"
  shows "(\<Sum>(d, change)\<leftarrow>ticks. zden change k) = law (\<lambda>j. \<Sum>(d, change)\<leftarrow>ticks. delta_den d j) k"
proof -
  have empty: "inputs v = (\<lambda>j. 0)" using assms(4) by auto
  have "inputs v' = (\<lambda>j. \<Sum>(d, change)\<leftarrow>ticks. delta_den d j)"
    using drive_exact [OF assms(1-3)] assms(4) by auto
  then show ?thesis using drive_exact [OF assms(1-3)] assms(5) empty by simp
qed

end

end
