(* ===== verification/IncrementalSet.thy ===== *)
theory IncrementalSet
  imports IncrementalView
begin

text \<open>
  The incremental set operators of \<open>zset/set.rs\<close> (UNION, INTERSECT and EXCEPT, each ALL and DISTINCT) and
  the incremental DISTINCT of \<open>zset/incremental.rs\<close>.
\<close>

section \<open>Set operations: the code\<close>















section \<open>DISTINCT: the code\<close>







section \<open>The laws\<close>




section \<open>What a tick of a set operator changes\<close>

















section \<open>What a tick of DISTINCT changes\<close>







section \<open>Properties\<close>




end
