(* ===== verification/IncrementalJoin.thy ===== *)
theory IncrementalJoin
  imports IncrementalView
begin

text \<open>
  The incremental equijoin of \<open>zset/incremental.rs\<close>: two input relations arranged by join key, the
  derivative of their filtered product over the changed keys, and the recomputation of the whole result.
\<close>

section \<open>The code\<close>

type_synonym ('k, 'v) arrangement = "('k, 'v zset) btree"
type_synonym ('k, 'v) changes = "('k, ('v, zweight) btree) btree"
type_synonym ('k, 'v) grouped_rows = "('k, ('v \<times> zweight) list) btree"

text \<open>The residual predicate of a join: a callback that may work under the caller's control and fail.\<close>

type_synonym ('s, 'e, 'k, 'l, 'r) residual = "'k \<Rightarrow> 'l \<Rightarrow> 'r \<Rightarrow> ('s, 'e zset_error, bool) controlled"

record ('k, 'l, 'r) incremental_join =
  ij_left :: "('k, 'l) arrangement"
  ij_right :: "('k, 'r) arrangement"

definition incremental_join_new :: "('k, 'l, 'r) incremental_join" where
  "incremental_join_new = \<lparr>ij_left = [], ij_right = []\<rparr>"

definition arranged_weight :: "('k, 'v) arrangement \<Rightarrow> 'k \<Rightarrow> 'v \<Rightarrow> zweight option" where
  "arranged_weight base key v =
     (case map_of base key of None \<Rightarrow> None | Some members \<Rightarrow> zset_weight members v)"

definition left_weight :: "('k, 'l, 'r) incremental_join \<Rightarrow> 'k \<Rightarrow> 'l \<Rightarrow> zweight option" where
  "left_weight self key v = arranged_weight (ij_left self) key v"

definition right_weight :: "('k, 'l, 'r) incremental_join \<Rightarrow> 'k \<Rightarrow> 'r \<Rightarrow> zweight option" where
  "right_weight self key v = arranged_weight (ij_right self) key v"

text \<open>The body of the loop of \<open>grouped\<close>: a row goes to the end of its key's rows.\<close>

definition group_row ::
  "('s, 'e) control \<Rightarrow> nat \<Rightarrow> 'k::linorder \<Rightarrow> 'v \<Rightarrow> zweight \<Rightarrow>
    (('k, 'v) grouped_rows \<times> 's, 'e zset_error, unit) controlled" where
  "group_row control limbs key v weight =
     bindc (aside (control_event control Work)) (\<lambda>_.
     bindc (aside (admit_weight weight limbs)) (\<lambda>_.
     bindc get_self (\<lambda>groups.
     bindc
       (case map_of groups key of
          None \<Rightarrow> bindc (aside (control_event control ScratchEntry)) (\<lambda>_. put_self (bt_insert key [] groups))
        | Some _ \<Rightarrow> ret ()) (\<lambda>_.
     bindc (aside (control_event control ScratchEntry)) (\<lambda>_.
     bindc get_self (\<lambda>groups.
     put_self (bt_adjust key (\<lambda>rows. rows @ [(v, weight)]) groups)))))))"

definition grouped ::
  "('s, 'e) control \<Rightarrow> ('k::linorder \<times> 'v) zset \<Rightarrow> nat \<Rightarrow> ('s, 'e zset_error, ('k, 'v) grouped_rows) controlled" where
  "grouped control delta limbs =
     with_local [] (for_each delta (\<lambda>((key, v), weight). group_row control limbs key v weight))"

definition add_product ::
  "(nat \<Rightarrow> bool) \<Rightarrow> ('s, 'e) control \<Rightarrow> ('s, 'e, 'k::linorder, 'l::linorder, 'r::linorder) residual \<Rightarrow> nat \<Rightarrow>
    'k \<Rightarrow> 'l \<times> zweight \<Rightarrow> 'r \<times> zweight \<Rightarrow> (('k \<times> 'l \<times> 'r) zset \<times> 's, 'e zset_error, unit) controlled" where
  "add_product grant control predicate limbs key left right =
     bindc (aside (control_event control Work)) (\<lambda>_.
     bindc (aside (predicate key (fst left) (fst right))) (\<lambda>selected.
     if \<not> selected then ret ()
     else
       bindc (aside (arithmetic (zw_checked_mul grant (snd left) (snd right) limbs))) (\<lambda>weight.
       accumulate grant control (key, fst left, fst right) weight limbs)))"

definition add_products ::
  "(nat \<Rightarrow> bool) \<Rightarrow> ('s, 'e) control \<Rightarrow> ('s, 'e, 'k::linorder, 'l::linorder, 'r::linorder) residual \<Rightarrow> nat \<Rightarrow>
    'k \<Rightarrow> ('l \<times> zweight) list \<Rightarrow> ('r \<times> zweight) list \<Rightarrow>
    (('k \<times> 'l \<times> 'r) zset \<times> 's, 'e zset_error, unit) controlled" where
  "add_products grant control predicate limbs key ls rs =
     for_each ls (\<lambda>l. for_each rs (\<lambda>r. add_product grant control predicate limbs key l r))"

text \<open>The optional lookup around a loop: \<open>if let Some(rows) = map.get(key)\<close>.\<close>

definition if_some :: "'a option \<Rightarrow> ('a \<Rightarrow> ('s, 'x, unit) controlled) \<Rightarrow> ('s, 'x, unit) controlled" where
  "if_some r body = (case r of Some a \<Rightarrow> body a | None \<Rightarrow> ret ())"

text \<open>The body of the inner loop of \<open>prepare_changes\<close>.\<close>

definition stage_change ::
  "(nat \<Rightarrow> bool) \<Rightarrow> ('s, 'e) control \<Rightarrow> 'v::linorder zset option \<Rightarrow> nat \<Rightarrow> 'v \<Rightarrow> zweight \<Rightarrow>
    (('v, zweight) btree \<times> 's, 'e zset_error, unit) controlled" where
  "stage_change grant control existing limbs v change =
     bindc (aside (control_event control Work)) (\<lambda>_.
     let old = (case existing of None \<Rightarrow> None | Some members \<Rightarrow> zset_weight members v) in
     bindc (aside (arithmetic
       (case old of
          Some old \<Rightarrow> zw_checked_add grant old change limbs
        | None \<Rightarrow> zw_checked_clone grant change limbs))) (\<lambda>next_weight.
     bindc (if old = None \<and> \<not> zw_is_zero next_weight then aside (control_event control ScratchEntry) else ret ()) (\<lambda>_.
     bindc (aside (control_event control ScratchEntry)) (\<lambda>_.
     bindc get_self (\<lambda>replacement.
     put_self (bt_insert v next_weight replacement))))))"

definition stage_group ::
  "(nat \<Rightarrow> bool) \<Rightarrow> ('s, 'e) control \<Rightarrow> ('k::linorder, 'v::linorder) arrangement \<Rightarrow> nat \<Rightarrow> 'k \<Rightarrow>
    ('v \<times> zweight) list \<Rightarrow> (('k, 'v) changes \<times> 's, 'e zset_error, unit) controlled" where
  "stage_group grant control base limbs key rows =
     bindc (aside (control_event control Work)) (\<lambda>_.
     let existing = map_of base key in
     bindc (aside (control_event control ScratchEntry)) (\<lambda>_.
     bindc (if existing = None then aside (control_event control ScratchEntry) else ret ()) (\<lambda>_.
     bindc (aside (with_local []
       (for_each rows (\<lambda>(v, change). stage_change grant control existing limbs v change)))) (\<lambda>replacement.
     bindc get_self (\<lambda>prepared.
     put_self (bt_insert key replacement prepared))))))"

definition prepare_changes ::
  "(nat \<Rightarrow> bool) \<Rightarrow> ('s, 'e) control \<Rightarrow> ('k::linorder, 'v::linorder) arrangement \<Rightarrow> ('k, 'v) grouped_rows \<Rightarrow> nat \<Rightarrow>
    ('s, 'e zset_error, ('k, 'v) changes) controlled" where
  "prepare_changes grant control base groups limbs =
     with_local [] (for_each groups (\<lambda>(key, rows). stage_group grant control base limbs key rows))"

definition publish_group ::
  "('k::linorder, 'v::linorder) arrangement \<Rightarrow> 'k \<Rightarrow> ('v, zweight) btree \<Rightarrow> ('k, 'v) arrangement" where
  "publish_group base key replacements =
     (case map_of base key of
        Some members \<Rightarrow>
          let base = bt_adjust key (\<lambda>members. publish members replacements) base in
          if zset_is_empty (publish members replacements) then bt_remove key base else base
      | None \<Rightarrow>
          let members = publish zset_new replacements in
          if zset_is_empty members then base else bt_insert key members base)"

primrec publish_changes ::
  "('k::linorder, 'v::linorder) arrangement \<Rightarrow> ('k, 'v) changes \<Rightarrow> ('k, 'v) arrangement" where
  "publish_changes base [] = base"
| "publish_changes base (c # changes) = publish_changes (publish_group base (fst c) (snd c)) changes"

record ('k, 'l, 'r) join_update =
  ju_owner :: "('k, 'l, 'r) incremental_join"
  ju_left :: "('k, 'l) changes"
  ju_right :: "('k, 'r) changes"
  ju_delta :: "('k \<times> 'l \<times> 'r) zset"

definition left_terms ::
  "(nat \<Rightarrow> bool) \<Rightarrow> ('s, 'e) control \<Rightarrow> ('s, 'e, 'k::linorder, 'l::linorder, 'r::linorder) residual \<Rightarrow> nat \<Rightarrow>
    ('k, 'r) arrangement \<Rightarrow> ('k, 'r) grouped_rows \<Rightarrow> 'k \<Rightarrow> ('l \<times> zweight) list \<Rightarrow>
    (('k \<times> 'l \<times> 'r) zset \<times> 's, 'e zset_error, unit) controlled" where
  "left_terms grant control predicate limbs old right key changes =
     bindc (aside (control_event control Work)) (\<lambda>_.
     bindc (if_some (map_of old key) (\<lambda>old_right.
       add_products grant control predicate limbs key changes old_right)) (\<lambda>_.
     if_some (map_of right key) (\<lambda>changed_right.
       add_products grant control predicate limbs key changes changed_right)))"

definition right_terms ::
  "(nat \<Rightarrow> bool) \<Rightarrow> ('s, 'e) control \<Rightarrow> ('s, 'e, 'k::linorder, 'l::linorder, 'r::linorder) residual \<Rightarrow> nat \<Rightarrow>
    ('k, 'l) arrangement \<Rightarrow> 'k \<Rightarrow> ('r \<times> zweight) list \<Rightarrow>
    (('k \<times> 'l \<times> 'r) zset \<times> 's, 'e zset_error, unit) controlled" where
  "right_terms grant control predicate limbs old key changes =
     bindc (aside (control_event control Work)) (\<lambda>_.
     if_some (map_of old key) (\<lambda>old_left.
       add_products grant control predicate limbs key old_left changes))"

definition join_products ::
  "(nat \<Rightarrow> bool) \<Rightarrow> ('s, 'e) control \<Rightarrow> ('s, 'e, 'k::linorder, 'l::linorder, 'r::linorder) residual \<Rightarrow> nat \<Rightarrow>
    ('k, 'l, 'r) incremental_join \<Rightarrow> ('k, 'l) grouped_rows \<Rightarrow> ('k, 'r) grouped_rows \<Rightarrow>
    (('k \<times> 'l \<times> 'r) zset \<times> 's, 'e zset_error, unit) controlled" where
  "join_products grant control predicate limbs self left right =
     bindc (for_each left (\<lambda>(key, changes).
       left_terms grant control predicate limbs (ij_right self) right key changes)) (\<lambda>_.
     for_each right (\<lambda>(key, changes). right_terms grant control predicate limbs (ij_left self) key changes))"

definition prepare_filtered ::
  "(nat \<Rightarrow> bool) \<Rightarrow> ('s, 'e) control \<Rightarrow> ('s, 'e, 'k::linorder, 'l::linorder, 'r::linorder) residual \<Rightarrow>
    ('k \<times> 'l) zset \<Rightarrow> ('k \<times> 'r) zset \<Rightarrow> nat \<Rightarrow>
    (('k, 'l, 'r) incremental_join \<times> 's, 'e zset_error, ('k, 'l, 'r) join_update) controlled" where
  "prepare_filtered grant control predicate delta_left delta_right limbs =
     bindc get_self (\<lambda>self.
     bindc (aside (control_event control Work)) (\<lambda>_.
     bindc (aside (grouped control delta_left limbs)) (\<lambda>left.
     bindc (aside (grouped control delta_right limbs)) (\<lambda>right.
     bindc (aside (with_local zset_new (join_products grant control predicate limbs self left right))) (\<lambda>change.
     bindc (aside (prepare_changes grant control (ij_left self) left limbs)) (\<lambda>left.
     bindc (aside (prepare_changes grant control (ij_right self) right limbs)) (\<lambda>right.
     bindc (aside (control_event control Work)) (\<lambda>_.
     ret \<lparr>ju_owner = self, ju_left = left, ju_right = right, ju_delta = change\<rparr>))))))))"

definition prepare_join ::
  "(nat \<Rightarrow> bool) \<Rightarrow> ('s, 'e) control \<Rightarrow> ('k::linorder \<times> 'l::linorder) zset \<Rightarrow> ('k \<times> 'r::linorder) zset \<Rightarrow> nat \<Rightarrow>
    (('k, 'l, 'r) incremental_join \<times> 's, 'e zset_error, ('k, 'l, 'r) join_update) controlled" where
  "prepare_join grant control delta_left delta_right limbs =
     prepare_filtered grant control (\<lambda>_ _ _. ret True) delta_left delta_right limbs"

definition prepare_inputs ::
  "(nat \<Rightarrow> bool) \<Rightarrow> ('s, 'e) control \<Rightarrow> ('k::linorder \<times> 'l::linorder) zset \<Rightarrow> ('k \<times> 'r::linorder) zset \<Rightarrow> nat \<Rightarrow>
    (('k, 'l, 'r) incremental_join \<times> 's, 'e zset_error, ('k, 'l, 'r) join_update) controlled" where
  "prepare_inputs grant control delta_left delta_right limbs =
     bindc get_self (\<lambda>self.
     bindc (aside (control_event control Work)) (\<lambda>_.
     bindc (aside (grouped control delta_left limbs)) (\<lambda>left.
     bindc (aside (grouped control delta_right limbs)) (\<lambda>right.
     bindc (aside (prepare_changes grant control (ij_left self) left limbs)) (\<lambda>left.
     bindc (aside (prepare_changes grant control (ij_right self) right limbs)) (\<lambda>right.
     bindc (aside (control_event control Work)) (\<lambda>_.
     ret \<lparr>ju_owner = self, ju_left = left, ju_right = right, ju_delta = zset_new\<rparr>)))))))"

definition join_commit :: "('k::linorder, 'l::linorder, 'r::linorder) join_update \<Rightarrow> ('k, 'l, 'r) incremental_join" where
  "join_commit u =
     (ju_owner u)\<lparr>ij_left := publish_changes (ij_left (ju_owner u)) (ju_left u),
       ij_right := publish_changes (ij_right (ju_owner u)) (ju_right u)\<rparr>"

definition join_apply ::
  "(nat \<Rightarrow> bool) \<Rightarrow> ('s, 'e) control \<Rightarrow> ('k::linorder \<times> 'l::linorder) zset \<Rightarrow> ('k \<times> 'r::linorder) zset \<Rightarrow> nat \<Rightarrow>
    (('k, 'l, 'r) incremental_join \<times> 's, 'e zset_error, ('k \<times> 'l \<times> 'r) zset) controlled" where
  "join_apply grant control delta_left delta_right limbs =
     bindc (prepare_join grant control delta_left delta_right limbs) (\<lambda>u.
     bindc (put_self (join_commit u)) (\<lambda>_.
     ret (ju_delta u)))"

definition snapshot_filtered ::
  "(nat \<Rightarrow> bool) \<Rightarrow> ('s, 'e) control \<Rightarrow> ('s, 'e, 'k::linorder, 'l::linorder, 'r::linorder) residual \<Rightarrow>
    ('k, 'l, 'r) incremental_join \<Rightarrow> nat \<Rightarrow> ('s, 'e zset_error, ('k \<times> 'l \<times> 'r) zset) controlled" where
  "snapshot_filtered grant control predicate self limbs =
     with_local zset_new (for_each (ij_left self) (\<lambda>(key, left).
       bindc (aside (control_event control Work)) (\<lambda>_.
       if_some (map_of (ij_right self) key) (\<lambda>right.
         add_products grant control predicate limbs key left right))))"

definition snapshot ::
  "(nat \<Rightarrow> bool) \<Rightarrow> ('s, 'e) control \<Rightarrow> ('k::linorder, 'l::linorder, 'r::linorder) incremental_join \<Rightarrow> nat \<Rightarrow>
    ('s, 'e zset_error, ('k \<times> 'l \<times> 'r) zset) controlled" where
  "snapshot grant control self limbs = snapshot_filtered grant control (\<lambda>_ _ _. ret True) self limbs"

text \<open>A tick with a residual predicate: the caller prepares and then commits.\<close>

definition join_tick ::
  "(nat \<Rightarrow> bool) \<Rightarrow> ('s, 'e) control \<Rightarrow> ('s, 'e, 'k::linorder, 'l::linorder, 'r::linorder) residual \<Rightarrow>
    ('k \<times> 'l) zset \<Rightarrow> ('k \<times> 'r) zset \<Rightarrow> nat \<Rightarrow>
    (('k, 'l, 'r) incremental_join \<times> 's, 'e zset_error, ('k \<times> 'l \<times> 'r) zset) controlled" where
  "join_tick grant control predicate delta_left delta_right limbs =
     bindc (prepare_filtered grant control predicate delta_left delta_right limbs) (\<lambda>u.
     bindc (put_self (join_commit u)) (\<lambda>_.
     ret (ju_delta u)))"

lemma join_apply_tick: "join_apply grant control dl dr limbs = join_tick grant control (\<lambda>_ _ _. ret True) dl dr limbs"
  by (simp add: join_apply_def join_tick_def prepare_join_def)

section \<open>Rows and arrangements\<close>

text \<open>The rows of a delta at one join key: a Z-set of its own.\<close>

definition rows_of :: "('k \<times> 'v) zset \<Rightarrow> 'k \<Rightarrow> 'v zset" where
  "rows_of delta k = map (\<lambda>((l, v), w). (v, w)) (filter (\<lambda>((l, v), w). l = k) delta)"

lemma rows_of_append: "rows_of (xs @ ys) k = rows_of xs k @ rows_of ys k"
  by (simp add: rows_of_def)

lemma rows_of_lookup: "map_of (rows_of delta k) v = map_of delta (k, v)"
  by (induction delta) (auto simp: rows_of_def)

lemma zden_rows_of: "zden (rows_of delta k) v = zden delta (k, v)"
  by (simp add: zden_def rows_of_lookup)

lemma rows_of_inv:
  assumes "zs_inv delta"
  shows "zs_inv (rows_of delta k)"
proof -
  have "bt_invar (rows_of delta k)"
    using zs_inv_invar [OF assms] by (induction delta) (auto simp: rows_of_def less_prod_def)
  moreover have "zw_inv w \<and> zint w \<noteq> 0" if "(v, w) \<in> set (rows_of delta k)" for v w
    using that zs_inv_entry [OF assms] by (auto simp: rows_of_def)
  ultimately show ?thesis by (auto simp: zs_inv_def)
qed

definition arr_inv :: "('k::linorder, 'v::linorder) arrangement \<Rightarrow> bool" where
  "arr_inv base \<longleftrightarrow> bt_invar base \<and> (\<forall>(k, members) \<in> set base. zs_inv members \<and> members \<noteq> [])"

definition members_of :: "('k, 'v zset) btree \<Rightarrow> 'k \<Rightarrow> 'v zset" where
  "members_of base k = (case map_of base k of Some members \<Rightarrow> members | None \<Rightarrow> [])"

definition arr_den :: "('k, 'v) arrangement \<Rightarrow> 'k \<times> 'v \<Rightarrow> int" where
  "arr_den base kv = zden (members_of base (fst kv)) (snd kv)"

lemma zs_inv_Nil [simp]: "zs_inv []"
  by (simp add: zs_inv_def)

lemma zden_Nil [simp]: "zden [] k = 0"
  by (simp add: zden_def)

lemma members_of_inv: "arr_inv base \<Longrightarrow> zs_inv (members_of base k)"
  by (auto simp: arr_inv_def members_of_def dest: map_of_SomeD split: option.split)

text \<open>A sum over the entries of a map that looks at one key only.\<close>

lemma sum_at_key:
  "distinct (map fst m) \<Longrightarrow>
     (\<Sum>(key, x)\<leftarrow>m. if k = key then f key x else (0 :: int)) = (case map_of m k of Some x \<Rightarrow> f k x | None \<Rightarrow> 0)"
proof (induction m)
  case (Cons e m)
  obtain key x where e: "e = (key, x)" by fastforce
  have "map_of m k = None" if "k = key" using Cons.prems that e by (simp add: map_of_eq_None_iff)
  with Cons e show ?case by (auto split: option.split)
qed simp

section \<open>Grouping\<close>

definition groups_of :: "('k::linorder \<times> 'v) zset \<Rightarrow> ('k, 'v) grouped_rows \<Rightarrow> bool" where
  "groups_of delta groups \<longleftrightarrow> bt_invar groups \<and>
     (\<forall>k. map_of groups k = (if rows_of delta k = [] then None else Some (rows_of delta k)))"

lemma groups_of_invar: "groups_of delta groups \<Longrightarrow> bt_invar groups"
  by (simp add: groups_of_def)

lemma group_row_step:
  assumes "groups_of es groups" "group_row control limbs key v weight (groups, s) = (Inr (), (groups', s'))"
  shows "groups_of (es @ [((key, v), weight)]) groups'"
proof -
  let ?base = "case map_of groups key of None \<Rightarrow> bt_insert key [] groups | Some _ \<Rightarrow> groups"
  have groups': "groups' = bt_adjust key (\<lambda>rows. rows @ [(v, weight)]) ?base"
    using assms(2) by (auto simp: group_row_def run_simps split: option.splits)
  have "bt_invar groups" using assms(1) by (rule groups_of_invar)
  then have "bt_invar groups'" by (simp add: groups' bt_insert_invar split: option.split)
  moreover have "rows_of (es @ [((key, v), weight)]) k = rows_of es k @ (if key = k then [(v, weight)] else [])" for k
    by (simp add: rows_of_def)
  ultimately show ?thesis
    using assms(1) unfolding groups_of_def
    by (auto simp: groups' bt_lookup_insert split: option.split if_splits)
qed

lemma grouped_run:
  assumes "groups_of es groups"
    and "for_each ds (\<lambda>((key, v), weight). group_row control limbs key v weight) (groups, s) = (Inr (), (groups', s'))"
  shows "groups_of (es @ ds) groups'"
  using assms
proof (induction ds arbitrary: es groups s)
  case (Cons d ds)
  obtain key v weight where d: "d = ((key, v), weight)" by (metis prod.exhaust)
  obtain groups1 s1 where one: "group_row control limbs key v weight (groups, s) = (Inr (), (groups1, s1))"
    and rest: "for_each ds (\<lambda>((key, v), weight). group_row control limbs key v weight) (groups1, s1) =
      (Inr (), (groups', s'))"
    using Cons.prems(2) d by (auto simp: run_simps)
  from Cons.IH [OF group_row_step [OF Cons.prems(1) one] rest] show ?case by (simp add: d)
qed (simp add: run_simps)

lemma grouped_exact:
  assumes "grouped control delta limbs s = (Inr groups, t)"
  shows "groups_of delta groups"
proof -
  have "groups_of [] []" by (simp add: groups_of_def rows_of_def)
  then show ?thesis
    using grouped_run [of "[]" "[]"] assms by (auto simp: grouped_def run_simps)
qed

lemma groups_of_members: "groups_of delta groups \<Longrightarrow> members_of groups k = rows_of delta k"
  by (simp add: groups_of_def members_of_def)

section \<open>Products\<close>

text \<open>What the pairs of two groups add under a residual predicate.\<close>

abbreviation selects :: "('s, 'e, 'k, 'l, 'r) residual \<Rightarrow> ('k \<times> 'l \<times> 'r \<Rightarrow> bool) \<Rightarrow> bool" where
  "selects predicate p \<equiv> computes (\<lambda>(k, l, r). predicate k l r) p"

definition pair_term :: "('k \<times> 'l \<times> 'r \<Rightarrow> bool) \<Rightarrow> ('k \<times> 'l \<Rightarrow> int) \<Rightarrow> ('k \<times> 'r \<Rightarrow> int) \<Rightarrow> 'k \<times> 'l \<times> 'r \<Rightarrow> int" where
  "pair_term p f g = (\<lambda>(k, l, r). if p (k, l, r) then f (k, l) * g (k, r) else 0)"

lemma sum_rows_at:
  "zs_inv z \<Longrightarrow> f 0 = 0 \<Longrightarrow> (\<Sum>e\<leftarrow>z. if k = fst e then f (zint (snd e)) else 0) = (f (zden z k) :: int)"
  using sum_entries_at [of z f k] by (simp add: case_prod_unfold)

lemma add_product_adds:
  assumes "selects predicate p" "zw_inv (snd l)" "zw_inv (snd r)"
  shows "adds (\<lambda>u. if u = (key, fst l, fst r) then if p u then zint (snd l) * zint (snd r) else 0 else 0)
    (add_product grant control predicate limbs key l r)"
  unfolding add_product_def
proof (intro adds_event adds_aside adds_if)
  fix selected s t
  assume "predicate key (fst l) (fst r) s = (Inr selected, t)"
  then have sel: "selected = p (key, fst l, fst r)" using computesD [OF assms(1), of "(key, fst l, fst r)"] by simp
  show "adds (\<lambda>u. if u = (key, fst l, fst r) then if p u then zint (snd l) * zint (snd r) else 0 else 0) (ret ())"
    if "\<not> selected" using that sel by (intro adds_cong [OF adds_ret]) simp
  show "adds (\<lambda>u. if u = (key, fst l, fst r) then if p u then zint (snd l) * zint (snd r) else 0 else 0)
      (accumulate grant control (key, fst l, fst r) weight limbs)"
    if "\<not> \<not> selected" "arithmetic (zw_checked_mul grant (snd l) (snd r) limbs) s' = (Inr weight, t')" for weight s' t'
  proof -
    have "zw_inv weight" "zint weight = zint (snd l) * zint (snd r)"
      using zw.mul_exact [OF assms(2,3)] that(2) by (auto simp: run_simps)
    from accumulate_weight [OF this] show ?thesis
      by (rule adds_cong) (use that(1) sel in auto)
  qed
qed

lemma add_products_adds:
  assumes "selects predicate p" "zs_inv ls" "zs_inv rs"
  shows "adds (\<lambda>(k, l, r). if k = key then if p (k, l, r) then zden ls l * zden rs r else 0 else 0)
    (add_products grant control predicate limbs key ls rs)"
proof -
  let ?c = "\<lambda>x v y w u. if u = (key, x, y) then if p u then v * w else 0 else (0 :: int)"
  have run: "adds (\<lambda>u. \<Sum>l\<leftarrow>ls. \<Sum>r\<leftarrow>rs. ?c (fst l) (zint (snd l)) (fst r) (zint (snd r)) u)
      (add_products grant control predicate limbs key ls rs)"
    unfolding add_products_def
    using zs_inv_entry [OF assms(2)] zs_inv_entry [OF assms(3)]
    by (intro adds_for_each add_product_adds [OF assms(1)]) (metis prod.collapse)+
  have sums: "(\<Sum>l\<leftarrow>ls. \<Sum>r\<leftarrow>rs. ?c (fst l) (zint (snd l)) (fst r) (zint (snd r)) (k, x, y)) =
      (if k = key then if p (k, x, y) then zden ls x * zden rs y else 0 else 0)" for k x y
  proof -
    have flat: "?c a v b w (k, x, y) = (if y = b then if x = a \<and> k = key \<and> p (k, x, y) then v * w else 0 else 0)"
      for a v b w by auto
    have inner: "(\<Sum>r\<leftarrow>rs. ?c a v (fst r) (zint (snd r)) (k, x, y)) =
        (if x = a then if k = key \<and> p (k, x, y) then v * zden rs y else 0 else 0)" for a v
      unfolding flat
      using sum_rows_at [OF assms(3), of "\<lambda>w. if x = a \<and> k = key \<and> p (k, x, y) then v * w else 0" y] by simp
    show ?thesis
      unfolding inner
      using sum_rows_at [OF assms(2), of "\<lambda>v. if k = key \<and> p (k, x, y) then v * zden rs y else 0" x] by simp
  qed
  show ?thesis
  proof (rule adds_cong [OF run])
    show "(\<Sum>l\<leftarrow>ls. \<Sum>r\<leftarrow>rs. ?c (fst l) (zint (snd l)) (fst r) (zint (snd r)) u) =
        (case u of (k, l, r) \<Rightarrow> if k = key then if p (k, l, r) then zden ls l * zden rs r else 0 else 0)" for u
      by (cases u rule: prod_cases3) (simp only: sums prod.case)
  qed
qed

text \<open>The three terms of the derivative, and the whole product.\<close>

lemma if_some_adds:
  assumes "selects predicate p" "zs_inv ls" "\<And>k. zs_inv (members_of m k)"
  shows "adds (\<lambda>(k, l, r). if k = key then if p (k, l, r) then zden ls l * zden (members_of m k) r else 0 else 0)
    (if_some (map_of m key) (\<lambda>rs. add_products grant control predicate limbs key ls rs))"
proof (cases "map_of m key")
  case None
  then show ?thesis by (auto simp: if_some_def members_of_def intro!: adds_cong [OF adds_ret])
next
  case (Some rs)
  then have "zs_inv rs" using assms(3) [of key] by (simp add: members_of_def)
  from add_products_adds [OF assms(1,2) this, of key grant control limbs] show ?thesis
    using Some by (simp add: if_some_def) (auto elim!: adds_cong simp: members_of_def)
qed

lemma if_some_adds_left:
  assumes "selects predicate p" "zs_inv rs" "\<And>k. zs_inv (members_of m k)"
  shows "adds (\<lambda>(k, l, r). if k = key then if p (k, l, r) then zden (members_of m k) l * zden rs r else 0 else 0)
    (if_some (map_of m key) (\<lambda>ls. add_products grant control predicate limbs key ls rs))"
proof (cases "map_of m key")
  case None
  then show ?thesis by (auto simp: if_some_def members_of_def intro!: adds_cong [OF adds_ret])
next
  case (Some ls)
  then have "zs_inv ls" using assms(3) [of key] by (simp add: members_of_def)
  from add_products_adds [OF assms(1) this assms(2), of key grant control limbs] show ?thesis
    using Some by (simp add: if_some_def) (auto elim!: adds_cong simp: members_of_def)
qed

text \<open>A loop over the groups of a map, each adding at its own key.\<close>

lemma for_each_group_adds:
  assumes "bt_invar m"
    and "\<And>key x. (key, x) \<in> set m \<Longrightarrow> adds (\<lambda>u. if fst u = key then f x u else 0) (body key x)"
    and "\<And>u. map_of m (fst u) = None \<Longrightarrow> g u = 0" "\<And>u x. map_of m (fst u) = Some x \<Longrightarrow> f x u = g u"
  shows "adds g (for_each m (\<lambda>(key, x). body key x))"
proof -
  have "adds (\<lambda>u. \<Sum>(key, x)\<leftarrow>m. if fst u = key then f x u else 0) (for_each m (\<lambda>(key, x). body key x))"
    using assms(2) by (rule adds_for_each_entry)
  moreover have "(\<Sum>(key, x)\<leftarrow>m. if fst u = key then f x u else 0) = g u" for u
    using sum_at_key [of m "fst u" "\<lambda>key x. f x u"] assms(1) assms(3) [of u] assms(4) [of u]
    by (auto simp: strict_sorted_iff split: option.splits)
  ultimately show ?thesis by (rule adds_cong)
qed

lemma groups_of_entry:
  assumes "zs_inv delta" "groups_of delta groups" "(key, rows) \<in> set groups"
  shows "rows = rows_of delta key \<and> zs_inv rows"
proof -
  have "map_of groups key = Some rows"
    using assms(2,3) by (intro map_of_is_SomeI) (simp_all add: groups_of_def strict_sorted_iff)
  then have "rows = rows_of delta key" using assms(2) by (simp add: groups_of_def split: if_splits)
  then show ?thesis using rows_of_inv [OF assms(1)] by simp
qed

lemma left_terms_adds:
  assumes "selects predicate p" "zs_inv ls" "\<And>k. zs_inv (members_of old k)" "\<And>k. zs_inv (members_of new k)"
  shows "adds (\<lambda>u. if fst u = key then case u of (k, l, r) \<Rightarrow>
      if p (k, l, r) then zden ls l * (zden (members_of old k) r + zden (members_of new k) r) else 0 else 0)
    (left_terms grant control predicate limbs old new key ls)"
  unfolding left_terms_def
  by (rule adds_event, rule adds_cong [OF adds_bind [OF if_some_adds [OF assms(1,2,3)] if_some_adds [OF assms(1,2,4)]]])
    (auto simp: distrib_left split: prod.split)

lemma right_terms_adds:
  assumes "selects predicate p" "zs_inv rs" "\<And>k. zs_inv (members_of old k)"
  shows "adds (\<lambda>u. if fst u = key then case u of (k, l, r) \<Rightarrow>
      if p (k, l, r) then zden (members_of old k) l * zden rs r else 0 else 0)
    (right_terms grant control predicate limbs old key rs)"
  unfolding right_terms_def
  by (rule adds_event, rule adds_cong [OF if_some_adds_left [OF assms]]) (auto split: prod.split)

lemma rows_of_absent: "groups_of delta groups \<Longrightarrow> map_of groups k = None \<Longrightarrow> zden delta (k, v) = 0"
  using zden_rows_of [of delta k v] by (simp add: groups_of_def split: if_splits)

lemma rows_of_present: "groups_of delta groups \<Longrightarrow> map_of groups k = Some rows \<Longrightarrow> zden rows v = zden delta (k, v)"
  using zden_rows_of [of delta k v] by (simp add: groups_of_def split: if_splits)

definition derivative ::
  "('k \<times> 'l \<times> 'r \<Rightarrow> bool) \<Rightarrow> ('k, 'l, 'r) incremental_join \<Rightarrow> ('k \<times> 'l) zset \<Rightarrow> ('k \<times> 'r) zset \<Rightarrow> 'k \<times> 'l \<times> 'r \<Rightarrow> int" where
  "derivative p self dl dr = (\<lambda>(k, l, r).
     if p (k, l, r)
     then zden dl (k, l) * (arr_den (ij_right self) (k, r) + zden dr (k, r)) + arr_den (ij_left self) (k, l) * zden dr (k, r)
     else 0)"

lemma join_products_adds:
  assumes "selects predicate p" "zs_inv dl" "zs_inv dr" "groups_of dl left" "groups_of dr right"
    and "arr_inv (ij_left self)" "arr_inv (ij_right self)"
  shows "adds (derivative p self dl dr) (join_products grant control predicate limbs self left right)"
proof -
  have members: "zs_inv (members_of right k)" "members_of right k = rows_of dr k" for k
    using assms(5) by (simp_all add: groups_of_members rows_of_inv [OF assms(3)])
  have "adds (\<lambda>(k, l, r). if p (k, l, r)
        then zden dl (k, l) * (arr_den (ij_right self) (k, r) + zden dr (k, r)) else 0)
      (for_each left (\<lambda>(key, changes). left_terms grant control predicate limbs (ij_right self) right key changes))"
  proof (rule for_each_group_adds)
    show "adds (\<lambda>u. if fst u = key then case u of (k, l, r) \<Rightarrow>
        if p (k, l, r) then zden x l * (zden (members_of (ij_right self) k) r + zden (members_of right k) r) else 0 else 0)
      (left_terms grant control predicate limbs (ij_right self) right key x)" if "(key, x) \<in> set left" for key x
      by (rule left_terms_adds [OF assms(1)])
        (use groups_of_entry [OF assms(2,4) that] members(1) members_of_inv [OF assms(7)] in auto)
  qed (auto simp: groups_of_invar [OF assms(4)] rows_of_absent [OF assms(4)] rows_of_present [OF assms(4)]
      arr_den_def members(2) zden_rows_of split: prod.split)
  moreover have "adds (\<lambda>(k, l, r). if p (k, l, r) then arr_den (ij_left self) (k, l) * zden dr (k, r) else 0)
      (for_each right (\<lambda>(key, changes). right_terms grant control predicate limbs (ij_left self) key changes))"
  proof (rule for_each_group_adds)
    show "adds (\<lambda>u. if fst u = key then case u of (k, l, r) \<Rightarrow>
        if p (k, l, r) then zden (members_of (ij_left self) k) l * zden x r else 0 else 0)
      (right_terms grant control predicate limbs (ij_left self) key x)" if "(key, x) \<in> set right" for key x
      by (rule right_terms_adds [OF assms(1)])
        (use groups_of_entry [OF assms(3,5) that] members_of_inv [OF assms(6)] in auto)
  qed (auto simp: groups_of_invar [OF assms(5)] rows_of_absent [OF assms(5)] rows_of_present [OF assms(5)]
      arr_den_def split: prod.split)
  ultimately show ?thesis
    unfolding join_products_def by (rule adds_cong [OF adds_bind]) (auto simp: derivative_def split: prod.split)
qed

section \<open>Integration of the inputs\<close>

text \<open>The prepared patch of an arrangement: for every changed key, the replacements of its group.\<close>

definition patches :: "('k::linorder, 'v::linorder) arrangement \<Rightarrow> ('k \<times> 'v) zset \<Rightarrow> ('k, 'v) changes \<Rightarrow> bool" where
  "patches base delta c \<longleftrightarrow> bt_invar c \<and>
     (\<forall>k. case map_of c k of
        None \<Rightarrow> rows_of delta k = []
      | Some r \<Rightarrow> replaces (members_of base k) (rows_of delta k) r)"

lemma stage_change_run:
  assumes "zs_inv (members_of base key)" "zw_inv change"
    and "stage_change grant control (map_of base key) limbs v change (m, s) = (Inr (), (m', s'))"
  shows "\<exists>w. m' = bt_insert v w m \<and> zw_inv w \<and> zint w = zden (members_of base key) v + zint change"
proof -
  have old: "(case map_of base key of None \<Rightarrow> None | Some members \<Rightarrow> zset_weight members v) =
      map_of (members_of base key) v"
    by (simp add: members_of_def zset_weight_def split: option.split)
  obtain w where "(case map_of (members_of base key) v of
          Some old \<Rightarrow> zw_checked_add grant old change limbs
        | None \<Rightarrow> zw_checked_clone grant change limbs) = Inr w" "m' = bt_insert v w m"
    using assms(3) unfolding stage_change_def old Let_def by (auto simp: run_simps split: if_splits)
  with next_weight [OF assms(1,2)] show ?thesis by blast
qed

lemma stage_rows_exact:
  assumes "zs_inv (members_of base key)" "zs_inv rows"
    and "for_each rows (\<lambda>(v, change). stage_change grant control (map_of base key) limbs v change) ([], s) =
      (Inr (), (r, t))"
  shows "replaces (members_of base key) rows r"
proof -
  have "bt_invar r \<and> (\<forall>k. case map_of rows k of
      None \<Rightarrow> map_of r k = map_of [] k
    | Some change \<Rightarrow> (\<exists>w. map_of r k = Some w \<and> zw_inv w \<and> zint w = zden (members_of base key) k + zint change))"
  proof (rule for_each_inserts [OF _ assms(3)])
    show "\<exists>w. m' = bt_insert k w m \<and> zw_inv w \<and> zint w = zden (members_of base key) k + zint change"
      if "(k, change) \<in> set rows"
        "stage_change grant control (map_of base key) limbs k change (m, s) = (Inr (), (m', s'))" for k change m s m' s'
      using stage_change_run [OF assms(1) _ that(2)] zs_inv_entry [OF assms(2) that(1)] by simp
  qed (use zs_inv_invar [OF assms(2)] in \<open>simp_all add: strict_sorted_iff\<close>)
  then show ?thesis by (rule replacesI)
qed

lemma prepare_changes_exact:
  assumes "arr_inv base" "zs_inv delta" "groups_of delta groups"
    and "prepare_changes grant control base groups limbs s = (Inr c, t)"
  shows "patches base delta c"
proof -
  have "bt_invar c \<and> (\<forall>k. case map_of groups k of
      None \<Rightarrow> map_of c k = map_of [] k
    | Some rows \<Rightarrow> (\<exists>r. map_of c k = Some r \<and> replaces (members_of base k) rows r))"
  proof (rule for_each_inserts)
    show "for_each groups (\<lambda>(key, rows). stage_group grant control base limbs key rows) ([], s) = (Inr (), (c, t))"
      using assms(4) by (simp add: prepare_changes_def run_simps)
    show "distinct (map fst groups)" using groups_of_invar [OF assms(3)] by (simp add: strict_sorted_iff)
    fix k rows m s m' s'
    assume entry: "(k, rows) \<in> set groups" and run: "stage_group grant control base limbs k rows (m, s) = (Inr (), (m', s'))"
    obtain r u1 u2 where loop: "for_each rows (\<lambda>(v, change).
        stage_change grant control (map_of base k) limbs v change) ([], u1) = (Inr (), (r, u2))" "m' = bt_insert k r m"
      using run by (auto simp: stage_group_def Let_def run_simps split: if_splits)
    have "zs_inv rows" using groups_of_entry [OF assms(2,3) entry] by blast
    from stage_rows_exact [OF members_of_inv [OF assms(1)] this loop(1)] loop(2)
    show "\<exists>r. m' = bt_insert k r m \<and> replaces (members_of base k) rows r" by blast
  qed simp
  note loop = this
  show ?thesis
    unfolding patches_def
  proof (intro conjI allI)
    show "case map_of c k of None \<Rightarrow> rows_of delta k = []
      | Some r \<Rightarrow> replaces (members_of base k) (rows_of delta k) r" for k
      using loop [THEN conjunct2, THEN spec, of k] assms(3) unfolding groups_of_def
      by (cases "rows_of delta k = []") auto
  qed (use loop in simp)
qed

lemma publish_group_members:
  "members_of (publish_group base key r) k = (if k = key then publish (members_of base key) r else members_of base k)"
  by (auto simp: publish_group_def members_of_def Let_def zset_is_empty_def zset_new_def bt_lookup_insert
      split: option.split)

lemma arr_inv_update:
  assumes "arr_inv base" "zs_inv members"
  shows "members \<noteq> [] \<Longrightarrow> arr_inv (bt_insert k members base)" "arr_inv (bt_remove k base)"
    "map_of base k \<noteq> None \<Longrightarrow> members \<noteq> [] \<Longrightarrow> arr_inv (bt_adjust k (\<lambda>_. members) base)"
    "arr_inv (bt_remove k (bt_adjust k (\<lambda>_. members) base))"
  using assms unfolding arr_inv_def
  by (auto simp: bt_insert_invar bt_remove_invar dest: bt_insert_set) (auto simp: bt_remove_def bt_adjust_def split: if_splits)

lemma publish_group_inv:
  assumes "arr_inv base" "zs_inv (publish (members_of base key) r)"
  shows "arr_inv (publish_group base key r)"
proof (cases "map_of base key")
  case None
  then show ?thesis
    using assms by (simp add: publish_group_def Let_def zset_is_empty_def zset_new_def members_of_def arr_inv_update)
next
  case (Some members)
  have "bt_invar base" using assms(1) by (simp add: arr_inv_def)
  from bt_adjust_known [OF this Some, of "\<lambda>members. publish members r"] Some assms show ?thesis
    by (simp add: publish_group_def Let_def zset_is_empty_def members_of_def arr_inv_update)
qed

lemma publish_group_exact:
  assumes "arr_inv base" "zs_inv rows" "replaces (members_of base key) rows r"
  shows "arr_inv (publish_group base key r) \<and>
    (\<forall>k v. zden (members_of (publish_group base key r) k) v =
      zden (members_of base k) v + (if k = key then zden rows v else 0))"
  using publish_replaces [OF members_of_inv [OF assms(1)] assms(2,3)] publish_group_inv [OF assms(1)]
  by (auto simp: publish_group_members)

lemma publish_changes_exact:
  assumes "arr_inv base" "bt_invar c"
    and "\<And>k r. map_of c k = Some r \<Longrightarrow> zs_inv (rows k) \<and> replaces (members_of base k) (rows k) r"
  shows "arr_inv (publish_changes base c) \<and>
    (\<forall>k v. zden (members_of (publish_changes base c) k) v =
      zden (members_of base k) v + (if map_of c k = None then 0 else zden (rows k) v))"
  using assms
proof (induction c arbitrary: base)
  case (Cons e c)
  obtain key r where e: "e = (key, r)" by fastforce
  have fresh: "map_of c key = None" using Cons.prems(2) e by (auto simp: map_of_eq_None_iff)
  have here: "zs_inv (rows key)" "replaces (members_of base key) (rows key) r" using Cons.prems(3) [of key r] e by simp_all
  let ?base = "publish_group base key r"
  note one = publish_group_exact [OF Cons.prems(1) here]
  have "zs_inv (rows k) \<and> replaces (members_of ?base k) (rows k) r'" if "map_of c k = Some r'" for k r'
    using Cons.prems(3) [of k r'] that fresh e by (cases "k = key") (auto simp: publish_group_members)
  then have "arr_inv (publish_changes ?base c) \<and>
    (\<forall>k v. zden (members_of (publish_changes ?base c) k) v =
      zden (members_of ?base k) v + (if map_of c k = None then 0 else zden (rows k) v))"
    using Cons.prems(2) e one by (intro Cons.IH) auto
  then show ?case using one e fresh by auto
qed simp

lemma publish_patches:
  assumes "arr_inv base" "zs_inv delta" "patches base delta c"
  shows "arr_inv (publish_changes base c) \<and> (\<forall>kv. arr_den (publish_changes base c) kv = arr_den base kv + zden delta kv)"
proof -
  have c: "bt_invar c" "\<And>k r. map_of c k = Some r \<Longrightarrow> zs_inv (rows_of delta k) \<and> replaces (members_of base k) (rows_of delta k) r"
    using assms(3) rows_of_inv [OF assms(2)] unfolding patches_def by (auto split: option.splits)
  have none: "rows_of delta k = []" if "map_of c k = None" for k
    using assms(3) that unfolding patches_def by (auto dest!: spec [of _ k])
  have "zden delta (k, v) = 0" if "map_of c k = None" for k v
    using none [OF that] zden_rows_of [of delta k v] by simp
  then show ?thesis
    using publish_changes_exact [OF assms(1) c(1,2)] by (auto simp: arr_den_def zden_rows_of)
qed

section \<open>Ticks\<close>

definition join_inv :: "('k::linorder, 'l::linorder, 'r::linorder) incremental_join \<Rightarrow> bool" where
  "join_inv self \<longleftrightarrow> arr_inv (ij_left self) \<and> arr_inv (ij_right self)"

fun join_inputs :: "('k, 'l, 'r) incremental_join \<Rightarrow> 'k \<times> 'l + 'k \<times> 'r \<Rightarrow> int" where
  "join_inputs self (Inl kl) = arr_den (ij_left self) kl"
| "join_inputs self (Inr kr) = arr_den (ij_right self) kr"

text \<open>The multiplicity of a joined row, from the multiplicities of the two rows it is made of.\<close>

definition join_law :: "('k \<times> 'l \<times> 'r \<Rightarrow> bool) \<Rightarrow> ('k \<times> 'l + 'k \<times> 'r \<Rightarrow> int) \<Rightarrow> 'k \<times> 'l \<times> 'r \<Rightarrow> int" where
  "join_law p f = (\<lambda>(k, l, r). if p (k, l, r) then f (Inl (k, l)) * f (Inr (k, r)) else 0)"

text \<open>Both inputs of a join absorb their deltas, whatever output was prepared beside them.\<close>

lemma inputs_absorbed:
  assumes "join_inv self" "zs_inv dl" "zs_inv dr" "groups_of dl left" "groups_of dr right"
    and "prepare_changes grant control (ij_left self) left limbs s = (Inr (ju_left u), s')"
    and "prepare_changes grant control (ij_right self) right limbs t = (Inr (ju_right u), t')"
    and "ju_owner u = self"
  shows "join_inv (join_commit u) \<and> (\<forall>j. join_inputs (join_commit u) j = join_inputs self j + pair_den (dl, dr) j)"
proof -
  have self: "arr_inv (ij_left self)" "arr_inv (ij_right self)" using assms(1) by (simp_all add: join_inv_def)
  have inputs: "arr_inv (publish_changes (ij_left self) (ju_left u))" "arr_inv (publish_changes (ij_right self) (ju_right u))"
    "\<And>kl. arr_den (publish_changes (ij_left self) (ju_left u)) kl = arr_den (ij_left self) kl + zden dl kl"
    "\<And>kr. arr_den (publish_changes (ij_right self) (ju_right u)) kr = arr_den (ij_right self) kr + zden dr kr"
    using publish_patches [OF self(1) assms(2) prepare_changes_exact [OF self(1) assms(2,4,6)]]
      publish_patches [OF self(2) assms(3) prepare_changes_exact [OF self(2) assms(3,5,7)]] by auto
  have "join_inputs (join_commit u) j = join_inputs self j + pair_den (dl, dr) j" for j
    using inputs assms(8) by (cases j) (simp_all add: join_commit_def)
  then show ?thesis using inputs assms(8) by (simp add: join_inv_def join_commit_def)
qed

lemma prepare_filtered_exact:
  assumes "selects predicate p" "join_inv self" "zs_inv dl" "zs_inv dr"
    and "prepare_filtered grant control predicate dl dr limbs (self, s) = (Inr u, (v', t))"
  shows "v' = self \<and> join_inv (join_commit u) \<and> zs_inv (ju_delta u) \<and>
    (\<forall>j. join_inputs (join_commit u) j = join_inputs self j + pair_den (dl, dr) j) \<and>
    (\<forall>x. zden (ju_delta u) x = join_law p (join_inputs (join_commit u)) x - join_law p (join_inputs self) x)"
proof -
  obtain left right s1 s2 s3 s4 s5 s6 where u: "v' = self" "ju_owner u = self"
    and groups: "grouped control dl limbs s1 = (Inr left, s2)" "grouped control dr limbs s2 = (Inr right, s3)"
    and products: "join_products grant control predicate limbs self left right (zset_new, s3) = (Inr (), (ju_delta u, s4))"
    and changes: "prepare_changes grant control (ij_left self) left limbs s4 = (Inr (ju_left u), s5)"
      "prepare_changes grant control (ij_right self) right limbs s5 = (Inr (ju_right u), s6)"
    using assms(5) by (auto simp: prepare_filtered_def run_simps)
  have self: "arr_inv (ij_left self)" "arr_inv (ij_right self)" using assms(2) by (simp_all add: join_inv_def)
  note groups = grouped_exact [OF groups(1)] grouped_exact [OF groups(2)]
  have delta: "zs_inv (ju_delta u) \<and> (\<forall>x. zden (ju_delta u) x = zden zset_new x + derivative p self dl dr x)"
    by (rule addsD [OF join_products_adds [OF assms(1,3,4) groups self] _ products]) simp
  note commit = inputs_absorbed [OF assms(2-4) groups changes u(2)]
  have "derivative p self dl dr (k, l, r) =
      join_law p (join_inputs (join_commit u)) (k, l, r) - join_law p (join_inputs self) (k, l, r)" for k l r
    using commit [THEN conjunct2, THEN spec, of "Inl (k, l)"] commit [THEN conjunct2, THEN spec, of "Inr (k, r)"]
    by (simp add: derivative_def join_law_def algebra_simps)
  then show ?thesis using delta commit u by (auto simp: split_paired_all)
qed

lemma prepare_inputs_exact:
  assumes "join_inv self" "zs_inv dl" "zs_inv dr"
    and "prepare_inputs grant control dl dr limbs (self, s) = (Inr u, (v', t))"
  shows "v' = self \<and> ju_delta u = zset_new \<and> join_inv (join_commit u) \<and>
    (\<forall>j. join_inputs (join_commit u) j = join_inputs self j + pair_den (dl, dr) j)"
proof -
  obtain left right s1 s2 s3 s4 s5 where u: "v' = self" "ju_owner u = self" "ju_delta u = zset_new"
    and groups: "grouped control dl limbs s1 = (Inr left, s2)" "grouped control dr limbs s2 = (Inr right, s3)"
    and changes: "prepare_changes grant control (ij_left self) left limbs s3 = (Inr (ju_left u), s4)"
      "prepare_changes grant control (ij_right self) right limbs s4 = (Inr (ju_right u), s5)"
    using assms(4) by (auto simp: prepare_inputs_def run_simps)
  from inputs_absorbed [OF assms(1-3) grouped_exact [OF groups(1)] grouped_exact [OF groups(2)] changes u(2)] u
  show ?thesis by simp
qed

lemma arranged_weight_exact:
  "arr_inv base \<Longrightarrow> arranged_weight base k v =
     (if arr_den base (k, v) = 0 then None else Some (zw_of (arr_den base (k, v))))"
  using zset_lookup [OF members_of_inv [of base k], of v]
  by (auto simp: arranged_weight_def arr_den_def members_of_def zset_weight_def split: option.splits)

lemma join_tick_run:
  "join_tick grant control predicate dl dr limbs (v, s) = (Inr change, (v', t)) \<longleftrightarrow>
     (\<exists>u w. prepare_filtered grant control predicate dl dr limbs (v, s) = (Inr u, (w, t)) \<and>
       v' = join_commit u \<and> change = ju_delta u)"
  by (auto simp: join_tick_def run_simps)

lemma join_tick_atomic: "join_tick grant control predicate dl dr limbs (v, s) = (Inl x, (v', t)) \<Longrightarrow> v' = v"
  by (auto simp: join_tick_def prepare_filtered_def run_simps)

lemma snapshot_exact:
  assumes "selects predicate p" "join_inv self" "snapshot_filtered grant control predicate self limbs s = (Inr z, t)"
  shows "zs_inv z \<and> zden z = join_law p (join_inputs self)"
proof -
  have self: "arr_inv (ij_left self)" "arr_inv (ij_right self)" using assms(2) by (simp_all add: join_inv_def)
  have bt: "bt_invar (ij_left self)" using self(1) by (simp add: arr_inv_def)
  have "adds (join_law p (join_inputs self)) (for_each (ij_left self) (\<lambda>(key, left).
      bindc (aside (control_event control Work)) (\<lambda>_.
      if_some (map_of (ij_right self) key) (\<lambda>right. add_products grant control predicate limbs key left right))))"
  proof (rule for_each_group_adds [OF bt])
    show "adds (\<lambda>u. if fst u = key then case u of (k, l, r) \<Rightarrow>
        if p (k, l, r) then zden x l * zden (members_of (ij_right self) k) r else 0 else 0)
      (bindc (aside (control_event control Work)) (\<lambda>_.
       if_some (map_of (ij_right self) key) (\<lambda>right. add_products grant control predicate limbs key x right)))"
      if "(key, x) \<in> set (ij_left self)" for key x
    proof (rule adds_event, rule adds_cong [OF if_some_adds [OF assms(1)]])
      show "zs_inv x" using self(1) that by (auto simp: arr_inv_def)
      show "zs_inv (members_of (ij_right self) k)" for k by (rule members_of_inv [OF self(2)])
    qed (auto split: prod.split)
  qed (auto simp: join_law_def arr_den_def members_of_def split: prod.split)
  from with_local_adds [OF this _ assms(3) [unfolded snapshot_filtered_def]] show ?thesis by auto
qed

text \<open>With a deterministic residual predicate a tick keeps the contract of an incremental view.\<close>

lemma filtered_join_view:
  assumes "selects predicate p"
  shows "incremental_view join_inv pair_inv join_inputs pair_den (join_law p)
    (\<lambda>d. join_tick grant control predicate (fst d) (snd d) limbs)"
proof (unfold_locales, goal_cases)
  case (1 v d s change v' s')
  then obtain u w where u: "prepare_filtered grant control predicate (fst d) (snd d) limbs (v, s) = (Inr u, (w, s'))"
    "v' = join_commit u" "change = ju_delta u"
    unfolding join_tick_run by blast
  have "zs_inv (fst d)" "zs_inv (snd d)" using 1 by simp_all
  from prepare_filtered_exact [OF assms 1(1) this u(1)] show ?case unfolding u(2,3) by simp
qed (rule join_tick_atomic)

lemma selects_all: "selects (\<lambda>_ _ _. ret True) (\<lambda>_. True)"
  by (auto simp: computes_def run_simps)

interpretation join_view: incremental_view join_inv pair_inv join_inputs pair_den "join_law (\<lambda>_. True)"
  "\<lambda>d. join_apply grant control (fst d) (snd d) limbs"
  for grant control limbs
  unfolding join_apply_tick by (rule filtered_join_view [OF selects_all])

section \<open>Properties\<close>

lemma join_new_empty: "join_inv incremental_join_new" "join_inputs incremental_join_new j = 0" "join_law p (\<lambda>j. 0) x = 0"
proof -
  show "join_inv incremental_join_new" by (simp add: join_inv_def incremental_join_new_def arr_inv_def)
  show "join_inputs incremental_join_new j = 0"
    by (cases j) (simp_all add: incremental_join_new_def arr_den_def members_of_def)
  show "join_law p (\<lambda>j. 0) x = 0" by (cases x rule: prod_cases3) (simp add: join_law_def)
qed

text \<open>
  C23: The incremental join keeps an exact view. Feed any sequence of simultaneous deltas of its two inputs
  to a join created empty, under any limb limit, allocator and control and with a deterministic residual
  predicate, and pass over the refused ticks, which change nothing: the changes returned add up, at every
  joined row, to the product of the row's two accumulated input multiplicities if the predicate selects it
  and to nothing otherwise, and a recomputation from the retained inputs yields the same relation.
\<close>

theorem incremental_join_exact:
  assumes "selects predicate p" "\<forall>d \<in> set ds. zs_inv (fst d) \<and> zs_inv (snd d)"
    and "drive (\<lambda>d. join_tick grant control predicate (fst d) (snd d) limbs) ds (incremental_join_new, s) = (ticks, (v, t))"
  shows "(\<Sum>(d, change)\<leftarrow>ticks. zden change (k, l, r)) =
      (if p (k, l, r)
       then (\<Sum>(d, change)\<leftarrow>ticks. zden (fst d) (k, l)) * (\<Sum>(d, change)\<leftarrow>ticks. zden (snd d) (k, r)) else 0) \<and>
    (snapshot_filtered grant' control' predicate v limbs' s' = (Inr z, t') \<longrightarrow>
      zs_inv z \<and> zden z (k, l, r) = (\<Sum>(d, change)\<leftarrow>ticks. zden change (k, l, r)))"
proof -
  have ds: "\<And>d. d \<in> set ds \<Longrightarrow> pair_inv d" using assms(2) by blast
  note view = filtered_join_view [OF assms(1), of grant control limbs]
  have sums: "(\<Sum>(d, change)\<leftarrow>ticks. zden change (k, l, r)) =
      join_law p (\<lambda>j. \<Sum>(d, change)\<leftarrow>ticks. pair_den d j) (k, l, r)"
    by (rule incremental_view.drive_from_empty [OF view join_new_empty(1) ds assms(3) join_new_empty(2,3)])
  have v: "join_inv v" "\<And>j. join_inputs v j = (\<Sum>(d, change)\<leftarrow>ticks. pair_den d j)"
    using incremental_view.drive_exact [OF view join_new_empty(1) ds assms(3)] by (auto simp: join_new_empty(2))
  have "join_inputs v = (\<lambda>j. \<Sum>(d, change)\<leftarrow>ticks. pair_den d j)" using v(2) by auto
  then have "zs_inv z \<and> zden z (k, l, r) = (\<Sum>(d, change)\<leftarrow>ticks. zden change (k, l, r))"
    if "snapshot_filtered grant' control' predicate v limbs' s' = (Inr z, t')"
    using snapshot_exact [OF assms(1) v(1) that] sums by simp
  then show ?thesis using sums by (simp add: join_law_def)
qed

theorem incremental_join_exact_witness:
  "\<exists>ticks v t.
    drive (\<lambda>d. join_tick (\<lambda>_. True) (\<lambda>_. ret () :: (unit, unit, unit) controlled) (\<lambda>_ _ _. ret True) (fst d) (snd d) 0)
      [([((1 :: nat, 7 :: nat), Fast 2)], [((1, 8 :: nat), Fast 3)]), ([((1, 7), Fast (- 2))], [((1, 9), Fast 1)])]
      (incremental_join_new, ()) = (ticks, (v, t)) \<and>
    map snd ticks = [[((1, 7, 8), Fast 6)], [((1, 7, 8), Fast (- 6))]] \<and>
    (\<Sum>(d, change)\<leftarrow>ticks. zden change (1, 7, 8)) =
      (\<Sum>(d, change)\<leftarrow>ticks. zden (fst d) (1, 7)) * (\<Sum>(d, change)\<leftarrow>ticks. zden (snd d) (1, 8))"
proof -
  let ?ds = "[([((1 :: nat, 7 :: nat), Fast 2)], [((1, 8 :: nat), Fast 3)]), ([((1, 7), Fast (- 2))], [((1, 9), Fast 1)])]"
  let ?run = "drive (\<lambda>d. join_tick (\<lambda>_. True) (\<lambda>_. ret () :: (unit, unit, unit) controlled) (\<lambda>_ _ _. ret True)
      (fst d) (snd d) 0) ?ds (incremental_join_new, ())"
  obtain ticks v t where run: "?run = (ticks, (v, t))" by (rule prod_cases3)
  have inv: "\<forall>d \<in> set ?ds. zs_inv (fst d) \<and> zs_inv (snd d)" by (simp add: zs_inv_def)
  have out: "map snd (fst ?run) = [[((1, 7, 8), Fast 6)], [((1, 7, 8), Fast (- 6))]]" by code_simp
  have exact: "(\<Sum>(d, change)\<leftarrow>ticks. zden change (1, 7, 8)) =
      (\<Sum>(d, change)\<leftarrow>ticks. zden (fst d) (1, 7)) * (\<Sum>(d, change)\<leftarrow>ticks. zden (snd d) (1, 8))"
    using incremental_join_exact [OF selects_all inv run, THEN conjunct1, of 1 7 8] by (simp only: if_True)
  show ?thesis by (intro exI conjI, rule run, rule out [unfolded run fst_conv], rule exact)
qed

end
