(* ===== verification/Spec2Isabelle.thy ===== *)
theory Spec2Isabelle
  imports RaftSafety DeltaVarint Ssi ResourceVector LedgerProperties IncrementalSet IncrementalJoin
begin

text \<open>
  A verification library for FrankenGraphDB.

  \<^bold>\<open>The program.\<close> FrankenGraphDB is a graph database in Rust, a workspace of about thirty crates under
  \<open>src/crates/\<close>. The development covers its deterministic kernels: the ordering kernel \<open>fgdb-order\<close> (a
  Raft whose every transition is gated on durable publication), the resource ledger \<open>fgdb-resource\<close>, the
  serializability oracle of \<open>fgdb-reference\<close>, two codecs of \<open>fgdb-codec\<close>, the exact integers of
  \<open>fgdb-bigint\<close> and, on top of them, the weighted relations and incremental operators of
  \<open>fgdb-delta-types\<close>. The kernels do no I/O: their callers write, send and store what the kernels return.

  \<^bold>\<open>Conventions.\<close> A \<open>u64\<close> or \<open>usize\<close> counter is a natural number with the bound \<open>u64_max\<close> and the checked
  and saturating operations of \<open>Prelude\<close>; where bits matter it is a 64-bit word, and a \<open>u128\<close> or \<open>i128\<close> a
  128-bit word. A \<open>Result\<close> is a sum with the error on the left and \<open>?\<close> is \<open>and_then\<close>; a panic is a value of
  its own. A \<open>BTreeMap\<close> is a sorted association list (\<open>btree\<close>, an interpretation of \<open>ordered_map\<close>). Code
  that mutates through callbacks runs in the sequencing of theory \<open>Controlled\<close>, whose state holds what is
  borrowed mutably and the callbacks' environment. Whether the allocator can serve a request is a
  parameter (\<open>grant\<close>, \<open>can_reserve\<close>), and so are cryptographic digests, which are only compared.

  \<^bold>\<open>Shared theories.\<close>
  \<^item> \<open>Prelude\<close>: the operations above; the contracts \<open>ordered_map\<close> and \<open>safety_system\<close> (a predicate kept by
    every step holds in every reachable state).
  \<^item> \<open>Controlled\<close>: sequencing of fallible code on a state, loops, local variables, and the rules that take a
    run apart; code that fails only before it mutates.
  \<^item> \<open>ExactRing\<close>: the contract \<open>exact_ring\<close> of checked exact arithmetic, provided by the exact integers
    (\<open>bigint\<close>) and by the weights (\<open>zw\<close>).
  \<^item> \<open>IncrementalView\<close>: the contract \<open>incremental_view\<close> of a stateful operator, provided by the set
    operators (\<open>set_view\<close>), DISTINCT (\<open>distinct_view\<close>) and the join (\<open>join_view\<close>).

  \<^bold>\<open>Ordering kernel\<close> (\<open>fgdb-order/src/lib.rs\<close>, \<open>pipeline.rs\<close>, \<open>liveness.rs\<close>, \<open>leadership.rs\<close>,
  \<open>read_index.rs\<close>).
  \<^item> \<open>RaftConfig\<close>: \<open>Configuration\<close>, stable and joint, its quorums and its quorum index; the contract
    \<open>quorum_system\<close> with its interpretation \<open>raft_quorum\<close>.
  \<^item> \<open>RaftTypes\<close>, \<open>RaftKernel\<close>: the data, and one definition per method of \<open>Raft\<close>; the issuing loop of the
    append pipeline ends because every turn spends a request identity.
  \<^item> \<open>RaftLog\<close>, \<open>RaftSend\<close>, \<open>RaftInvariant\<close>, \<open>RaftReceive\<close>, \<open>RaftStep\<close>: the node invariant \<open>raft_inv\<close> and its
    preservation by every handler, with what a step says about its messages and committed entries. None of
    the plain additions of the source leaves the 64-bit range under the invariant.
  \<^item> \<open>RaftProperties\<close>: what one node guarantees: no panic, failures that poison, monotone terms, votes and
    commits, exact recovery, the durability gate, quorum facts.
  \<^item> \<open>ReadIndex\<close>, \<open>ReadBarrier\<close>: the rounds of linearizable reads and what a completed round proves.
  \<^item> \<open>RaftCluster\<close>: a group of nodes under the callers' contract (write, then release; messages lost,
    repeated, reordered; crashes and restarts at any time) as a transition system, an interpretation of
    \<open>safety_system\<close>; election safety and restartability.

  \<^bold>\<open>Resource ledger\<close> (\<open>fgdb-resource/src/lib.rs\<close>, \<open>ledger.rs\<close>). \<open>ResourceVector\<close>: vectors and ceilings.
  \<open>ChargeVector\<close>, \<open>QuotaPolicy\<close>, \<open>Ledger\<close>: charges, paths, buckets, the policy and every transition of
  the ledger with the state a failure leaves behind. \<open>LedgerChanges\<close>, \<open>LedgerInvariant\<close>, \<open>LedgerEngine\<close>:
  planning on pools, the conservation invariant, atomicity and idempotence; \<open>LedgerProperties\<close> states the
  guarantees, runs being an interpretation of \<open>safety_system\<close>.

  \<^bold>\<open>Serializability oracle\<close> (\<open>fgdb-reference/src/ssi.rs\<close>). \<open>Ssi\<close>: traces, antidependencies, dangerous
  structures and the verdict; the verdict is proved sound by a serial order, and shown to overlook
  transactions that only read.

  \<^bold>\<open>Codecs\<close> (\<open>fgdb-codec/src/varint.rs\<close>, \<open>delta_varint.rs\<close>). \<open>Varint\<close>, \<open>DeltaVarint\<close>: encoders and decoders
  with every refusal; round trips and canonicity.

  \<^bold>\<open>Exact integers\<close> (\<open>fgdb-bigint/src/lib.rs\<close>). \<open>Limbs\<close>, \<open>LimbsMul\<close>, \<open>LimbsDiv\<close>: magnitudes, the allocation
  gate, addition, subtraction, multiplication by columns and both long divisions on machine words, each
  related to the natural number \<open>val\<close>. \<open>LimbsKnuth\<close>: the multi-limb division is exact; its correction loop
  is a \<open>partial_function\<close> and proved to return. \<open>BigInt\<close>: signed values, conversions, order and bytes.

  \<^bold>\<open>Weighted relations\<close> (\<open>fgdb-delta-types/src/zweight.rs\<close>, \<open>zset.rs\<close>, \<open>zset/seek.rs\<close>, \<open>zset/set.rs\<close>,
  \<open>zset/incremental.rs\<close>). \<open>ZWeight\<close>: weights that promote before they overflow. \<open>ZSet\<close>: the relations, as
  finitely supported functions to the integers, and their operations as the pointwise ones.
  \<open>IncrementalSet\<close>, \<open>IncrementalJoin\<close>: the stateful operators; whatever ticks are refused, the changes
  returned add up to the operator's result on the inputs absorbed.

  \<^bold>\<open>Bounds.\<close> No definition uses fuel. Recursions are structural or have a termination proof (the issuing loop
  by the remaining request identities), and the one loop whose termination needs its callers' invariant,
  \<open>correct_trial\<close>, is an option-valued partial function whose definedness is a theorem.

  \<^bold>\<open>Not modelled.\<close> The other operators of \<open>fgdb-delta-types\<close> (aggregates, triangles, components,
  reachability, committed generations) and its delta templates; bit packing, Elias-Fano, Roaring and the
  other codecs; the reference graph and transaction life cycle; policies, capabilities, the wire protocol
  and evidence records; all of these are deterministic and could be added in the same way. Left out for
  good: the storage, file system, network and terminal layers (I/O), cryptographic primitives (bit-level
  algorithms the kernels only compare results of), floating-point search and calibration, unsafe memory
  kernels, the language and engine crates (several hundred thousand lines), and text output.
\<close>

end
